(* ===== verification/Prelude.thy ===== *)
theory Prelude
  imports Main "HOL-Library.Word"
begin

text \<open>
  Shared vocabulary of the development.
  \<^item> The machine integers of the C sources (\<open>uint8_t\<close>, \<open>uint64_t\<close>, \<open>int64_t\<close>,
    \<open>Py_hash_t\<close>) as words.
  \<^item> Python objects as opaque references, with the three sentinels of
    \<^verbatim>\<open>src/src/cereggii/cereggii.c\<close> (\<open>NOT_FOUND\<close>, \<open>ANY\<close>, \<open>EXPECTATION_FAILED\<close>)
    as constructors: pointer comparison in the C code is equality here, and a
    \<open>NULL\<close> pointer is \<open>None\<close>.
  \<^item> The part of the interpreter that the dictionary calls (\<open>PyObject_Hash\<close>,
    \<open>PyObject_RichCompareBool\<close>) and the hardware checksum instruction are code outside the
    repository: they are the fields of a record that every definition using them takes as an
    argument.
  \<^item> Generic lemmas on words, bit masks and cyclic positions.
\<close>

unbundle bit_operations_syntax

type_synonym u8 = "8 word"
type_synonym u32 = "32 word"
type_synonym u64 = "64 word"
type_synonym i64 = "64 word"

named_theorems word_arith \<open>conversions between words and natural numbers\<close>
named_theorems ring \<open>positions modulo the size of a table\<close>

subsection \<open>Python objects and the interpreter\<close>

datatype pyobj =
    NOT_FOUND
  | ANY
  | EXPECTATION_FAILED
  | Py_None
  | Py_True
  | Py_False
  | Obj nat

text \<open>The outcome of \<open>PyObject_RichCompareBool\<close>: an exception (negative), false or true.\<close>

datatype cmp = CmpError | CmpFalse | CmpTrue

record pyenv =
  crc32_u64 :: "u64 \<Rightarrow> u64 \<Rightarrow> u32"
  PyObject_Hash :: "pyobj \<Rightarrow> i64"
  RichCompareEq :: "pyobj \<Rightarrow> pyobj \<Rightarrow> cmp"

text \<open>
  What Python documents for keys: comparison is an equivalence that does not raise, identical
  objects compare equal, and equal objects have equal hashes.
\<close>

definition same_key :: "pyenv \<Rightarrow> pyobj \<Rightarrow> pyobj \<Rightarrow> bool" where
  "same_key py a b \<longleftrightarrow> RichCompareEq py a b = CmpTrue"

definition well_behaved_keys :: "pyenv \<Rightarrow> bool" where
  "well_behaved_keys py \<longleftrightarrow>
     (\<forall>a b. RichCompareEq py a b \<noteq> CmpError) \<and>
     equivp (same_key py) \<and>
     (\<forall>a b. same_key py a b \<longrightarrow> PyObject_Hash py a = PyObject_Hash py b)"

lemma same_key_refl: "well_behaved_keys py \<Longrightarrow> same_key py a a"
  unfolding well_behaved_keys_def by (blast intro: equivp_reflp)

lemma same_key_sym: "well_behaved_keys py \<Longrightarrow> same_key py a b \<Longrightarrow> same_key py b a"
  unfolding well_behaved_keys_def by (blast intro: equivp_symp)

lemma same_key_trans:
  "well_behaved_keys py \<Longrightarrow> same_key py a b \<Longrightarrow> same_key py b c \<Longrightarrow> same_key py a c"
  unfolding well_behaved_keys_def by (blast intro: equivp_transp)

lemma same_key_hash:
  "well_behaved_keys py \<Longrightarrow> same_key py a b \<Longrightarrow> PyObject_Hash py a = PyObject_Hash py b"
  unfolding well_behaved_keys_def by blast

lemma compare_no_error: "well_behaved_keys py \<Longrightarrow> RichCompareEq py a b \<noteq> CmpError"
  unfolding well_behaved_keys_def by blast

lemma compare_cases:
  assumes "well_behaved_keys py"
  shows "RichCompareEq py a b = (if same_key py a b then CmpTrue else CmpFalse)"
  using compare_no_error [OF assms, of a b]
  by (cases "RichCompareEq py a b") (simp_all add: same_key_def)

subsection \<open>Exceptions and integer arguments\<close>

datatype exn =
    KeyError pyobj
  | ValueError
  | TypeError
  | RuntimeError
  | MemoryError
  | SystemError
  | GrowFailed
  | OverflowError
  | ZeroDivisionError
  | NotImplementedError string
  | ExpectationFailed pyobj pyobj
  | ConcurrentUsageDetected
  | RaisedByObject

type_synonym 'a outcome = "exn + 'a"

text \<open>An argument that should be an integer, and its conversion by \<open>PyLong_AsInt64\<close>.\<close>

datatype py_int = NotAnInt | PyInt int

definition in_int64 :: "int \<Rightarrow> bool" where
  "in_int64 n \<longleftrightarrow> - (2 ^ 63) \<le> n \<and> n < 2 ^ 63"

definition PyLong_AsInt64 :: "py_int \<Rightarrow> i64 outcome" where
  "PyLong_AsInt64 a =
     (case a of
        NotAnInt \<Rightarrow> Inl TypeError
      | PyInt n \<Rightarrow> if in_int64 n then Inr (of_int n) else Inl OverflowError)"

lemma sint_of_int64 [word_arith]: "in_int64 n \<Longrightarrow> sint (of_int n :: i64) = n"
  by (simp add: in_int64_def signed_of_int signed_take_bit_int_eq_self)

lemma sint_in_int64 [word_arith]: "in_int64 (sint (w :: i64))"
  using sint_lt [of w] sint_ge [of w] by (simp add: in_int64_def)

subsection \<open>The compare-and-exchange primitive\<close>

text \<open>
  \<open>atomic_compare_exchange_strong_explicit\<close> on a cell that holds \<open>cur\<close>: whether it
  succeeded, the new contents of the cell, and the value left in the \<open>expected\<close> variable.
\<close>

definition compare_exchange :: "'a \<Rightarrow> 'a \<Rightarrow> 'a \<Rightarrow> bool \<times> 'a \<times> 'a" where
  "compare_exchange cur expected desired =
     (if cur = expected then (True, desired, expected) else (False, cur, cur))"

lemma compare_exchange_ok [simp]: "compare_exchange a a b = (True, b, a)"
  by (simp add: compare_exchange_def)

lemma compare_exchange_fail: "a \<noteq> e \<Longrightarrow> compare_exchange a e b = (False, a, a)"
  by (simp add: compare_exchange_def)

subsection \<open>Words and masks\<close>

lemma unat_power_word [word_arith]:
  assumes "n < 64"
  shows "unat (2 ^ n :: u64) = 2 ^ n"
proof -
  from assms have "(2::nat) ^ n < 2 ^ 64" by (simp only: power_strict_increasing_iff)
  then show ?thesis using unat_of_nat [of "2 ^ n", where 'a = 64] by simp
qed

lemma mask_word_eq: "(push_bit n 1 - 1 :: 'a::len word) = mask n"
  by (simp add: mask_eq_decr_exp)

lemma unat_take_bit [word_arith]: "unat (take_bit n w :: u64) = unat w mod 2 ^ n"
  by (simp add: unsigned_take_bit_eq take_bit_eq_mod [where 'a = nat])

lemma unat_and_mask [word_arith]: "unat (w AND mask n :: u64) = unat w mod 2 ^ n"
  by (simp only: take_bit_eq_mask [symmetric] unat_take_bit)

lemma unat_drop_bit [word_arith]: "unat (drop_bit n w :: u64) = unat w div 2 ^ n"
  by (simp add: unat_drop_bit_eq drop_bit_eq_div [where 'a = nat])

lemma unat_drop_bit_lt:
  assumes "n \<le> 64"
  shows "unat (drop_bit (64 - n) (w :: u64)) < 2 ^ n"
proof -
  have "unat w < 2 ^ n * 2 ^ (64 - n)"
    using assms unsigned_less [of w] by (simp flip: power_add)
  then show ?thesis
    by (simp only: unat_drop_bit less_mult_imp_div_less)
qed

subsection \<open>Cyclic positions\<close>

lemma ring_step [ring]: "(a + Suc k) mod N = Suc ((a + k) mod N) mod (N::nat)"
  by (simp add: mod_Suc_eq)

lemma mod_add_left_imp:
  assumes "(a + b) mod n = (a + c) mod (n::int)"
  shows "b mod n = c mod n"
proof -
  from assms have "(a + b - a) mod n = (a + c - a) mod n"
    by (rule mod_diff_cong) simp
  then show ?thesis by simp
qed

lemma ring_inj:
  assumes "(a + i) mod N = (a + j) mod (N::nat)" and "i < N" and "j < N"
  shows "i = j"
proof -
  from assms(1) have "int i mod int N = int j mod int N"
    by (metis mod_add_left_imp of_nat_add of_nat_mod)
  with assms(2,3) show ?thesis by simp
qed

lemma ring_surj:
  assumes "0 < (N::nat)" and "p < N" and "a < N"
  shows "\<exists>k<N. p = (a + k) mod N"
proof (cases "a \<le> p")
  case True
  with assms show ?thesis by (intro exI [of _ "p - a"]) auto
next
  case False
  with assms show ?thesis by (intro exI [of _ "N + p - a"]) auto
qed

subsection \<open>Sums over lists\<close>

lemma foldl_add: "foldl (\<lambda>a x. a + f x) a xs = a + (\<Sum>x\<leftarrow>xs. f x :: int)"
  by (induction xs arbitrary: a) simp_all

end
