(* ===== verification/Layout.thy ===== *)
theory Layout
  imports Prelude
begin

text \<open>
  The data of the dictionary, from
  \<^verbatim>\<open>src/src/include/cereggii/internal/atomic_dict.h\<close> and
  \<^verbatim>\<open>src/src/include/cereggii/atomic_dict.h\<close>.

  Pointers are modelled as follows.  A metadata object, a page and an accessor storage are
  addressed by natural numbers: \<open>metas d\<close> and \<open>entries d\<close> are the memory they point
  into, and an accessor is its position in the list of accessors.  An entry is addressed by its page
  and its position in the page, so two metadata objects that share a page (after
  \<open>meta_copy_pages\<close>) see the same entries.  The \<open>index\<close> array and the
  \<open>pages\<close> array are functions from positions; a slot of \<open>pages\<close> that
  \<open>PyMem_RawMalloc\<close> returned and nobody has written yet is \<open>Uninit\<close>.
\<close>

subsection \<open>Constants\<close>

definition ATOMIC_DICT_MIN_LOG_SIZE :: nat where "ATOMIC_DICT_MIN_LOG_SIZE = 7"

definition ATOMIC_DICT_MAX_LOG_SIZE :: nat where "ATOMIC_DICT_MAX_LOG_SIZE = 56"

definition ATOMIC_DICT_LOG_ENTRIES_IN_PAGE :: nat where
  "ATOMIC_DICT_LOG_ENTRIES_IN_PAGE = ATOMIC_DICT_MIN_LOG_SIZE"

definition ATOMIC_DICT_ENTRIES_IN_PAGE :: nat where
  "ATOMIC_DICT_ENTRIES_IN_PAGE = 2 ^ ATOMIC_DICT_LOG_ENTRIES_IN_PAGE"

definition ENTRY_FLAGS_RESERVED :: u8 where "ENTRY_FLAGS_RESERVED = 128"

definition NODE_SIZE :: nat where "NODE_SIZE = 64"

definition DISTANCE_MASK :: u64 where "DISTANCE_MASK = push_bit 8 1 - 1"

definition UINT8_MAX :: nat where "UINT8_MAX = 255"

lemmas layout_consts =
  ATOMIC_DICT_MIN_LOG_SIZE_def ATOMIC_DICT_MAX_LOG_SIZE_def ATOMIC_DICT_LOG_ENTRIES_IN_PAGE_def
  ATOMIC_DICT_ENTRIES_IN_PAGE_def NODE_SIZE_def UINT8_MAX_def

subsection \<open>Entries, nodes and pages\<close>

record entry =
  e_flags :: u8
  e_hash :: i64
  e_key :: "pyobj option"
  e_value :: "pyobj option"

text \<open>The address of an entry: a page and a position in it.\<close>

type_synonym entry_ptr = "nat \<times> nat"

type_synonym heap = "entry_ptr \<Rightarrow> entry"

record entry_loc =
  loc_entry :: "entry_ptr option"
  loc_location :: u64

record node =
  n_node :: u64
  n_index :: u64
  n_tag :: u64
  n_distance :: u64

datatype page_slot = Uninit | Null | Page nat

subsection \<open>Metadata: one generation of the table\<close>

record meta =
  log_size :: nat
  index :: "nat \<Rightarrow> u64"
  pages :: "nat \<Rightarrow> page_slot"
  greatest_allocated_page :: int
  new_gen_metadata :: "nat option"
  resize_leader :: nat
  node_to_migrate :: nat
  participants :: "nat list option"
  new_metadata_ready :: bool
  node_migration_done :: bool
  resize_done :: bool

definition SIZE_OF :: "meta \<Rightarrow> nat" where
  "SIZE_OF m = 2 ^ log_size m"

definition TAG_MASK :: "meta \<Rightarrow> u64" where
  "TAG_MASK m = (push_bit (NODE_SIZE - log_size m) 1 - 1) - DISTANCE_MASK"

definition TOMBSTONE :: "meta \<Rightarrow> u64" where
  "TOMBSTONE m = TAG_MASK m"

lemma SIZE_OF_pos [simp]: "0 < SIZE_OF m"
  by (simp add: SIZE_OF_def)

subsection \<open>Accessors and the dictionary\<close>

record reservation_buffer =
  rb_start :: u64
  rb_size :: u8
  rb_used :: u8

text \<open>
  What the \<open>metadata\<close> reference of a dictionary can hold: \<open>None\<close> and \<open>True\<close> are the
  Python objects that mark an uninitialised dictionary and one that is being initialised.
\<close>

datatype metadata_ref = MetaNone | MetaTrue | MetaAt nat

record storage =
  st_meta :: metadata_ref
  local_len :: int
  local_inserted :: int
  local_tombstones :: int
  self_mutex :: bool
  rb :: reservation_buffer

record dict =
  metadata :: metadata_ref
  metas :: "nat \<Rightarrow> meta"
  next_meta :: nat
  entries :: heap
  next_page :: nat
  min_log_size :: nat
  reservation_buffer_size :: u8
  sync_op :: bool
  len_dirty :: bool
  dict_len :: int
  accessors :: "storage list"
  accessors_lock :: bool
  thread_storage :: "nat \<Rightarrow> nat option"
  allocations :: "bool list"

text \<open>
  \<open>allocations\<close> is the outcome of the next calls of the allocators
  (\<open>PyMem_RawMalloc\<close>, \<open>PyObject_New\<close>, \<open>PyThread_tss_set\<close>), \<open>True\<close> for success; past
  its end every allocation succeeds.
\<close>

definition allocate :: "dict \<Rightarrow> bool \<times> dict" where
  "allocate d = (case allocations d of [] \<Rightarrow> (True, d) | a # as \<Rightarrow> (a, d\<lparr>allocations := as\<rparr>))"

definition upd_meta :: "nat \<Rightarrow> (meta \<Rightarrow> meta) \<Rightarrow> dict \<Rightarrow> dict" where
  "upd_meta mid f d = d\<lparr>metas := (metas d)(mid := f (metas d mid))\<rparr>"

definition upd_storage :: "nat \<Rightarrow> (storage \<Rightarrow> storage) \<Rightarrow> dict \<Rightarrow> dict" where
  "upd_storage i f d = d\<lparr>accessors := (accessors d)[i := f (accessors d ! i)]\<rparr>"

definition upd_entry :: "entry_ptr \<Rightarrow> (entry \<Rightarrow> entry) \<Rightarrow> dict \<Rightarrow> dict" where
  "upd_entry p f d = d\<lparr>entries := (entries d)(p := f (entries d p))\<rparr>"

end
