(* ===== verification/NodeOps.thy ===== *)
theory NodeOps
  imports Layout
begin

text \<open>
  Operations on the nodes of the index, from \<^verbatim>\<open>src/src/cereggii/atomic_dict/node_ops.c\<close>.
  A node is one 64-bit word holding, from the most significant bit, the location of the entry
  (\<open>log_size\<close> bits), the tag (low bits of the hash, down to bit 8) and the distance from the
  home slot (8 bits, saturating).

  The facts here are the encoding and decoding round trip, what distinguishes an empty node and a
  tombstone from a live node, and the shape of \<open>distance0_of\<close>.
\<close>

subsection \<open>The operations\<close>

definition UPPER_SEED :: u64 where "UPPER_SEED = 12923598712359872066"

definition LOWER_SEED :: u64 where "LOWER_SEED = 7467732452331123588"

definition REHASH :: "pyenv \<Rightarrow> i64 \<Rightarrow> u64" where
  "REHASH py x = ucast (crc32_u64 py x LOWER_SEED) OR push_bit 32 (ucast (crc32_u64 py x UPPER_SEED))"

definition parse_node_from_raw :: "u64 \<Rightarrow> meta \<Rightarrow> node" where
  "parse_node_from_raw raw m =
     \<lparr>n_node = raw,
      n_index = drop_bit (NODE_SIZE - log_size m) raw,
      n_tag = raw AND TAG_MASK m,
      n_distance = raw AND DISTANCE_MASK\<rparr>"

definition compute_raw_node :: "node \<Rightarrow> meta \<Rightarrow> node" where
  "compute_raw_node nd m =
     (let distance = (if n_distance nd > of_nat UINT8_MAX then of_nat UINT8_MAX else ucast (n_distance nd)) :: u8
      in nd\<lparr>n_node := push_bit (NODE_SIZE - log_size m) (n_index nd)
                        OR (n_tag nd AND TAG_MASK m)
                        OR ucast distance\<rparr>)"

definition check_tag :: "pyenv \<Rightarrow> i64 \<Rightarrow> node \<Rightarrow> meta \<Rightarrow> bool" where
  "check_tag py hash nd m \<longleftrightarrow> n_tag nd AND TAG_MASK m = REHASH py hash AND TAG_MASK m"

definition distance0_of :: "pyenv \<Rightarrow> i64 \<Rightarrow> meta \<Rightarrow> u64" where
  "distance0_of py hash m = drop_bit (64 - log_size m) (REHASH py hash)"

definition is_empty :: "node \<Rightarrow> bool" where
  "is_empty nd \<longleftrightarrow> n_node nd = 0"

definition is_tombstone :: "node \<Rightarrow> bool" where
  "is_tombstone nd \<longleftrightarrow> n_node nd \<noteq> 0 \<and> n_index nd = 0"

text \<open>
  \<open>(1 << meta->log_size) - 1\<close> is computed in \<open>int\<close>, a 32-bit signed type, and then
  converted to \<open>uint64_t\<close>.  C leaves the shift undefined from 31 bits on; the facts below
  use it below that bound only.
\<close>

definition index_mask :: "meta \<Rightarrow> u64" where
  "index_mask m = scast (push_bit (log_size m) 1 - 1 :: 32 word)"

definition read_raw_node_at :: "u64 \<Rightarrow> meta \<Rightarrow> u64" where
  "read_raw_node_at ix m = index m (unat (ix AND index_mask m))"

definition read_node_at :: "u64 \<Rightarrow> meta \<Rightarrow> node" where
  "read_node_at ix m = parse_node_from_raw (read_raw_node_at ix m) m"

definition write_raw_node_at :: "u64 \<Rightarrow> u64 \<Rightarrow> meta \<Rightarrow> meta" where
  "write_raw_node_at ix raw m = m\<lparr>index := (index m)(unat ix := raw)\<rparr>"

definition write_node_at :: "u64 \<Rightarrow> node \<Rightarrow> meta \<Rightarrow> meta" where
  "write_node_at ix nd m = write_raw_node_at ix (n_node (compute_raw_node nd m)) m"

definition atomic_write_node_at :: "u64 \<Rightarrow> node \<Rightarrow> node \<Rightarrow> meta \<Rightarrow> bool \<times> meta" where
  "atomic_write_node_at ix expected desired m =
     (case compare_exchange (index m (unat ix))
             (n_node (compute_raw_node expected m)) (n_node (compute_raw_node desired m))
      of (ok, raw, _) \<Rightarrow> (ok, m\<lparr>index := (index m)(unat ix := raw)\<rparr>))"

definition AtomicDict_ReHash :: "pyenv \<Rightarrow> pyobj \<Rightarrow> u64 option" where
  "AtomicDict_ReHash py ob =
     (let hash = PyObject_Hash py ob in if hash = -1 then None else Some (REHASH py hash))"

subsection \<open>Masks\<close>

text \<open>The sizes an index can have without the 32-bit shift being undefined.\<close>

definition log_size_ok :: "meta \<Rightarrow> bool" where
  "log_size_ok m \<longleftrightarrow> ATOMIC_DICT_MIN_LOG_SIZE \<le> log_size m \<and> log_size m \<le> 30"

lemma log_size_ok_bounds [word_arith]:
  "log_size_ok m \<Longrightarrow> 7 \<le> log_size m \<and> log_size m \<le> 30"
  by (simp add: log_size_ok_def layout_consts)

lemma index_mask_eq:
  assumes "log_size m \<le> 30"
  shows "index_mask m = mask (log_size m)"
proof (rule bit_word_eqI)
  fix n assume "n < LENGTH(64)"
  with assms show "bit (index_mask m) n \<longleftrightarrow> bit (mask (log_size m) :: u64) n"
    unfolding index_mask_def mask_word_eq
    by (auto simp: bit_simps min_def)
qed

lemma unat_and_index_mask:
  "log_size m \<le> 30 \<Longrightarrow> unat (w AND index_mask m) = unat w mod SIZE_OF m"
  by (simp add: index_mask_eq unat_and_mask SIZE_OF_def)

lemma DISTANCE_MASK_eq: "DISTANCE_MASK = mask 8"
  by (simp only: DISTANCE_MASK_def mask_word_eq)

lemma TAG_MASK_eq:
  assumes "log_size m \<le> 56"
  shows "TAG_MASK m = mask (64 - log_size m) AND NOT (mask 8)"
proof -
  have "TAG_MASK m = mask (64 - log_size m) - mask 8"
    by (simp only: TAG_MASK_def mask_word_eq DISTANCE_MASK_eq NODE_SIZE_def)
  also have "\<dots> = mask (64 - log_size m) AND NOT (mask 8)"
    by (rule disjunctive_diff_eq_and_not, rule bit_word_eqI) (use assms in \<open>auto simp: bit_simps\<close>)
  finally show ?thesis .
qed

lemma bit_TAG_MASK:
  "log_size m \<le> 56 \<Longrightarrow> bit (TAG_MASK m) n \<longleftrightarrow> 8 \<le> n \<and> n < 64 - log_size m"
  by (auto simp: TAG_MASK_eq bit_simps)

lemma bit_DISTANCE_MASK: "bit DISTANCE_MASK n \<longleftrightarrow> n < 8"
  by (auto simp: DISTANCE_MASK_eq bit_simps)

subsection \<open>Encoding and decoding a node\<close>

text \<open>The distance that a node can store.\<close>

definition stored_distance :: "u64 \<Rightarrow> u64" where
  "stored_distance d = (if d > of_nat UINT8_MAX then of_nat UINT8_MAX else d)"

lemma stored_distance_and_mask: "stored_distance d AND mask 8 = stored_distance d"
proof -
  have "stored_distance d \<le> 255"
    by (auto simp: stored_distance_def UINT8_MAX_def)
  then have "unat (stored_distance d) < 2 ^ 8"
    by (simp add: word_le_nat_alt)
  then have "unat (stored_distance d AND mask 8) = unat (stored_distance d)"
    by (simp only: unat_and_mask mod_less)
  then show ?thesis by (rule unsigned_word_eqI)
qed

lemma bit_stored_distance: "bit (stored_distance d) n \<Longrightarrow> n < 8"
  by (subst (asm) stored_distance_and_mask [symmetric]) (simp add: bit_simps)

lemma compute_distance:
  "ucast (if d > of_nat UINT8_MAX then of_nat UINT8_MAX else ucast (d :: u64) :: u8) = stored_distance d"
proof (cases "d > of_nat UINT8_MAX")
  case True
  then show ?thesis by (simp add: stored_distance_def UINT8_MAX_def)
next
  case False
  then have "(ucast (ucast d :: u8) :: u64) = take_bit 8 d"
    by (simp add: unsigned_ucast_eq)
  also have "\<dots> = d"
    using stored_distance_and_mask [of d] False
    by (simp only: stored_distance_def take_bit_eq_mask if_False)
  finally show ?thesis using False by (simp add: stored_distance_def)
qed

lemma n_node_compute:
  "n_node (compute_raw_node nd m) =
     push_bit (64 - log_size m) (n_index nd) OR (n_tag nd AND TAG_MASK m) OR stored_distance (n_distance nd)"
  by (simp add: compute_raw_node_def Let_def NODE_SIZE_def compute_distance del: of_nat_numeral)

lemma compute_raw_node_other [simp]:
  "n_index (compute_raw_node nd m) = n_index nd"
  "n_tag (compute_raw_node nd m) = n_tag nd"
  "n_distance (compute_raw_node nd m) = n_distance nd"
  by (simp_all add: compute_raw_node_def Let_def)

lemma parse_index_compute:
  assumes "8 \<le> 64 - log_size m" and "unat (n_index nd) < 2 ^ log_size m"
  shows "n_index (parse_node_from_raw (n_node (compute_raw_node nd m)) m) = n_index nd"
proof (rule bit_word_eqI)
  fix n assume "n < LENGTH(64)"
  have big: "\<not> bit (n_index nd) k" if "log_size m \<le> k" for k
  proof -
    from assms(2) have "n_index nd = take_bit (log_size m) (n_index nd)"
      by (metis unat_take_bit mod_less unsigned_word_eqI)
    then show ?thesis using that by (metis bit_take_bit_iff not_le)
  qed
  have low: "\<not> bit (stored_distance (n_distance nd)) (64 + n - log_size m)"
    using assms(1) by (auto dest: bit_stored_distance)
  show "bit (n_index (parse_node_from_raw (n_node (compute_raw_node nd m)) m)) n = bit (n_index nd) n"
  proof (cases "n < log_size m")
    case True
    with assms(1) have "64 + n - log_size m < 64" "\<not> 64 + n - log_size m < 64 - log_size m"
      "64 + n - log_size m - (64 - log_size m) = n" by simp_all
    with assms(1) low show ?thesis
      by (simp add: parse_node_from_raw_def n_node_compute bit_simps bit_TAG_MASK NODE_SIZE_def)
  next
    case False
    with big [of n] show ?thesis
      by (auto simp: parse_node_from_raw_def bit_simps NODE_SIZE_def dest: bit_imp_le_length)
  qed
qed

lemma parse_tag_compute:
  assumes "8 \<le> 64 - log_size m"
  shows "n_tag (parse_node_from_raw (n_node (compute_raw_node nd m)) m) = n_tag nd AND TAG_MASK m"
  using assms
  by (intro bit_word_eqI)
    (auto simp: parse_node_from_raw_def n_node_compute bit_simps bit_TAG_MASK dest: bit_stored_distance)

lemma parse_distance_compute:
  assumes "8 \<le> 64 - log_size m"
  shows "n_distance (parse_node_from_raw (n_node (compute_raw_node nd m)) m) = stored_distance (n_distance nd)"
  using assms
  by (intro bit_word_eqI)
    (auto simp: parse_node_from_raw_def n_node_compute bit_simps bit_TAG_MASK bit_DISTANCE_MASK
      dest: bit_stored_distance)

lemma compute_parse:
  assumes "log_size m \<le> 56" and "0 < log_size m"
  shows "n_node (compute_raw_node (parse_node_from_raw raw m) m) = raw"
proof (rule bit_word_eqI)
  fix n assume n: "n < LENGTH(64)"
  have sd: "stored_distance (raw AND DISTANCE_MASK) = raw AND DISTANCE_MASK"
  proof -
    have "unat (raw AND DISTANCE_MASK) < 256"
      by (simp add: DISTANCE_MASK_eq unat_and_mask)
    then show ?thesis by (auto simp: stored_distance_def UINT8_MAX_def word_less_nat_alt)
  qed
  show "bit (n_node (compute_raw_node (parse_node_from_raw raw m) m)) n = bit raw n"
  proof (cases "n < 64 - log_size m")
    case True
    with assms n show ?thesis
      by (auto simp: n_node_compute parse_node_from_raw_def sd bit_simps bit_TAG_MASK
          bit_DISTANCE_MASK NODE_SIZE_def)
  next
    case False
    with assms n have "64 + (n + log_size m - 64) - log_size m = n" "\<not> n < 8" by simp_all
    with assms n False show ?thesis
      by (auto simp: n_node_compute parse_node_from_raw_def sd bit_simps bit_TAG_MASK
          bit_DISTANCE_MASK NODE_SIZE_def)
  qed
qed

subsection \<open>Slots of the index\<close>

text \<open>The decoded node at a position, and what it can be.\<close>

definition slot :: "meta \<Rightarrow> nat \<Rightarrow> node" where
  "slot m p = parse_node_from_raw (index m p) m"

definition live :: "meta \<Rightarrow> nat \<Rightarrow> bool" where
  "live m p \<longleftrightarrow> \<not> is_empty (slot m p) \<and> \<not> is_tombstone (slot m p)"

lemma n_node_slot [simp]: "n_node (slot m p) = index m p"
  by (simp add: slot_def parse_node_from_raw_def)

lemma is_empty_slot: "is_empty (slot m p) \<longleftrightarrow> index m p = 0"
  by (simp add: is_empty_def)

lemma live_iff: "live m p \<longleftrightarrow> n_index (slot m p) \<noteq> 0"
  by (auto simp: live_def is_empty_def is_tombstone_def slot_def parse_node_from_raw_def)

lemma live_not_empty: "live m p \<Longrightarrow> index m p \<noteq> 0"
  by (simp add: live_def is_empty_slot)

lemma mod_add_word:
  assumes "n \<le> 64"
  shows "unat (w + of_nat k :: u64) mod 2 ^ n = (unat w + k) mod 2 ^ n"
proof -
  have dvd: "(2::nat) ^ n dvd 2 ^ 64" using assms by (rule le_imp_power_dvd)
  have "unat (w + of_nat k :: u64) = (unat w + k) mod 2 ^ 64"
    by (simp add: unat_word_ariths unat_of_nat mod_add_right_eq)
  then show ?thesis using dvd by (simp only: mod_mod_cancel)
qed

lemma read_node_at_slot:
  assumes "log_size m \<le> 30"
  shows "read_node_at (w + of_nat k) m = slot m ((unat w + k) mod SIZE_OF m)"
  using assms by (simp add: read_node_at_def read_raw_node_at_def slot_def unat_and_index_mask
      SIZE_OF_def mod_add_word)

lemma unat_position:
  "log_size m \<le> 30 \<Longrightarrow> unat ((w + of_nat k) AND index_mask m) = (unat w + k) mod SIZE_OF m"
  by (simp add: unat_and_index_mask SIZE_OF_def mod_add_word)

lemma slot_index_upd:
  "slot (m\<lparr>index := (index m)(q := raw)\<rparr>) p = (if p = q then parse_node_from_raw raw m else slot m p)"
  by (simp add: slot_def parse_node_from_raw_def TAG_MASK_def)

lemma SIZE_OF_index_upd [simp]: "SIZE_OF (m\<lparr>index := f\<rparr>) = SIZE_OF m"
  by (simp add: SIZE_OF_def)

lemma distance0_lt:
  "log_size m \<le> 64 \<Longrightarrow> unat (distance0_of py h m) < SIZE_OF m"
  unfolding distance0_of_def SIZE_OF_def by (rule unat_drop_bit_lt)

subsection \<open>What a written node looks like\<close>

lemma parse_live_compute:
  assumes "8 \<le> 64 - log_size m" and "unat (n_index nd) < SIZE_OF m" and "n_index nd \<noteq> 0"
  shows "n_node (compute_raw_node nd m) \<noteq> 0"
proof
  assume "n_node (compute_raw_node nd m) = 0"
  with parse_index_compute [OF assms(1), of nd] assms(2)
  have "n_index nd = n_index (parse_node_from_raw 0 m)" by (simp add: SIZE_OF_def)
  with assms(3) show False by (simp add: parse_node_from_raw_def)
qed

definition tombstone_node :: "meta \<Rightarrow> node" where
  "tombstone_node m = \<lparr>n_node = 0, n_index = 0, n_tag = TOMBSTONE m, n_distance = 0\<rparr>"

lemma n_node_tombstone: "n_node (compute_raw_node (tombstone_node m) m) = TAG_MASK m"
  by (simp add: n_node_compute tombstone_node_def TOMBSTONE_def stored_distance_def)

lemma TAG_MASK_nonzero:
  assumes "log_size m < 56"
  shows "TAG_MASK m \<noteq> 0"
proof
  assume "TAG_MASK m = 0"
  then have "\<not> bit (TAG_MASK m) 8" by simp
  with assms show False by (simp add: bit_TAG_MASK)
qed

lemma TAG_MASK_no_index: "log_size m \<le> 56 \<Longrightarrow> n_index (parse_node_from_raw (TAG_MASK m) m) = 0"
  by (rule bit_word_eqI) (auto simp: parse_node_from_raw_def bit_simps bit_TAG_MASK NODE_SIZE_def)

subsection \<open>Doubling the index\<close>

text \<open>
  The home slot in an index of twice the size is given by one more bit of the hash, which is the
  most significant bit of the tag.
\<close>

lemma distance0_double:
  assumes "log_size m' = Suc (log_size m)" and "log_size m < 64"
  shows "unat (distance0_of py h m') =
           2 * unat (distance0_of py h m) + of_bool (bit (REHASH py h) (63 - log_size m))"
proof -
  let ?w = "REHASH py h" and ?k = "63 - log_size m"
  from assms(2) have k: "64 - log_size m = Suc ?k" by simp
  have "unat ?w div 2 ^ ?k = 2 * (unat ?w div 2 ^ ?k div 2) + (unat ?w div 2 ^ ?k) mod 2"
    by (rule mult_div_mod_eq [symmetric])
  moreover have "(unat ?w div 2 ^ ?k) mod 2 = of_bool (bit ?w ?k)"
  proof -
    have "bit (unat ?w) ?k \<longleftrightarrow> bit ?w ?k" by (simp add: bit_unsigned_iff)
    then have "odd (unat ?w div 2 ^ ?k) \<longleftrightarrow> bit ?w ?k" by (simp add: bit_iff_odd)
    then show ?thesis by (cases "bit ?w ?k") (auto simp: odd_iff_mod_2_eq_one)
  qed
  moreover have "unat (distance0_of py h m) = unat ?w div 2 ^ ?k div 2"
    by (simp only: distance0_of_def unat_drop_bit k power_Suc2 div_mult2_eq)
  moreover have "unat (distance0_of py h m') = unat ?w div 2 ^ ?k"
    by (simp add: distance0_of_def unat_drop_bit assms(1))
  ultimately show ?thesis by simp
qed

subsection \<open>Properties\<close>

text \<open>
  C26: A node written to the index reads back as the node that was written: the location exactly
  (when it fits in \<open>log_size\<close> bits), the part of the tag that the index keeps, and the distance,
  saturated at 255; and every raw word is the encoding of what it decodes to.
\<close>

theorem node_roundtrip:
  assumes "log_size_ok m" and "unat (n_index nd) < SIZE_OF m"
  shows "(let nd' = parse_node_from_raw (n_node (compute_raw_node nd m)) m in
            n_index nd' = n_index nd \<and>
            n_tag nd' = n_tag nd AND TAG_MASK m \<and>
            unat (n_distance nd') = min (unat (n_distance nd)) UINT8_MAX) \<and>
         n_node (compute_raw_node (parse_node_from_raw raw m) m) = raw"
proof -
  from log_size_ok_bounds [OF assms(1)] have ls: "8 \<le> 64 - log_size m" by linarith
  have "n_index (parse_node_from_raw (n_node (compute_raw_node nd m)) m) = n_index nd"
    using assms(2) parse_index_compute [OF ls] by (simp add: SIZE_OF_def)
  moreover have "unat (n_distance (parse_node_from_raw (n_node (compute_raw_node nd m)) m)) =
      min (unat (n_distance nd)) UINT8_MAX"
    by (auto simp: parse_distance_compute [OF ls] stored_distance_def UINT8_MAX_def word_less_nat_alt)
  moreover have "n_node (compute_raw_node (parse_node_from_raw raw m) m) = raw"
    using log_size_ok_bounds [OF assms(1)] by (intro compute_parse) auto
  ultimately show ?thesis using parse_tag_compute [OF ls] by (simp add: Let_def)
qed

definition example_meta :: "nat \<Rightarrow> meta" where
  "example_meta ls =
     \<lparr>log_size = ls, index = (\<lambda>_. 0), pages = (\<lambda>_. Null), greatest_allocated_page = 0,
      new_gen_metadata = None, resize_leader = 0, node_to_migrate = 0, participants = None,
      new_metadata_ready = False, node_migration_done = False, resize_done = False\<rparr>"

theorem node_roundtrip_witness:
  "(let m = example_meta 7; nd = \<lparr>n_node = 0, n_index = 5, n_tag = 4660, n_distance = 300\<rparr>;
        nd' = parse_node_from_raw (n_node (compute_raw_node nd m)) m
    in log_size_ok m \<and> n_index nd' = 5 \<and> unat (n_distance nd') = 255)"
  using node_roundtrip [of "example_meta 7" "\<lparr>n_node = 0, n_index = 5, n_tag = 4660, n_distance = 300\<rparr>" 0]
  by (simp add: example_meta_def log_size_ok_def layout_consts SIZE_OF_def Let_def)

text \<open>
  C27: On every index smaller than the largest one the code allows, the word that a deletion writes
  is a tombstone; on the largest one (\<open>ATOMIC_DICT_MAX_LOG_SIZE\<close>) the tag has no bits, the word
  is 0, and the deletion writes an empty node.
\<close>

theorem tombstone_recognised:
  assumes "0 < log_size m" and "log_size m \<le> ATOMIC_DICT_MAX_LOG_SIZE"
  shows "(let nd = parse_node_from_raw (n_node (compute_raw_node (tombstone_node m) m)) m in
            (if log_size m < ATOMIC_DICT_MAX_LOG_SIZE then is_tombstone nd \<and> \<not> is_empty nd
             else is_empty nd \<and> \<not> is_tombstone nd))"
proof (cases "log_size m < 56")
  case True
  then have "TAG_MASK m \<noteq> 0" by (rule TAG_MASK_nonzero)
  with True show ?thesis
    using TAG_MASK_no_index [of m]
    by (simp add: n_node_tombstone is_tombstone_def is_empty_def parse_node_from_raw_def layout_consts)
next
  case False
  with assms(2) have ls: "log_size m = 56" by (simp add: layout_consts)
  then have "TAG_MASK m = 0" by (simp add: TAG_MASK_def NODE_SIZE_def DISTANCE_MASK_def)
  with ls show ?thesis
    by (simp add: n_node_tombstone is_tombstone_def is_empty_def parse_node_from_raw_def layout_consts)
qed

theorem tombstone_recognised_witness:
  "is_tombstone (parse_node_from_raw (n_node (compute_raw_node (tombstone_node (example_meta 7))
     (example_meta 7))) (example_meta 7))
   \<and> is_empty (parse_node_from_raw (n_node (compute_raw_node (tombstone_node (example_meta 56))
     (example_meta 56))) (example_meta 56))"
  using tombstone_recognised [of "example_meta 7"] tombstone_recognised [of "example_meta 56"]
  by (simp add: example_meta_def layout_consts Let_def)

end
