(* ===== verification/Pages.thy ===== *)
theory Pages
  imports NodeOps
begin

text \<open>
  Pages of entries and the reservation of empty entries, from
  \<^verbatim>\<open>src/src/cereggii/atomic_dict/pages.c\<close>, with the reservation buffer of
  \<^verbatim>\<open>src/src/cereggii/atomic_dict/accessor_storage.c\<close>.

  A thread reserves \<open>reservation_buffer_size\<close> consecutive entries at once, by setting the
  flag of the first one, and then takes them one by one from its buffer.  Reading the page array
  outside what has been allocated is undefined in C: it is \<open>None\<close> here, and so is a loop that does
  not end.
\<close>

subsection \<open>Entries\<close>

definition page_of :: "u64 \<Rightarrow> u64" where
  "page_of entry_ix = drop_bit ATOMIC_DICT_LOG_ENTRIES_IN_PAGE entry_ix"

definition position_in_page_of :: "u64 \<Rightarrow> u64" where
  "position_in_page_of entry_ix = entry_ix AND (of_nat ATOMIC_DICT_ENTRIES_IN_PAGE - 1)"

definition get_entry_at :: "u64 \<Rightarrow> meta \<Rightarrow> entry_ptr option" where
  "get_entry_at ix m =
     (case pages m (unat (page_of ix)) of
        Page page \<Rightarrow> Some (page, unat (position_in_page_of ix))
      | _ \<Rightarrow> None)"

definition read_entry :: "heap \<Rightarrow> entry_ptr \<Rightarrow> entry" where
  "read_entry h entry_p =
     (if e_value (h entry_p) = None
      then \<lparr>e_flags = e_flags (h entry_p), e_hash = -1, e_key = None, e_value = None\<rparr>
      else h entry_p)"

definition zero_entry :: entry where
  "zero_entry = \<lparr>e_flags = 0, e_hash = 0, e_key = None, e_value = None\<rparr>"

definition AtomicDictPage_New :: "dict \<Rightarrow> nat option \<times> dict" where
  "AtomicDictPage_New d =
     (case allocate d of
        (False, d) \<Rightarrow> (None, d)
      | (True, d) \<Rightarrow>
          (let new = next_page d in
           (Some new, d\<lparr>next_page := Suc new,
              entries := (\<lambda>(p, i). if p = new then zero_entry else entries d (p, i))\<rparr>)))"

text \<open>Clearing a page drops the references of its entries; entries without a value hold none.\<close>

definition AtomicDictPage_clear :: "nat \<Rightarrow> dict \<Rightarrow> dict" where
  "AtomicDictPage_clear page d =
     d\<lparr>entries := (\<lambda>(p, i).
         if p = page \<and> i < ATOMIC_DICT_ENTRIES_IN_PAGE \<and> e_value (entries d (p, i)) \<noteq> None
         then (entries d (p, i))\<lparr>e_key := None, e_value := None\<rparr>
         else entries d (p, i))\<rparr>"

text \<open>The objects that the garbage collector visits in a page.\<close>

definition AtomicDictPage_traverse :: "heap \<Rightarrow> nat \<Rightarrow> (pyobj option \<times> pyobj option) list" where
  "AtomicDictPage_traverse h page =
     map (\<lambda>e. (e_key e, e_value e))
       (filter (\<lambda>e. e_value e \<noteq> None) (map (\<lambda>i. h (page, i)) [0..<ATOMIC_DICT_ENTRIES_IN_PAGE]))"

definition atomic_dict_entry_ix_sanity_check :: "u64 \<Rightarrow> meta \<Rightarrow> bool" where
  "atomic_dict_entry_ix_sanity_check entry_ix m \<longleftrightarrow>
     0 \<le> greatest_allocated_page m \<and> int (unat (page_of entry_ix)) \<le> greatest_allocated_page m"

subsection \<open>The reservation buffer\<close>

definition reservation_buffer_put ::
  "reservation_buffer \<Rightarrow> u64 \<Rightarrow> u8 \<Rightarrow> reservation_buffer" where
  "reservation_buffer_put b location n = b\<lparr>rb_start := location, rb_size := n, rb_used := 0\<rparr>"

definition reservation_buffer_put_back_one :: "reservation_buffer \<Rightarrow> reservation_buffer" where
  "reservation_buffer_put_back_one b = b\<lparr>rb_used := rb_used b - 1\<rparr>"

definition reservation_buffer_pop ::
  "reservation_buffer \<Rightarrow> entry_loc \<Rightarrow> meta \<Rightarrow> (reservation_buffer \<times> entry_loc) option" where
  "reservation_buffer_pop b loc m =
     (if rb_used b = rb_size b then Some (b, loc\<lparr>loc_entry := None\<rparr>)
      else
        (let location = rb_start b + ucast (rb_used b) in
         case get_entry_at location m of
           None \<Rightarrow> None
         | Some p \<Rightarrow>
             Some (b\<lparr>rb_used := rb_used b + 1\<rparr>, \<lparr>loc_entry = Some p, loc_location = location\<rparr>)))"

subsection \<open>Reserving entries in a page\<close>

text \<open>
  The scan of a page for an unreserved chunk.  The \<open>dict\<close> is returned with the flag of the chunk
  set; \<open>False\<close> says that the page is full.  A chunk size of 0 would never end.
\<close>

definition insert_position_of :: "dict \<Rightarrow> i64 \<Rightarrow> nat" where
  "insert_position_of d hash =
     unat (hash AND (of_nat ATOMIC_DICT_ENTRIES_IN_PAGE - 1) AND NOT (ucast (reservation_buffer_size d) - 1))"

function reserve_entry_from ::
  "dict \<Rightarrow> nat \<Rightarrow> reservation_buffer \<Rightarrow> entry_loc \<Rightarrow> nat \<Rightarrow> int \<Rightarrow> nat \<Rightarrow>
   (bool \<times> dict \<times> reservation_buffer \<times> entry_loc) option" where
  "reserve_entry_from d mid b loc insert_position inserting_page offset =
     (let bs = unat (reservation_buffer_size d); m = metas d mid in
      if offset < ATOMIC_DICT_ENTRIES_IN_PAGE then
        if bs = 0 then None else
        (case pages m (nat inserting_page) of
           Page page \<Rightarrow>
             (let pos = (insert_position + offset) mod ATOMIC_DICT_ENTRIES_IN_PAGE;
                  p = (page, pos) in
              if e_flags (entries d p) = 0 then
                (let d' = upd_entry p (\<lambda>e. e\<lparr>e_flags := ENTRY_FLAGS_RESERVED\<rparr>) d;
                     location = push_bit ATOMIC_DICT_LOG_ENTRIES_IN_PAGE (of_int inserting_page) + of_nat pos;
                     b' = reservation_buffer_put b location (reservation_buffer_size d) in
                 case reservation_buffer_pop b' \<lparr>loc_entry = Some p, loc_location = location\<rparr> m of
                   None \<Rightarrow> None
                 | Some (b'', loc') \<Rightarrow> Some (True, d', b'', loc'))
              else reserve_entry_from d mid b (loc\<lparr>loc_entry := Some p\<rparr>) insert_position inserting_page (offset + bs))
         | _ \<Rightarrow> None)
      else Some (False, d, b, loc))"
  by pat_completeness auto
termination
  by (relation "measure (\<lambda>(d, mid, b, loc, ip, ipage, offset). ATOMIC_DICT_ENTRIES_IN_PAGE - offset)") auto

definition reserve_entry_in_inserting_page ::
  "dict \<Rightarrow> nat \<Rightarrow> reservation_buffer \<Rightarrow> entry_loc \<Rightarrow> i64 \<Rightarrow> int \<Rightarrow>
   (bool \<times> dict \<times> reservation_buffer \<times> entry_loc) option" where
  "reserve_entry_in_inserting_page d mid b loc hash inserting_page =
     reserve_entry_from d mid b loc (insert_position_of d hash) inserting_page 0"

subsection \<open>Allocating a page\<close>

definition handle_page_allocated ::
  "dict \<Rightarrow> nat \<Rightarrow> reservation_buffer \<Rightarrow> entry_loc \<Rightarrow> int \<Rightarrow> nat \<Rightarrow> int \<Rightarrow>
   (dict \<times> reservation_buffer \<times> entry_loc) option" where
  "handle_page_allocated d mid b loc greatest page new_page =
     (let d1 = (if greatest + 2 < int (SIZE_OF (metas d mid) div 2 ^ ATOMIC_DICT_LOG_ENTRIES_IN_PAGE)
                then upd_meta mid (\<lambda>m. m\<lparr>pages := (pages m)(nat (new_page + 1) := Null)\<rparr>) d
                else d);
          d2 = upd_meta mid (\<lambda>m. m\<lparr>greatest_allocated_page :=
                 fst (snd (compare_exchange (greatest_allocated_page m) greatest new_page))\<rparr>) d1;
          location = push_bit ATOMIC_DICT_LOG_ENTRIES_IN_PAGE (of_int new_page);
          b' = reservation_buffer_put b location (reservation_buffer_size d) in
      case reservation_buffer_pop b' \<lparr>loc_entry = Some (page, 0), loc_location = location\<rparr> (metas d2 mid) of
        None \<Rightarrow> None
      | Some (b'', loc') \<Rightarrow> Some (d2, b'', loc'))"

text \<open>
  \<open>reserve_entry\<close> loops until it has reserved a chunk (1), the table must grow (0) or a page cannot
  be allocated (-1).
\<close>

datatype reserved = MustGrow | Reserved | NoMemory

fun slot_is_null :: "page_slot \<Rightarrow> bool" where
  "slot_is_null Null = True"
| "slot_is_null _ = False"

partial_function (option) reserve_entry_loop ::
  "dict \<Rightarrow> nat \<Rightarrow> reservation_buffer \<Rightarrow> entry_loc \<Rightarrow> i64 \<Rightarrow> int \<Rightarrow>
   (reserved \<times> dict \<times> reservation_buffer \<times> entry_loc) option" where
  "reserve_entry_loop d mid b loc hash inserting_page =
     (case reserve_entry_in_inserting_page d mid b loc hash inserting_page of
        None \<Rightarrow> None
      | Some (found, d, b, loc) \<Rightarrow>
          if found then Some (Reserved, d, b, loc)
          else
            (let greatest = greatest_allocated_page (metas d mid) in
             if greatest \<noteq> inserting_page then reserve_entry_loop d mid b loc hash greatest
             else if greatest + 1 \<ge> int (SIZE_OF (metas d mid) div 2 ^ ATOMIC_DICT_LOG_ENTRIES_IN_PAGE)
             then Some (MustGrow, d, b, loc)
             else
               (case AtomicDictPage_New d of
                  (None, d) \<Rightarrow> Some (NoMemory, d, b, loc)
                | (Some page, d) \<Rightarrow>
                    (let d = upd_entry (page, 0) (\<lambda>e. e\<lparr>e_flags := ENTRY_FLAGS_RESERVED\<rparr>) d;
                         new_page = greatest + 1 in
                     if pages (metas d mid) (nat new_page) = Uninit then None
                     else if slot_is_null (pages (metas d mid) (nat new_page))
                     then (case handle_page_allocated
                                  (upd_meta mid (\<lambda>m. m\<lparr>pages := (pages m)(nat new_page := Page page)\<rparr>) d)
                                  mid b loc greatest page new_page of
                             None \<Rightarrow> None
                           | Some (d, b, loc) \<Rightarrow> Some (Reserved, d, b, loc))
                     else reserve_entry_loop d mid b loc hash inserting_page))))"

definition reserve_entry ::
  "dict \<Rightarrow> nat \<Rightarrow> reservation_buffer \<Rightarrow> entry_loc \<Rightarrow> i64 \<Rightarrow>
   (reserved \<times> dict \<times> reservation_buffer \<times> entry_loc) option" where
  "reserve_entry d mid b loc hash =
     reserve_entry_loop d mid b loc hash (greatest_allocated_page (metas d mid))"

definition get_empty_entry ::
  "dict \<Rightarrow> nat \<Rightarrow> reservation_buffer \<Rightarrow> entry_loc \<Rightarrow> i64 \<Rightarrow>
   (reserved \<times> dict \<times> reservation_buffer \<times> entry_loc) option" where
  "get_empty_entry d mid b loc hash =
     (case reservation_buffer_pop b loc (metas d mid) of
        None \<Rightarrow> None
      | Some (b, loc) \<Rightarrow>
          if loc_entry loc = None then
            (case reserve_entry d mid b loc hash of
               None \<Rightarrow> None
             | Some (r, d, b, loc) \<Rightarrow>
                 if r = Reserved then Some (Reserved, d, b, loc)
                 else Some (r, d, b, loc\<lparr>loc_entry := None\<rparr>))
          else Some (Reserved, d, b, loc))"

end
