(* ===== verification/Index.thy ===== *)
theory Index
  imports Pages
begin

text \<open>
  The invariant of the index of a table and the map from keys to values that a table stands for.

  A live node points at an entry, carries the tag of the hash of that entry's key, and lies on the
  probe path of the hash: from the home slot on, every slot before it is occupied.  Two live nodes
  never share an entry, and never hold equal keys.  At least one slot is empty.
\<close>

subsection \<open>The pages of a table\<close>

lemma SIZE_small: "log_size m \<le> 30 \<Longrightarrow> SIZE_OF m \<le> 2 ^ 30"
  unfolding SIZE_OF_def by (rule power_increasing) auto

definition page_count :: "meta \<Rightarrow> nat" where
  "page_count m = SIZE_OF m div ATOMIC_DICT_ENTRIES_IN_PAGE"

definition pages_ok :: "meta \<Rightarrow> bool" where
  "pages_ok m \<longleftrightarrow>
     0 \<le> greatest_allocated_page m \<and>
     nat (greatest_allocated_page m) < page_count m \<and>
     (\<forall>i \<le> nat (greatest_allocated_page m). \<exists>p. pages m i = Page p) \<and>
     (\<forall>i \<le> nat (greatest_allocated_page m). \<forall>j \<le> nat (greatest_allocated_page m).
        pages m i = pages m j \<longrightarrow> i = j)"

text \<open>The slots that are not empty.\<close>

definition occupied :: "meta \<Rightarrow> nat set" where
  "occupied m = {p. p < SIZE_OF m \<and> index m p \<noteq> 0}"

text \<open>A location is allocated when its page is.\<close>

definition allocated :: "meta \<Rightarrow> u64 \<Rightarrow> bool" where
  "allocated m ix \<longleftrightarrow> unat (page_of ix) \<le> nat (greatest_allocated_page m)"

lemma unat_page_of: "unat (page_of ix) = unat ix div 128"
  by (simp add: page_of_def layout_consts unat_drop_bit)

lemma position_mask: "of_nat ATOMIC_DICT_ENTRIES_IN_PAGE - 1 = (mask 7 :: u64)"
  by (simp add: layout_consts mask_eq_decr_exp)

lemma unat_position_in_page_of: "unat (position_in_page_of ix) = unat ix mod 128"
  by (simp add: position_in_page_of_def position_mask unat_and_mask)

lemma get_entry_at_some:
  assumes "pages_ok m" and "allocated m ix"
  obtains p where "pages m (unat (page_of ix)) = Page p"
    and "get_entry_at ix m = Some (p, unat ix mod 128)"
proof -
  from assms obtain p where p: "pages m (unat (page_of ix)) = Page p"
    unfolding pages_ok_def allocated_def by blast
  then show thesis
    by (intro that [OF p]) (simp add: get_entry_at_def unat_position_in_page_of)
qed

text \<open>Distinct allocated locations are distinct entries in memory.\<close>

lemma get_entry_at_inj:
  assumes "pages_ok m" and "allocated m a" and "allocated m b"
    and "get_entry_at a m = get_entry_at b m"
  shows "a = b"
proof -
  from get_entry_at_some [OF assms(1,2)] obtain p where
    p: "pages m (unat (page_of a)) = Page p" "get_entry_at a m = Some (p, unat a mod 128)" .
  from get_entry_at_some [OF assms(1,3)] obtain q where
    q: "pages m (unat (page_of b)) = Page q" "get_entry_at b m = Some (q, unat b mod 128)" .
  from p(2) q(2) assms(4) have eq: "p = q" "unat a mod 128 = unat b mod 128" by simp_all
  with p(1) q(1) have "pages m (unat (page_of a)) = pages m (unat (page_of b))" by simp
  with assms(1-3) have "unat (page_of a) = unat (page_of b)"
    unfolding pages_ok_def allocated_def by blast
  with eq(2) have "unat a = unat b"
    unfolding unat_page_of by (metis div_mult_mod_eq)
  then show ?thesis by (rule unsigned_word_eqI)
qed

lemma unat_word_small: "p < 2 ^ 62 \<Longrightarrow> unat (of_nat p :: u64) = p"
  by (simp add: unat_of_nat take_bit_nat_eq_self)

text \<open>The entry at a location of an allocated page.\<close>

definition entry_at :: "heap \<Rightarrow> meta \<Rightarrow> nat \<Rightarrow> entry" where
  "entry_at h m p = (case get_entry_at (of_nat p) m of None \<Rightarrow> zero_entry | Some q \<Rightarrow> h q)"

definition has_value :: "heap \<Rightarrow> meta \<Rightarrow> nat \<Rightarrow> bool" where
  "has_value h m p \<longleftrightarrow> e_value (entry_at h m p) \<noteq> None"

lemma entry_at_get:
  assumes "pages_ok m" and "p < nat (greatest_allocated_page m + 1) * 128" and "p < 2 ^ 62"
  obtains q where "pages m (p div 128) = Page q" and "get_entry_at (of_nat p) m = Some (q, p mod 128)"
    and "entry_at h m p = h (q, p mod 128)"
proof -
  note u = unat_word_small [OF assms(3)]
  have "p div 128 < nat (greatest_allocated_page m + 1)" using assms(2) by (simp add: div_less_iff_less_mult)
  then have "allocated m (of_nat p)" by (simp add: allocated_def unat_page_of u)
  from get_entry_at_some [OF assms(1) this] obtain q where
    q: "pages m (p div 128) = Page q" "get_entry_at (of_nat p) m = Some (q, p mod 128)"
    by (auto simp: unat_page_of u)
  then show thesis by (intro that [OF q]) (simp add: entry_at_def)
qed

subsection \<open>Where a node may stand\<close>

definition home :: "pyenv \<Rightarrow> meta \<Rightarrow> i64 \<Rightarrow> nat" where
  "home py m hash = unat (distance0_of py hash m)"

definition on_path :: "pyenv \<Rightarrow> meta \<Rightarrow> i64 \<Rightarrow> nat \<Rightarrow> nat \<Rightarrow> bool" where
  "on_path py m hash k p \<longleftrightarrow>
     k < SIZE_OF m \<and> p = (home py m hash + k) mod SIZE_OF m \<and>
     (\<forall>j<k. index m ((home py m hash + j) mod SIZE_OF m) \<noteq> 0)"

definition placed :: "pyenv \<Rightarrow> meta \<Rightarrow> nat \<Rightarrow> i64 \<Rightarrow> bool" where
  "placed py m p hash \<longleftrightarrow>
     n_tag (slot m p) = REHASH py hash AND TAG_MASK m \<and>
     (\<exists>k. on_path py m hash k p \<and> n_distance (slot m p) = stored_distance (of_nat k))"

text \<open>The entry a live node points at.\<close>

definition entry_of :: "heap \<Rightarrow> meta \<Rightarrow> nat \<Rightarrow> entry option" where
  "entry_of h m p = map_option h (get_entry_at (n_index (slot m p)) m)"

text \<open>What the invariant says of the entry of a live node.\<close>

definition node_ok :: "pyenv \<Rightarrow> heap \<Rightarrow> meta \<Rightarrow> nat \<Rightarrow> bool" where
  "node_ok py h m p \<longleftrightarrow>
     allocated m (n_index (slot m p)) \<and>
     (\<exists>e key. entry_of h m p = Some e \<and> e_key e = Some key \<and>
        e_hash e = PyObject_Hash py key \<and> placed py m p (e_hash e))"

text \<open>A slot holds a key when its node is live and its entry has that key and a value.\<close>

definition holds :: "pyenv \<Rightarrow> heap \<Rightarrow> meta \<Rightarrow> pyobj \<Rightarrow> nat \<Rightarrow> bool" where
  "holds py h m key p \<longleftrightarrow>
     live m p \<and>
     (case entry_of h m p of
        None \<Rightarrow> False
      | Some e \<Rightarrow> e_value e \<noteq> None \<and>
          (case e_key e of None \<Rightarrow> False | Some k \<Rightarrow> same_key py k key))"

definition wf_index :: "pyenv \<Rightarrow> heap \<Rightarrow> meta \<Rightarrow> bool" where
  "wf_index py h m \<longleftrightarrow>
     log_size_ok m \<and> pages_ok m \<and>
     (\<exists>p<SIZE_OF m. index m p = 0) \<and>
     (\<forall>p<SIZE_OF m. live m p \<longrightarrow> node_ok py h m p) \<and>
     (\<forall>p<SIZE_OF m. \<forall>q<SIZE_OF m. live m p \<longrightarrow> live m q \<longrightarrow>
        n_index (slot m p) = n_index (slot m q) \<longrightarrow> p = q) \<and>
     (\<forall>key. \<forall>p<SIZE_OF m. \<forall>q<SIZE_OF m. holds py h m key p \<longrightarrow> holds py h m key q \<longrightarrow> p = q)"

subsection \<open>The map a table stands for\<close>

definition table_map :: "pyenv \<Rightarrow> heap \<Rightarrow> meta \<Rightarrow> pyobj \<Rightarrow> pyobj option" where
  "table_map py h m key =
     (case find (holds py h m key) [0..<SIZE_OF m] of
        None \<Rightarrow> None
      | Some p \<Rightarrow> (case entry_of h m p of None \<Rightarrow> None | Some e \<Rightarrow> e_value e))"

named_theorems wf_dest \<open>consequences of the index invariant\<close>

lemma wf_log_size [wf_dest]: "wf_index py h m \<Longrightarrow> log_size_ok m"
  and wf_pages [wf_dest]: "wf_index py h m \<Longrightarrow> pages_ok m"
  and wf_empty_slot [wf_dest]: "wf_index py h m \<Longrightarrow> \<exists>p<SIZE_OF m. index m p = 0"
  and wf_node [wf_dest]: "wf_index py h m \<Longrightarrow> p < SIZE_OF m \<Longrightarrow> live m p \<Longrightarrow> node_ok py h m p"
  and wf_distinct: "wf_index py h m \<Longrightarrow> p < SIZE_OF m \<Longrightarrow> q < SIZE_OF m \<Longrightarrow> live m p \<Longrightarrow>
        live m q \<Longrightarrow> n_index (slot m p) = n_index (slot m q) \<Longrightarrow> p = q"
  and wf_unique: "wf_index py h m \<Longrightarrow> p < SIZE_OF m \<Longrightarrow> q < SIZE_OF m \<Longrightarrow>
        holds py h m key p \<Longrightarrow> holds py h m key q \<Longrightarrow> p = q"
  unfolding wf_index_def by blast+

lemma wf_log_size_le [wf_dest]: "wf_index py h m \<Longrightarrow> log_size m \<le> 30"
  by (drule wf_log_size) (simp add: log_size_ok_def)

lemma home_lt: "log_size m \<le> 30 \<Longrightarrow> home py m hash < SIZE_OF m"
  unfolding home_def by (rule distance0_lt) simp

lemma holdsD:
  assumes "holds py h m key p"
  obtains e k v where "live m p" and "entry_of h m p = Some e" and "e_key e = Some k"
    and "e_value e = Some v" and "same_key py k key"
  using assms by (auto simp: holds_def split: option.splits)

lemma holdsI:
  "live m p \<Longrightarrow> entry_of h m p = Some e \<Longrightarrow> e_key e = Some k \<Longrightarrow> e_value e = Some v \<Longrightarrow>
     same_key py k key \<Longrightarrow> holds py h m key p"
  by (simp add: holds_def)

lemma table_map_None: "table_map py h m key = None \<longleftrightarrow> (\<forall>p<SIZE_OF m. \<not> holds py h m key p)"
proof (cases "find (holds py h m key) [0..<SIZE_OF m]")
  case None
  then have "\<forall>p<SIZE_OF m. \<not> holds py h m key p" by (auto simp: find_None_iff)
  with None show ?thesis by (simp add: table_map_def)
next
  case (Some p)
  then have "holds py h m key p" "p < SIZE_OF m" by (auto simp: find_Some_iff)
  then show ?thesis using Some by (auto simp: table_map_def elim: holdsD)
qed

lemma table_map_holds:
  assumes "wf_index py h m" and "p < SIZE_OF m" and "holds py h m key p" and "entry_of h m p = Some e"
  shows "table_map py h m key = e_value e"
proof (cases "find (holds py h m key) [0..<SIZE_OF m]")
  case None
  with assms show ?thesis by (auto simp: find_None_iff)
next
  case (Some q)
  then have "holds py h m key q" "q < SIZE_OF m" by (auto simp: find_Some_iff)
  with wf_unique [OF assms(1)] assms(2,3) have "q = p" by blast
  with Some assms(4) show ?thesis by (simp add: table_map_def)
qed

lemma table_map_Some:
  assumes "wf_index py h m"
  shows "table_map py h m key = Some v \<longleftrightarrow>
    (\<exists>p<SIZE_OF m. \<exists>e. holds py h m key p \<and> entry_of h m p = Some e \<and> e_value e = Some v)"
proof
  assume "table_map py h m key = Some v"
  then have "\<not> (\<forall>p<SIZE_OF m. \<not> holds py h m key p)"
    by (metis table_map_None option.distinct(1))
  then obtain p where p: "p < SIZE_OF m" "holds py h m key p" by blast
  then obtain e where "entry_of h m p = Some e" by (blast elim: holdsD)
  with p table_map_holds [OF assms p] \<open>table_map py h m key = Some v\<close>
  show "\<exists>p<SIZE_OF m. \<exists>e. holds py h m key p \<and> entry_of h m p = Some e \<and> e_value e = Some v" by auto
next
  assume "\<exists>p<SIZE_OF m. \<exists>e. holds py h m key p \<and> entry_of h m p = Some e \<and> e_value e = Some v"
  with table_map_holds [OF assms] show "table_map py h m key = Some v" by metis
qed

lemma same_key_cong:
  assumes "well_behaved_keys py" and "same_key py a b"
  shows "same_key py k a \<longleftrightarrow> same_key py k b"
  using assms by (blast intro: same_key_trans same_key_sym)

lemma holds_cong:
  assumes "well_behaved_keys py" and "same_key py a b"
  shows "holds py h m a = holds py h m b"
  by (intro ext) (auto simp: holds_def same_key_cong [OF assms] split: option.splits)

lemma table_map_cong:
  assumes "well_behaved_keys py" and "same_key py a b"
  shows "table_map py h m a = table_map py h m b"
  by (simp add: table_map_def holds_cong [OF assms])

subsection \<open>Probing\<close>

text \<open>
  A key that is held is found on the probe path of its hash, before any empty slot.
\<close>

lemma holds_on_path:
  assumes "wf_index py h m" and "well_behaved_keys py" and "p < SIZE_OF m"
    and "holds py h m key p"
  obtains k where "on_path py m (PyObject_Hash py key) k p"
    and "n_tag (slot m p) = REHASH py (PyObject_Hash py key) AND TAG_MASK m"
proof -
  from assms(4) obtain e kk v where e: "live m p" "entry_of h m p = Some e" "e_key e = Some kk"
    "same_key py kk key" by (blast elim: holdsD)
  from wf_node [OF assms(1,3) e(1)] e(2,3)
  have "e_hash e = PyObject_Hash py kk" "placed py m p (e_hash e)"
    unfolding node_ok_def by auto
  with same_key_hash [OF assms(2) e(4)] show thesis
    using that unfolding placed_def by auto
qed

lemma on_path_before_empty:
  assumes "on_path py m hash k p" and "index m ((home py m hash + j) mod SIZE_OF m) = 0"
    and "index m p \<noteq> 0"
  shows "k < j"
proof (rule ccontr)
  assume "\<not> k < j"
  moreover have "k \<noteq> j" using assms unfolding on_path_def by auto
  ultimately have "j < k" by simp
  with assms(1,2) show False unfolding on_path_def by blast
qed

subsection \<open>The rest of the metadata does not matter\<close>

text \<open>
  The fields that coordinate a resize are no part of the table: two metadata that agree on the
  others have the same invariant and the same map.
\<close>

definition table_eq :: "meta \<Rightarrow> meta \<Rightarrow> bool" where
  "table_eq a b \<longleftrightarrow>
     log_size b = log_size a \<and> index b = index a \<and> pages b = pages a \<and>
     greatest_allocated_page b = greatest_allocated_page a"

lemma table_eqD:
  assumes "table_eq a b"
  shows "log_size b = log_size a" and "index b = index a" and "pages b = pages a"
    and "greatest_allocated_page b = greatest_allocated_page a"
    and "SIZE_OF b = SIZE_OF a" and "TAG_MASK b = TAG_MASK a" and "index_mask b = index_mask a"
    and "slot b = slot a" and "live b = live a" and "get_entry_at ix b = get_entry_at ix a"
    and "entry_of h b = entry_of h a" and "home py b = home py a" and "holds py h b = holds py h a"
    and "allocated b = allocated a"
proof -
  show eq: "log_size b = log_size a" "index b = index a" "pages b = pages a"
    "greatest_allocated_page b = greatest_allocated_page a"
    using assms by (simp_all add: table_eq_def)
  show size: "SIZE_OF b = SIZE_OF a" "TAG_MASK b = TAG_MASK a" "index_mask b = index_mask a"
    by (simp_all add: SIZE_OF_def TAG_MASK_def index_mask_def eq)
  show slot: "slot b = slot a"
    by (simp add: fun_eq_iff slot_def parse_node_from_raw_def eq size)
  show live: "live b = live a" by (simp add: fun_eq_iff live_def slot)
  show get: "get_entry_at ix b = get_entry_at ix a" for ix by (simp add: get_entry_at_def eq)
  show ent: "entry_of h b = entry_of h a" by (simp add: fun_eq_iff entry_of_def slot get)
  show "home py b = home py a" by (simp add: fun_eq_iff home_def distance0_of_def eq)
  show "holds py h b = holds py h a" by (simp add: fun_eq_iff holds_def live ent)
  show "allocated b = allocated a" by (simp add: fun_eq_iff allocated_def eq)
qed

lemma table_eq_wf:
  assumes "table_eq a b"
  shows "wf_index py h b = wf_index py h a" and "table_map py h b = table_map py h a"
  by (simp_all add: fun_eq_iff wf_index_def table_map_def node_ok_def placed_def on_path_def log_size_ok_def
      pages_ok_def page_count_def table_eqD [OF assms] cong: option.case_cong)

subsection \<open>Concrete tables\<close>

text \<open>
  An interpreter whose keys compare by identity, all with the same hash, and a checksum that maps
  everything to 0, so that all keys probe from slot 0; and an empty table of 128 slots with one page.
\<close>

definition example_env :: pyenv where
  "example_env =
     \<lparr>crc32_u64 = (\<lambda>_ _. 0), PyObject_Hash = (\<lambda>_. 5),
      RichCompareEq = (\<lambda>a b. if a = b then CmpTrue else CmpFalse)\<rparr>"

definition example_table :: meta where
  "example_table = (example_meta 7)\<lparr>pages := (\<lambda>_. Page 0)\<rparr>"

definition example_heap :: heap where
  "example_heap = (\<lambda>_. zero_entry)((0, 3) := \<lparr>e_flags = 0, e_hash = 5, e_key = Some (Obj 1), e_value = Some (Obj 2)\<rparr>)"

lemmas example_defs = example_env_def example_table_def example_heap_def example_meta_def zero_entry_def

lemma example_env_ok: "well_behaved_keys example_env"
  by (auto simp: well_behaved_keys_def example_env_def same_key_def intro!: equivpI reflpI sympI transpI
      split: if_splits)

lemma example_env_hash [simp]: "PyObject_Hash example_env k = 5"
  by (simp add: example_env_def)

lemma same_key_example: "same_key example_env a b \<longleftrightarrow> a = b"
  by (simp add: same_key_def example_env_def)

lemma example_not_live: "\<not> live example_table p"
  by (simp add: live_def is_empty_slot example_defs)

lemma example_table_wf: "wf_index py h example_table"
proof -
  have "\<not> holds py h example_table key p" for key p
    using example_not_live by (auto elim: holdsD)
  moreover have "log_size_ok example_table" "pages_ok example_table" "0 < SIZE_OF example_table \<and> index example_table 0 = 0"
    by (simp_all add: log_size_ok_def layout_consts pages_ok_def page_count_def SIZE_OF_def example_defs)
  ultimately show ?thesis
    unfolding wf_index_def using example_not_live by blast
qed

lemma example_table_map: "table_map py h example_table key = None"
  using example_not_live by (auto simp: table_map_None elim: holdsD)

end
