(* ===== verification/IndexUpdate.thy ===== *)
theory IndexUpdate
  imports Index
begin

text \<open>
  The three ways in which the operations change a table, and what each does to the invariant and to
  the map: replacing the value of a held key, writing a new node into the first empty slot of a
  probe path, and turning a node whose entry has lost its value into a tombstone.
\<close>

subsection \<open>Replacing the value of an entry\<close>

definition set_value :: "entry_ptr \<Rightarrow> pyobj option \<Rightarrow> heap \<Rightarrow> heap" where
  "set_value ptr v h = h(ptr := (h ptr)\<lparr>e_value := v\<rparr>)"

lemma entry_of_set_value:
  assumes "wf_index py h m" and "p < SIZE_OF m" and "live m p"
    and "get_entry_at (n_index (slot m p)) m = Some ptr" and "q < SIZE_OF m" and "live m q"
  shows "entry_of (set_value ptr v h) m q =
           (if q = p then Some ((h ptr)\<lparr>e_value := v\<rparr>) else entry_of h m q)"
proof (cases "q = p")
  case True
  with assms(4) show ?thesis by (simp add: entry_of_def set_value_def)
next
  case False
  have al: "allocated m (n_index (slot m p))" "allocated m (n_index (slot m q))"
    using wf_node [OF assms(1)] assms by (auto simp: node_ok_def)
  have "get_entry_at (n_index (slot m q)) m \<noteq> Some ptr"
    using get_entry_at_inj [OF wf_pages [OF assms(1)] al(2,1)] wf_distinct [OF assms(1)] assms False
    by metis
  with False show ?thesis
    by (cases "get_entry_at (n_index (slot m q)) m") (auto simp: entry_of_def set_value_def)
qed

lemma holds_set_value:
  assumes "wf_index py h m" and "well_behaved_keys py" and "p < SIZE_OF m" and "holds py h m key p"
    and "get_entry_at (n_index (slot m p)) m = Some ptr" and "q < SIZE_OF m"
  shows "holds py (set_value ptr v h) m k q \<longleftrightarrow>
           (if q = p then v \<noteq> None \<and> same_key py key k else holds py h m k q)"
proof (cases "live m q")
  case False
  with assms(4) show ?thesis by (auto simp: holds_def)
next
  case True
  from assms(4) obtain e kk where e: "live m p" "entry_of h m p = Some e" "e_key e = Some kk"
    "same_key py kk key" by (blast elim: holdsD)
  from e(2) assms(5) have he: "h ptr = e" by (simp add: entry_of_def)
  have "same_key py kk k \<longleftrightarrow> same_key py key k"
    using e(4) assms(2) by (blast intro: same_key_trans same_key_sym)
  then show ?thesis
    using entry_of_set_value [OF assms(1,3) e(1) assms(5,6) True, of v] e he True
    by (auto simp: holds_def)
qed

lemma set_value_wf:
  assumes "wf_index py h m" and "well_behaved_keys py" and "p < SIZE_OF m" and "holds py h m key p"
    and "get_entry_at (n_index (slot m p)) m = Some ptr"
  shows "wf_index py (set_value ptr v h) m"
proof -
  note h = holds_set_value [OF assms]
  from assms(4) have live: "live m p" by (blast elim: holdsD)
  have node: "node_ok py (set_value ptr v h) m q" if q: "q < SIZE_OF m" "live m q" for q
  proof -
    from wf_node [OF assms(1) q] obtain e k where
      "allocated m (n_index (slot m q))" "entry_of h m q = Some e" "e_key e = Some k"
      "e_hash e = PyObject_Hash py k" "placed py m q (e_hash e)" unfolding node_ok_def by blast
    moreover have "h ptr = e" if "q = p" "entry_of h m q = Some e" for e
      using that assms(5) by (simp add: entry_of_def)
    ultimately show ?thesis
      unfolding node_ok_def using entry_of_set_value [OF assms(1,3) live assms(5) q, of v] by auto
  qed
  have unique: "a = b" if "a < SIZE_OF m" "b < SIZE_OF m" "holds py (set_value ptr v h) m k a"
    "holds py (set_value ptr v h) m k b" for k a b
  proof -
    have old: "holds py h m k p" if "same_key py key k"
      using assms(4) that assms(2) by (auto simp: holds_def split: option.splits intro: same_key_trans)
    from that h [of a v k] h [of b v k] have "holds py h m k a" "holds py h m k b"
      using old by (auto split: if_splits)
    with wf_unique [OF assms(1)] that show ?thesis by blast
  qed
  show ?thesis
    unfolding wf_index_def
    using node unique wf_log_size [OF assms(1)] wf_pages [OF assms(1)] wf_empty_slot [OF assms(1)]
      wf_distinct [OF assms(1)]
    by blast
qed

lemma set_value_map:
  assumes "wf_index py h m" and "well_behaved_keys py" and "p < SIZE_OF m" and "holds py h m key p"
    and "get_entry_at (n_index (slot m p)) m = Some ptr"
  shows "table_map py (set_value ptr v h) m k =
           (if same_key py key k then v else table_map py h m k)"
proof -
  note h = holds_set_value [OF assms] and wf = set_value_wf [OF assms, of v]
  from assms(4) have live: "live m p" by (blast elim: holdsD)
  have old: "holds py h m k p \<longleftrightarrow> same_key py key k"
    using assms(2,4) by (auto simp: holds_def split: option.splits intro: same_key_trans same_key_sym)
  show ?thesis
  proof (cases "same_key py key k")
    case True
    show ?thesis
    proof (cases v)
      case None
      have "\<not> holds py (set_value ptr v h) m k q" if "q < SIZE_OF m" for q
        using h [OF that, of v k] None old True wf_unique [OF assms(1,3) that, of k] by auto
      then show ?thesis using None True by (simp add: table_map_None)
    next
      case (Some w)
      then have "holds py (set_value ptr v h) m k p" using h [OF assms(3)] True by simp
      from table_map_holds [OF wf assms(3) this] entry_of_set_value [OF assms(1,3) live assms(5,3) live]
      show ?thesis using True by simp
    qed
  next
    case False
    have same: "holds py (set_value ptr v h) m k q = holds py h m k q" if "q < SIZE_OF m" for q
      using h [OF that, of v k] old False by auto
    show ?thesis
    proof (cases "\<exists>q<SIZE_OF m. holds py h m k q")
      case True
      then obtain q where q: "q < SIZE_OF m" "holds py h m k q" by blast
      then obtain e where e: "live m q" "entry_of h m q = Some e" by (blast elim: holdsD)
      from q(2) old False have "q \<noteq> p" by auto
      with entry_of_set_value [OF assms(1,3) live assms(5) q(1) e(1), of v] e(2)
      have e2: "entry_of (set_value ptr v h) m q = Some e" by simp
      from table_map_holds [OF wf q(1) _ e2, of k] table_map_holds [OF assms(1) q e(2)] same [OF q(1)]
        q(2) False
      show ?thesis by simp
    next
      case none: False
      then have "table_map py h m k = None" "table_map py (set_value ptr v h) m k = None"
        using same by (auto simp: table_map_None)
      with False show ?thesis by simp
    qed
  qed
qed

subsection \<open>Writing a new node\<close>

definition put_node :: "nat \<Rightarrow> node \<Rightarrow> meta \<Rightarrow> meta" where
  "put_node p nd m = m\<lparr>index := (index m)(p := n_node (compute_raw_node nd m))\<rparr>"

lemma put_node_same [simp]:
  "log_size (put_node p nd m) = log_size m" "pages (put_node p nd m) = pages m"
  "greatest_allocated_page (put_node p nd m) = greatest_allocated_page m"
  "SIZE_OF (put_node p nd m) = SIZE_OF m" "TAG_MASK (put_node p nd m) = TAG_MASK m"
  "log_size_ok (put_node p nd m) = log_size_ok m" "pages_ok (put_node p nd m) = pages_ok m"
  "allocated (put_node p nd m) = allocated m" "home py (put_node p nd m) = home py m"
  "get_entry_at ix (put_node p nd m) = get_entry_at ix m"
  by (simp_all add: put_node_def SIZE_OF_def TAG_MASK_def log_size_ok_def pages_ok_def page_count_def
      allocated_def fun_eq_iff home_def distance0_of_def get_entry_at_def)

lemma slot_put_node_other: "q \<noteq> p \<Longrightarrow> slot (put_node p nd m) q = slot m q"
  by (simp add: put_node_def slot_index_upd)

lemma entry_of_put_node_other: "q \<noteq> p \<Longrightarrow> entry_of h (put_node p nd m) q = entry_of h m q"
  by (simp add: entry_of_def slot_put_node_other)

lemma live_put_node_other: "q \<noteq> p \<Longrightarrow> live (put_node p nd m) q = live m q"
  by (simp add: live_iff slot_put_node_other)

lemma holds_put_node_other:
  "q \<noteq> p \<Longrightarrow> holds py h (put_node p nd m) k q = holds py h m k q"
  by (simp add: holds_def live_put_node_other entry_of_put_node_other)

lemma index_put_node: "index (put_node p nd m) q = (if q = p then n_node (compute_raw_node nd m) else index m q)"
  by (simp add: put_node_def)

text \<open>A write that leaves the slot occupied keeps every probe path.\<close>

lemma on_path_put_node:
  assumes "on_path py m hash k q" and "n_node (compute_raw_node nd m) \<noteq> 0"
  shows "on_path py (put_node p nd m) hash k q"
  using assms by (simp add: on_path_def index_put_node)

lemma node_ok_put_node_other:
  assumes "q \<noteq> p" and "node_ok py h m q" and "n_node (compute_raw_node nd m) \<noteq> 0"
  shows "node_ok py h (put_node p nd m) q"
  using assms by (auto simp: node_ok_def placed_def entry_of_put_node_other slot_put_node_other
      intro: on_path_put_node)

text \<open>The node that an insertion writes.\<close>

definition insert_node :: "pyenv \<Rightarrow> u64 \<Rightarrow> i64 \<Rightarrow> nat \<Rightarrow> node" where
  "insert_node py location hash distance =
     \<lparr>n_node = 0, n_index = location, n_tag = REHASH py hash, n_distance = of_nat distance\<rparr>"

text \<open>What must hold of a slot and an entry for the node to be written there.\<close>

definition insertable ::
  "pyenv \<Rightarrow> heap \<Rightarrow> meta \<Rightarrow> pyobj \<Rightarrow> u64 \<Rightarrow> entry_ptr \<Rightarrow> pyobj \<Rightarrow> nat \<Rightarrow> nat \<Rightarrow> bool" where
  "insertable py h m key location ptr v k p \<longleftrightarrow>
     on_path py m (PyObject_Hash py key) k p \<and> index m p = 0 \<and>
     (\<exists>q<SIZE_OF m. q \<noteq> p \<and> index m q = 0) \<and>
     location \<noteq> 0 \<and> unat location < SIZE_OF m \<and> allocated m location \<and>
     get_entry_at location m = Some ptr \<and>
     (\<forall>q<SIZE_OF m. live m q \<longrightarrow> n_index (slot m q) \<noteq> location) \<and>
     e_key (h ptr) = Some key \<and> e_hash (h ptr) = PyObject_Hash py key \<and> e_value (h ptr) = Some v \<and>
     (\<forall>q<SIZE_OF m. \<not> holds py h m key q)"

lemma slot_inserted:
  assumes "wf_index py h m" and "insertable py h m key location ptr v k p"
  shows "n_index (slot (put_node p (insert_node py location hash k) m) p) = location"
    and "n_tag (slot (put_node p (insert_node py location hash k) m) p) = REHASH py hash AND TAG_MASK m"
    and "n_distance (slot (put_node p (insert_node py location hash k) m) p) = stored_distance (of_nat k)"
    and "n_node (compute_raw_node (insert_node py location hash k) m) \<noteq> 0"
proof -
  from wf_log_size_le [OF assms(1)] have ls: "8 \<le> 64 - log_size m" by simp
  let ?nd = "insert_node py location hash k"
  have slot: "slot (put_node p ?nd m) p = parse_node_from_raw (n_node (compute_raw_node ?nd m)) m"
    by (simp add: put_node_def slot_index_upd)
  from assms(2) have loc: "unat location < SIZE_OF m" "location \<noteq> 0" by (auto simp: insertable_def)
  then show "n_index (slot (put_node p ?nd m) p) = location"
    unfolding slot using parse_index_compute [OF ls, of ?nd] by (simp add: insert_node_def SIZE_OF_def)
  show "n_tag (slot (put_node p ?nd m) p) = REHASH py hash AND TAG_MASK m"
    unfolding slot parse_tag_compute [OF ls] by (simp add: insert_node_def)
  show "n_distance (slot (put_node p ?nd m) p) = stored_distance (of_nat k)"
    unfolding slot parse_distance_compute [OF ls] by (simp add: insert_node_def)
  show "n_node (compute_raw_node ?nd m) \<noteq> 0"
    using loc by (intro parse_live_compute [OF ls]) (simp_all add: insert_node_def)
qed

lemma holds_inserted:
  assumes "wf_index py h m" and "insertable py h m key location ptr v k p"
  shows "holds py h (put_node p (insert_node py location (PyObject_Hash py key) k) m) key2 q \<longleftrightarrow>
           (if q = p then same_key py key key2 else holds py h m key2 q)"
proof (cases "q = p")
  case True
  from assms(2) have "location \<noteq> 0" "get_entry_at location m = Some ptr"
    "e_key (h ptr) = Some key" "e_value (h ptr) = Some v" by (auto simp: insertable_def)
  with True slot_inserted(1) [OF assms] show ?thesis by (simp add: holds_def live_iff entry_of_def)
qed (simp add: holds_put_node_other)

lemma insert_wf:
  assumes "wf_index py h m" and "well_behaved_keys py"
    and "insertable py h m key location ptr v k p"
  shows "wf_index py h (put_node p (insert_node py location (PyObject_Hash py key) k) m)"
proof -
  let ?m = "put_node p (insert_node py location (PyObject_Hash py key) k) m"
  note s = slot_inserted [OF assms(1,3), of "PyObject_Hash py key"]
  note ins = assms(3) [unfolded insertable_def]
  have node: "node_ok py h ?m q" if q: "q < SIZE_OF m" "live ?m q" for q
  proof (cases "q = p")
    case True
    from ins have "on_path py ?m (PyObject_Hash py key) k p" by (intro on_path_put_node s(4)) simp
    with s have "placed py ?m p (PyObject_Hash py key)" unfolding placed_def put_node_same by blast
    moreover have "entry_of h ?m p = Some (h ptr)" using s(1) ins by (simp add: entry_of_def)
    ultimately show ?thesis using True s(1) ins unfolding node_ok_def put_node_same by simp
  next
    case False
    with q have "live m q" by (simp add: live_put_node_other)
    with q wf_node [OF assms(1)] have "node_ok py h m q" by simp
    with False show ?thesis by (rule node_ok_put_node_other) (rule s(4))
  qed
  have distinct: "a = b" if ab: "a < SIZE_OF m" "b < SIZE_OF m" "live ?m a" "live ?m b"
    "n_index (slot ?m a) = n_index (slot ?m b)" for a b
  proof (cases "a = p"; cases "b = p")
    assume "a \<noteq> p" "b \<noteq> p"
    with ab show ?thesis
      using wf_distinct [OF assms(1)] by (simp add: slot_put_node_other live_put_node_other)
  next
    assume "a = p" "b \<noteq> p"
    with ab s(1) ins show ?thesis by (metis slot_put_node_other live_put_node_other)
  next
    assume "a \<noteq> p" "b = p"
    with ab s(1) ins show ?thesis by (metis slot_put_node_other live_put_node_other)
  qed simp
  have none: "\<not> holds py h m key2 q" if "q < SIZE_OF m" "same_key py key key2" for key2 q
  proof
    assume "holds py h m key2 q"
    with holds_cong [OF assms(2) that(2), of h m] have "holds py h m key q" by simp
    with that(1) ins show False by blast
  qed
  have unique: "a = b" if "a < SIZE_OF m" "b < SIZE_OF m" "holds py h ?m key2 a"
    "holds py h ?m key2 b" for key2 a b
  proof (cases "same_key py key key2")
    case True
    with that(3,4) none [OF that(1)] none [OF that(2)] show ?thesis
      unfolding holds_inserted [OF assms(1,3)] by metis
  next
    case False
    with that(3,4) wf_unique [OF assms(1) that(1,2)] show ?thesis
      unfolding holds_inserted [OF assms(1,3)] by metis
  qed
  have "\<exists>q<SIZE_OF m. index ?m q = 0"
    using ins by (metis index_put_node)
  then show ?thesis
    unfolding wf_index_def put_node_same
    using node distinct unique wf_log_size [OF assms(1)] wf_pages [OF assms(1)] by blast
qed

lemma insert_map:
  assumes "wf_index py h m" and "well_behaved_keys py"
    and "insertable py h m key location ptr v k p"
  shows "table_map py h (put_node p (insert_node py location (PyObject_Hash py key) k) m) key2 =
           (if same_key py key key2 then Some v else table_map py h m key2)"
proof -
  let ?m = "put_node p (insert_node py location (PyObject_Hash py key) k) m"
  note s = slot_inserted [OF assms(1,3), of "PyObject_Hash py key"]
  note ins = assms(3) [unfolded insertable_def]
  note wf = insert_wf [OF assms]
  have p: "p < SIZE_OF m" using ins by (auto simp: on_path_def)
  show ?thesis
  proof (cases "same_key py key key2")
    case True
    then have "holds py h ?m key2 p" by (simp add: holds_inserted [OF assms(1,3)])
    moreover have "entry_of h ?m p = Some (h ptr)" using s(1) ins by (simp add: entry_of_def)
    ultimately show ?thesis using table_map_holds [OF wf] p ins True by simp
  next
    case False
    have np: "holds py h ?m key2 q = holds py h m key2 q" if "q \<noteq> p" for q
      using that by (simp add: holds_put_node_other)
    have at: "\<not> holds py h ?m key2 p" "\<not> holds py h m key2 p"
      using False holds_inserted [OF assms(1,3)] ins by (auto simp: holds_def live_def is_empty_slot)
    show ?thesis
    proof (cases "\<exists>q<SIZE_OF m. holds py h m key2 q")
      case True
      then obtain q where q: "q < SIZE_OF m" "holds py h m key2 q" by blast
      with at have "q \<noteq> p" by auto
      obtain e where e: "entry_of h m q = Some e" using q(2) by (blast elim: holdsD)
      with \<open>q \<noteq> p\<close> have "entry_of h ?m q = Some e" by (simp add: entry_of_put_node_other)
      with table_map_holds [OF wf] table_map_holds [OF assms(1) q e] q np [OF \<open>q \<noteq> p\<close>] False
      show ?thesis by simp
    next
      case none: False
      then have "table_map py h m key2 = None" by (simp add: table_map_None)
      moreover have "table_map py h ?m key2 = None"
        using none np at unfolding table_map_None put_node_same by metis
      ultimately show ?thesis using False by simp
    qed
  qed
qed

subsection \<open>Writing a tombstone\<close>

lemma tombstone_slot:
  assumes "wf_index py h m"
  shows "\<not> live (put_node p (tombstone_node m) m) p"
    and "n_node (compute_raw_node (tombstone_node m) m) \<noteq> 0"
proof -
  from wf_log_size_le [OF assms] have ls: "log_size m < 56" by simp
  then show "n_node (compute_raw_node (tombstone_node m) m) \<noteq> 0"
    by (simp add: n_node_tombstone TAG_MASK_nonzero)
  show "\<not> live (put_node p (tombstone_node m) m) p"
    using ls TAG_MASK_no_index [of m]
    by (simp add: live_iff put_node_def slot_index_upd n_node_tombstone)
qed

lemma holds_tombstone:
  assumes "wf_index py h m" and "\<And>key. \<not> holds py h m key p"
  shows "holds py h (put_node p (tombstone_node m) m) key q = holds py h m key q"
proof (cases "q = p")
  case True
  with assms(2) tombstone_slot(1) [OF assms(1), of p] show ?thesis by (auto simp: holds_def)
next
  case False
  then show ?thesis by (simp add: holds_put_node_other)
qed

lemma tombstone_wf:
  assumes "wf_index py h m" and "p < SIZE_OF m" and "index m p \<noteq> 0"
    and none: "\<And>key. \<not> holds py h m key p"
  shows "wf_index py h (put_node p (tombstone_node m) m)"
proof -
  let ?m = "put_node p (tombstone_node m) m"
  note t = tombstone_slot [OF assms(1)]
  have other: "q \<noteq> p" if "live ?m q" for q using that t(1) by auto
  have "node_ok py h ?m q" if "q < SIZE_OF m" "live ?m q" for q
    using that other [OF that(2)] wf_node [OF assms(1), of q] t(2)
    by (auto simp: live_put_node_other intro: node_ok_put_node_other)
  moreover have "a = b" if "a < SIZE_OF m" "b < SIZE_OF m" "live ?m a" "live ?m b"
    "n_index (slot ?m a) = n_index (slot ?m b)" for a b
    using that other [OF that(3)] other [OF that(4)] wf_distinct [OF assms(1), of a b]
    by (simp add: slot_put_node_other live_put_node_other)
  moreover have "\<exists>q<SIZE_OF m. index ?m q = 0"
    using wf_empty_slot [OF assms(1)] assms(3) by (metis index_put_node)
  ultimately show ?thesis
    unfolding wf_index_def put_node_same
    using wf_log_size [OF assms(1)] wf_pages [OF assms(1)] wf_unique [OF assms(1)]
    by (simp add: holds_tombstone [OF assms(1) none])
qed

lemma tombstone_map:
  assumes "wf_index py h m" and "p < SIZE_OF m" and "index m p \<noteq> 0"
    and none: "\<And>key. \<not> holds py h m key p"
  shows "table_map py h (put_node p (tombstone_node m) m) = table_map py h m"
proof
  fix key
  let ?m = "put_node p (tombstone_node m) m"
  note h = holds_tombstone [OF assms(1) none]
  show "table_map py h ?m key = table_map py h m key"
  proof (cases "table_map py h m key")
    case None
    then have "table_map py h ?m key = None" by (simp add: table_map_None h)
    with None show ?thesis by simp
  next
    case (Some v)
    then obtain q e where q: "q < SIZE_OF m" "holds py h m key q" "entry_of h m q = Some e"
      by (auto simp: table_map_Some [OF assms(1)])
    with none have "q \<noteq> p" by auto
    with q table_map_holds [OF assms(1) q] table_map_holds [OF tombstone_wf [OF assms], of q key e]
    show ?thesis by (simp add: h entry_of_put_node_other)
  qed
qed

end
