(* ===== verification/Migrate.thy ===== *)
theory Migrate
  imports IndexUpdate
begin

text \<open>
  Migration of the nodes of one generation of the index to the next, which is twice as large, from
  \<^verbatim>\<open>src/src/cereggii/atomic_dict/resize.c\<close>.

  The old index is cut into blocks of 4096 slots.  Whoever migrates a block starts at its first empty
  slot and goes on past its end until the next empty slot, so that every cluster of occupied slots is
  migrated by one participant, who owns twice that range in the new index.  Positions of the old index
  are counted on past its size when a cluster wraps around.

  The theory defines the functions and shows that a migrated range of the old index is represented in
  the corresponding range of the new one (\<open>region_ok\<close>), which the neighbouring ranges do not
  disturb; the whole index is the composition of its ranges.  The arguments of
  \<open>migrate_node\<close> that only its debugging assertion uses (the bounds of the cluster) are left
  out.
\<close>

subsection \<open>The functions\<close>

definition ATOMIC_DICT_BLOCKWISE_MIGRATE_SIZE :: nat where
  "ATOMIC_DICT_BLOCKWISE_MIGRATE_SIZE = 4096"

definition size_mask :: "meta \<Rightarrow> u64" where
  "size_mask m = of_nat (SIZE_OF m) - 1"

definition migrate_node_d0 :: "pyenv \<Rightarrow> heap \<Rightarrow> node \<Rightarrow> u64 \<Rightarrow> meta \<Rightarrow> meta \<Rightarrow> u64 option" where
  "migrate_node_d0 py h nd current_pos cur new =
     (if n_distance nd < of_nat UINT8_MAX
      then Some (push_bit 1 (current_pos - n_distance nd) + drop_bit (NODE_SIZE - log_size cur - 1) (n_tag nd))
      else
        (case get_entry_at (n_index nd) new of
           None \<Rightarrow> None
         | Some p \<Rightarrow> Some (distance0_of py (e_hash (h p)) new)))"

function migrate_node_from :: "node \<Rightarrow> u64 \<Rightarrow> nat \<Rightarrow> meta \<Rightarrow> meta" where
  "migrate_node_from nd d0 distance new =
     (if distance < SIZE_OF new then
        (let position = (d0 + of_nat distance) AND size_mask new in
         if read_raw_node_at position new = 0
         then write_node_at position (nd\<lparr>n_distance := of_nat distance\<rparr>) new
         else migrate_node_from nd d0 (Suc distance) new)
      else new)"
  by pat_completeness auto
termination
  by (relation "measure (\<lambda>(nd, d0, distance, new). SIZE_OF new - distance)") auto

declare migrate_node_from.simps [simp del]

definition migrate_node :: "pyenv \<Rightarrow> heap \<Rightarrow> node \<Rightarrow> u64 \<Rightarrow> meta \<Rightarrow> meta \<Rightarrow> meta option" where
  "migrate_node py h nd current_pos cur new =
     (case migrate_node_d0 py h nd current_pos cur new of
        None \<Rightarrow> None
      | Some d0 \<Rightarrow> Some (migrate_node_from nd d0 0 new))"

text \<open>Zeroing the slots that belong to the old slots from \<open>start\<close> to \<open>stop\<close>, both included.\<close>

definition initialize_in_new_meta :: "meta \<Rightarrow> nat \<Rightarrow> nat \<Rightarrow> meta" where
  "initialize_in_new_meta new start stop =
     (let mapped_start = of_nat (2 * start) :: u64; mapped_end = of_nat (2 * (stop + 1)) :: u64 in
      if mapped_start = mapped_start AND size_mask new \<and> mapped_end = mapped_end AND size_mask new
      then new\<lparr>index := (\<lambda>j. if unat mapped_start \<le> j \<and> j < unat mapped_end then 0 else index new j)\<rparr>
      else fold (\<lambda>j new. write_raw_node_at (of_nat j AND size_mask new) 0 new)
             [unat mapped_start..<unat mapped_end] new)"

function first_empty :: "meta \<Rightarrow> nat \<Rightarrow> nat \<Rightarrow> nat" where
  "first_empty cur i end_of_block =
     (if i < end_of_block then
        if read_raw_node_at (of_nat i) cur = 0 then i
        else first_empty cur (Suc i) end_of_block
      else i)"
  by pat_completeness auto
termination
  by (relation "measure (\<lambda>(cur, i, end_of_block). end_of_block - i)") auto

declare first_empty.simps [simp del]

function migrate_until ::
  "pyenv \<Rightarrow> heap \<Rightarrow> meta \<Rightarrow> nat \<Rightarrow> nat \<Rightarrow> meta \<Rightarrow> int \<Rightarrow> (meta \<times> int) option" where
  "migrate_until py h cur i end_of_block new migrated_count =
     (if i < end_of_block then
        (let nd = read_node_at (of_nat i) cur in
         if is_empty nd \<or> is_tombstone nd
         then migrate_until py h cur (Suc i) end_of_block new migrated_count
         else
           (case migrate_node py h nd (of_nat i) cur new of
              None \<Rightarrow> None
            | Some new \<Rightarrow> migrate_until py h cur (Suc i) end_of_block new (migrated_count + 1)))
      else Some (new, migrated_count))"
  by pat_completeness auto
termination
  by (relation "measure (\<lambda>(py, h, cur, i, end_of_block, new, c). end_of_block - i)") auto

declare migrate_until.simps [simp del]

partial_function (option) end_of_cluster :: "meta \<Rightarrow> nat \<Rightarrow> nat option" where
  "end_of_cluster cur j =
     (if is_empty (read_node_at (of_nat j) cur) then Some j else end_of_cluster cur (Suc j))"

partial_function (option) migrate_trailing ::
  "pyenv \<Rightarrow> heap \<Rightarrow> meta \<Rightarrow> nat \<Rightarrow> meta \<Rightarrow> int \<Rightarrow> (meta \<times> int) option" where
  "migrate_trailing py h cur i new migrated_count =
     (let nd = read_node_at (of_nat i) cur in
      if is_empty nd then Some (new, migrated_count)
      else if is_tombstone nd then migrate_trailing py h cur (Suc i) new migrated_count
      else
        (case migrate_node py h nd (of_nat i) cur new of
           None \<Rightarrow> None
         | Some new \<Rightarrow> migrate_trailing py h cur (Suc i) new (migrated_count + 1)))"

definition end_of_block :: "meta \<Rightarrow> nat \<Rightarrow> nat" where
  "end_of_block cur start = min (start + ATOMIC_DICT_BLOCKWISE_MIGRATE_SIZE) (SIZE_OF cur)"

definition block_wise_migrate ::
  "pyenv \<Rightarrow> heap \<Rightarrow> meta \<Rightarrow> meta \<Rightarrow> nat \<Rightarrow> (meta \<times> int) option" where
  "block_wise_migrate py h cur new start_of_block =
     (let stop = end_of_block cur start_of_block;
          i = first_empty cur start_of_block stop in
      if i \<ge> stop then Some (new, 0)
      else
        (let new = initialize_in_new_meta new i stop in
         case migrate_until py h cur i stop new 0 of
           None \<Rightarrow> None
         | Some (new, migrated_count) \<Rightarrow>
             (case end_of_cluster cur stop of
                None \<Rightarrow> None
              | Some j \<Rightarrow>
                  if j > stop
                  then migrate_trailing py h cur stop (initialize_in_new_meta new stop (j - 1)) migrated_count
                  else Some (new, migrated_count))))"

text \<open>
  A participant takes blocks until none is left.  \<open>node_to_migrate\<close> is fetched and advanced
  atomically.
\<close>

definition fetch_block :: "meta \<Rightarrow> nat \<times> meta" where
  "fetch_block cur =
     (node_to_migrate cur,
      cur\<lparr>node_to_migrate := node_to_migrate cur + ATOMIC_DICT_BLOCKWISE_MIGRATE_SIZE\<rparr>)"

function migrate_nodes_from ::
  "pyenv \<Rightarrow> heap \<Rightarrow> meta \<Rightarrow> meta \<Rightarrow> int \<Rightarrow> (meta \<times> meta \<times> int) option" where
  "migrate_nodes_from py h cur new migrated_count =
     (case fetch_block cur of
        (block, cur) \<Rightarrow>
          if block < SIZE_OF cur then
            (case block_wise_migrate py h cur new block of
               None \<Rightarrow> None
             | Some (new, n) \<Rightarrow> migrate_nodes_from py h cur new (migrated_count + n))
          else Some (cur, new, migrated_count))"
  by pat_completeness auto
termination
  by (relation "measure (\<lambda>(py, h, cur, new, n). SIZE_OF cur - node_to_migrate cur)")
    (auto simp: fetch_block_def ATOMIC_DICT_BLOCKWISE_MIGRATE_SIZE_def SIZE_OF_def)

declare migrate_nodes_from.simps [simp del]

definition migrate_nodes :: "pyenv \<Rightarrow> heap \<Rightarrow> meta \<Rightarrow> meta \<Rightarrow> (meta \<times> meta \<times> int) option" where
  "migrate_nodes py h cur new = migrate_nodes_from py h cur new 0"

definition nodes_migration_done :: "meta \<Rightarrow> bool" where
  "nodes_migration_done cur \<longleftrightarrow> (\<forall>p \<in> set (case participants cur of None \<Rightarrow> [] | Some ps \<Rightarrow> ps). p \<noteq> 1)"

subsection \<open>The two generations\<close>

text \<open>
  What the leader establishes before the migration: the new generation is twice as large and has the
  pages of the old one; its index is whatever memory it was allocated in.
\<close>

definition next_generation :: "meta \<Rightarrow> meta \<Rightarrow> bool" where
  "next_generation cur new \<longleftrightarrow>
     log_size new = Suc (log_size cur) \<and> log_size new \<le> 30 \<and>
     greatest_allocated_page new = greatest_allocated_page cur \<and>
     (\<forall>i \<le> nat (greatest_allocated_page cur). pages new i = pages cur i)"

lemma next_generation_size: "next_generation cur new \<Longrightarrow> SIZE_OF new = 2 * SIZE_OF cur"
  by (simp add: next_generation_def SIZE_OF_def)

lemma next_generation_entry:
  assumes "next_generation cur new" and "allocated cur ix"
  shows "allocated new ix" and "get_entry_at ix new = get_entry_at ix cur"
  using assms by (auto simp: next_generation_def allocated_def get_entry_at_def)

lemma size_mask_eq: "size_mask m = mask (log_size m)"
  by (simp add: size_mask_def SIZE_OF_def mask_eq_decr_exp)

lemma unat_and_size_mask: "unat (w AND size_mask m) = unat w mod SIZE_OF m"
  by (simp add: size_mask_eq unat_and_mask SIZE_OF_def)

lemma read_raw_node_at_mod:
  "log_size m \<le> 30 \<Longrightarrow> read_raw_node_at w m = index m (unat w mod SIZE_OF m)"
  by (simp add: read_raw_node_at_def unat_and_index_mask)

lemma unat_of_nat_mod_size:
  assumes "log_size m \<le> 30"
  shows "unat (of_nat i :: u64) mod SIZE_OF m = i mod SIZE_OF m"
  using mod_add_word [of "log_size m" 0 i] assms by (simp add: SIZE_OF_def)

lemma read_node_at_nat:
  assumes "log_size m \<le> 30"
  shows "read_node_at (of_nat i) m = slot m (i mod SIZE_OF m)"
  using read_node_at_slot [OF assms, of 0 i] by simp

lemma write_node_at_put: "write_node_at ix nd m = put_node (unat ix) nd m"
  by (simp add: write_node_at_def write_raw_node_at_def put_node_def)

subsection \<open>Probing the new index\<close>

lemma migrate_node_from_finds:
  assumes le: "log_size new \<le> 30" and start: "unat d0 mod SIZE_OF new = a mod SIZE_OF new"
    and "\<forall>j<k. index new ((a + j) mod SIZE_OF new) \<noteq> 0" and "index new ((a + k) mod SIZE_OF new) = 0"
    and "k < SIZE_OF new" and "i \<le> k"
  shows "migrate_node_from nd d0 i new =
           put_node ((a + k) mod SIZE_OF new) (nd\<lparr>n_distance := of_nat k\<rparr>) new"
  using assms(6)
proof (induction "k - i" arbitrary: i)
  case 0
  then have "i = k" by simp
  have pos: "unat ((d0 + of_nat k) AND size_mask new) = (a + k) mod SIZE_OF new"
  proof -
    have "unat ((d0 + of_nat k) AND size_mask new) = (unat d0 + k) mod SIZE_OF new"
      using mod_add_word [of "log_size new" d0 k] le by (simp add: unat_and_size_mask SIZE_OF_def)
    with start show ?thesis by (metis mod_add_left_eq)
  qed
  with assms(4,5) le \<open>i = k\<close> show ?case
    by (subst migrate_node_from.simps) (simp add: Let_def read_raw_node_at_mod write_node_at_put)
next
  case (Suc n)
  then have "i < k" by simp
  have pos: "unat ((d0 + of_nat i) AND size_mask new) = (a + i) mod SIZE_OF new"
  proof -
    have "unat ((d0 + of_nat i) AND size_mask new) = (unat d0 + i) mod SIZE_OF new"
      using mod_add_word [of "log_size new" d0 i] le by (simp add: unat_and_size_mask SIZE_OF_def)
    with start show ?thesis by (metis mod_add_left_eq)
  qed
  with assms(3,5) le \<open>i < k\<close>
  have "migrate_node_from nd d0 i new = migrate_node_from nd d0 (Suc i) new"
    by (subst migrate_node_from.simps) (simp add: Let_def read_raw_node_at_mod)
  with Suc.hyps(1) [of "Suc i"] Suc.hyps(2) \<open>i < k\<close> show ?case by simp
qed

subsection \<open>The home of a node in the new index\<close>

lemma cluster_home:
  assumes wf: "wf_index py h cur" and e: "index cur (e mod SIZE_OF cur) = 0"
    and live: "live cur (q mod SIZE_OF cur)" and q: "e \<le> q" "q < e + SIZE_OF cur"
  obtains en key k where "entry_of h cur (q mod SIZE_OF cur) = Some en" and "e_key en = Some key"
    and "e_hash en = PyObject_Hash py key" and "allocated cur (n_index (slot cur (q mod SIZE_OF cur)))"
    and "e < q - k" and "k \<le> q" and "k < SIZE_OF cur"
    and "(q - k) mod SIZE_OF cur = home py cur (e_hash en)"
    and "n_distance (slot cur (q mod SIZE_OF cur)) = stored_distance (of_nat k)"
    and "n_tag (slot cur (q mod SIZE_OF cur)) = REHASH py (e_hash en) AND TAG_MASK cur"
proof -
  let ?N = "SIZE_OF cur"
  have "q mod ?N < ?N" by simp
  from wf_node [OF wf this live] obtain en key where en: "entry_of h cur (q mod ?N) = Some en"
    "e_key en = Some key" "e_hash en = PyObject_Hash py key" "placed py cur (q mod ?N) (e_hash en)"
    "allocated cur (n_index (slot cur (q mod ?N)))"
    unfolding node_ok_def by blast
  then obtain k where k: "on_path py cur (e_hash en) k (q mod ?N)"
    "n_distance (slot cur (q mod ?N)) = stored_distance (of_nat k)"
    "n_tag (slot cur (q mod ?N)) = REHASH py (e_hash en) AND TAG_MASK cur"
    unfolding placed_def by blast
  let ?h = "home py cur (e_hash en)"
  from k(1) have kN: "k < ?N" and qk: "q mod ?N = (?h + k) mod ?N"
    and occ: "\<And>j. j < k \<Longrightarrow> index cur ((?h + j) mod ?N) \<noteq> 0" unfolding on_path_def by auto
  have "e \<noteq> q" using live e live_not_empty by blast
  have less: "k < q - e"
  proof (rule ccontr)
    assume "\<not> k < q - e"
    then have "q - e \<le> k" by simp
    define j where "j = k - (q - e)"
    have "j < k" using \<open>q - e \<le> k\<close> \<open>e \<noteq> q\<close> q(1) by (simp add: j_def)
    have eqs: "(q - e) + e = q" "(q - e) + (?h + j) = ?h + k"
      using q(1) \<open>q - e \<le> k\<close> by (simp_all add: j_def)
    have "((q - e) + e) mod ?N = ((q - e) + (?h + j)) mod ?N" by (simp only: eqs qk)
    then have "int ((q - e) + e) mod int ?N = int ((q - e) + (?h + j)) mod int ?N"
      by (metis of_nat_mod)
    then have "(int (q - e) + int e) mod int ?N = (int (q - e) + int (?h + j)) mod int ?N" by simp
    from mod_add_left_imp [OF this] have "e mod ?N = (?h + j) mod ?N"
      by (metis of_nat_eq_iff of_nat_mod)
    with occ [OF \<open>j < k\<close>] e show False by simp
  qed
  have hq: "(q - k) mod ?N = ?h"
  proof -
    have "k + (q - k) = q" using less by simp
    then have "(k + (q - k)) mod ?N = (k + ?h) mod ?N" using qk by (simp add: ac_simps)
    then have "(int k + int (q - k)) mod int ?N = (int k + int ?h) mod int ?N"
      by (metis of_nat_add of_nat_mod)
    from mod_add_left_imp [OF this] have "(q - k) mod ?N = ?h mod ?N"
      by (metis of_nat_eq_iff of_nat_mod)
    with home_lt [OF wf_log_size_le [OF wf]] show ?thesis by simp
  qed
  show thesis by (rule that [OF en(1,2,3,5) _ _ kN hq k(2,3)]) (use less in simp_all)
qed

text \<open>The position, counted in the range of the cluster, from which a node is probed in the new index.\<close>

definition new_home :: "pyenv \<Rightarrow> meta \<Rightarrow> i64 \<Rightarrow> nat \<Rightarrow> nat" where
  "new_home py cur hash p = 2 * p + of_bool (bit (REHASH py hash) (63 - log_size cur))"

lemma new_home_mod:
  assumes "next_generation cur new" and "p mod SIZE_OF cur = home py cur hash"
  shows "new_home py cur hash p mod SIZE_OF new = home py new hash"
proof -
  from assms(1) have ls: "log_size new = Suc (log_size cur)" "log_size cur < 64" "log_size new \<le> 30"
    by (auto simp: next_generation_def)
  have double: "home py new hash = new_home py cur hash (home py cur hash)"
    unfolding home_def new_home_def by (rule distance0_double [OF ls(1,2)])
  have split: "p = SIZE_OF cur * (p div SIZE_OF cur) + home py cur hash"
    using assms(2) by (metis mult_div_mod_eq)
  have "new_home py cur hash p = SIZE_OF new * (p div SIZE_OF cur) + home py new hash"
    unfolding double new_home_def next_generation_size [OF assms(1)] by (subst split) (simp add: algebra_simps)
  moreover have "home py new hash < SIZE_OF new" by (rule home_lt [OF ls(3)])
  ultimately show ?thesis by simp
qed

lemma tag_displacement:
  assumes "log_size m \<le> 30"
  shows "drop_bit (NODE_SIZE - log_size m - 1) (w AND TAG_MASK m) =
           (of_bool (bit w (63 - log_size m)) :: u64)"
proof (rule bit_word_eqI)
  fix n assume "n < LENGTH(64)"
  have idx: "NODE_SIZE - log_size m - 1 = 63 - log_size m" by (simp add: NODE_SIZE_def)
  show "bit (drop_bit (NODE_SIZE - log_size m - 1) (w AND TAG_MASK m)) n \<longleftrightarrow>
      bit (of_bool (bit w (63 - log_size m)) :: u64) n"
    unfolding idx using assms by (cases n) (auto simp: bit_simps bit_TAG_MASK)
qed

lemma stored_distance_small:
  assumes "k < 2 ^ 31"
  shows "stored_distance (of_nat k) = of_nat (min k 255)" and
    "of_nat (min k 255) < (of_nat UINT8_MAX :: u64) \<longleftrightarrow> k < 255"
proof -
  from assms have k: "unat (of_nat k :: u64) = k" by (simp add: unat_of_nat)
  have m: "unat (of_nat (min k 255) :: u64) = min k 255" by (simp add: unat_of_nat)
  show "stored_distance (of_nat k) = of_nat (min k 255)"
    by (auto simp: stored_distance_def UINT8_MAX_def word_less_nat_alt k min_def)
  show "of_nat (min k 255) < (of_nat UINT8_MAX :: u64) \<longleftrightarrow> k < 255"
    unfolding word_less_nat_alt m by (auto simp: UINT8_MAX_def min_def)
qed

lemma migrate_node_d0_correct:
  assumes gen: "next_generation cur new" and en: "entry_of h cur p = Some en"
    and al: "allocated cur (n_index (slot cur p))" and k: "k \<le> q" "k < SIZE_OF cur"
    and home: "(q - k) mod SIZE_OF cur = home py cur (e_hash en)"
    and dist: "n_distance (slot cur p) = stored_distance (of_nat k)"
    and tag: "n_tag (slot cur p) = REHASH py (e_hash en) AND TAG_MASK cur"
  obtains w where "migrate_node_d0 py h (slot cur p) (of_nat q) cur new = Some w"
    and "unat w mod SIZE_OF new = new_home py cur (e_hash en) (q - k) mod SIZE_OF new"
proof -
  from gen have le: "log_size cur \<le> 30" "log_size new \<le> 30" by (auto simp: next_generation_def)
  have "SIZE_OF cur \<le> 2 ^ 30" unfolding SIZE_OF_def using le(1) by (intro power_increasing) auto
  with k(2) have k31: "k < 2 ^ 31" by simp
  note sd = stored_distance_small [OF k31]
  show thesis
  proof (cases "k < 255")
    case True
    with sd dist have d: "n_distance (slot cur p) = of_nat k" by simp
    have "migrate_node_d0 py h (slot cur p) (of_nat q) cur new =
        Some (of_nat (new_home py cur (e_hash en) (q - k)))"
    proof -
      have "(of_nat q - of_nat k :: u64) = of_nat (q - k)" using k(1) by simp
      moreover have "n_distance (slot cur p) < of_nat UINT8_MAX"
        using sd(2) True unfolding d by simp
      ultimately show ?thesis
        using tag_displacement [OF le(1)]
        by (simp add: migrate_node_d0_def tag d new_home_def of_nat_mult del: of_nat_diff)
    qed
    then show thesis using unat_of_nat_mod_size [OF le(2)] by (rule that)
  next
    case False
    from en obtain ptr where ptr: "get_entry_at (n_index (slot cur p)) cur = Some ptr" "h ptr = en"
      by (auto simp: entry_of_def)
    have "\<not> n_distance (slot cur p) < of_nat UINT8_MAX" using False sd dist by simp
    with ptr next_generation_entry(2) [OF gen al]
    have "migrate_node_d0 py h (slot cur p) (of_nat q) cur new = Some (distance0_of py (e_hash en) new)"
      by (simp add: migrate_node_d0_def)
    moreover have "unat (distance0_of py (e_hash en) new) mod SIZE_OF new =
        new_home py cur (e_hash en) (q - k) mod SIZE_OF new"
      using new_home_mod [OF gen home] home_lt [OF le(2)] by (simp add: home_def)
    ultimately show thesis by (rule that)
  qed
qed

subsection \<open>A migrated range\<close>

text \<open>
  \<open>migrated_to q u\<close>: the node of the old slot \<open>q\<close> stands at the new slot \<open>u\<close>, on the
  probe path of its hash.  \<open>region_ok e q\<close>: the new slots from \<open>2 * e\<close> to \<open>2 * q\<close> hold
  exactly the live nodes of the old slots from \<open>e\<close> to \<open>q\<close>.
\<close>

definition migrated_to ::
  "pyenv \<Rightarrow> heap \<Rightarrow> meta \<Rightarrow> meta \<Rightarrow> nat \<Rightarrow> nat \<Rightarrow> nat \<Rightarrow> bool" where
  "migrated_to py h cur new e q u \<longleftrightarrow>
     (\<exists>en d0. entry_of h cur (q mod SIZE_OF cur) = Some en \<and>
        d0 mod SIZE_OF new = home py new (e_hash en) \<and> 2 * Suc e \<le> d0 \<and> d0 \<le> u \<and> u < 2 * Suc q \<and>
        n_index (slot new (u mod SIZE_OF new)) = n_index (slot cur (q mod SIZE_OF cur)) \<and>
        n_tag (slot new (u mod SIZE_OF new)) = REHASH py (e_hash en) AND TAG_MASK new \<and>
        n_distance (slot new (u mod SIZE_OF new)) = stored_distance (of_nat (u - d0)) \<and>
        (\<forall>w. d0 \<le> w \<longrightarrow> w \<le> u \<longrightarrow> index new (w mod SIZE_OF new) \<noteq> 0))"

definition region_ok :: "pyenv \<Rightarrow> heap \<Rightarrow> meta \<Rightarrow> meta \<Rightarrow> nat \<Rightarrow> nat \<Rightarrow> bool" where
  "region_ok py h cur new e q \<longleftrightarrow>
     (\<forall>r. e \<le> r \<longrightarrow> r < q \<longrightarrow> live cur (r mod SIZE_OF cur) \<longrightarrow> (\<exists>u. migrated_to py h cur new e r u)) \<and>
     (\<forall>u. 2 * e \<le> u \<longrightarrow> u < 2 * q \<longrightarrow> index new (u mod SIZE_OF new) \<noteq> 0 \<longrightarrow>
        (\<exists>r. e \<le> r \<and> r < q \<and> live cur (r mod SIZE_OF cur) \<and> migrated_to py h cur new e r u)) \<and>
     (\<forall>u v. 2 * e \<le> u \<longrightarrow> u < 2 * q \<longrightarrow> 2 * e \<le> v \<longrightarrow> v < 2 * q \<longrightarrow>
        index new (u mod SIZE_OF new) \<noteq> 0 \<longrightarrow> index new (v mod SIZE_OF new) \<noteq> 0 \<longrightarrow>
        n_index (slot new (u mod SIZE_OF new)) = n_index (slot new (v mod SIZE_OF new)) \<longrightarrow> u = v)"

definition zero_range :: "meta \<Rightarrow> nat \<Rightarrow> nat \<Rightarrow> bool" where
  "zero_range new a b \<longleftrightarrow> (\<forall>u. a \<le> u \<longrightarrow> u < b \<longrightarrow> index new (u mod SIZE_OF new) = 0)"

lemma zero_rangeD: "zero_range new a b \<Longrightarrow> a \<le> u \<Longrightarrow> u < b \<Longrightarrow> index new (u mod SIZE_OF new) = 0"
  by (simp add: zero_range_def)

lemma zero_range_sub: "zero_range new a b \<Longrightarrow> a \<le> a' \<Longrightarrow> b' \<le> b \<Longrightarrow> zero_range new a' b'"
  by (simp add: zero_range_def)

lemma region_okD:
  assumes "region_ok py h cur new e q"
  shows "\<And>r. e \<le> r \<Longrightarrow> r < q \<Longrightarrow> live cur (r mod SIZE_OF cur) \<Longrightarrow> \<exists>u. migrated_to py h cur new e r u"
    and "\<And>u. 2 * e \<le> u \<Longrightarrow> u < 2 * q \<Longrightarrow> index new (u mod SIZE_OF new) \<noteq> 0 \<Longrightarrow>
        \<exists>r. e \<le> r \<and> r < q \<and> live cur (r mod SIZE_OF cur) \<and> migrated_to py h cur new e r u"
    and "\<And>u v. 2 * e \<le> u \<Longrightarrow> u < 2 * q \<Longrightarrow> 2 * e \<le> v \<Longrightarrow> v < 2 * q \<Longrightarrow>
        index new (u mod SIZE_OF new) \<noteq> 0 \<Longrightarrow> index new (v mod SIZE_OF new) \<noteq> 0 \<Longrightarrow>
        n_index (slot new (u mod SIZE_OF new)) = n_index (slot new (v mod SIZE_OF new)) \<Longrightarrow> u = v"
  using assms unfolding region_ok_def by blast+

lemma region_ok_start: "region_ok py h cur new e e"
  by (simp add: region_ok_def)

text \<open>Positions of a range no longer than the table are distinct slots.\<close>

lemma mod_window:
  assumes "u mod n = v mod n" and "a \<le> u" and "u < b" and "a \<le> v" and "v < b" and "b \<le> a + (n::nat)"
  shows "u = v"
proof -
  have "(a + (u - a)) mod n = (a + (v - a)) mod n" using assms by simp
  from ring_inj [OF this] assms have "u - a = v - a" by simp
  with assms show ?thesis by simp
qed

text \<open>An old slot that holds no live node adds nothing.\<close>

lemma region_skip:
  assumes "region_ok py h cur new e q" and "zero_range new (2 * q) (2 * Suc q)"
    and "\<not> live cur (q mod SIZE_OF cur)"
  shows "region_ok py h cur new e (Suc q)"
proof -
  note r = region_okD [OF assms(1)]
  have low: "u < 2 * q" if "u < 2 * Suc q" "index new (u mod SIZE_OF new) \<noteq> 0" for u
    using that zero_rangeD [OF assms(2), of u] by (cases "2 * q \<le> u") auto
  show ?thesis
    unfolding region_ok_def
  proof (intro conjI allI impI)
    fix t assume "e \<le> t" "t < Suc q" "live cur (t mod SIZE_OF cur)"
    with assms(3) have "t < q" by (metis less_Suc_eq)
    with r(1) show "\<exists>u. migrated_to py h cur new e t u" using \<open>e \<le> t\<close> \<open>live cur (t mod SIZE_OF cur)\<close> by blast
  next
    fix u assume "2 * e \<le> u" "u < 2 * Suc q" "index new (u mod SIZE_OF new) \<noteq> 0"
    with r(2) low show "\<exists>t. e \<le> t \<and> t < Suc q \<and> live cur (t mod SIZE_OF cur) \<and> migrated_to py h cur new e t u"
      by (meson less_SucI)
  next
    fix u v assume "2 * e \<le> u" "u < 2 * Suc q" "2 * e \<le> v" "v < 2 * Suc q"
      "index new (u mod SIZE_OF new) \<noteq> 0" "index new (v mod SIZE_OF new) \<noteq> 0"
      "n_index (slot new (u mod SIZE_OF new)) = n_index (slot new (v mod SIZE_OF new))"
    with r(3) low show "u = v" by blast
  qed
qed

text \<open>Writing a node into an empty slot keeps what the other slots stand for.\<close>

lemma migrated_to_write:
  assumes "migrated_to py h cur new e r v" and "index new p = 0"
    and "n_node (compute_raw_node nd new) \<noteq> 0"
  shows "migrated_to py h cur (put_node p nd new) e r v"
proof -
  from assms(1) obtain en d0 where m: "entry_of h cur (r mod SIZE_OF cur) = Some en"
    "d0 mod SIZE_OF new = home py new (e_hash en)" "2 * Suc e \<le> d0" "d0 \<le> v" "v < 2 * Suc r"
    "n_index (slot new (v mod SIZE_OF new)) = n_index (slot cur (r mod SIZE_OF cur))"
    "n_tag (slot new (v mod SIZE_OF new)) = REHASH py (e_hash en) AND TAG_MASK new"
    "n_distance (slot new (v mod SIZE_OF new)) = stored_distance (of_nat (v - d0))"
    "\<forall>w. d0 \<le> w \<longrightarrow> w \<le> v \<longrightarrow> index new (w mod SIZE_OF new) \<noteq> 0"
    unfolding migrated_to_def by blast
  from m(4,9) assms(2) have "v mod SIZE_OF new \<noteq> p" by auto
  with m assms(3) show ?thesis
    unfolding migrated_to_def put_node_same
    by (intro exI [of _ en] exI [of _ d0]) (simp add: slot_put_node_other index_put_node)
qed

lemma TAG_MASK_next:
  assumes "next_generation cur new"
  shows "(w AND TAG_MASK cur) AND TAG_MASK new = w AND TAG_MASK new"
  using assms by (intro bit_word_eqI) (auto simp: next_generation_def bit_simps bit_TAG_MASK)

lemma slot_migrated:
  assumes gen: "next_generation cur new" and live: "live cur p"
    and tag: "n_tag (slot cur p) = t AND TAG_MASK cur"
  shows "n_index (slot (put_node i ((slot cur p)\<lparr>n_distance := d\<rparr>) new) i) = n_index (slot cur p)"
    and "n_tag (slot (put_node i ((slot cur p)\<lparr>n_distance := d\<rparr>) new) i) = t AND TAG_MASK new"
    and "n_distance (slot (put_node i ((slot cur p)\<lparr>n_distance := d\<rparr>) new) i) = stored_distance d"
    and "n_node (compute_raw_node ((slot cur p)\<lparr>n_distance := d\<rparr>) new) \<noteq> 0"
proof -
  let ?nd = "(slot cur p)\<lparr>n_distance := d\<rparr>"
  from gen have ls: "8 \<le> 64 - log_size new" "log_size cur \<le> 64" "log_size cur < log_size new"
    by (auto simp: next_generation_def)
  have "unat (n_index (slot cur p)) < 2 ^ log_size cur"
    using unat_drop_bit_lt [OF ls(2)] by (simp add: slot_def parse_node_from_raw_def NODE_SIZE_def)
  also have "\<dots> < 2 ^ log_size new" using ls(3) by simp
  finally have lt: "unat (n_index ?nd) < 2 ^ log_size new" by simp
  have slot: "slot (put_node i ?nd new) i = parse_node_from_raw (n_node (compute_raw_node ?nd new)) new"
    by (simp add: put_node_def slot_index_upd)
  show "n_index (slot (put_node i ?nd new) i) = n_index (slot cur p)"
    unfolding slot parse_index_compute [OF ls(1) lt] by simp
  show "n_tag (slot (put_node i ?nd new) i) = t AND TAG_MASK new"
    unfolding slot parse_tag_compute [OF ls(1)] by (simp add: tag TAG_MASK_next [OF gen])
  show "n_distance (slot (put_node i ?nd new) i) = stored_distance d"
    unfolding slot parse_distance_compute [OF ls(1)] by simp
  show "n_node (compute_raw_node ?nd new) \<noteq> 0"
    using lt live by (intro parse_live_compute [OF ls(1)]) (simp_all add: SIZE_OF_def live_iff)
qed

lemma region_write:
  assumes gen: "next_generation cur new" and wf: "wf_index py h cur"
    and reg: "region_ok py h cur new e q" and z: "index new (u mod SIZE_OF new) = 0"
    and u: "2 * e \<le> u" "u < 2 * Suc q" and zero: "zero_range new (2 * q) (2 * Suc q)"
    and q: "e \<le> q" "q < e + SIZE_OF cur" and live: "live cur (q mod SIZE_OF cur)"
    and w: "n_node (compute_raw_node nd new) \<noteq> 0"
    and to: "migrated_to py h cur (put_node (u mod SIZE_OF new) nd new) e q u"
  shows "region_ok py h cur (put_node (u mod SIZE_OF new) nd new) e (Suc q)"
proof -
  let ?M = "SIZE_OF new" and ?new = "put_node (u mod SIZE_OF new) nd new"
  note r = region_okD [OF reg]
  have window: "v = u" if "2 * e \<le> v" "v < 2 * Suc q" "v mod ?M = u mod ?M" for v
    using that(3,1,2) u(1,2) by (rule mod_window) (use q next_generation_size [OF gen] in simp)
  have old: "v < 2 * q \<and> index new (v mod ?M) \<noteq> 0 \<and> slot ?new (v mod ?M) = slot new (v mod ?M)"
    if "2 * e \<le> v" "v < 2 * Suc q" "index ?new (v mod ?M) \<noteq> 0" "v \<noteq> u" for v
  proof -
    from window [OF that(1,2)] that(4) have "v mod ?M \<noteq> u mod ?M" by blast
    with that(3) have "index new (v mod ?M) \<noteq> 0" "slot ?new (v mod ?M) = slot new (v mod ?M)"
      by (simp_all add: index_put_node slot_put_node_other)
    with zero_rangeD [OF zero, of v] that(2) show ?thesis by (meson not_le)
  qed
  have idx_u: "n_index (slot ?new (u mod ?M)) = n_index (slot cur (q mod SIZE_OF cur))"
    using to by (auto simp: migrated_to_def)
  have source: "\<exists>t. e \<le> t \<and> t < q \<and> live cur (t mod SIZE_OF cur) \<and>
      n_index (slot ?new (v mod ?M)) = n_index (slot cur (t mod SIZE_OF cur)) \<and> migrated_to py h cur ?new e t v"
    if v: "2 * e \<le> v" "v < 2 * Suc q" "index ?new (v mod ?M) \<noteq> 0" "v \<noteq> u" for v
  proof -
    from r(2) [OF v(1)] old [OF v] obtain t where
      t: "e \<le> t" "t < q" "live cur (t mod SIZE_OF cur)" "migrated_to py h cur new e t v" by blast
    from migrated_to_write [OF t(4) z w] have "migrated_to py h cur ?new e t v" by simp
    with t show ?thesis by (auto simp: migrated_to_def)
  qed
  have differ: "n_index (slot ?new (v mod ?M)) \<noteq> n_index (slot ?new (u mod ?M))"
    if v: "2 * e \<le> v" "v < 2 * Suc q" "index ?new (v mod ?M) \<noteq> 0" "v \<noteq> u" for v
  proof
    assume eq: "n_index (slot ?new (v mod ?M)) = n_index (slot ?new (u mod ?M))"
    from source [OF v] obtain t where t: "e \<le> t" "t < q" "live cur (t mod SIZE_OF cur)"
      "n_index (slot ?new (v mod ?M)) = n_index (slot cur (t mod SIZE_OF cur))" by blast
    with eq idx_u wf_distinct [OF wf _ _ t(3) live] have "t mod SIZE_OF cur = q mod SIZE_OF cur" by simp
    then have "t = q" using t(1,2) q by (intro mod_window [of t "SIZE_OF cur" q e "Suc q"]) auto
    with t(2) show False by simp
  qed
  show ?thesis
    unfolding region_ok_def put_node_same
  proof (intro conjI allI impI)
    fix t assume t: "e \<le> t" "t < Suc q" "live cur (t mod SIZE_OF cur)"
    show "\<exists>v. migrated_to py h cur ?new e t v"
    proof (cases "t = q")
      case True
      with to show ?thesis by blast
    next
      case False
      with t(2) have "t < q" by simp
      from r(1) [OF t(1) this t(3)] obtain v where "migrated_to py h cur new e t v" by blast
      from migrated_to_write [OF this z w] show ?thesis by blast
    qed
  next
    fix v assume v: "2 * e \<le> v" "v < 2 * Suc q" "index ?new (v mod ?M) \<noteq> 0"
    show "\<exists>t. e \<le> t \<and> t < Suc q \<and> live cur (t mod SIZE_OF cur) \<and> migrated_to py h cur ?new e t v"
    proof (cases "v = u")
      case True
      with to live q(1) show ?thesis by (intro exI [of _ q]) simp
    next
      case False
      from source [OF v False] show ?thesis by (meson less_SucI)
    qed
  next
    fix a b assume a: "2 * e \<le> a" "a < 2 * Suc q" and b: "2 * e \<le> b" "b < 2 * Suc q"
      and na: "index ?new (a mod ?M) \<noteq> 0" and nb: "index ?new (b mod ?M) \<noteq> 0"
      and eq: "n_index (slot ?new (a mod ?M)) = n_index (slot ?new (b mod ?M))"
    show "a = b"
    proof (cases "a = u \<or> b = u")
      case True
      with differ [OF a na] differ [OF b nb] eq show ?thesis by metis
    next
      case False
      with old [OF a na] old [OF b nb] r(3) [OF a(1) _ b(1)] eq show ?thesis by auto
    qed
  qed
qed

lemma region_migrate:
  assumes gen: "next_generation cur new" and wf: "wf_index py h cur"
    and e: "index cur (e mod SIZE_OF cur) = 0"
    and reg: "region_ok py h cur new e q" and zero: "zero_range new (2 * q) (2 * Suc q)"
    and q: "e \<le> q" "q < e + SIZE_OF cur" and live: "live cur (q mod SIZE_OF cur)"
  obtains nd u where
    "migrate_node py h (slot cur (q mod SIZE_OF cur)) (of_nat q) cur new = Some (put_node (u mod SIZE_OF new) nd new)"
    and "region_ok py h cur (put_node (u mod SIZE_OF new) nd new) e (Suc q)"
    and "2 * e < u" and "u < 2 * Suc q"
proof -
  let ?M = "SIZE_OF new"
  from gen have le: "log_size new \<le> 30" by (simp add: next_generation_def)
  from cluster_home [OF wf e live q] obtain en key k where
    en: "entry_of h cur (q mod SIZE_OF cur) = Some en" "allocated cur (n_index (slot cur (q mod SIZE_OF cur)))"
    and k: "e < q - k" "k \<le> q" "k < SIZE_OF cur"
    "(q - k) mod SIZE_OF cur = home py cur (e_hash en)"
    "n_distance (slot cur (q mod SIZE_OF cur)) = stored_distance (of_nat k)"
    and tag: "n_tag (slot cur (q mod SIZE_OF cur)) = REHASH py (e_hash en) AND TAG_MASK cur" .
  from migrate_node_d0_correct [OF gen en k(2-5) tag] obtain w where
    w: "migrate_node_d0 py h (slot cur (q mod SIZE_OF cur)) (of_nat q) cur new = Some w"
    "unat w mod ?M = new_home py cur (e_hash en) (q - k) mod ?M" .
  define d0 where "d0 = new_home py cur (e_hash en) (q - k)"
  have d0: "2 * Suc e \<le> d0" "d0 < 2 * Suc q" using k(1) by (auto simp: d0_def new_home_def)
  define P where "P j \<longleftrightarrow> index new ((d0 + j) mod ?M) = 0" for j
  have "P (if 2 * q \<le> d0 then 0 else 2 * q - d0)"
    using d0 zero_rangeD [OF zero, of d0] zero_rangeD [OF zero, of "2 * q"] by (auto simp: P_def)
  define j where "j = (LEAST j. P j)"
  have j: "P j" "j \<le> (if 2 * q \<le> d0 then 0 else 2 * q - d0)"
    unfolding j_def using \<open>P (if 2 * q \<le> d0 then 0 else 2 * q - d0)\<close> by (auto intro: LeastI Least_le)
  have least: "\<forall>i<j. index new ((d0 + i) mod ?M) \<noteq> 0"
    using not_less_Least [of _ P] unfolding j_def P_def by blast
  define u where "u = d0 + j"
  have u: "2 * e < u" "u < 2 * Suc q" using d0 j(2) by (auto simp: u_def split: if_splits)
  let ?nd = "(slot cur (q mod SIZE_OF cur))\<lparr>n_distance := of_nat j\<rparr>"
  have jM: "j < ?M" using u d0 q next_generation_size [OF gen] by (simp add: u_def)
  have mig: "migrate_node py h (slot cur (q mod SIZE_OF cur)) (of_nat q) cur new =
      Some (put_node (u mod ?M) ?nd new)"
    using migrate_node_from_finds [OF le _ least _ jM, of w 0] w j(1)
    by (simp add: migrate_node_def P_def u_def d0_def)
  note sm = slot_migrated [OF gen live tag]
  have z: "index new (u mod ?M) = 0" using j(1) by (simp add: P_def u_def)
  have home: "d0 mod ?M = home py new (e_hash en)"
    unfolding d0_def by (rule new_home_mod [OF gen k(4)])
  have occ: "index (put_node (u mod ?M) ?nd new) (w mod ?M) \<noteq> 0" if "d0 \<le> w" "w \<le> u" for w
  proof (cases "w = u")
    case True
    with sm(4) show ?thesis by (simp add: index_put_node)
  next
    case False
    with that obtain i where "w = d0 + i" "i < j" by (metis le_Suc_ex le_neq_implies_less nat_add_left_cancel_less u_def)
    with least sm(4) show ?thesis by (simp add: index_put_node)
  qed
  have "migrated_to py h cur (put_node (u mod ?M) ?nd new) e q u"
    unfolding migrated_to_def put_node_same
    using en(1) home d0 u occ sm by (intro exI [of _ en] exI [of _ d0]) (simp add: u_def)
  from region_write [OF gen wf reg z _ u(2) zero q live sm(4) this] u(1)
  have "region_ok py h cur (put_node (u mod ?M) ?nd new) e (Suc q)" by simp
  with mig u show thesis by (intro that) simp_all
qed

subsection \<open>Changes outside a range\<close>

text \<open>The new index after a range has been worked on: nothing else of the metadata changes.\<close>

definition same_but_index :: "meta \<Rightarrow> meta \<Rightarrow> bool" where
  "same_but_index a b \<longleftrightarrow> b = a\<lparr>index := index b\<rparr>"

lemma same_but_index_refl [simp]: "same_but_index a a"
  by (simp add: same_but_index_def)

lemma same_but_index_trans [trans]: "same_but_index a b \<Longrightarrow> same_but_index b c \<Longrightarrow> same_but_index a c"
  by (cases a, cases b, cases c) (simp add: same_but_index_def)

lemma same_but_index_upd [simp]: "same_but_index a (a\<lparr>index := f\<rparr>)" "same_but_index a (put_node p nd a)"
  by (simp_all add: same_but_index_def put_node_def)

lemma same_but_index_fields:
  assumes "same_but_index a b"
  shows "log_size b = log_size a" and "SIZE_OF b = SIZE_OF a" and "TAG_MASK b = TAG_MASK a"
    and "home py b = home py a" and "pages b = pages a"
    and "greatest_allocated_page b = greatest_allocated_page a"
    and "next_generation cur b = next_generation cur a"
proof -
  have b: "b = a\<lparr>index := index b\<rparr>" using assms by (simp add: same_but_index_def)
  show "log_size b = log_size a" by (subst b) simp
  then show "SIZE_OF b = SIZE_OF a" "TAG_MASK b = TAG_MASK a" by (simp_all add: SIZE_OF_def TAG_MASK_def)
  show "home py b = home py a"
    by (subst b) (simp add: home_def distance0_of_def fun_eq_iff)
  show "pages b = pages a" by (subst b) simp
  show "greatest_allocated_page b = greatest_allocated_page a" by (subst b) simp
  show "next_generation cur b = next_generation cur a" by (subst b) (simp add: next_generation_def)
qed

lemma slot_same:
  "same_but_index a b \<Longrightarrow> index b p = index a p \<Longrightarrow> slot b p = slot a p"
  by (simp add: slot_def parse_node_from_raw_def same_but_index_fields)

lemma migrated_to_cong:
  assumes "same_but_index new new'" and "migrated_to py h cur new e r v"
    and agree: "\<And>w. 2 * e \<le> w \<Longrightarrow> w \<le> v \<Longrightarrow> index new' (w mod SIZE_OF new) = index new (w mod SIZE_OF new)"
  shows "migrated_to py h cur new' e r v"
proof -
  note f = same_but_index_fields [OF assms(1)]
  from assms(2) obtain en d0 where m: "entry_of h cur (r mod SIZE_OF cur) = Some en"
    "d0 mod SIZE_OF new = home py new (e_hash en)" "2 * Suc e \<le> d0" "d0 \<le> v" "v < 2 * Suc r"
    "n_index (slot new (v mod SIZE_OF new)) = n_index (slot cur (r mod SIZE_OF cur))"
    "n_tag (slot new (v mod SIZE_OF new)) = REHASH py (e_hash en) AND TAG_MASK new"
    "n_distance (slot new (v mod SIZE_OF new)) = stored_distance (of_nat (v - d0))"
    "\<forall>w. d0 \<le> w \<longrightarrow> w \<le> v \<longrightarrow> index new (w mod SIZE_OF new) \<noteq> 0"
    unfolding migrated_to_def by blast
  moreover from m(3,4) have "slot new' (v mod SIZE_OF new) = slot new (v mod SIZE_OF new)"
    by (intro slot_same [OF assms(1)] agree) simp_all
  moreover from m(3,9) agree
  have "\<forall>w. d0 \<le> w \<longrightarrow> w \<le> v \<longrightarrow> index new' (w mod SIZE_OF new) \<noteq> 0" by simp
  ultimately show ?thesis
    unfolding migrated_to_def f by (intro exI [of _ en] exI [of _ d0]) simp
qed

lemma region_ok_cong:
  assumes "same_but_index new new'" and "region_ok py h cur new e q"
    and agree: "\<And>u. 2 * e \<le> u \<Longrightarrow> u < 2 * q \<Longrightarrow> index new' (u mod SIZE_OF new) = index new (u mod SIZE_OF new)"
  shows "region_ok py h cur new' e q"
proof -
  note f = same_but_index_fields [OF assms(1)] and r = region_okD [OF assms(2)]
  have mig: "migrated_to py h cur new' e t u" if "migrated_to py h cur new e t u" "t < q" for t u
  proof (rule migrated_to_cong [OF assms(1) that(1)])
    fix w assume w: "2 * e \<le> w" "w \<le> u"
    from that have "u < 2 * q" by (auto simp: migrated_to_def)
    with w agree show "index new' (w mod SIZE_OF new) = index new (w mod SIZE_OF new)" by simp
  qed
  have sl: "slot new' (u mod SIZE_OF new) = slot new (u mod SIZE_OF new)" if "2 * e \<le> u" "u < 2 * q" for u
    using agree [OF that] by (rule slot_same [OF assms(1)])
  show ?thesis
    unfolding region_ok_def f
  proof (intro conjI allI impI)
    fix t assume "e \<le> t" "t < q" "live cur (t mod SIZE_OF cur)"
    with r(1) mig show "\<exists>u. migrated_to py h cur new' e t u" by blast
  next
    fix u assume u: "2 * e \<le> u" "u < 2 * q" "index new' (u mod SIZE_OF new) \<noteq> 0"
    with agree r(2) [OF u(1,2)] mig
    show "\<exists>t. e \<le> t \<and> t < q \<and> live cur (t mod SIZE_OF cur) \<and> migrated_to py h cur new' e t u" by metis
  next
    fix u v assume u: "2 * e \<le> u" "u < 2 * q" and v: "2 * e \<le> v" "v < 2 * q"
      and nz: "index new' (u mod SIZE_OF new) \<noteq> 0" "index new' (v mod SIZE_OF new) \<noteq> 0"
      and eq: "n_index (slot new' (u mod SIZE_OF new)) = n_index (slot new' (v mod SIZE_OF new))"
    with r(3) [OF u v] show "u = v" unfolding sl [OF u] sl [OF v] agree [OF u] agree [OF v] by blast
  qed
qed

text \<open>The changes of one participant: in its range, and zeros in the two slots after it.\<close>

definition changes_within :: "meta \<Rightarrow> meta \<Rightarrow> nat \<Rightarrow> nat \<Rightarrow> bool" where
  "changes_within new new' e q \<longleftrightarrow>
     (\<forall>p. index new' p \<noteq> index new p \<longrightarrow>
        (\<exists>u. p = u mod SIZE_OF new \<and> 2 * e \<le> u \<and>
           (u < 2 * q \<or> (u < 2 * Suc q \<and> index new' p = 0))))"

definition apart :: "nat \<Rightarrow> nat \<Rightarrow> nat \<Rightarrow> nat \<Rightarrow> nat \<Rightarrow> bool" where
  "apart n e q e' q' \<longleftrightarrow>
     (e < q \<and> q \<le> e' \<and> e' < q' \<and> q' \<le> e + n) \<or> (e' < q' \<and> q' \<le> e \<and> e < q \<and> q \<le> e' + n)"

lemma apart_position:
  assumes "apart n e q e' q'" and "v mod (2 * n) = u mod (2 * n)"
    and "2 * e \<le> u" and "u < 2 * Suc q" and "2 * e' \<le> v" and "v < 2 * q'"
  shows "2 * q \<le> u \<and> v < 2 * Suc e'"
proof -
  consider (before) "e < q" "q \<le> e'" "e' < q'" "q' \<le> e + n"
    | (after) "e' < q'" "q' \<le> e" "e < q" "q < e' + n"
    | (wraps) "e' < q'" "q' \<le> e" "e < q" "q = e' + n"
    using assms(1) unfolding apart_def by linarith
  then show ?thesis
  proof cases
    case before
    have "v = u"
      using before assms(3-6) by (intro mod_window [OF assms(2), of "2 * e" "2 * e + 2 * n"]) arith+
    with before assms show ?thesis by simp
  next
    case after
    have "v = u"
      using after assms(3-6) by (intro mod_window [OF assms(2), of "2 * e'" "2 * e' + 2 * n"]) arith+
    with after assms show ?thesis by simp
  next
    case wraps
    show ?thesis
    proof (cases "u < 2 * q")
      case True
      have "v = u"
        using True wraps assms(3-6) by (intro mod_window [OF assms(2), of "2 * e'" "2 * e' + 2 * n"]) arith+
      with wraps assms show ?thesis by simp
    next
      case False
      then obtain b where b: "u = 2 * e' + b + 2 * n" "b < 2"
        using wraps assms(4) by (intro that [of "u - 2 * q"]) auto
      then have "v mod (2 * n) = (2 * e' + b) mod (2 * n)" using assms(2) by simp
      then have "v = 2 * e' + b"
        using wraps assms(3-6) b by (intro mod_window [of v "2 * n" "2 * e' + b" "2 * e'" "2 * e' + 2 * n"]) arith+
      with b False show ?thesis by simp
    qed
  qed
qed

lemma region_preserved:
  assumes "same_but_index new new'" and size: "SIZE_OF new = 2 * SIZE_OF cur"
    and ch: "changes_within new new' e q" and ap: "apart (SIZE_OF cur) e q e' q'"
    and reg: "region_ok py h cur new e' q'"
  shows "region_ok py h cur new' e' q'"
proof (rule region_ok_cong [OF assms(1) reg])
  fix v assume v: "2 * e' \<le> v" "v < 2 * q'"
  show "index new' (v mod SIZE_OF new) = index new (v mod SIZE_OF new)"
  proof (rule ccontr)
    assume ne: "index new' (v mod SIZE_OF new) \<noteq> index new (v mod SIZE_OF new)"
    with ch obtain u where u: "v mod SIZE_OF new = u mod SIZE_OF new" "2 * e \<le> u" "u < 2 * Suc q"
      "u < 2 * q \<or> index new' (v mod SIZE_OF new) = 0" unfolding changes_within_def by fastforce
    from apart_position [OF ap u(1) [unfolded size] u(2,3) v] have p: "2 * q \<le> u" "v < 2 * Suc e'" by simp_all
    with u(4) ne have "index new (v mod SIZE_OF new) \<noteq> 0" by auto
    from region_okD(2) [OF reg v this] p(2) show False by (auto simp: migrated_to_def)
  qed
qed

end
