(* ===== verification/MigrateBlocks.thy ===== *)
theory MigrateBlocks
  imports Migrate
begin

text \<open>
  The loops of a participant over a block of the old index (\<open>block_wise_migrate\<close>,
  \<open>migrate_nodes\<close> of \<^verbatim>\<open>src/src/cereggii/atomic_dict/resize.c\<close>): each block leaves its
  range of the new index correct and does not disturb the ranges of the other blocks, in whatever
  order the blocks are taken; when all blocks are done the new index satisfies the invariant and
  stands for the same map.
\<close>

subsection \<open>Zeroing and scanning\<close>

definition zeroed :: "nat \<Rightarrow> nat \<Rightarrow> meta \<Rightarrow> meta" where
  "zeroed a b new =
     new\<lparr>index := (\<lambda>p. if \<exists>u. a \<le> u \<and> u < b \<and> p = u mod SIZE_OF new then 0 else index new p)\<rparr>"

lemma zeroed_same: "same_but_index new (zeroed a b new)"
  by (simp add: zeroed_def)

lemma fold_zero:
  assumes "log_size new \<le> 30"
  shows "fold (\<lambda>j new. write_raw_node_at (of_nat j AND size_mask new) 0 new) [a..<b] new = zeroed a b new"
proof (induction b)
  case 0
  then show ?case by (simp add: zeroed_def)
next
  case (Suc b)
  show ?case
  proof (cases "a \<le> b")
    case False
    then have none: "(\<exists>u. a \<le> u \<and> u < Suc b \<and> p = u mod SIZE_OF new) = False" for p by auto
    have "zeroed a (Suc b) new = new" unfolding zeroed_def none by simp
    with False show ?thesis by simp
  next
    case True
    have "unat (of_nat b AND size_mask (zeroed a b new)) = b mod SIZE_OF new"
      using unat_of_nat_mod_size [OF assms] same_but_index_fields(2) [OF zeroed_same]
      by (simp add: unat_and_size_mask)
    then have "write_raw_node_at (of_nat b AND size_mask (zeroed a b new)) 0 (zeroed a b new) =
        new\<lparr>index := (index (zeroed a b new))(b mod SIZE_OF new := 0)\<rparr>"
      by (simp only: write_raw_node_at_def) (simp add: zeroed_def)
    also have "(index (zeroed a b new))(b mod SIZE_OF new := 0) = index (zeroed a (Suc b) new)"
      using True by (auto simp: zeroed_def fun_eq_iff less_Suc_eq)
    also have "new\<lparr>index := index (zeroed a (Suc b) new)\<rparr> = zeroed a (Suc b) new"
      by (simp add: zeroed_def)
    finally have "write_raw_node_at (of_nat b AND size_mask (zeroed a b new)) 0 (zeroed a b new) = zeroed a (Suc b) new" .
    moreover have "fold (\<lambda>j new. write_raw_node_at (of_nat j AND size_mask new) 0 new) [a..<Suc b] new =
        write_raw_node_at (of_nat b AND size_mask (zeroed a b new)) 0 (zeroed a b new)"
      using True Suc.IH by simp
    ultimately show ?thesis by simp
  qed
qed

lemma initialize_zeroed:
  assumes le: "log_size new \<le> 30" and "stop < 2 ^ 60" and "start \<le> stop"
  shows "initialize_in_new_meta new start stop = zeroed (2 * start) (2 * Suc stop) new"
proof -
  have u: "unat (of_nat (2 * start) :: u64) = 2 * start" "unat (of_nat (2 * (stop + 1)) :: u64) = 2 * Suc stop"
    using assms(2,3) by (simp_all add: unat_of_nat del: of_nat_Suc of_nat_mult of_nat_add)
  show ?thesis
  proof (cases "of_nat (2 * start) = of_nat (2 * start) AND size_mask new \<and>
      (of_nat (2 * (stop + 1)) :: u64) = of_nat (2 * (stop + 1)) AND size_mask new")
    case True
    then have "2 * Suc stop = 2 * Suc stop mod SIZE_OF new"
      using unat_and_size_mask [of "of_nat (2 * (stop + 1))" new] u(2) by metis
    then have "2 * Suc stop < SIZE_OF new" by (metis SIZE_OF_pos mod_less_divisor)
    then have "(\<exists>w. 2 * start \<le> w \<and> w < 2 * Suc stop \<and> p = w mod SIZE_OF new) \<longleftrightarrow>
        2 * start \<le> p \<and> p < 2 * Suc stop" for p by (metis mod_less order.strict_trans)
    with True u show ?thesis
      unfolding initialize_in_new_meta_def Let_def by (simp only: if_True zeroed_def simp_thms)
  next
    case False
    then show ?thesis
      unfolding initialize_in_new_meta_def Let_def if_not_P [OF False] u by (intro fold_zero le)
  qed
qed

lemma zeroed_range:
  "zero_range (zeroed a b new) a b"
  by (auto simp: zero_range_def zeroed_def)

lemma first_empty_spec:
  assumes "log_size cur \<le> 30" and "stop \<le> SIZE_OF cur" and "i \<le> stop"
  shows "i \<le> first_empty cur i stop \<and> first_empty cur i stop \<le> stop \<and>
    (\<forall>x. i \<le> x \<longrightarrow> x < first_empty cur i stop \<longrightarrow> index cur x \<noteq> 0) \<and>
    (first_empty cur i stop < stop \<longrightarrow> index cur (first_empty cur i stop) = 0)"
  using assms(3)
proof (induction "stop - i" arbitrary: i)
  case 0
  then show ?case by (subst (1 2 3 4 5) first_empty.simps) simp
next
  case (Suc n)
  then have "i < stop" by simp
  then have "i < SIZE_OF cur" using assms(2) by simp
  then have raw: "read_raw_node_at (of_nat i) cur = index cur i"
    using unat_of_nat_mod_size [OF assms(1), of i] assms(1) by (simp add: read_raw_node_at_mod)
  show ?case
  proof (cases "index cur i = 0")
    case True
    with raw \<open>i < stop\<close> have "first_empty cur i stop = i" by (subst first_empty.simps) simp
    with True \<open>i < stop\<close> show ?thesis by simp
  next
    case False
    with raw \<open>i < stop\<close> have eq: "first_empty cur i stop = first_empty cur (Suc i) stop"
      by (subst first_empty.simps) simp
    from Suc.hyps(1) [of "Suc i"] Suc.hyps(2) \<open>i < stop\<close> have
      ih: "Suc i \<le> first_empty cur (Suc i) stop" "first_empty cur (Suc i) stop \<le> stop"
      "\<forall>x. Suc i \<le> x \<longrightarrow> x < first_empty cur (Suc i) stop \<longrightarrow> index cur x \<noteq> 0"
      "first_empty cur (Suc i) stop < stop \<longrightarrow> index cur (first_empty cur (Suc i) stop) = 0" by auto
    have "index cur x \<noteq> 0" if "i \<le> x" "x < first_empty cur (Suc i) stop" for x
      using that False ih(3) by (cases "x = i") auto
    with ih show ?thesis unfolding eq by simp
  qed
qed

text \<open>The first empty slot from \<open>j\<close> on, counted past the size of the table.\<close>

definition next_empty :: "meta \<Rightarrow> nat \<Rightarrow> nat" where
  "next_empty cur j = (LEAST x. j \<le> x \<and> index cur (x mod SIZE_OF cur) = 0)"

lemma next_empty:
  assumes "j \<le> x" and "index cur (x mod SIZE_OF cur) = 0"
  shows "j \<le> next_empty cur j" and "index cur (next_empty cur j mod SIZE_OF cur) = 0"
    and "next_empty cur j \<le> x"
    and "\<And>y. j \<le> y \<Longrightarrow> y < next_empty cur j \<Longrightarrow> index cur (y mod SIZE_OF cur) \<noteq> 0"
proof -
  let ?P = "\<lambda>x. j \<le> x \<and> index cur (x mod SIZE_OF cur) = 0"
  from assms have "?P x" by simp
  from LeastI [of ?P, OF this] show "j \<le> next_empty cur j" "index cur (next_empty cur j mod SIZE_OF cur) = 0"
    unfolding next_empty_def by simp_all
  from Least_le [of ?P, OF \<open>?P x\<close>] show "next_empty cur j \<le> x" unfolding next_empty_def .
  show "index cur (y mod SIZE_OF cur) \<noteq> 0" if "j \<le> y" "y < next_empty cur j" for y
    using not_less_Least [of y ?P] that unfolding next_empty_def by blast
qed

lemma end_of_cluster_next_empty:
  assumes "log_size cur \<le> 30" and "j \<le> x" and "index cur (x mod SIZE_OF cur) = 0"
  shows "end_of_cluster cur j = Some (next_empty cur j)"
  using assms(2)
proof (induction "x - j" arbitrary: j)
  case 0
  with assms(3) have "is_empty (slot cur (j mod SIZE_OF cur))" by (simp add: is_empty_slot)
  moreover have "next_empty cur j = j" using 0 assms(3) next_empty(1,3) [of j j cur] by simp
  ultimately show ?case by (subst end_of_cluster.simps) (simp add: read_node_at_nat [OF assms(1)])
next
  case (Suc n)
  show ?case
  proof (cases "index cur (j mod SIZE_OF cur) = 0")
    case True
    then have "next_empty cur j = j" using next_empty(1,3) [of j j cur] by simp
    with True show ?thesis
      by (subst end_of_cluster.simps) (simp add: read_node_at_nat [OF assms(1)] is_empty_slot)
  next
    case False
    have "next_empty cur j = next_empty cur (Suc j)"
    proof -
      have "(j \<le> x \<and> index cur (x mod SIZE_OF cur) = 0) = (Suc j \<le> x \<and> index cur (x mod SIZE_OF cur) = 0)" for x
        using False by (metis Suc_leD le_eq_less_or_eq Suc_leI)
      then show ?thesis by (simp add: next_empty_def)
    qed
    moreover have "end_of_cluster cur (Suc j) = Some (next_empty cur (Suc j))"
      using Suc by (intro Suc.hyps(1)) auto
    ultimately show ?thesis
      using False by (subst end_of_cluster.simps) (simp add: read_node_at_nat [OF assms(1)] is_empty_slot)
  qed
qed

subsection \<open>The loops over a range\<close>

text \<open>How many live nodes there are in a range of the old index.\<close>

definition live_count :: "meta \<Rightarrow> nat \<Rightarrow> nat \<Rightarrow> nat" where
  "live_count cur a b = card {r. a \<le> r \<and> r < b \<and> live cur (r mod SIZE_OF cur)}"

lemma live_count_empty [simp]: "live_count cur a a = 0"
  by (simp add: live_count_def)

lemma live_count_split:
  assumes "a \<le> b" and "b \<le> c"
  shows "live_count cur a c = live_count cur a b + live_count cur b c"
proof -
  let ?S = "\<lambda>a b. {r. a \<le> r \<and> r < b \<and> live cur (r mod SIZE_OF cur)}"
  have "?S a c = ?S a b \<union> ?S b c" using assms by auto
  moreover have "?S a b \<inter> ?S b c = {}" by auto
  moreover have "finite (?S a b)" "finite (?S b c)" by simp_all
  ultimately show ?thesis unfolding live_count_def by (simp add: card_Un_disjoint)
qed

lemma live_count_first:
  assumes "a < c"
  shows "live_count cur a c = of_bool (live cur (a mod SIZE_OF cur)) + live_count cur (Suc a) c"
proof -
  have "{r. a \<le> r \<and> r < Suc a \<and> live cur (r mod SIZE_OF cur)} =
      (if live cur (a mod SIZE_OF cur) then {a} else {})" by (auto simp: less_Suc_eq)
  then have "live_count cur a (Suc a) = of_bool (live cur (a mod SIZE_OF cur))"
    by (simp add: live_count_def)
  with live_count_split [of a "Suc a" c] assms show ?thesis by simp
qed

definition progress :: "pyenv \<Rightarrow> heap \<Rightarrow> meta \<Rightarrow> meta \<Rightarrow> nat \<Rightarrow> nat \<Rightarrow> meta \<Rightarrow> bool" where
  "progress py h cur new0 e i new \<longleftrightarrow>
     same_but_index new0 new \<and> region_ok py h cur new e i \<and>
     (\<forall>p. index new p \<noteq> index new0 p \<longrightarrow> (\<exists>u. p = u mod SIZE_OF new0 \<and> 2 * e \<le> u \<and> u < 2 * i))"

lemma progress_zero:
  assumes gen: "next_generation cur new0" and "progress py h cur new0 e i new"
    and z: "zero_range new0 (2 * i) (2 * b)" and "e \<le> i" and "b \<le> e + SIZE_OF cur"
  shows "zero_range new (2 * i) (2 * b)"
  unfolding zero_range_def
proof (intro allI impI)
  fix u assume u: "2 * i \<le> u" "u < 2 * b"
  from assms(2) have size: "SIZE_OF new = SIZE_OF new0"
    by (simp add: progress_def same_but_index_fields)
  show "index new (u mod SIZE_OF new) = 0"
  proof (rule ccontr)
    assume "index new (u mod SIZE_OF new) \<noteq> 0"
    with zero_rangeD [OF z u] size have "index new (u mod SIZE_OF new0) \<noteq> index new0 (u mod SIZE_OF new0)" by simp
    with assms(2) obtain v where v: "u mod SIZE_OF new0 = v mod SIZE_OF new0" "2 * e \<le> v" "v < 2 * i"
      unfolding progress_def by blast
    from v(1) have "u = v"
      using u v(2,3) assms(4,5) next_generation_size [OF gen]
      by (intro mod_window [OF v(1), of "2 * e" "2 * b"]) auto
    with u v show False by simp
  qed
qed

text \<open>The situation in which a range that starts at the empty slot \<open>e\<close> is migrated.\<close>

definition migrating :: "pyenv \<Rightarrow> heap \<Rightarrow> meta \<Rightarrow> meta \<Rightarrow> nat \<Rightarrow> bool" where
  "migrating py h cur new0 e \<longleftrightarrow>
     next_generation cur new0 \<and> wf_index py h cur \<and> index cur (e mod SIZE_OF cur) = 0"

lemma migratingD:
  assumes "migrating py h cur new0 e"
  shows "next_generation cur new0" and "wf_index py h cur" and "index cur (e mod SIZE_OF cur) = 0"
    and "log_size cur \<le> 30"
  using assms wf_log_size_le by (auto simp: migrating_def)

lemma progress_gen:
  "next_generation cur new0 \<Longrightarrow> progress py h cur new0 e i new \<Longrightarrow> next_generation cur new"
  using same_but_index_fields(7) by (auto simp: progress_def)

lemma progress_skip:
  assumes "progress py h cur new0 e i new" and "zero_range new (2 * i) (2 * Suc i)"
    and "\<not> live cur (i mod SIZE_OF cur)"
  shows "progress py h cur new0 e (Suc i) new"
proof -
  have "region_ok py h cur new e (Suc i)"
    using assms by (intro region_skip) (simp_all add: progress_def)
  with assms(1) show ?thesis unfolding progress_def by (meson less_le_trans lessI less_imp_le mult_le_mono2)
qed

lemma progress_live:
  assumes mig: "migrating py h cur new0 e"
    and pr: "progress py h cur new0 e i new" and z: "zero_range new (2 * i) (2 * Suc i)"
    and "e \<le> i" and "i < e + SIZE_OF cur" and live: "live cur (i mod SIZE_OF cur)"
  shows "\<exists>new'. migrate_node py h (slot cur (i mod SIZE_OF cur)) (of_nat i) cur new = Some new' \<and>
    progress py h cur new0 e (Suc i) new'"
proof -
  from pr have reg: "region_ok py h cur new e i" and same: "same_but_index new0 new"
    by (simp_all add: progress_def)
  from region_migrate [OF progress_gen [OF migratingD(1) [OF mig] pr] migratingD(2,3) [OF mig] reg z assms(4,5) live] obtain nd u where
    m: "migrate_node py h (slot cur (i mod SIZE_OF cur)) (of_nat i) cur new = Some (put_node (u mod SIZE_OF new) nd new)"
    "region_ok py h cur (put_node (u mod SIZE_OF new) nd new) e (Suc i)" "2 * e < u" "u < 2 * Suc i" .
  have size: "SIZE_OF new = SIZE_OF new0" using same by (simp add: same_but_index_fields)
  have "same_but_index new0 (put_node (u mod SIZE_OF new) nd new)"
    using same same_but_index_upd(2) by (rule same_but_index_trans)
  moreover have "\<exists>v. p = v mod SIZE_OF new0 \<and> 2 * e \<le> v \<and> v < 2 * Suc i"
    if "index (put_node (u mod SIZE_OF new) nd new) p \<noteq> index new0 p" for p
  proof (cases "p = u mod SIZE_OF new")
    case True
    with m(3,4) size show ?thesis by (intro exI [of _ u]) simp
  next
    case False
    with that have "index new p \<noteq> index new0 p" by (simp add: index_put_node)
    with pr obtain v where "p = v mod SIZE_OF new0" "2 * e \<le> v" "v < 2 * i" unfolding progress_def by blast
    then show ?thesis by (intro exI [of _ v]) simp
  qed
  ultimately have "progress py h cur new0 e (Suc i) (put_node (u mod SIZE_OF new) nd new)"
    using m(2) unfolding progress_def by blast
  with m(1) show ?thesis by blast
qed

lemma migrate_until_correct:
  assumes mig: "migrating py h cur new0 e"
    and "progress py h cur new0 e i new" and "zero_range new0 (2 * i) (2 * stop)"
    and "e \<le> i" and "i \<le> stop" and "stop \<le> e + SIZE_OF cur"
  shows "\<exists>new'. migrate_until py h cur i stop new n = Some (new', n + int (live_count cur i stop)) \<and>
    progress py h cur new0 e stop new'"
  using assms(2-5)
proof (induction "stop - i" arbitrary: i new n)
  case 0
  then have "i = stop" by simp
  with 0 show ?case by (subst migrate_until.simps) simp
next
  case (Suc k)
  then have "i < stop" and k: "k = stop - Suc i" by simp_all
  have z: "zero_range new (2 * i) (2 * Suc i)"
    using progress_zero [OF migratingD(1) [OF mig] Suc.prems(1) Suc.prems(2,3) assms(6)]
    by (rule zero_range_sub) (use \<open>i < stop\<close> in auto)
  have z2: "zero_range new0 (2 * Suc i) (2 * stop)" using Suc.prems(2) by (rule zero_range_sub) auto
  show ?case
  proof (cases "live cur (i mod SIZE_OF cur)")
    case False
    from progress_skip [OF Suc.prems(1) z False] have "progress py h cur new0 e (Suc i) new" .
    from Suc.hyps(1) [OF k this z2, of n] Suc.prems(3) \<open>i < stop\<close>
    obtain new' where "migrate_until py h cur (Suc i) stop new n = Some (new', n + int (live_count cur (Suc i) stop))"
      "progress py h cur new0 e stop new'" by auto
    with False \<open>i < stop\<close> live_count_first [OF \<open>i < stop\<close>] show ?thesis
      by (subst migrate_until.simps) (auto simp: read_node_at_nat [OF migratingD(4) [OF mig]] live_def Let_def)
  next
    case True
    from progress_live [OF mig Suc.prems(1) z Suc.prems(3) _ True] \<open>i < stop\<close> assms(6) obtain new1 where
      m: "migrate_node py h (slot cur (i mod SIZE_OF cur)) (of_nat i) cur new = Some new1"
      "progress py h cur new0 e (Suc i) new1" by auto
    from Suc.hyps(1) [OF k m(2) z2, of "n + 1"] Suc.prems(3) \<open>i < stop\<close>
    obtain new' where "migrate_until py h cur (Suc i) stop new1 (n + 1) = Some (new', n + 1 + int (live_count cur (Suc i) stop))"
      "progress py h cur new0 e stop new'" by auto
    with True \<open>i < stop\<close> m(1) live_count_first [OF \<open>i < stop\<close>] show ?thesis
      by (subst migrate_until.simps) (auto simp: read_node_at_nat [OF migratingD(4) [OF mig]] live_def Let_def)
  qed
qed

lemma migrate_trailing_correct:
  assumes mig: "migrating py h cur new0 e"
    and "progress py h cur new0 e i new" and "zero_range new0 (2 * i) (2 * j)"
    and "e \<le> i" and "i \<le> j" and "j \<le> e + SIZE_OF cur"
    and "index cur (j mod SIZE_OF cur) = 0"
    and "\<forall>y. i \<le> y \<longrightarrow> y < j \<longrightarrow> index cur (y mod SIZE_OF cur) \<noteq> 0"
  shows "\<exists>new'. migrate_trailing py h cur i new n = Some (new', n + int (live_count cur i j)) \<and>
    progress py h cur new0 e j new'"
  using assms(2-5,8)
proof (induction "j - i" arbitrary: i new n)
  case 0
  then have "i = j" by simp
  with 0 assms(7) show ?case
    by (subst migrate_trailing.simps) (simp add: read_node_at_nat [OF migratingD(4) [OF mig]] is_empty_slot Let_def)
next
  case (Suc k)
  then have "i < j" and k: "k = j - Suc i" by simp_all
  have z: "zero_range new (2 * i) (2 * Suc i)"
    using progress_zero [OF migratingD(1) [OF mig] Suc.prems(1) Suc.prems(2,3) assms(6)]
    by (rule zero_range_sub) (use \<open>i < j\<close> in auto)
  have z2: "zero_range new0 (2 * Suc i) (2 * j)" using Suc.prems(2) by (rule zero_range_sub) auto
  have ne: "\<not> is_empty (slot cur (i mod SIZE_OF cur))" using Suc.prems(5) \<open>i < j\<close> by (simp add: is_empty_slot)
  show ?case
  proof (cases "live cur (i mod SIZE_OF cur)")
    case False
    from progress_skip [OF Suc.prems(1) z False] have "progress py h cur new0 e (Suc i) new" .
    from Suc.hyps(1) [OF k this z2, of n] Suc.prems(3,5) \<open>i < j\<close>
    obtain new' where "migrate_trailing py h cur (Suc i) new n = Some (new', n + int (live_count cur (Suc i) j))"
      "progress py h cur new0 e j new'" by auto
    with False ne \<open>i < j\<close> live_count_first [OF \<open>i < j\<close>] show ?thesis
      by (subst migrate_trailing.simps) (auto simp: read_node_at_nat [OF migratingD(4) [OF mig]] live_def Let_def)
  next
    case True
    from progress_live [OF mig Suc.prems(1) z Suc.prems(3) _ True] \<open>i < j\<close> assms(6) obtain new1 where
      m: "migrate_node py h (slot cur (i mod SIZE_OF cur)) (of_nat i) cur new = Some new1"
      "progress py h cur new0 e (Suc i) new1" by auto
    from Suc.hyps(1) [OF k m(2) z2, of "n + 1"] Suc.prems(3,5) \<open>i < j\<close>
    obtain new' where "migrate_trailing py h cur (Suc i) new1 (n + 1) = Some (new', n + 1 + int (live_count cur (Suc i) j))"
      "progress py h cur new0 e j new'" by auto
    with True \<open>i < j\<close> m(1) live_count_first [OF \<open>i < j\<close>] show ?thesis
      by (subst migrate_trailing.simps) (auto simp: read_node_at_nat [OF migratingD(4) [OF mig]] live_def Let_def)
  qed
qed

subsection \<open>One block\<close>

definition block_first :: "meta \<Rightarrow> nat \<Rightarrow> nat" where
  "block_first cur s = first_empty cur s (end_of_block cur s)"

definition block_last :: "meta \<Rightarrow> nat \<Rightarrow> nat" where
  "block_last cur s = next_empty cur (end_of_block cur s)"

definition block_owned :: "meta \<Rightarrow> nat \<Rightarrow> bool" where
  "block_owned cur s \<longleftrightarrow> block_first cur s < end_of_block cur s"

definition block_done :: "pyenv \<Rightarrow> heap \<Rightarrow> meta \<Rightarrow> meta \<Rightarrow> nat \<Rightarrow> bool" where
  "block_done py h cur new s \<longleftrightarrow>
     (block_owned cur s \<longrightarrow> region_ok py h cur new (block_first cur s) (block_last cur s))"

definition block_count :: "meta \<Rightarrow> nat \<Rightarrow> nat" where
  "block_count cur s = (if block_owned cur s then live_count cur (block_first cur s) (block_last cur s) else 0)"

lemma block_bounds:
  assumes le: "log_size cur \<le> 30" and s: "s < SIZE_OF cur" and own: "block_owned cur s"
  shows "s \<le> block_first cur s" and "index cur (block_first cur s) = 0"
    and "block_first cur s < end_of_block cur s" and "end_of_block cur s \<le> SIZE_OF cur"
    and "end_of_block cur s \<le> block_last cur s" and "block_last cur s \<le> block_first cur s + SIZE_OF cur"
    and "index cur (block_last cur s mod SIZE_OF cur) = 0"
    and "block_first cur s < SIZE_OF cur"
    and "\<And>y. end_of_block cur s \<le> y \<Longrightarrow> y < block_last cur s \<Longrightarrow> index cur (y mod SIZE_OF cur) \<noteq> 0"
    and "\<And>y. s \<le> y \<Longrightarrow> y < block_first cur s \<Longrightarrow> index cur y \<noteq> 0"
proof -
  have stop: "end_of_block cur s \<le> SIZE_OF cur" "s \<le> end_of_block cur s"
    using s by (auto simp: end_of_block_def)
  note f = first_empty_spec [OF le stop, folded block_first_def]
  show 1: "s \<le> block_first cur s" "index cur (block_first cur s) = 0"
    "block_first cur s < end_of_block cur s" "end_of_block cur s \<le> SIZE_OF cur"
    using f own stop by (auto simp: block_owned_def)
  show 2: "block_first cur s < SIZE_OF cur" using 1 by simp
  have z: "index cur ((block_first cur s + SIZE_OF cur) mod SIZE_OF cur) = 0" using 1(2) 2 by simp
  have "end_of_block cur s \<le> block_first cur s + SIZE_OF cur" using stop by simp
  note n = next_empty [OF this z, folded block_last_def]
  show "end_of_block cur s \<le> block_last cur s" "block_last cur s \<le> block_first cur s + SIZE_OF cur"
    "index cur (block_last cur s mod SIZE_OF cur) = 0" using n by simp_all
  show "index cur (y mod SIZE_OF cur) \<noteq> 0" if "end_of_block cur s \<le> y" "y < block_last cur s" for y
    using n(4) that by blast
  show "index cur y \<noteq> 0" if "s \<le> y" "y < block_first cur s" for y
    using f that by blast
qed

lemma progress_start:
  "progress py h cur new0 e e new0"
  by (simp add: progress_def region_ok_start)

lemma changes_withinI:
  assumes "\<And>p. index new' p \<noteq> index new p \<Longrightarrow> \<exists>u. p = u mod SIZE_OF new \<and> 2 * e \<le> u \<and> u < 2 * q"
  shows "changes_within new new' e q"
  using assms unfolding changes_within_def by blast

lemma index_zeroed:
  "index (zeroed a b new) p \<noteq> index new p \<Longrightarrow> \<exists>u. a \<le> u \<and> u < b \<and> p = u mod SIZE_OF new"
  by (auto simp: zeroed_def split: if_splits)

text \<open>The part of a block before its own end.\<close>

lemma migrate_own_part:
  assumes gen: "next_generation cur new" and wf: "wf_index py h cur" and s: "s < SIZE_OF cur" and own: "block_owned cur s"
  defines "e \<equiv> block_first cur s" and "stop \<equiv> end_of_block cur s"
  obtains new2 where
    "migrate_until py h cur e stop (initialize_in_new_meta new e stop) 0 = Some (new2, int (live_count cur e stop))"
    and "region_ok py h cur new2 e stop" and "same_but_index new new2"
    and "\<And>p. index new2 p \<noteq> index new p \<Longrightarrow>
      \<exists>u. p = u mod SIZE_OF new \<and> 2 * e \<le> u \<and> (u < 2 * stop \<or> (u < 2 * Suc stop \<and> index new2 p = 0))"
proof -
  let ?new1 = "zeroed (2 * e) (2 * Suc stop) new"
  have le: "log_size cur \<le> 30" "log_size new \<le> 30" using gen by (auto simp: next_generation_def)
  note b = block_bounds [OF le(1) s own, folded e_def stop_def] and N = SIZE_small [OF le(1)]
  have init: "initialize_in_new_meta new e stop = ?new1"
    using b N by (intro initialize_zeroed le(2)) simp_all
  have M1: "SIZE_OF ?new1 = SIZE_OF new" by (simp add: same_but_index_fields [OF zeroed_same])
  have "next_generation cur ?new1" using gen same_but_index_fields(7) [OF zeroed_same] by simp
  then have mig: "migrating py h cur ?new1 e" using wf b by (simp add: migrating_def)
  have "zero_range ?new1 (2 * e) (2 * stop)" by (rule zero_range_sub [OF zeroed_range]) simp_all
  from migrate_until_correct [OF mig progress_start this, of 0] b obtain new2 where
    new2: "migrate_until py h cur e stop ?new1 0 = Some (new2, int (live_count cur e stop))"
    "progress py h cur ?new1 e stop new2" by auto
  have "\<exists>u. p = u mod SIZE_OF new \<and> 2 * e \<le> u \<and> (u < 2 * stop \<or> (u < 2 * Suc stop \<and> index new2 p = 0))"
    if "index new2 p \<noteq> index new p" for p
  proof (cases "index new2 p = index ?new1 p")
    case True
    with that index_zeroed [of "2 * e" "2 * Suc stop" new p] obtain u where
      u: "2 * e \<le> u" "u < 2 * Suc stop" "p = u mod SIZE_OF new" by metis
    moreover from u zero_rangeD [OF zeroed_range u(1,2)] M1 True have "index new2 p = 0" by metis
    ultimately show ?thesis by blast
  next
    case False
    with new2(2) show ?thesis unfolding progress_def M1 by blast
  qed
  moreover have "same_but_index new new2" using zeroed_same new2(2)
    by (auto simp: progress_def intro: same_but_index_trans)
  ultimately show thesis using new2 unfolding init [symmetric] by (intro that) (simp_all add: progress_def)
qed

text \<open>The cluster that reaches over the end of the block.\<close>

lemma region_zeroed_after:
  assumes "region_ok py h cur new a b" and "a \<le> b" and "b \<le> c" and "c \<le> a + SIZE_OF cur" and "next_generation cur new"
  shows "region_ok py h cur (zeroed (2 * b) (2 * c) new) a b"
proof (rule region_ok_cong [OF zeroed_same assms(1)])
  fix u assume u: "2 * a \<le> u" "u < 2 * b"
  show "index (zeroed (2 * b) (2 * c) new) (u mod SIZE_OF new) = index new (u mod SIZE_OF new)"
  proof (rule ccontr)
    assume "index (zeroed (2 * b) (2 * c) new) (u mod SIZE_OF new) \<noteq> index new (u mod SIZE_OF new)"
    from index_zeroed [OF this] obtain v where v: "2 * b \<le> v" "v < 2 * c" "u mod SIZE_OF new = v mod SIZE_OF new" by blast
    have "u = v"
      by (rule mod_window [OF v(3), of "2 * a" "2 * c"])
        (use u v assms next_generation_size [OF assms(5)] in simp_all)
    with u v show False by simp
  qed
qed

lemma migrate_last_cluster:
  assumes gen: "next_generation cur new" and wf: "wf_index py h cur" and s: "s < SIZE_OF cur" and own: "block_owned cur s"
  defines "e \<equiv> block_first cur s" and "stop \<equiv> end_of_block cur s" and "j \<equiv> block_last cur s"
  assumes j: "stop < j" and reg: "region_ok py h cur new e stop"
  obtains new4 where
    "migrate_trailing py h cur stop (initialize_in_new_meta new stop (j - 1)) (int (live_count cur e stop)) =
       Some (new4, int (live_count cur e j))"
    and "region_ok py h cur new4 e j" and "same_but_index new new4"
    and "\<And>p. index new4 p \<noteq> index new p \<Longrightarrow> \<exists>u. p = u mod SIZE_OF new \<and> 2 * e \<le> u \<and> u < 2 * j"
proof -
  let ?new3 = "zeroed (2 * stop) (2 * j) new"
  have le: "log_size cur \<le> 30" "log_size new \<le> 30" using gen by (auto simp: next_generation_def)
  note b = block_bounds [OF le(1) s own, folded e_def stop_def j_def] and N = SIZE_small [OF le(1)]
  have "Suc (j - 1) = j" "j \<le> 2 ^ 31" using j b N by simp_all
  with j have init: "initialize_in_new_meta new stop (j - 1) = ?new3"
    using initialize_zeroed [of new "j - 1" stop] le(2) by simp
  have M3: "SIZE_OF ?new3 = SIZE_OF new" by (simp add: same_but_index_fields [OF zeroed_same])
  have "region_ok py h cur ?new3 e stop" using b by (intro region_zeroed_after [OF reg _ _ _ gen]) simp_all
  then have start: "progress py h cur ?new3 e stop ?new3" by (simp add: progress_def)
  have "next_generation cur ?new3" using gen same_but_index_fields(7) [OF zeroed_same] by simp
  then have mig: "migrating py h cur ?new3 e" using wf b by (simp add: migrating_def)
  from migrate_trailing_correct [OF mig start zeroed_range, of "int (live_count cur e stop)"] b
  obtain new4 where
    new4: "migrate_trailing py h cur stop ?new3 (int (live_count cur e stop)) =
        Some (new4, int (live_count cur e stop) + int (live_count cur stop j))"
    "progress py h cur ?new3 e j new4" by (auto simp: j_def stop_def e_def)
  have count: "live_count cur e stop + live_count cur stop j = live_count cur e j"
    using live_count_split [of e stop j] b by simp
  have "\<exists>u. p = u mod SIZE_OF new \<and> 2 * e \<le> u \<and> u < 2 * j" if "index new4 p \<noteq> index new p" for p
  proof (cases "index new4 p = index ?new3 p")
    case False
    with new4(2) show ?thesis unfolding progress_def M3 by blast
  next
    case True
    with that index_zeroed [of "2 * stop" "2 * j" new p] obtain u where
      "2 * stop \<le> u" "u < 2 * j" "p = u mod SIZE_OF new" by metis
    with b(3) show ?thesis by (intro exI [of _ u]) simp
  qed
  moreover have "same_but_index new new4" using zeroed_same new4(2)
    by (auto simp: progress_def intro: same_but_index_trans)
  ultimately show thesis
    using new4 count unfolding init [symmetric] by (intro that) (simp_all add: progress_def flip: of_nat_add)
qed

lemma block_wise_migrate_correct:
  assumes gen: "next_generation cur new" and wf: "wf_index py h cur" and s: "s < SIZE_OF cur"
  shows "\<exists>new'. block_wise_migrate py h cur new s = Some (new', int (block_count cur s)) \<and>
    same_but_index new new' \<and> block_done py h cur new' s \<and>
    (if block_owned cur s then changes_within new new' (block_first cur s) (block_last cur s) else new' = new)"
proof (cases "block_owned cur s")
  case False
  then show ?thesis
    by (simp add: block_wise_migrate_def block_owned_def block_first_def block_done_def block_count_def Let_def)
next
  case own: True
  let ?e = "block_first cur s" and ?stop = "end_of_block cur s" and ?j = "block_last cur s"
  have le: "log_size cur \<le> 30" using gen by (auto simp: next_generation_def)
  note b = block_bounds [OF le s own]
  from migrate_own_part [OF gen wf s own] obtain new2 where
    new2: "migrate_until py h cur ?e ?stop (initialize_in_new_meta new ?e ?stop) 0 = Some (new2, int (live_count cur ?e ?stop))"
      "region_ok py h cur new2 ?e ?stop" "same_but_index new new2"
    and ch2: "\<And>p. index new2 p \<noteq> index new p \<Longrightarrow>
      \<exists>u. p = u mod SIZE_OF new \<and> 2 * ?e \<le> u \<and> (u < 2 * ?stop \<or> (u < 2 * Suc ?stop \<and> index new2 p = 0))" by blast
  have eoc: "end_of_cluster cur ?stop = Some ?j"
    unfolding block_last_def
    by (rule end_of_cluster_next_empty [OF le, where x = "?e + SIZE_OF cur"]) (use b in simp_all)
  show ?thesis
  proof (cases "?j = ?stop")
    case True
    have "changes_within new new2 ?e ?j" unfolding changes_within_def True using ch2 by blast
    moreover have "block_wise_migrate py h cur new s = Some (new2, int (block_count cur s))"
      using new2(1) eoc True own b(3)
      by (simp add: block_wise_migrate_def Let_def block_count_def flip: block_first_def)
    ultimately show ?thesis using new2(2,3) own True unfolding block_done_def by auto
  next
    case False
    then have j: "?stop < ?j" using b by simp
    have "next_generation cur new2" using gen same_but_index_fields(7) [OF new2(3)] by simp
    from migrate_last_cluster [OF this wf s own j new2(2)] obtain new4 where
      new4: "migrate_trailing py h cur ?stop (initialize_in_new_meta new2 ?stop (?j - 1)) (int (live_count cur ?e ?stop)) =
         Some (new4, int (live_count cur ?e ?j))" "region_ok py h cur new4 ?e ?j" "same_but_index new2 new4"
      and ch4: "\<And>p. index new4 p \<noteq> index new2 p \<Longrightarrow> \<exists>u. p = u mod SIZE_OF new2 \<and> 2 * ?e \<le> u \<and> u < 2 * ?j" by blast
    have "changes_within new new4 ?e ?j"
    proof (rule changes_withinI)
      fix p assume "index new4 p \<noteq> index new p"
      then consider "index new4 p \<noteq> index new2 p" | "index new2 p \<noteq> index new p" by force
      then show "\<exists>u. p = u mod SIZE_OF new \<and> 2 * ?e \<le> u \<and> u < 2 * ?j"
        using ch4 [of p] ch2 [of p] j by cases (auto simp: same_but_index_fields [OF new2(3)])
    qed
    moreover have "block_wise_migrate py h cur new s = Some (new4, int (block_count cur s))"
      using new2(1) eoc j own b(3) new4(1)
      by (simp add: block_wise_migrate_def Let_def block_count_def flip: block_first_def)
    moreover have "same_but_index new new4" using new2(3) new4(3) by (rule same_but_index_trans)
    ultimately show ?thesis using new4(2) own unfolding block_done_def by auto
  qed
qed

subsection \<open>All blocks\<close>

definition is_block :: "meta \<Rightarrow> nat \<Rightarrow> bool" where
  "is_block cur s \<longleftrightarrow> s < SIZE_OF cur \<and> ATOMIC_DICT_BLOCKWISE_MIGRATE_SIZE dvd s"

lemma blocks_ordered:
  assumes "is_block cur s" and "is_block cur s'" and "s < s'"
  shows "end_of_block cur s \<le> s'"
proof -
  from assms obtain a b where ab: "s = 4096 * a" "s' = 4096 * b"
    unfolding is_block_def ATOMIC_DICT_BLOCKWISE_MIGRATE_SIZE_def by (auto elim!: dvdE)
  with assms(3) have "4096 * Suc a \<le> 4096 * b" by (intro mult_le_mono2) simp
  with ab show ?thesis by (simp add: end_of_block_def ATOMIC_DICT_BLOCKWISE_MIGRATE_SIZE_def)
qed

lemma blocks_apart_less:
  assumes le: "log_size cur \<le> 30" and s: "is_block cur s" "is_block cur s'" and less: "s < s'"
    and own: "block_owned cur s" "block_owned cur s'"
  shows "block_last cur s \<le> block_first cur s'"
    and "block_last cur s' \<le> block_first cur s + SIZE_OF cur"
proof -
  from s have lt: "s < SIZE_OF cur" "s' < SIZE_OF cur" by (simp_all add: is_block_def)
  note b = block_bounds [OF le lt(1) own(1)] and b' = block_bounds [OF le lt(2) own(2)]
  note ord = blocks_ordered [OF s less]
  show "block_last cur s \<le> block_first cur s'"
  proof (rule ccontr)
    assume "\<not> ?thesis"
    then have "index cur (block_first cur s' mod SIZE_OF cur) \<noteq> 0"
      using b'(1) ord by (intro b(9)) simp_all
    with b'(2,8) show False by simp
  qed
  show "block_last cur s' \<le> block_first cur s + SIZE_OF cur"
  proof (rule ccontr)
    assume "\<not> ?thesis"
    then have "index cur ((block_first cur s + SIZE_OF cur) mod SIZE_OF cur) \<noteq> 0"
      using b'(4) by (intro b'(9)) simp_all
    with b(2,8) show False by simp
  qed
qed

lemma blocks_apart:
  assumes le: "log_size cur \<le> 30" and s: "is_block cur s" "is_block cur s'" and "s \<noteq> s'"
    and own: "block_owned cur s" "block_owned cur s'"
  shows "apart (SIZE_OF cur) (block_first cur s) (block_last cur s) (block_first cur s') (block_last cur s')"
proof -
  from s have lt: "s < SIZE_OF cur" "s' < SIZE_OF cur" by (simp_all add: is_block_def)
  note b = block_bounds(3,5) [OF le lt(1) own(1)] and b' = block_bounds(3,5) [OF le lt(2) own(2)]
  show ?thesis
  proof (cases "s < s'")
    case True
    from blocks_apart_less [OF le s True own] b b' show ?thesis by (simp add: apart_def)
  next
    case False
    with assms(4) have "s' < s" by simp
    from blocks_apart_less [OF le s(2,1) this own(2,1)] b b' show ?thesis by (simp add: apart_def)
  qed
qed

lemma block_preserves:
  assumes gen: "next_generation cur new" and wf: "wf_index py h cur"
    and s: "is_block cur s" "is_block cur s'" "s \<noteq> s'"
    and run: "block_wise_migrate py h cur new s = Some (new', n)" and "block_done py h cur new s'"
  shows "block_done py h cur new' s'"
proof -
  from s(1) have "s < SIZE_OF cur" by (simp add: is_block_def)
  from block_wise_migrate_correct [OF gen wf this] run have
    c: "same_but_index new new'"
    "if block_owned cur s then changes_within new new' (block_first cur s) (block_last cur s) else new' = new"
    by auto
  show ?thesis
  proof (cases "block_owned cur s \<and> block_owned cur s'")
    case True
    with c assms(7) blocks_apart [OF wf_log_size_le [OF wf] s] show ?thesis
      unfolding block_done_def
      by (auto intro: region_preserved [OF c(1) next_generation_size [OF gen]])
  next
    case False
    with c assms(7) show ?thesis by (auto simp: block_done_def split: if_splits)
  qed
qed

lemma region_compose:
  assumes wf: "wf_index py h cur" and a: "region_ok py h cur new e x" and b: "region_ok py h cur new x y"
    and "e \<le> x" and "x \<le> y" and "y \<le> e + SIZE_OF cur"
  shows "region_ok py h cur new e y"
proof -
  note ra = region_okD [OF a] and rb = region_okD [OF b]
  have down: "migrated_to py h cur new e r u" if "migrated_to py h cur new x r u" for r u
  proof -
    from that obtain en d0 where "entry_of h cur (r mod SIZE_OF cur) = Some en"
      "d0 mod SIZE_OF new = home py new (e_hash en)" "2 * Suc x \<le> d0" "d0 \<le> u" "u < 2 * Suc r"
      "n_index (slot new (u mod SIZE_OF new)) = n_index (slot cur (r mod SIZE_OF cur))"
      "n_tag (slot new (u mod SIZE_OF new)) = REHASH py (e_hash en) AND TAG_MASK new"
      "n_distance (slot new (u mod SIZE_OF new)) = stored_distance (of_nat (u - d0))"
      "\<forall>w. d0 \<le> w \<longrightarrow> w \<le> u \<longrightarrow> index new (w mod SIZE_OF new) \<noteq> 0"
      unfolding migrated_to_def by blast
    with assms(4) show ?thesis
      unfolding migrated_to_def by (intro exI [of _ en] exI [of _ d0]) simp
  qed
  have clash: False if u: "2 * e \<le> u" "u < 2 * x" and v: "2 * x \<le> v" "v < 2 * y"
    and nz: "index new (u mod SIZE_OF new) \<noteq> 0" "index new (v mod SIZE_OF new) \<noteq> 0"
    and eq: "n_index (slot new (u mod SIZE_OF new)) = n_index (slot new (v mod SIZE_OF new))" for u v
  proof -
    from ra(2) [OF u nz(1)] rb(2) [OF v nz(2)] obtain r t where
      r: "e \<le> r" "r < x" "live cur (r mod SIZE_OF cur)" "migrated_to py h cur new e r u" and
      t: "x \<le> t" "t < y" "live cur (t mod SIZE_OF cur)" "migrated_to py h cur new x t v" by blast
    with eq have "n_index (slot cur (r mod SIZE_OF cur)) = n_index (slot cur (t mod SIZE_OF cur))"
      by (auto simp: migrated_to_def)
    from wf_distinct [OF wf _ _ r(3) t(3) this] have "r mod SIZE_OF cur = t mod SIZE_OF cur" by simp
    then have "r = t" by (rule mod_window [where a = e and b = y]) (use r t assms in simp_all)
    with r t show False by simp
  qed
  show ?thesis
    unfolding region_ok_def
  proof (intro conjI allI impI)
    fix r assume "e \<le> r" "r < y" "live cur (r mod SIZE_OF cur)"
    with ra(1) rb(1) down show "\<exists>u. migrated_to py h cur new e r u" by (cases "r < x") (auto, meson not_le)
  next
    fix u assume u: "2 * e \<le> u" "u < 2 * y" "index new (u mod SIZE_OF new) \<noteq> 0"
    show "\<exists>r. e \<le> r \<and> r < y \<and> live cur (r mod SIZE_OF cur) \<and> migrated_to py h cur new e r u"
    proof (cases "u < 2 * x")
      case True
      with ra(2) [OF u(1) _ u(3)] assms(5) show ?thesis by (meson less_le_trans)
    next
      case False
      then have "2 * x \<le> u" by simp
      from rb(2) [OF this u(2,3)] obtain r where
        "x \<le> r" "r < y" "live cur (r mod SIZE_OF cur)" "migrated_to py h cur new x r u" by blast
      with assms(4) down show ?thesis by (meson order.trans)
    qed
  next
    fix u v assume u: "2 * e \<le> u" "u < 2 * y" and v: "2 * e \<le> v" "v < 2 * y"
      and nz: "index new (u mod SIZE_OF new) \<noteq> 0" "index new (v mod SIZE_OF new) \<noteq> 0"
      and eq: "n_index (slot new (u mod SIZE_OF new)) = n_index (slot new (v mod SIZE_OF new))"
    show "u = v"
    proof (cases "u < 2 * x"; cases "v < 2 * x")
      assume "u < 2 * x" "v < 2 * x"
      with ra(3) u(1) v(1) nz eq show ?thesis by blast
    next
      assume "u < 2 * x" "\<not> v < 2 * x"
      with clash [OF u(1) _ _ v(2) nz eq] show ?thesis by simp
    next
      assume "\<not> u < 2 * x" "v < 2 * x"
      with clash [OF v(1) _ _ u(2) nz(2,1) eq [symmetric]] show ?thesis by simp
    next
      assume "\<not> u < 2 * x" "\<not> v < 2 * x"
      with rb(3) u(2) v(2) nz eq show ?thesis by simp
    qed
  qed
qed

text \<open>
  Going through the blocks from the first empty slot on: \<open>x\<close> is always the first empty slot of
  the next block, and everything before it is done.
\<close>

definition chain ::
  "pyenv \<Rightarrow> heap \<Rightarrow> meta \<Rightarrow> meta \<Rightarrow> nat \<Rightarrow> nat \<Rightarrow> nat \<Rightarrow> bool" where
  "chain py h cur new e b x \<longleftrightarrow>
     region_ok py h cur new e x \<and> e \<le> x \<and>
     live_count cur e x = (\<Sum>s | is_block cur s \<and> s < b. block_count cur s) \<and>
     (if x < SIZE_OF cur
      then is_block cur b \<and> b \<le> x \<and> x < end_of_block cur b \<and> index cur x = 0 \<and>
           (\<forall>y. b \<le> y \<longrightarrow> y < x \<longrightarrow> index cur y \<noteq> 0)
      else x = e + SIZE_OF cur \<and> b = SIZE_OF cur)"

lemma finite_blocks: "finite {s. is_block cur s \<and> P s}"
  by (rule finite_subset [of _ "{..<SIZE_OF cur}"]) (auto simp: is_block_def)

lemma block_of:
  assumes "x < SIZE_OF cur"
  obtains b where "is_block cur b" and "b \<le> x" and "x < end_of_block cur b"
proof
  let ?b = "4096 * (x div 4096)"
  have "x < ?b + 4096" by (metis add.commute div_mult_mod_eq mod_less_divisor mult.commute
      nat_add_left_cancel_less zero_less_numeral)
  then show "x < end_of_block cur ?b"
    using assms by (simp add: end_of_block_def ATOMIC_DICT_BLOCKWISE_MIGRATE_SIZE_def)
  show "?b \<le> x" by simp
  with assms show "is_block cur ?b"
    unfolding is_block_def ATOMIC_DICT_BLOCKWISE_MIGRATE_SIZE_def by (simp add: le_less_trans)
qed

lemma not_owned:
  assumes le: "log_size cur \<le> 30" and s: "is_block cur s"
    and "\<forall>y. s \<le> y \<longrightarrow> y < end_of_block cur s \<longrightarrow> index cur y \<noteq> 0"
  shows "\<not> block_owned cur s"
proof
  assume "block_owned cur s"
  with s block_bounds(1-3) [OF le, of s] have "index cur (block_first cur s) = 0" "s \<le> block_first cur s"
    "block_first cur s < end_of_block cur s" by (auto simp: is_block_def)
  with assms(3) show False by blast
qed

text \<open>Between two blocks that are worked on there are only blocks without an empty slot.\<close>

lemma block_count_next:
  assumes le: "log_size cur \<le> 30" and b: "is_block cur b" "b < b'"
    and full: "\<forall>y. end_of_block cur b \<le> y \<longrightarrow> y < b' \<longrightarrow> y < SIZE_OF cur \<longrightarrow> index cur y \<noteq> 0"
    and b': "is_block cur b' \<or> b' = SIZE_OF cur"
  shows "(\<Sum>s | is_block cur s \<and> s < b'. block_count cur s) =
    (\<Sum>s | is_block cur s \<and> s < b. block_count cur s) + block_count cur b"
proof -
  let ?S = "{s. is_block cur s \<and> s < b'}" and ?T = "insert b {s. is_block cur s \<and> s < b}"
  have "block_count cur s = 0" if s: "s \<in> ?S - ?T" for s
  proof -
    from s have bs: "is_block cur s" "b < s" "s < b'" by auto
    have "end_of_block cur s \<le> b'"
      using b' blocks_ordered [OF bs(1) _ bs(3)] by (auto simp: end_of_block_def)
    moreover have "end_of_block cur b \<le> s" using blocks_ordered [OF b(1) bs(1,2)] .
    moreover have "end_of_block cur s \<le> SIZE_OF cur" by (simp add: end_of_block_def)
    ultimately have "\<not> block_owned cur s"
      using full by (intro not_owned [OF le bs(1)]) auto
    then show ?thesis by (simp add: block_count_def)
  qed
  moreover have "?T \<subseteq> ?S" using b by auto
  ultimately have "sum (block_count cur) ?S = sum (block_count cur) ?T"
    by (intro sum.mono_neutral_right finite_blocks) auto
  then show ?thesis by (simp add: finite_blocks)
qed

lemma chain_step:
  assumes wf: "wf_index py h cur" and "e < SIZE_OF cur" and e: "index cur e = 0"
    and first: "\<And>y. y < e \<Longrightarrow> index cur y \<noteq> 0"
    and all: "\<And>s. is_block cur s \<Longrightarrow> block_done py h cur new s"
    and ch: "chain py h cur new e b x" and x: "x < SIZE_OF cur"
  shows "\<exists>b' y. x < y \<and> chain py h cur new e b' y"
proof -
  let ?N = "SIZE_OF cur"
  note le = wf_log_size_le [OF wf]
  from ch x have c: "region_ok py h cur new e x" "e \<le> x" "is_block cur b" "b \<le> x" "x < end_of_block cur b"
    "index cur x = 0" "\<forall>y. b \<le> y \<longrightarrow> y < x \<longrightarrow> index cur y \<noteq> 0"
    "live_count cur e x = (\<Sum>s | is_block cur s \<and> s < b. block_count cur s)"
    unfolding chain_def by simp_all
  from c(3) have bN: "b < ?N" by (simp add: is_block_def)
  have own: "block_owned cur b"
  proof (rule ccontr)
    assume "\<not> block_owned cur b"
    then have "end_of_block cur b \<le> block_first cur b" by (simp add: block_owned_def)
    moreover have "\<forall>y. b \<le> y \<longrightarrow> y < block_first cur b \<longrightarrow> index cur y \<noteq> 0"
      using first_empty_spec [OF le, of "end_of_block cur b" b] bN
      by (simp add: block_first_def end_of_block_def)
    ultimately show False using c(4-6) by auto
  qed
  note bb = block_bounds [OF le bN own]
  have bf: "block_first cur b = x"
  proof (rule antisym)
    show "block_first cur b \<le> x" using bb(10) [OF c(4)] c(6) by (meson not_le)
    show "x \<le> block_first cur b" using c(7) bb(1,2) by (meson not_le)
  qed
  define y where "y = block_last cur b"
  have xy: "x < y" using bb(3,5) bf by (simp add: y_def)
  have yN: "y \<le> e + ?N"
  proof (rule ccontr)
    assume "\<not> ?thesis"
    then have "index cur ((e + ?N) mod ?N) \<noteq> 0" using bb(4) unfolding y_def by (intro bb(9)) simp_all
    with e assms(2) show False by simp
  qed
  have "region_ok py h cur new x y"
    using all [OF c(3)] own bf by (simp add: block_done_def y_def)
  from region_compose [OF wf c(1) this c(2) less_imp_le [OF xy] yN]
  have reg: "region_ok py h cur new e y" .
  have "block_count cur b = live_count cur x y" using own bf by (simp add: block_count_def y_def)
  with c(8) live_count_split [OF c(2) less_imp_le [OF xy], of cur]
  have cnt: "live_count cur e y = (\<Sum>s | is_block cur s \<and> s < b. block_count cur s) + block_count cur b"
    by simp
  have full: "index cur z \<noteq> 0" if "end_of_block cur b \<le> z" "z < y" "z < ?N" for z
    using bb(9) [OF that(1)] that(2,3) by (simp add: y_def)
  show ?thesis
  proof (cases "y < ?N")
    case True
    from block_of [OF True] obtain b' where b': "is_block cur b'" "b' \<le> y" "y < end_of_block cur b'" .
    have "b < b'"
    proof (rule ccontr)
      assume "\<not> b < b'"
      then have "end_of_block cur b' \<le> end_of_block cur b" by (simp add: end_of_block_def)
      with b'(3) bb(5) show False by (simp add: y_def)
    qed
    from blocks_ordered [OF c(3) b'(1) this] have "end_of_block cur b \<le> b'" .
    then have "\<forall>z. b' \<le> z \<longrightarrow> z < y \<longrightarrow> index cur z \<noteq> 0" using full True by auto
    moreover have "index cur y = 0" using bb(7) True by (simp add: y_def)
    moreover have "live_count cur e y = (\<Sum>s | is_block cur s \<and> s < b'. block_count cur s)"
      using block_count_next [OF le c(3) \<open>b < b'\<close>] b'(1,2) full cnt by auto
    ultimately have "chain py h cur new e b' y"
      using reg c(2) xy True b' unfolding chain_def by simp
    with xy show ?thesis by blast
  next
    case False
    have "y = e + ?N"
    proof (rule ccontr)
      assume "y \<noteq> e + ?N"
      with yN False have "y - ?N < e" "y mod ?N = y - ?N"
        using assms(2) by (auto simp: mod_if le_mod_geq)
      with first [of "y - ?N"] bb(7) show False by (simp add: y_def)
    qed
    moreover have "live_count cur e y = (\<Sum>s | is_block cur s \<and> s < ?N. block_count cur s)"
      using block_count_next [OF le c(3) bN] full cnt False by auto
    ultimately have "chain py h cur new e ?N y"
      using reg False unfolding chain_def by simp
    with xy show ?thesis by blast
  qed
qed

lemma chain_complete:
  assumes wf: "wf_index py h cur"
    and all: "\<And>s. is_block cur s \<Longrightarrow> block_done py h cur new s"
  obtains e where "e < SIZE_OF cur" and "index cur e = 0"
    and "region_ok py h cur new e (e + SIZE_OF cur)"
    and "live_count cur e (e + SIZE_OF cur) = (\<Sum>s | is_block cur s. block_count cur s)"
proof -
  let ?N = "SIZE_OF cur"
  define e where "e = (LEAST e. index cur e = 0)"
  from wf_empty_slot [OF wf] obtain p where p: "p < ?N" "index cur p = 0" by blast
  have e: "index cur e = 0" unfolding e_def by (rule LeastI) (rule p(2))
  have eN: "e < ?N" using Least_le [of "\<lambda>e. index cur e = 0", OF p(2)] p(1) by (simp add: e_def)
  have first: "index cur y \<noteq> 0" if "y < e" for y
    using not_less_Least [of y "\<lambda>e. index cur e = 0"] that by (simp add: e_def)
  from block_of [OF eN] obtain b where b: "is_block cur b" "b \<le> e" "e < end_of_block cur b" .
  have "chain py h cur new e b e"
  proof -
    have "block_count cur s = 0" if "is_block cur s" "s < b" for s
    proof -
      have "end_of_block cur s \<le> b" using blocks_ordered [OF that(1) b(1) that(2)] .
      with first b(2) have "\<not> block_owned cur s"
        by (intro not_owned [OF wf_log_size_le [OF wf] that(1)]) auto
      then show ?thesis by (simp add: block_count_def)
    qed
    then show ?thesis using b eN e first by (auto simp: chain_def region_ok_start)
  qed
  moreover have "\<exists>b' y. ?N \<le> y \<and> chain py h cur new e b' y" if "chain py h cur new e b x" for b x
    using that
  proof (induction "?N - x" arbitrary: b x rule: less_induct)
    case less
    show ?case
    proof (cases "x < ?N")
      case True
      from chain_step [OF wf eN e first all less.prems True] obtain b' y where
        y: "x < y" "chain py h cur new e b' y" by blast
      show ?thesis using True y by (intro less.hyps [OF _ y(2)]) simp
    next
      case False
      with less.prems show ?thesis by (meson not_le)
    qed
  qed
  ultimately have "\<exists>b' y. ?N \<le> y \<and> chain py h cur new e b' y" by blast
  then obtain b' y where y: "?N \<le> y" "chain py h cur new e b' y" by blast
  then have "y = e + ?N" "b' = ?N" by (auto simp: chain_def)
  moreover have "{s. is_block cur s \<and> s < ?N} = {s. is_block cur s}" by (auto simp: is_block_def)
  ultimately show thesis
    using y(2) by (intro that [OF eN e]) (simp_all add: chain_def)
qed

subsection \<open>The new table\<close>

lemma region_window:
  assumes "next_generation cur new" and "p < SIZE_OF new" and "e < SIZE_OF cur"
  obtains u where "2 * e \<le> u" and "u < 2 * (e + SIZE_OF cur)" and "p = u mod SIZE_OF new"
proof (cases "2 * e \<le> p")
  case True
  with assms next_generation_size [OF assms(1)] show thesis by (intro that [of p]) simp_all
next
  case False
  with assms next_generation_size [OF assms(1)] show thesis by (intro that [of "p + SIZE_OF new"]) simp_all
qed

text \<open>Every node of the new index is live and points at the entry of a live node of the old one.\<close>

definition nodes_from :: "meta \<Rightarrow> meta \<Rightarrow> bool" where
  "nodes_from cur new \<longleftrightarrow>
     (\<forall>p<SIZE_OF new. index new p \<noteq> 0 \<longrightarrow>
        live new p \<and> (\<exists>t<SIZE_OF cur. live cur t \<and> n_index (slot new p) = n_index (slot cur t)))"

text \<open>A slot of the new table has the node of a slot of the old one, and stands where it may.\<close>

definition copies :: "pyenv \<Rightarrow> heap \<Rightarrow> meta \<Rightarrow> meta \<Rightarrow> nat \<Rightarrow> nat \<Rightarrow> bool" where
  "copies py h cur new p t \<longleftrightarrow>
     live cur t \<and> live new p \<and> n_index (slot new p) = n_index (slot cur t) \<and>
     entry_of h new p = entry_of h cur t \<and> node_ok py h new p"

lemma migrated_copies:
  assumes gen: "next_generation cur new" and wf: "wf_index py h cur"
    and m: "migrated_to py h cur new e q u" and q: "q < e + SIZE_OF cur" "live cur (q mod SIZE_OF cur)"
  shows "copies py h cur new (u mod SIZE_OF new) (q mod SIZE_OF cur)"
proof -
  let ?N = "SIZE_OF cur" and ?M = "SIZE_OF new"
  have size: "?M = 2 * ?N" by (rule next_generation_size [OF gen])
  from m obtain en d0 where en: "entry_of h cur (q mod ?N) = Some en"
    and d0: "d0 mod ?M = home py new (e_hash en)" "2 * Suc e \<le> d0" "d0 \<le> u" "u < 2 * Suc q"
    and sl: "n_index (slot new (u mod ?M)) = n_index (slot cur (q mod ?N))"
    "n_tag (slot new (u mod ?M)) = REHASH py (e_hash en) AND TAG_MASK new"
    "n_distance (slot new (u mod ?M)) = stored_distance (of_nat (u - d0))"
    and occ: "\<forall>w. d0 \<le> w \<longrightarrow> w \<le> u \<longrightarrow> index new (w mod ?M) \<noteq> 0"
    unfolding migrated_to_def by blast
  have "q mod ?N < ?N" by simp
  from wf_node [OF wf this q(2)] en obtain key where ok: "e_key en = Some key"
    "e_hash en = PyObject_Hash py key" "allocated cur (n_index (slot cur (q mod ?N)))"
    unfolding node_ok_def by auto
  note al = next_generation_entry [OF gen ok(3)]
  have live: "live new (u mod ?M)" using q(2) sl(1) by (simp add: live_iff)
  have ent: "entry_of h new (u mod ?M) = entry_of h cur (q mod ?N)"
    using sl(1) al(2) by (simp add: entry_of_def)
  have shift: "(home py new (e_hash en) + i) mod ?M = (d0 + i) mod ?M" for i
    unfolding d0(1) [symmetric] by (simp add: mod_add_left_eq)
  have "on_path py new (e_hash en) (u - d0) (u mod ?M)"
    unfolding on_path_def shift using d0 q size occ by auto
  with sl(2,3) have "placed py new (u mod ?M) (e_hash en)" unfolding placed_def by blast
  with al(1) sl(1) ent en ok(1,2) have "node_ok py h new (u mod ?M)"
    unfolding node_ok_def by auto
  with sl(1) live ent q(2) show ?thesis by (simp add: copies_def)
qed

text \<open>A table all of whose nodes are copies of the nodes of another, once each, is the same map.\<close>

lemma table_of_copies:
  assumes wf: "wf_index py h cur" and ok: "log_size_ok new" "pages_ok new" "\<exists>p<SIZE_OF new. index new p = 0"
    and old: "\<And>p. p < SIZE_OF new \<Longrightarrow> index new p \<noteq> 0 \<Longrightarrow> \<exists>t<SIZE_OF cur. copies py h cur new p t"
    and cover: "\<And>t. t < SIZE_OF cur \<Longrightarrow> live cur t \<Longrightarrow> \<exists>p<SIZE_OF new. copies py h cur new p t"
    and uniq: "\<And>p p'. p < SIZE_OF new \<Longrightarrow> p' < SIZE_OF new \<Longrightarrow> index new p \<noteq> 0 \<Longrightarrow> index new p' \<noteq> 0 \<Longrightarrow>
      n_index (slot new p) = n_index (slot new p') \<Longrightarrow> p = p'"
  shows "wf_index py h new" and "table_map py h new = table_map py h cur" and "nodes_from cur new"
proof -
  let ?N = "SIZE_OF cur" and ?M = "SIZE_OF new"
  show "nodes_from cur new" unfolding nodes_from_def using old unfolding copies_def by blast
  have holds: "holds py h new key p = holds py h cur key t" if "copies py h cur new p t" for key p t
    using that by (simp add: holds_def copies_def)
  have holds_old: "\<exists>t<?N. holds py h cur key t \<and> copies py h cur new p t" if "p < ?M" "holds py h new key p" for key p
    using old [OF that(1)] that(2) holds by (metis holdsD live_not_empty)
  show wf': "wf_index py h new"
    unfolding wf_index_def
  proof (intro conjI allI impI)
    fix p assume "p < ?M" "live new p"
    with old live_not_empty show "node_ok py h new p" unfolding copies_def by blast
  next
    fix p q assume "p < ?M" "q < ?M" "live new p" "live new q" "n_index (slot new p) = n_index (slot new q)"
    with uniq live_not_empty show "p = q" by blast
  next
    fix key p q assume p: "p < ?M" "holds py h new key p" and q: "q < ?M" "holds py h new key q"
    from holds_old [OF p] holds_old [OF q] obtain t t' where
      t: "t < ?N" "holds py h cur key t" "copies py h cur new p t" and
      t': "t' < ?N" "holds py h cur key t'" "copies py h cur new q t'" by blast
    with wf_unique [OF wf t(1) t'(1)] have "t = t'" by blast
    with t(3) t'(3) have "n_index (slot new p) = n_index (slot new q)" "index new p \<noteq> 0" "index new q \<noteq> 0"
      by (simp_all add: copies_def live_not_empty)
    with uniq p(1) q(1) show "p = q" by blast
  qed (use ok in auto)
  show "table_map py h new = table_map py h cur"
  proof
    fix key
    show "table_map py h new key = table_map py h cur key"
    proof (cases "table_map py h cur key")
      case None
      with holds_old have "table_map py h new key = None" unfolding table_map_None by metis
      with None show ?thesis by simp
    next
      case (Some v)
      with table_map_Some [OF wf] obtain t en where t: "t < ?N" "holds py h cur key t"
        "entry_of h cur t = Some en" "e_value en = Some v" by blast
      moreover from t(2) have "live cur t" by (blast elim: holdsD)
      ultimately obtain p where p: "p < ?M" "copies py h cur new p t" using cover by blast
      with holds [OF p(2)] t have "holds py h new key p" "entry_of h new p = Some en" by (simp_all add: copies_def)
      with table_map_holds [OF wf' p(1)] Some t(4) show ?thesis by simp
    qed
  qed
qed

lemma table_of_region:
  assumes gen: "next_generation cur new" and wf: "wf_index py h cur" and e: "e < SIZE_OF cur"
    and reg: "region_ok py h cur new e (e + SIZE_OF cur)"
  shows "wf_index py h new" and "table_map py h new = table_map py h cur" and "nodes_from cur new"
proof -
  let ?N = "SIZE_OF cur" and ?M = "SIZE_OF new"
  note r = region_okD [OF reg] and copy = migrated_copies [OF gen wf]
  have ok: "log_size_ok new" "pages_ok new"
    using gen wf_log_size [OF wf] wf_pages [OF wf] next_generation_size [OF gen]
    unfolding pages_ok_def next_generation_def page_count_def log_size_ok_def
    by (auto intro: less_le_trans simp: layout_consts)
  have "index new ((2 * e) mod ?M) = 0" using r(2) [of "2 * e"] by (force simp: migrated_to_def)
  then have empty: "\<exists>p<?M. index new p = 0" by (intro exI [of _ "(2 * e) mod ?M"]) simp
  have old: "\<exists>t<?N. copies py h cur new p t" if p: "p < ?M" "index new p \<noteq> 0" for p
  proof -
    from region_window [OF gen p(1) e] obtain u where
      u: "2 * e \<le> u" "u < 2 * (e + ?N)" "p = u mod ?M" .
    with p(2) r(2) [OF u(1,2)] obtain q where "q < e + ?N" "live cur (q mod ?N)" "migrated_to py h cur new e q u" by auto
    with copy u(3) show ?thesis by (intro exI [of _ "q mod ?N"]) auto
  qed
  have cover: "\<exists>p<?M. copies py h cur new p t" if t: "t < ?N" "live cur t" for t
  proof -
    define q where "q = (if e \<le> t then t else t + ?N)"
    have q: "e \<le> q" "q < e + ?N" "t = q mod ?N" using t(1) e by (auto simp: q_def)
    with r(1) t(2) obtain u where u: "migrated_to py h cur new e q u" by blast
    from copy [OF this q(2)] t(2) q(3) show ?thesis by (intro exI [of _ "u mod ?M"]) simp
  qed
  have uniq: "p = p'" if "p < ?M" "p' < ?M" "index new p \<noteq> 0" "index new p' \<noteq> 0"
    "n_index (slot new p) = n_index (slot new p')" for p p'
  proof -
    from region_window [OF gen that(1) e] obtain u where
      u: "2 * e \<le> u" "u < 2 * (e + ?N)" "p = u mod ?M" .
    from region_window [OF gen that(2) e] obtain v where
      v: "2 * e \<le> v" "v < 2 * (e + ?N)" "p' = v mod ?M" .
    from r(3) [OF u(1,2) v(1,2)] that u v show ?thesis by simp
  qed
  from table_of_copies [OF wf ok empty old cover uniq] show "wf_index py h new"
    "table_map py h new = table_map py h cur" "nodes_from cur new" by blast+
qed

subsection \<open>A participant that works alone\<close>

lemma table_eq_generation:
  assumes "table_eq a b"
  shows "next_generation b new = next_generation a new" and "block_done py h b new s = block_done py h a new s"
    and "block_count b s = block_count a s" and "is_block b s = is_block a s"
proof -
  note t = table_eqD [OF assms]
  show "next_generation b new = next_generation a new" by (simp add: next_generation_def t)
  show "is_block b s = is_block a s" by (simp add: is_block_def t)
  have stop: "end_of_block b s = end_of_block a s" by (simp add: end_of_block_def t)
  have fe: "first_empty b i j = first_empty a i j" for i j
  proof (induction "j - i" arbitrary: i)
    case 0
    then show ?case by (subst (1 2) first_empty.simps) simp
  next
    case (Suc n)
    then have "first_empty b (Suc i) j = first_empty a (Suc i) j" by simp
    then show ?case
      by (subst (1 2) first_empty.simps) (simp add: read_raw_node_at_def t)
  qed
  have first: "block_first b s = block_first a s" by (simp add: block_first_def fe stop)
  have last: "block_last b s = block_last a s" by (simp add: block_last_def next_empty_def stop t)
  have own: "block_owned b s = block_owned a s" by (simp add: block_owned_def first stop)
  show "block_count b s = block_count a s" by (simp add: block_count_def live_count_def own first last t)
  show "block_done py h b new s = block_done py h a new s"
    by (simp add: block_done_def region_ok_def migrated_to_def own first last t)
qed

lemma is_block_next:
  assumes "ATOMIC_DICT_BLOCKWISE_MIGRATE_SIZE dvd b"
  shows "{s. is_block cur s \<and> s < b + ATOMIC_DICT_BLOCKWISE_MIGRATE_SIZE} =
    {s. is_block cur s \<and> s < b} \<union> (if b < SIZE_OF cur then {b} else {})"
proof -
  have "s = b" if "is_block cur s" "b \<le> s" "s < b + ATOMIC_DICT_BLOCKWISE_MIGRATE_SIZE" for s
  proof -
    from that assms have "ATOMIC_DICT_BLOCKWISE_MIGRATE_SIZE dvd s - b"
      by (intro dvd_diff_nat) (simp_all add: is_block_def)
    moreover have "s - b < ATOMIC_DICT_BLOCKWISE_MIGRATE_SIZE" using that by simp
    ultimately have "s - b = 0" using nat_dvd_not_less by blast
    with that show ?thesis by simp
  qed
  note at = this
  show ?thesis
  proof (intro set_eqI)
    fix x
    show "x \<in> {s. is_block cur s \<and> s < b + ATOMIC_DICT_BLOCKWISE_MIGRATE_SIZE} \<longleftrightarrow>
        x \<in> {s. is_block cur s \<and> s < b} \<union> (if b < SIZE_OF cur then {b} else {})"
    proof (cases "x < b")
      case False
      then have "is_block cur x \<and> x < b + ATOMIC_DICT_BLOCKWISE_MIGRATE_SIZE \<longleftrightarrow> x = b \<and> b < SIZE_OF cur"
        using at [of x] assms by (auto simp: is_block_def ATOMIC_DICT_BLOCKWISE_MIGRATE_SIZE_def)
      with False show ?thesis by auto
    qed (auto simp: is_block_def)
  qed
qed

lemma live_count_rotate:
  assumes "e \<le> SIZE_OF cur"
  shows "live_count cur e (e + SIZE_OF cur) = live_count cur 0 (SIZE_OF cur)"
proof -
  let ?N = "SIZE_OF cur"
  have "live_count cur ?N (?N + e) = live_count cur 0 e"
  proof -
    have "{r. ?N \<le> r \<and> r < ?N + e \<and> live cur (r mod ?N)} =
        (\<lambda>r. ?N + r) ` {r. 0 \<le> r \<and> r < e \<and> live cur (r mod ?N)}"
      by (auto simp: image_iff) (metis le_add_diff_inverse mod_add_self1 nat_add_left_cancel_less)
    then show ?thesis unfolding live_count_def by (simp add: card_image)
  qed
  with live_count_split [of e ?N "?N + e" cur] live_count_split [of 0 e ?N cur] assms
  show ?thesis by (simp add: add.commute)
qed

text \<open>
  What is left to say after some of the blocks: those before \<open>node_to_migrate\<close> are done and
  counted.
\<close>

lemma migrate_nodes_from_correct:
  assumes "next_generation cur new" and "wf_index py h cur"
    and "ATOMIC_DICT_BLOCKWISE_MIGRATE_SIZE dvd node_to_migrate cur"
    and "\<And>s. is_block cur s \<Longrightarrow> s < node_to_migrate cur \<Longrightarrow> block_done py h cur new s"
    and "n = int (\<Sum>s | is_block cur s \<and> s < node_to_migrate cur. block_count cur s)"
  shows "\<exists>k new'. SIZE_OF cur \<le> k \<and>
    migrate_nodes_from py h cur new n =
      Some (cur\<lparr>node_to_migrate := k\<rparr>, new', int (\<Sum>s | is_block cur s. block_count cur s)) \<and>
    same_but_index new new' \<and> (\<forall>s. is_block cur s \<longrightarrow> block_done py h cur new' s)"
  using assms
proof (induction "SIZE_OF cur - node_to_migrate cur" arbitrary: cur new n rule: less_induct)
  case less
  let ?b = "node_to_migrate cur" and ?B = "ATOMIC_DICT_BLOCKWISE_MIGRATE_SIZE"
  let ?cur = "cur\<lparr>node_to_migrate := ?b + ?B\<rparr>"
  have eq: "table_eq cur ?cur" by (simp add: table_eq_def)
  note t = table_eqD [OF eq] and g = table_eq_generation [OF eq] and w = table_eq_wf [OF eq]
  show ?case
  proof (cases "?b < SIZE_OF cur")
    case False
    have "s < ?b" if "is_block cur s" for s using that False by (simp add: is_block_def)
    then have all: "{s. is_block cur s \<and> s < ?b} = {s. is_block cur s}" by auto
    have "migrate_nodes_from py h cur new n = Some (?cur, new, n)"
      using False t(5) by (subst migrate_nodes_from.simps) (simp add: fetch_block_def)
    moreover have "block_done py h cur new s" if "is_block cur s" for s
      using less.prems(4) \<open>\<And>s. is_block cur s \<Longrightarrow> s < ?b\<close> that by blast
    ultimately show ?thesis
      using False less.prems(5) all by (intro exI [of _ "?b + ?B"] exI [of _ new]) auto
  next
    case True
    have isb: "is_block cur ?b" using True less.prems(3) by (simp add: is_block_def)
    from block_wise_migrate_correct [of ?cur new py h ?b] less.prems(1,2) True t(5) g w obtain new1 where
      m: "block_wise_migrate py h ?cur new ?b = Some (new1, int (block_count cur ?b))"
      "same_but_index new new1" "block_done py h cur new1 ?b" by auto
    have gen1: "next_generation ?cur new1" using less.prems(1) g same_but_index_fields(7) [OF m(2)] by simp
    have done1: "block_done py h cur new1 s" if "is_block cur s" "s < ?b + ?B" for s
    proof (cases "s = ?b")
      case False
      with that is_block_next [OF less.prems(3), of cur] True have "s < ?b" by auto
      with less.prems(4) that have "block_done py h ?cur new s" using g by simp
      from block_preserves [OF _ _ _ _ _ m(1) this] less.prems(1,2) isb that(1) False g w
      show ?thesis by simp
    qed (use m(3) in simp)
    have sum: "n + int (block_count cur ?b) =
        int (\<Sum>s | is_block ?cur s \<and> s < node_to_migrate ?cur. block_count ?cur s)"
    proof -
      have "(\<Sum>s | is_block cur s \<and> s < ?b + ?B. block_count cur s) =
          (\<Sum>s | is_block cur s \<and> s < ?b. block_count cur s) + block_count cur ?b"
        unfolding is_block_next [OF less.prems(3)] using True by (simp add: finite_blocks)
      with less.prems(5) g show ?thesis by simp
    qed
    have "0 < ?B" by (simp add: ATOMIC_DICT_BLOCKWISE_MIGRATE_SIZE_def)
    then have "SIZE_OF ?cur - node_to_migrate ?cur < SIZE_OF cur - ?b" using True t(5) by simp
    moreover have "wf_index py h ?cur" using less.prems(2) w by simp
    moreover have "?B dvd node_to_migrate ?cur" using less.prems(3) by simp
    moreover have "\<And>s. is_block ?cur s \<Longrightarrow> s < node_to_migrate ?cur \<Longrightarrow> block_done py h ?cur new1 s"
      using done1 g by simp
    ultimately obtain k new' where
      k: "SIZE_OF ?cur \<le> k" "migrate_nodes_from py h ?cur new1 (n + int (block_count cur ?b)) =
        Some (?cur\<lparr>node_to_migrate := k\<rparr>, new', int (\<Sum>s | is_block ?cur s. block_count ?cur s))"
      "same_but_index new1 new'" "\<forall>s. is_block ?cur s \<longrightarrow> block_done py h ?cur new' s"
      using less.hyps [OF _ gen1 _ _ _ sum] by blast
    have "migrate_nodes_from py h cur new n = migrate_nodes_from py h ?cur new1 (n + int (block_count cur ?b))"
      using True t(5) m(1) by (subst migrate_nodes_from.simps) (simp add: fetch_block_def)
    moreover have "is_block ?cur = is_block cur" "block_count ?cur = block_count cur"
      by (simp_all add: fun_eq_iff g)
    moreover have "?cur\<lparr>node_to_migrate := k\<rparr> = cur\<lparr>node_to_migrate := k\<rparr>" by simp
    ultimately show ?thesis
      using k t(5) g same_but_index_trans [OF m(2) k(3)]
      by (intro exI [of _ k] exI [of _ new']) simp
  qed
qed

theorem migrate_nodes_correct:
  assumes gen: "next_generation cur new" and wf: "wf_index py h cur" and "node_to_migrate cur = 0"
  shows "\<exists>k new'. SIZE_OF cur \<le> k \<and>
    migrate_nodes py h cur new = Some (cur\<lparr>node_to_migrate := k\<rparr>, new', int (live_count cur 0 (SIZE_OF cur))) \<and>
    same_but_index new new' \<and> wf_index py h new' \<and> table_map py h new' = table_map py h cur \<and>
    nodes_from cur new'"
proof -
  from migrate_nodes_from_correct [OF gen wf] assms(3) obtain k new' where
    k: "SIZE_OF cur \<le> k" "migrate_nodes py h cur new =
      Some (cur\<lparr>node_to_migrate := k\<rparr>, new', int (\<Sum>s | is_block cur s. block_count cur s))"
    "same_but_index new new'" "\<forall>s. is_block cur s \<longrightarrow> block_done py h cur new' s"
    unfolding migrate_nodes_def by fastforce
  from k(4) chain_complete [OF wf, of new'] obtain e where
    e: "e < SIZE_OF cur" "region_ok py h cur new' e (e + SIZE_OF cur)"
    "live_count cur e (e + SIZE_OF cur) = (\<Sum>s | is_block cur s. block_count cur s)" by metis
  have "next_generation cur new'" using gen same_but_index_fields(7) [OF k(3)] by simp
  note table_of_region [OF this wf e(1,2)]
  moreover have "live_count cur e (e + SIZE_OF cur) = live_count cur 0 (SIZE_OF cur)"
    by (rule live_count_rotate) (use e in simp)
  ultimately show ?thesis using k e(3) by auto
qed

end
