(* ===== verification/Lookup.thy ===== *)
theory Lookup
  imports Index
begin

text \<open>
  The search of one table, from \<^verbatim>\<open>src/src/cereggii/atomic_dict/lookup.c\<close>.  A search fills in a
  result structure; fields it does not write keep what the caller left in them, so the structure is
  an argument.  The distance is a natural number: it stays below the size of the index.
\<close>

record search_result =
  sr_error :: bool
  sr_found :: bool
  sr_position :: u64
  sr_node :: node
  sr_entry_p :: "entry_ptr option"
  sr_entry :: entry

definition lookup_not_found :: "search_result \<Rightarrow> search_result" where
  "lookup_not_found r = r\<lparr>sr_error := False, sr_found := False, sr_entry_p := None\<rparr>"

definition lookup_found :: "meta \<Rightarrow> u64 \<Rightarrow> nat \<Rightarrow> search_result \<Rightarrow> search_result" where
  "lookup_found m d0 distance r =
     r\<lparr>sr_error := False, sr_found := True,
       sr_position := (d0 + of_nat distance) AND index_mask m\<rparr>"

function lookup_from ::
  "pyenv \<Rightarrow> heap \<Rightarrow> meta \<Rightarrow> pyobj \<Rightarrow> i64 \<Rightarrow> nat \<Rightarrow> search_result \<Rightarrow> search_result option" where
  "lookup_from py h m key hash distance r =
     (let d0 = distance0_of py hash m in
      if distance < SIZE_OF m then
        (let nd = read_node_at (d0 + of_nat distance) m;
             r = r\<lparr>sr_node := nd\<rparr> in
         if is_empty nd then Some (lookup_not_found r)
         else if is_tombstone nd then lookup_from py h m key hash (Suc distance) r
         else if check_tag py hash nd m then
           (case get_entry_at (n_index nd) m of
              None \<Rightarrow> None
            | Some p \<Rightarrow>
                (let e = read_entry h p;
                     r = r\<lparr>sr_entry_p := Some p, sr_entry := e\<rparr> in
                 case (e_value e, e_key e) of
                   (Some v, Some k) \<Rightarrow>
                     if k = key then Some (lookup_found m d0 distance r)
                     else if e_hash e \<noteq> hash then lookup_from py h m key hash (Suc distance) r
                     else
                       (case RichCompareEq py k key of
                          CmpError \<Rightarrow> Some (r\<lparr>sr_error := True\<rparr>)
                        | CmpFalse \<Rightarrow> lookup_from py h m key hash (Suc distance) r
                        | CmpTrue \<Rightarrow> Some (lookup_found m d0 distance r))
                 | (None, _) \<Rightarrow> lookup_from py h m key hash (Suc distance) r
                 | (Some v, None) \<Rightarrow>
                     if e_hash e \<noteq> hash then lookup_from py h m key hash (Suc distance) r else None))
         else lookup_from py h m key hash (Suc distance) r)
      else Some (lookup_not_found r))"
  by pat_completeness auto
termination
  by (relation "measure (\<lambda>(py, h, m, key, hash, distance, r). SIZE_OF m - distance)") auto

declare lookup_from.simps [simp del]

definition lookup ::
  "pyenv \<Rightarrow> heap \<Rightarrow> meta \<Rightarrow> pyobj \<Rightarrow> i64 \<Rightarrow> search_result \<Rightarrow> search_result option" where
  "lookup py h m key hash r = lookup_from py h m key hash 0 r"

text \<open>\<open>lookup_entry\<close> searches the index for a node that points at a given entry.\<close>

function lookup_entry_from ::
  "pyenv \<Rightarrow> meta \<Rightarrow> u64 \<Rightarrow> i64 \<Rightarrow> nat \<Rightarrow> search_result \<Rightarrow> search_result" where
  "lookup_entry_from py m entry_ix hash distance r =
     (let d0 = distance0_of py hash m in
      if distance < SIZE_OF m then
        (let nd = read_node_at (d0 + of_nat distance) m;
             r = r\<lparr>sr_node := nd\<rparr> in
         if is_empty nd then r\<lparr>sr_error := False, sr_found := False\<rparr>
         else if n_index nd = entry_ix then lookup_found m d0 distance r
         else lookup_entry_from py m entry_ix hash (Suc distance) r)
      else r\<lparr>sr_error := False, sr_found := False\<rparr>)"
  by pat_completeness auto
termination
  by (relation "measure (\<lambda>(py, m, entry_ix, hash, distance, r). SIZE_OF m - distance)") auto

declare lookup_entry_from.simps [simp del]

definition lookup_entry ::
  "pyenv \<Rightarrow> meta \<Rightarrow> u64 \<Rightarrow> i64 \<Rightarrow> search_result \<Rightarrow> search_result" where
  "lookup_entry py m entry_ix hash r = lookup_entry_from py m entry_ix hash 0 r"

subsection \<open>Correctness of the search\<close>

text \<open>What a search that did not fail says of the table.\<close>

definition search_ok :: "pyenv \<Rightarrow> heap \<Rightarrow> meta \<Rightarrow> pyobj \<Rightarrow> search_result \<Rightarrow> bool" where
  "search_ok py h m key r \<longleftrightarrow>
     \<not> sr_error r \<and>
     (if sr_found r then
        (\<exists>p<SIZE_OF m. \<exists>ptr. holds py h m key p \<and> unat (sr_position r) = p \<and> sr_node r = slot m p \<and>
           get_entry_at (n_index (slot m p)) m = Some ptr \<and> sr_entry_p r = Some ptr \<and>
           sr_entry r = h ptr)
      else sr_entry_p r = None \<and> (\<forall>p<SIZE_OF m. \<not> holds py h m key p))"

lemma check_tag_slot:
  assumes "n_tag (slot m p) = REHASH py hash AND TAG_MASK m"
  shows "check_tag py hash (slot m p) m"
  using assms by (simp add: check_tag_def and.assoc)

lemma read_entry_value: "e_value (read_entry h p) = e_value (h p)"
  by (simp add: read_entry_def)

lemma search_not_found:
  assumes wf: "wf_index py h m" and wb: "well_behaved_keys py"
    and skipped: "\<forall>j<k. \<not> holds py h m key ((home py m (PyObject_Hash py key) + j) mod SIZE_OF m)"
    and stop: "k = SIZE_OF m \<or> index m ((home py m (PyObject_Hash py key) + k) mod SIZE_OF m) = 0"
  shows "search_ok py h m key (lookup_not_found r)"
proof -
  have "\<not> holds py h m key p" if p: "p < SIZE_OF m" for p
  proof
    assume h: "holds py h m key p"
    from holds_on_path [OF wf wb p h] obtain j where
      j: "on_path py m (PyObject_Hash py key) j p" by blast
    from h have "index m p \<noteq> 0" by (auto elim: holdsD dest: live_not_empty)
    with stop on_path_before_empty [OF j] j have "j < k" unfolding on_path_def by auto
    with skipped j h show False unfolding on_path_def by blast
  qed
  then show ?thesis by (simp add: search_ok_def lookup_not_found_def)
qed

lemma search_found:
  assumes "log_size m \<le> 30" and "p = (home py m hash + k) mod SIZE_OF m"
    and "holds py h m key p" and "get_entry_at (n_index (slot m p)) m = Some ptr"
  shows "search_ok py h m key
           (lookup_found m (distance0_of py hash m) k
              (r\<lparr>sr_node := slot m p, sr_entry_p := Some ptr, sr_entry := h ptr\<rparr>))"
  using assms
  by (cases ptr) (auto simp: search_ok_def lookup_found_def unat_position home_def)

text \<open>A slot that is occupied and does not hold the key is passed, one that holds it is found.\<close>

lemma lookup_passes:
  assumes wf: "wf_index py h m" and wb: "well_behaved_keys py" and hash: "hash = PyObject_Hash py key"
    and p: "p = (home py m hash + k) mod SIZE_OF m" and k: "k < SIZE_OF m"
    and ne: "index m p \<noteq> 0" and nh: "\<not> holds py h m key p"
  obtains r2 where "lookup_from py h m key hash k r = lookup_from py h m key hash (Suc k) r2"
proof -
  have rd: "read_node_at (distance0_of py hash m + of_nat k) m = slot m p"
    using read_node_at_slot [OF wf_log_size_le [OF wf]] by (simp add: home_def p)
  have p': "p < SIZE_OF m" by (simp add: p)
  have nt: "\<not> is_empty (slot m p)" using ne by (simp add: is_empty_slot)
  show thesis
  proof (cases "is_tombstone (slot m p)")
    case True
    with nt rd k show thesis by (intro that, subst lookup_from.simps) simp
  next
    case False
    with nt have live: "live m p" by (simp add: live_def)
    from wf_node [OF wf p' live] obtain e kk where
      al: "allocated m (n_index (slot m p))" and e: "entry_of h m p = Some e" "e_key e = Some kk"
      unfolding node_ok_def by blast
    from get_entry_at_some [OF wf_pages [OF wf] al] obtain ptr where
      ptr: "get_entry_at (n_index (slot m p)) m = Some ptr" by blast
    with e(1) have he: "h ptr = e" by (simp add: entry_of_def)
    have nm: "\<not> same_key py kk key" "kk \<noteq> key" "read_entry h ptr = e" if "e_value e \<noteq> None"
      using that nh live e same_key_refl [OF wb] he by (auto simp: holds_def read_entry_def)
    have val: "e_value (read_entry h ptr) = e_value e" by (simp add: read_entry_value he)
    show thesis
    proof (cases "check_tag py hash (slot m p) m \<and> e_value e \<noteq> None")
      case True
      then obtain v where "e_value e = Some v" by blast
      with True nm compare_cases [OF wb, of kk key] show thesis
        by (intro that [of "r\<lparr>sr_node := slot m p, sr_entry_p := Some ptr, sr_entry := e\<rparr>"], subst lookup_from.simps)
          (simp add: k rd nt False ptr e(2) Let_def)
    next
      case unseen: False
      with val show thesis
        by (intro that [of "if check_tag py hash (slot m p) m
              then r\<lparr>sr_node := slot m p, sr_entry_p := Some ptr, sr_entry := read_entry h ptr\<rparr>
              else r\<lparr>sr_node := slot m p\<rparr>"], subst lookup_from.simps)
          (auto simp add: k rd nt False ptr Let_def)
    qed
  qed
qed

lemma lookup_stops_at_key:
  assumes wf: "wf_index py h m" and wb: "well_behaved_keys py" and hash: "hash = PyObject_Hash py key"
    and p: "p = (home py m hash + k) mod SIZE_OF m" and k: "k < SIZE_OF m" and hp: "holds py h m key p"
  shows "\<exists>r'. lookup_from py h m key hash k r = Some r' \<and> search_ok py h m key r'"
proof -
  have rd: "read_node_at (distance0_of py hash m + of_nat k) m = slot m p"
    using read_node_at_slot [OF wf_log_size_le [OF wf]] by (simp add: home_def p)
  have p': "p < SIZE_OF m" by (simp add: p)
  from hp obtain e kk v where e: "live m p" "entry_of h m p = Some e" "e_key e = Some kk" "e_value e = Some v"
    "same_key py kk key" by (rule holdsD)
  then have nt: "\<not> is_empty (slot m p)" "\<not> is_tombstone (slot m p)" by (auto simp: live_def)
  from e(2) obtain ptr where ptr: "get_entry_at (n_index (slot m p)) m = Some ptr" "h ptr = e"
    by (auto simp: entry_of_def)
  from wf_node [OF wf p' e(1)] e(2,3) have eh: "e_hash e = PyObject_Hash py kk" "placed py m p (e_hash e)"
    unfolding node_ok_def by auto
  with same_key_hash [OF wb e(5)] hash have h: "e_hash e = hash" by simp
  with eh(2) have tag: "check_tag py hash (slot m p) m" unfolding placed_def by (intro check_tag_slot) simp
  have "read_entry h ptr = e" using ptr(2) e(4) by (simp add: read_entry_def)
  with k rd nt tag ptr e(3-5) h compare_cases [OF wb, of kk key]
  have "lookup_from py h m key hash k r = Some (lookup_found m (distance0_of py hash m) k
      (r\<lparr>sr_node := slot m p, sr_entry_p := Some ptr, sr_entry := h ptr\<rparr>))"
    by (simp add: lookup_from.simps [of py h m key hash k r] Let_def)
  with search_found [OF wf_log_size_le [OF wf] p hp ptr(1)] show ?thesis by blast
qed

lemma lookup_from_correct:
  assumes wf: "wf_index py h m" and wb: "well_behaved_keys py"
    and hash: "hash = PyObject_Hash py key" and "k \<le> SIZE_OF m"
    and "\<forall>j<k. \<not> holds py h m key ((home py m hash + j) mod SIZE_OF m)"
  shows "\<exists>r'. lookup_from py h m key hash k r = Some r' \<and> search_ok py h m key r'"
  using assms(4,5)
proof (induction "SIZE_OF m - k" arbitrary: k r rule: less_induct)
  case less
  define p where "p = (home py m hash + k) mod SIZE_OF m"
  have rd: "read_node_at (distance0_of py hash m + of_nat k) m = slot m p"
    using read_node_at_slot [OF wf_log_size_le [OF wf]] by (simp add: home_def p_def)
  consider (stop) "k = SIZE_OF m \<or> index m p = 0" | (found) "k < SIZE_OF m" "holds py h m key p"
    | (pass) "k < SIZE_OF m" "index m p \<noteq> 0" "\<not> holds py h m key p" using less.prems(1) by fastforce
  then show ?case
  proof cases
    case stop
    with search_not_found [OF wf wb, of k key _, folded hash] less.prems(2) p_def
    have nf: "search_ok py h m key (lookup_not_found r2)" for r2 by blast
    have "is_empty (slot m p)" if "k < SIZE_OF m" using stop that by (simp add: is_empty_slot)
    with rd nf show ?thesis by (cases "k < SIZE_OF m"; subst lookup_from.simps) (simp_all add: Let_def)
  next
    case found
    from lookup_stops_at_key [OF wf wb hash p_def this] show ?thesis .
  next
    case pass
    from lookup_passes [OF wf wb hash p_def pass, of r] obtain r2 where
      "lookup_from py h m key hash k r = lookup_from py h m key hash (Suc k) r2" .
    moreover have "\<exists>r'. lookup_from py h m key hash (Suc k) r2 = Some r' \<and> search_ok py h m key r'"
      using less.prems pass by (intro less.hyps) (auto simp: less_Suc_eq p_def)
    ultimately show ?thesis by simp
  qed
qed

lemma lookup_correct:
  assumes "wf_index py h m" and "well_behaved_keys py"
  shows "\<exists>r'. lookup py h m key (PyObject_Hash py key) r = Some r' \<and> search_ok py h m key r'"
  unfolding lookup_def by (rule lookup_from_correct [OF assms refl]) simp_all

subsection \<open>Properties\<close>

text \<open>
  C19: On a table that satisfies its invariant, searching for a key ends, does not fail, and finds
  exactly what the map of the table has for the key: its value, in the copy of the entry that it
  returns, or that there is none.
\<close>

theorem lookup_finds:
  assumes "wf_index py h m" and "well_behaved_keys py"
  shows "(case lookup py h m key (PyObject_Hash py key) r of
            None \<Rightarrow> False
          | Some r' \<Rightarrow> \<not> sr_error r' \<and>
              table_map py h m key = (if sr_found r' then e_value (sr_entry r') else None) \<and>
              sr_found r' = (table_map py h m key \<noteq> None))"
proof -
  from lookup_correct [OF assms, of key r] obtain r' where
    r': "lookup py h m key (PyObject_Hash py key) r = Some r'" "search_ok py h m key r'" by blast
  show ?thesis
  proof (cases "sr_found r'")
    case True
    with r'(2) obtain p ptr where p: "p < SIZE_OF m" "holds py h m key p"
      "get_entry_at (n_index (slot m p)) m = Some ptr" "sr_entry r' = h ptr"
      unfolding search_ok_def by auto
    then have "entry_of h m p = Some (h ptr)" by (simp add: entry_of_def)
    from table_map_holds [OF assms(1) p(1,2) this] p r' True show ?thesis
      by (auto simp: search_ok_def elim: holdsD simp: entry_of_def)
  next
    case False
    with r' show ?thesis by (simp add: search_ok_def table_map_None)
  qed
qed

definition blank_result :: search_result where
  "blank_result =
     \<lparr>sr_error = False, sr_found = False, sr_position = 0,
      sr_node = \<lparr>n_node = 0, n_index = 0, n_tag = 0, n_distance = 0\<rparr>, sr_entry_p = None, sr_entry = zero_entry\<rparr>"

theorem lookup_finds_witness:
  "(case lookup example_env example_heap example_table (Obj 1) 5 blank_result of
      None \<Rightarrow> False | Some r' \<Rightarrow> \<not> sr_error r' \<and> \<not> sr_found r')"
  using lookup_finds [OF example_table_wf [of example_env example_heap] example_env_ok, of "Obj 1" blank_result]
  by (simp add: example_table_map example_env_def split: option.splits)

end
