(* ===== verification/Insert.thy ===== *)
theory Insert
  imports Lookup IndexUpdate
begin

text \<open>
  Insertion and update of one table, from \<^verbatim>\<open>src/src/cereggii/atomic_dict/insert.c\<close>
  (\<open>expected_update_entry\<close>, \<open>expected_insert_or_update\<close>).

  Both are loops around a compare-and-exchange on memory that other threads change.  What the other
  threads do between the read of a cell and the exchange on it is an argument: a list of changes of
  the memory (the heap of entries and the table), consumed one per attempt; past its end nobody
  interferes.  A loop that never ends is \<open>None\<close>.
\<close>

type_synonym world = "heap \<times> meta"

type_synonym interference = "(world \<Rightarrow> world) list"

fun interfere :: "interference \<Rightarrow> world \<Rightarrow> interference \<times> world" where
  "interfere [] w = ([], w)"
| "interfere (f # fs) w = (fs, f w)"

text \<open>The memory after the first \<open>n\<close> changes.\<close>

definition after_interference :: "nat \<Rightarrow> interference \<Rightarrow> world \<Rightarrow> world" where
  "after_interference n fs w = fold (\<lambda>f. f) (take n fs) w"

lemma after_interference_0 [simp]: "after_interference 0 fs w = w"
  by (simp add: after_interference_def)

lemma after_interference_Suc [simp]:
  "after_interference (Suc n) (f # fs) w = after_interference n fs (f w)"
  by (simp add: after_interference_def)

subsection \<open>Updating the entry of a node\<close>

text \<open>The return codes -1, 0 and 1.\<close>

datatype updated = UpdateError | NotUpdated | Updated

record update_result =
  ur_ret :: updated
  ur_current :: "pyobj option"
  ur_done :: bool
  ur_expectation :: bool
  ur_rest :: interference
  ur_world :: world

partial_function (option) update_loop ::
  "pyobj \<Rightarrow> pyobj \<Rightarrow> entry_ptr \<Rightarrow> entry \<Rightarrow> pyobj option \<Rightarrow> interference \<Rightarrow> world \<Rightarrow> update_result option"
where
  "update_loop expected desired p e current fs w =
     (if e_value e \<noteq> Some expected \<and> expected \<noteq> ANY
      then Some \<lparr>ur_ret = Updated, ur_current = current, ur_done = True, ur_expectation = False,
                 ur_rest = fs, ur_world = w\<rparr>
      else if e_value e = None
      then Some \<lparr>ur_ret = NotUpdated, ur_current = None, ur_done = False, ur_expectation = True,
                 ur_rest = fs, ur_world = w\<rparr>
      else
        (let (fs, (h, m)) = interfere fs w;
             (ok, v, _) = compare_exchange (e_value (h p)) (e_value e) (Some desired);
             h = set_value p v h in
         if ok
         then Some \<lparr>ur_ret = Updated, ur_current = e_value e, ur_done = True, ur_expectation = True,
                    ur_rest = fs, ur_world = (h, m)\<rparr>
         else update_loop expected desired p (read_entry h p) (e_value e) fs (h, m)))"

definition expected_update_entry ::
  "pyenv \<Rightarrow> u64 \<Rightarrow> pyobj \<Rightarrow> i64 \<Rightarrow> pyobj \<Rightarrow> pyobj \<Rightarrow> pyobj option \<Rightarrow> interference \<Rightarrow> world \<Rightarrow>
   update_result option" where
  "expected_update_entry py entry_ix key hash expected desired current fs w =
     (let unchanged = \<lparr>ur_ret = NotUpdated, ur_current = current, ur_done = False,
                       ur_expectation = True, ur_rest = fs, ur_world = w\<rparr>;
          key_found = (\<lambda>p e. if expected = NOT_FOUND
                        then Some (unchanged\<lparr>ur_ret := Updated, ur_done := True, ur_expectation := False\<rparr>)
                        else update_loop expected desired p e current fs w) in
      case get_entry_at entry_ix (snd w) of
        None \<Rightarrow> None
      | Some p \<Rightarrow>
          (let e = read_entry (fst w) p in
           if e_value e = None \<or> hash \<noteq> e_hash e then Some unchanged
           else if e_key e \<noteq> Some key then
             (case e_key e of
                None \<Rightarrow> None
              | Some k \<Rightarrow>
                  (case RichCompareEq py k key of
                     CmpError \<Rightarrow> Some (unchanged\<lparr>ur_ret := UpdateError\<rparr>)
                   | CmpFalse \<Rightarrow> Some unchanged
                   | CmpTrue \<Rightarrow> key_found p e))
           else key_found p e))"

subsection \<open>Inserting or updating\<close>

record insert_result =
  ir_result :: "pyobj option"
  ir_must_grow :: bool
  ir_rest :: interference
  ir_world :: world

text \<open>The return value, from the outcome of the loop.\<close>

definition insert_outcome :: "pyobj \<Rightarrow> bool \<Rightarrow> pyobj option \<Rightarrow> pyobj option" where
  "insert_outcome expected expectation current =
     (if expectation \<and> expected = NOT_FOUND then Some NOT_FOUND
      else if expectation \<and> expected = ANY
        then (case current of None \<Rightarrow> Some NOT_FOUND | Some c \<Rightarrow> Some c)
      else if expectation then current
      else Some EXPECTATION_FAILED)"

definition inserted_ok :: "pyobj \<Rightarrow> bool \<Rightarrow> pyobj option \<Rightarrow> interference \<Rightarrow> world \<Rightarrow> insert_result" where
  "inserted_ok expected expectation current fs w =
     \<lparr>ir_result = insert_outcome expected expectation current, ir_must_grow = False,
      ir_rest = fs, ir_world = w\<rparr>"

partial_function (option) insert_loop ::
  "pyenv \<Rightarrow> pyobj \<Rightarrow> i64 \<Rightarrow> pyobj \<Rightarrow> pyobj \<Rightarrow> entry_loc \<Rightarrow> bool \<Rightarrow> nat \<Rightarrow> pyobj option \<Rightarrow>
   interference \<Rightarrow> world \<Rightarrow> insert_result option"
where
  "insert_loop py key hash expected desired loc skip_entry_check distance current fs w =
     (let m = snd w;
          ix = (distance0_of py hash m + of_nat distance) AND index_mask m;
          nd = read_node_at ix m;
          must_grow = (\<lambda>fs w. Some \<lparr>ir_result = None, ir_must_grow = True, ir_rest = fs, ir_world = w\<rparr>) in
      if is_empty nd then
        (if expected \<noteq> NOT_FOUND \<and> expected \<noteq> ANY then Some (inserted_ok expected False current fs w)
         else
           (let (fs, (h, m)) = interfere fs w;
                to_insert = insert_node py (loc_location loc) hash distance;
                (ok, m) = atomic_write_node_at ix nd to_insert m in
            if \<not> ok
            then insert_loop py key hash expected desired loc skip_entry_check distance current fs (h, m)
            else if Suc distance \<ge> SIZE_OF m then must_grow fs (h, m)
            else Some (inserted_ok expected True current fs (h, m))))
      else if is_tombstone nd \<or> \<not> check_tag py hash nd m \<or> skip_entry_check then
        (if Suc distance \<ge> SIZE_OF m then must_grow fs w
         else insert_loop py key hash expected desired loc skip_entry_check (Suc distance) current fs w)
      else
        (case expected_update_entry py (n_index nd) key hash expected desired current fs w of
           None \<Rightarrow> None
         | Some u \<Rightarrow>
             (if ur_ret u = UpdateError
              then Some \<lparr>ir_result = None, ir_must_grow = False, ir_rest = ur_rest u, ir_world = ur_world u\<rparr>
              else if ur_ret u = Updated
              then Some (inserted_ok expected (ur_expectation u) (ur_current u) (ur_rest u) (ur_world u))
              else if Suc distance \<ge> SIZE_OF (snd (ur_world u)) then must_grow (ur_rest u) (ur_world u)
              else insert_loop py key hash expected desired loc skip_entry_check (Suc distance)
                     (ur_current u) (ur_rest u) (ur_world u))))"

definition expected_insert_or_update ::
  "pyenv \<Rightarrow> pyobj \<Rightarrow> i64 \<Rightarrow> pyobj \<Rightarrow> pyobj \<Rightarrow> entry_loc \<Rightarrow> bool \<Rightarrow> interference \<Rightarrow> world \<Rightarrow>
   insert_result option" where
  "expected_insert_or_update py key hash expected desired loc skip_entry_check fs w =
     insert_loop py key hash expected desired loc skip_entry_check 0 None fs w"

subsection \<open>The update loop under interference\<close>

text \<open>
  Whatever the other threads do, the loop returns, and there is a moment (after some of their
  changes) at which it took effect: the exchange replaced the value it reports, which is the expected
  one unless \<open>ANY\<close> was; or the entry had another value, or none.
\<close>

definition takes_effect :: "pyobj \<Rightarrow> pyobj \<Rightarrow> entry_ptr \<Rightarrow> world \<Rightarrow> update_result \<Rightarrow> bool" where
  "takes_effect expected desired p w u =
     (case w of (h, m) \<Rightarrow>
        (case ur_ret u of
           Updated \<Rightarrow> ur_done u \<and>
             (if ur_expectation u
              then (\<exists>v. e_value (h p) = Some v \<and> ur_current u = Some v \<and> (expected = ANY \<or> v = expected)) \<and>
                   ur_world u = (set_value p (Some desired) h, m)
              else expected \<noteq> ANY \<and> e_value (h p) \<noteq> Some expected \<and> ur_world u = (h, m))
         | NotUpdated \<Rightarrow> \<not> ur_done u \<and> expected = ANY \<and> e_value (h p) = None \<and> ur_current u = None \<and>
             ur_world u = (h, m)
         | UpdateError \<Rightarrow> False))"

definition update_linearised ::
  "pyobj \<Rightarrow> pyobj \<Rightarrow> entry_ptr \<Rightarrow> interference \<Rightarrow> world \<Rightarrow> update_result \<Rightarrow> bool" where
  "update_linearised expected desired p fs w u \<longleftrightarrow>
     (\<exists>n \<le> length fs. ur_rest u = drop n fs \<and>
        takes_effect expected desired p (after_interference n fs w) u)"

lemma set_value_id: "set_value p (e_value (h p)) h = h"
  by (simp add: set_value_def)

lemma update_linearised_later:
  assumes "update_linearised expected desired p fs (f w) u"
  shows "update_linearised expected desired p (f # fs) w u"
proof -
  from assms obtain n where "n \<le> length fs" "ur_rest u = drop n fs"
    "takes_effect expected desired p (after_interference n fs (f w)) u"
    unfolding update_linearised_def by blast
  then show ?thesis
    unfolding update_linearised_def by (intro exI [of _ "Suc n"]) simp
qed

lemma update_linearised_now:
  "takes_effect expected desired p w u \<Longrightarrow> ur_rest u = fs \<Longrightarrow>
     update_linearised expected desired p fs w u"
  unfolding update_linearised_def by (intro exI [of _ 0]) simp

lemma update_loop_linearised:
  assumes "e = read_entry (fst w) p"
  shows "\<exists>u. update_loop expected desired p e current fs w = Some u \<and>
             update_linearised expected desired p fs w u"
  using assms
proof (induction fs arbitrary: e current w)
  case Nil
  obtain h m where w: "w = (h, m)" by (cases w)
  have "e_value e = e_value (h p)" by (simp add: Nil w read_entry_value)
  then show ?case
    by (subst update_loop.simps) (auto simp: w takes_effect_def Let_def intro!: update_linearised_now)
next
  case (Cons f fs)
  obtain h m where w: "w = (h, m)" by (cases w)
  obtain h' m' where fw: "f w = (h', m')" by (cases "f w")
  have val: "e_value e = e_value (h p)" by (simp add: Cons.prems w read_entry_value)
  show ?case
  proof (cases "e_value e = None \<or> e_value e \<noteq> Some expected \<and> expected \<noteq> ANY")
    case True
    then show ?thesis
      by (subst update_loop.simps) (auto simp: w val takes_effect_def intro!: update_linearised_now)
  next
    case False
    then obtain v where v: "e_value e = Some v" "expected = ANY \<or> v = expected" by auto
    show ?thesis
    proof (cases "e_value (h' p) = Some v")
      case True
      have "update_linearised expected desired p fs (f w)
          \<lparr>ur_ret = Updated, ur_current = Some v, ur_done = True, ur_expectation = True,
           ur_rest = fs, ur_world = (set_value p (Some desired) h', m')\<rparr>"
        using True v(2) fw by (auto simp: takes_effect_def intro!: update_linearised_now)
      from update_linearised_later [where f = f and w = w, OF this] True v fw show ?thesis
        by (subst update_loop.simps) auto
    next
      case other: False
      then have ce: "compare_exchange (e_value (h' p)) (Some v) (Some desired) =
          (False, e_value (h' p), e_value (h' p))"
        by (simp add: compare_exchange_def)
      from Cons.IH [of "read_entry h' p" "f w" "Some v"] obtain u where
        u: "update_loop expected desired p (read_entry h' p) (Some v) fs (h', m') = Some u"
        "update_linearised expected desired p fs (f w) u" by (auto simp: fw)
      from update_linearised_later [where f = f and w = w, OF u(2)] u(1) v fw show ?thesis
        by (subst update_loop.simps) (auto simp: ce set_value_id)
    qed
  qed
qed

subsection \<open>The effect of an insertion that nobody interferes with\<close>

text \<open>
  The contract of compare-and-set on the map of a table: the returned sentinel or old value, and the
  map afterwards.
\<close>

definition map_put :: "pyenv \<Rightarrow> pyobj \<Rightarrow> pyobj option \<Rightarrow> (pyobj \<Rightarrow> pyobj option) \<Rightarrow> pyobj \<Rightarrow> pyobj option" where
  "map_put py key v M k = (if same_key py key k then v else M k)"

definition cas_spec ::
  "pyenv \<Rightarrow> pyobj \<Rightarrow> pyobj \<Rightarrow> pyobj \<Rightarrow> (pyobj \<Rightarrow> pyobj option) \<Rightarrow> pyobj \<times> (pyobj \<Rightarrow> pyobj option)" where
  "cas_spec py key expected desired M =
     (case M key of
        None \<Rightarrow>
          if expected = NOT_FOUND \<or> expected = ANY then (NOT_FOUND, map_put py key (Some desired) M)
          else (EXPECTATION_FAILED, M)
      | Some v \<Rightarrow>
          if expected \<noteq> NOT_FOUND \<and> (expected = ANY \<or> v = expected)
          then (v, map_put py key (Some desired) M)
          else (EXPECTATION_FAILED, M))"

text \<open>An entry that a thread has reserved and filled, and to which no node points yet.\<close>

definition fresh_entry ::
  "pyenv \<Rightarrow> heap \<Rightarrow> meta \<Rightarrow> pyobj \<Rightarrow> pyobj \<Rightarrow> u64 \<Rightarrow> bool" where
  "fresh_entry py h m key v location \<longleftrightarrow>
     location \<noteq> 0 \<and> unat location < SIZE_OF m \<and> allocated m location \<and>
     (\<forall>q<SIZE_OF m. live m q \<longrightarrow> n_index (slot m q) \<noteq> location) \<and>
     (case get_entry_at location m of
        None \<Rightarrow> False
      | Some ptr \<Rightarrow> e_key (h ptr) = Some key \<and> e_hash (h ptr) = PyObject_Hash py key \<and>
          e_value (h ptr) = Some v)"

definition spare_slots :: "meta \<Rightarrow> bool" where
  "spare_slots m \<longleftrightarrow>
     (\<exists>p<SIZE_OF m. \<exists>q<SIZE_OF m. p \<noteq> q \<and> index m p = 0 \<and> index m q = 0)"

lemma spare_of_room:
  assumes "card (occupied m) + 1 < SIZE_OF m"
  shows "spare_slots m"
proof -
  let ?E = "{..<SIZE_OF m} - occupied m"
  have "occupied m \<subseteq> {..<SIZE_OF m}" by (auto simp: occupied_def)
  then have "card ?E = SIZE_OF m - card (occupied m)" by (simp add: card_Diff_subset finite_subset)
  with assms have "2 \<le> card ?E" by simp
  then obtain p q where "p \<in> ?E" "q \<in> ?E" "p \<noteq> q" by (auto simp: numeral_2_eq_2 card_le_Suc_iff)
  then show ?thesis unfolding spare_slots_def by (auto simp: occupied_def)
qed

lemma probe_room:
  assumes "\<forall>j\<le>k. index m ((a + j) mod SIZE_OF m) \<noteq> 0" and "q < SIZE_OF m" and "index m q = 0"
    and "a < SIZE_OF m"
  shows "Suc k < SIZE_OF m"
proof -
  from ring_surj [OF SIZE_OF_pos assms(2,4)] obtain i where
    "i < SIZE_OF m" "q = (a + i) mod SIZE_OF m" by blast
  moreover with assms(1,3) have "k < i" by (metis not_le)
  ultimately show ?thesis by simp
qed

lemma probe_room_spare:
  assumes "\<forall>j<k. index m ((a + j) mod SIZE_OF m) \<noteq> 0" and "spare_slots m" and "a < SIZE_OF m"
  shows "Suc k < SIZE_OF m"
proof -
  from assms(2) obtain q where q: "q < SIZE_OF m" "index m q = 0" "q \<noteq> (a + k) mod SIZE_OF m"
    unfolding spare_slots_def by metis
  from ring_surj [OF SIZE_OF_pos q(1) assms(3)] obtain i where
    i: "i < SIZE_OF m" "q = (a + i) mod SIZE_OF m" by blast
  with assms(1) q have "k < i" by (metis not_less_iff_gr_or_eq)
  with i(1) show ?thesis by simp
qed

text \<open>Nobody holds the key when the probe reaches an empty slot without having met it.\<close>

lemma none_holds:
  assumes "wf_index py h m" and "well_behaved_keys py"
    and "\<forall>j<k. \<not> holds py h m key ((home py m (PyObject_Hash py key) + j) mod SIZE_OF m)"
    and "index m ((home py m (PyObject_Hash py key) + k) mod SIZE_OF m) = 0"
  shows "\<forall>p<SIZE_OF m. \<not> holds py h m key p"
  using search_not_found [OF assms(1-3), of undefined] assms(4)
  by (simp add: search_ok_def lookup_not_found_def)

lemma insertable_fresh:
  assumes "fresh_entry py h m key v location" and "spare_slots m" and "log_size m \<le> 30"
    and "k < SIZE_OF m" and "\<forall>j<k. index m ((home py m (PyObject_Hash py key) + j) mod SIZE_OF m) \<noteq> 0"
    and "p = (home py m (PyObject_Hash py key) + k) mod SIZE_OF m" and "index m p = 0"
    and "\<forall>p<SIZE_OF m. \<not> holds py h m key p"
  obtains ptr where "insertable py h m key location ptr v k p"
proof -
  from assms(1) obtain ptr where ptr: "get_entry_at location m = Some ptr"
    by (auto simp: fresh_entry_def split: option.splits)
  from assms(2) obtain q where "q < SIZE_OF m" "index m q = 0" "q \<noteq> p"
    unfolding spare_slots_def by metis
  with assms ptr have "insertable py h m key location ptr v k p"
    unfolding insertable_def fresh_entry_def on_path_def by auto
  then show thesis by (rule that)
qed

lemma atomic_write_empty:
  assumes "log_size_ok m" and "index m p = 0" and "p = (unat w + k) mod SIZE_OF m"
  shows "atomic_write_node_at ((w + of_nat k) AND index_mask m) (slot m p) nd m = (True, put_node p nd m)"
proof -
  from log_size_ok_bounds [OF assms(1)] have ls: "0 < log_size m" "log_size m \<le> 30" by simp_all
  have "n_node (compute_raw_node (slot m p) m) = 0"
    using ls assms(2) unfolding slot_def by (subst compute_parse) simp_all
  then show ?thesis
    using assms(2,3) unat_position [OF ls(2)]
    by (simp add: atomic_write_node_at_def put_node_def)
qed

text \<open>What the update of one entry does to a slot, without interference.\<close>

lemma update_entry_skips:
  assumes wf: "wf_index py h m" and wb: "well_behaved_keys py" and hash: "hash = PyObject_Hash py key"
    and p: "p < SIZE_OF m" and live: "live m p" and nh: "\<not> holds py h m key p"
  shows "expected_update_entry py (n_index (slot m p)) key hash expected desired current [] (h, m) =
    Some \<lparr>ur_ret = NotUpdated, ur_current = current, ur_done = False, ur_expectation = True,
          ur_rest = [], ur_world = (h, m)\<rparr>"
proof -
  from wf_node [OF wf p live] obtain e kk where
    al: "allocated m (n_index (slot m p))" and e: "entry_of h m p = Some e" "e_key e = Some kk"
    "e_hash e = PyObject_Hash py kk"
    unfolding node_ok_def by blast
  from get_entry_at_some [OF wf_pages [OF wf] al] obtain ptr where
    ptr: "get_entry_at (n_index (slot m p)) m = Some ptr" by blast
  with e(1) have he: "h ptr = e" by (simp add: entry_of_def)
  from nh live e have nm: "e_value e \<noteq> None \<Longrightarrow> \<not> same_key py kk key" by (auto simp: holds_def)
  then have "e_value e \<noteq> None \<Longrightarrow> kk \<noteq> key" using same_key_refl [OF wb] by blast
  with nm ptr he e(2) compare_cases [OF wb, of kk key] show ?thesis
    by (auto simp: expected_update_entry_def Let_def read_entry_def)
qed

lemma update_entry_matches:
  assumes wf: "wf_index py h m" and wb: "well_behaved_keys py" and hash: "hash = PyObject_Hash py key"
    and p: "p < SIZE_OF m" and hp: "holds py h m key p"
  obtains ptr v where "get_entry_at (n_index (slot m p)) m = Some ptr"
    and "table_map py h m key = Some v"
    and "expected_update_entry py (n_index (slot m p)) key hash expected desired current [] (h, m) =
      (if expected \<noteq> NOT_FOUND \<and> (expected = ANY \<or> v = expected)
       then Some \<lparr>ur_ret = Updated, ur_current = Some v, ur_done = True, ur_expectation = True,
                  ur_rest = [], ur_world = (set_value ptr (Some desired) h, m)\<rparr>
       else Some \<lparr>ur_ret = Updated, ur_current = current, ur_done = True, ur_expectation = False,
                  ur_rest = [], ur_world = (h, m)\<rparr>)"
proof -
  from hp obtain e kk v where e: "live m p" "entry_of h m p = Some e" "e_key e = Some kk"
    "e_value e = Some v" "same_key py kk key" by (rule holdsD)
  from wf_node [OF wf p e(1)] e(2,3) have eh: "e_hash e = PyObject_Hash py kk"
    unfolding node_ok_def by auto
  with same_key_hash [OF wb e(5)] hash have hh: "e_hash e = hash" by simp
  from e(2) obtain ptr where ptr: "get_entry_at (n_index (slot m p)) m = Some ptr" "h ptr = e"
    by (auto simp: entry_of_def)
  have "table_map py h m key = Some v" using table_map_holds [OF wf p hp e(2)] e(4) by simp
  moreover have "read_entry h ptr = e" using ptr(2) e(4) by (simp add: read_entry_def)
  moreover have "RichCompareEq py kk key = CmpTrue" using e(5) by (simp add: same_key_def)
  ultimately show thesis
    using ptr e(3,4) hh
    by (intro that) (auto simp: expected_update_entry_def Let_def update_loop.simps)
qed

text \<open>The insertion without interference: enough to say that it does what \<open>cas_spec\<close> says.\<close>

definition implements_cas ::
  "pyenv \<Rightarrow> pyobj \<Rightarrow> pyobj \<Rightarrow> pyobj \<Rightarrow> heap \<Rightarrow> meta \<Rightarrow> insert_result \<Rightarrow> bool" where
  "implements_cas py key expected desired h m r \<longleftrightarrow>
     \<not> ir_must_grow r \<and>
     (case ir_world r of (h', m') \<Rightarrow>
        wf_index py h' m' \<and>
        ir_result r = Some (fst (cas_spec py key expected desired (table_map py h m))) \<and>
        table_map py h' m' = snd (cas_spec py key expected desired (table_map py h m)))"

text \<open>
  What it does to the memory: nothing, the exchange of the value of the key's entry, or a new node for the
  reserved entry.
\<close>

definition cas_effect ::
  "pyenv \<Rightarrow> pyobj \<Rightarrow> pyobj \<Rightarrow> u64 \<Rightarrow> heap \<Rightarrow> meta \<Rightarrow> insert_result \<Rightarrow> bool" where
  "cas_effect py key desired location h m r \<longleftrightarrow>
     ir_result r = Some EXPECTATION_FAILED \<and> ir_world r = (h, m) \<or>
     (\<exists>p ptr v. p < SIZE_OF m \<and> holds py h m key p \<and> get_entry_at (n_index (slot m p)) m = Some ptr \<and>
        table_map py h m key = Some v \<and> ir_result r = Some v \<and> ir_world r = (set_value ptr (Some desired) h, m)) \<or>
     (\<exists>k p ptr. insertable py h m key location ptr desired k p \<and> ir_result r = Some NOT_FOUND \<and>
        ir_world r = (h, put_node p (insert_node py location (PyObject_Hash py key) k) m))"

lemma cas_effect_cases [consumes 1, case_names unchanged updated inserted]:
  assumes "cas_effect py key desired location h m r"
  obtains "ir_result r = Some EXPECTATION_FAILED" and "ir_world r = (h, m)"
    | p ptr v where "p < SIZE_OF m" and "holds py h m key p" and "get_entry_at (n_index (slot m p)) m = Some ptr"
      and "table_map py h m key = Some v" and "ir_result r = Some v" and "ir_world r = (set_value ptr (Some desired) h, m)"
    | k p ptr where "insertable py h m key location ptr desired k p" and "ir_result r = Some NOT_FOUND"
      and "ir_world r = (h, put_node p (insert_node py location (PyObject_Hash py key) k) m)"
  using assms unfolding cas_effect_def by blast

text \<open>The result of an insertion, as one statement for the cases of a probe.\<close>

definition probe_result ::
  "pyenv \<Rightarrow> pyobj \<Rightarrow> pyobj \<Rightarrow> pyobj \<Rightarrow> u64 \<Rightarrow> heap \<Rightarrow> meta \<Rightarrow> insert_result option \<Rightarrow> bool" where
  "probe_result py key expected desired location h m res \<longleftrightarrow>
     (\<exists>r. res = Some r \<and> implements_cas py key expected desired h m r \<and> cas_effect py key desired location h m r)"

lemma read_on_probe:
  assumes "log_size m \<le> 30"
  shows "read_node_at ((distance0_of py hash m + of_nat k) AND index_mask m) m = slot m ((home py m hash + k) mod SIZE_OF m)"
  using unat_position [OF assms] assms
  by (simp add: home_def read_node_at_def read_raw_node_at_def slot_def unat_and_index_mask)

text \<open>An occupied slot that does not hold the key is passed.\<close>

lemma insert_loop_passes:
  assumes wf: "wf_index py h m" and wb: "well_behaved_keys py" and hash: "hash = PyObject_Hash py key"
    and p: "p = (home py m hash + k) mod SIZE_OF m" and ne: "index m p \<noteq> 0" and nh: "\<not> holds py h m key p"
    and k: "Suc k < SIZE_OF m"
  shows "insert_loop py key hash expected desired loc False k None [] (h, m) =
    insert_loop py key hash expected desired loc False (Suc k) None [] (h, m)"
proof -
  note rd = read_on_probe [OF wf_log_size_le [OF wf], of py hash k, folded p]
  have nt: "\<not> is_empty (slot m p)" using ne by (simp add: is_empty_slot)
  have p': "p < SIZE_OF m" by (simp add: p)
  show ?thesis
  proof (cases "is_tombstone (slot m p)")
    case True
    with nt rd k show ?thesis by (subst insert_loop.simps) (simp add: Let_def)
  next
    case False
    with nt have "live m p" by (simp add: live_def)
    with False nt rd k update_entry_skips [OF wf wb hash p' _ nh] show ?thesis
      by (subst insert_loop.simps) (simp add: Let_def)
  qed
qed

text \<open>At the first empty slot the key is not in the table.\<close>

lemma insert_loop_at_empty:
  assumes wf: "wf_index py h m" and wb: "well_behaved_keys py" and hash: "hash = PyObject_Hash py key"
    and spare: "expected = NOT_FOUND \<or> expected = ANY \<Longrightarrow> spare_slots m"
    and fresh: "expected = NOT_FOUND \<or> expected = ANY \<Longrightarrow> fresh_entry py h m key desired (loc_location loc)"
    and k: "k < SIZE_OF m" and path: "\<forall>j<k. index m ((home py m hash + j) mod SIZE_OF m) \<noteq> 0"
    and none: "\<forall>p<SIZE_OF m. \<not> holds py h m key p"
    and p: "p = (home py m hash + k) mod SIZE_OF m" and z: "index m p = 0"
  shows "probe_result py key expected desired (loc_location loc) h m
    (insert_loop py key hash expected desired loc False k None [] (h, m))"
proof -
  note le = wf_log_size_le [OF wf]
  note rd = read_on_probe [OF le, of py hash k, folded p]
  have empty: "is_empty (slot m p)" using z by (simp add: is_empty_slot)
  have tm: "table_map py h m key = None" using none by (simp add: table_map_None)
  show ?thesis
  proof (cases "expected = NOT_FOUND \<or> expected = ANY")
    case False
    with wf tm empty rd show ?thesis
      by (subst insert_loop.simps)
        (auto simp: Let_def inserted_ok_def insert_outcome_def implements_cas_def cas_effect_def probe_result_def cas_spec_def)
  next
    case True
    from insertable_fresh [OF fresh [OF True] spare [OF True] le k _ _ z none] path hash p obtain ptr where
      ins: "insertable py h m key (loc_location loc) ptr desired k p" by metis
    let ?m = "put_node p (insert_node py (loc_location loc) hash k) m"
    let ?r = "inserted_ok expected True None [] (h, ?m)"
    have "p = (unat (distance0_of py hash m) + k) mod SIZE_OF m" by (simp add: p home_def)
    note w = atomic_write_empty [OF wf_log_size [OF wf] z this]
    have room: "Suc k < SIZE_OF m" using probe_room_spare [OF path spare [OF True] home_lt [OF le]] .
    have "insert_loop py key hash expected desired loc False k None [] (h, m) = Some ?r"
      using empty rd w room True by (subst insert_loop.simps) (auto simp: Let_def)
    moreover have "implements_cas py key expected desired h m ?r"
      using insert_wf [OF wf wb ins] insert_map [OF wf wb ins] hash tm True
      by (auto simp: implements_cas_def inserted_ok_def insert_outcome_def cas_spec_def map_put_def fun_eq_iff)
    moreover have "ir_result ?r = Some NOT_FOUND" "ir_world ?r = (h, ?m)"
      using True by (auto simp: inserted_ok_def insert_outcome_def)
    with ins hash have "cas_effect py key desired (loc_location loc) h m ?r" unfolding cas_effect_def by blast
    ultimately show ?thesis unfolding probe_result_def by blast
  qed
qed

text \<open>The slot that holds the key.\<close>

lemma insert_loop_at_key:
  assumes wf: "wf_index py h m" and wb: "well_behaved_keys py" and hash: "hash = PyObject_Hash py key"
    and p: "p = (home py m hash + k) mod SIZE_OF m" and hp: "holds py h m key p"
  shows "probe_result py key expected desired location h m
    (insert_loop py key hash expected desired loc False k None [] (h, m))"
proof -
  note rd = read_on_probe [OF wf_log_size_le [OF wf], of py hash k, folded p]
  have p': "p < SIZE_OF m" by (simp add: p)
  have "live m p" using hp by (blast elim: holdsD)
  then have nt: "\<not> is_empty (slot m p)" "\<not> is_tombstone (slot m p)" by (auto simp: live_def)
  have tag: "check_tag py hash (slot m p) m"
    using holds_on_path [OF wf wb p' hp] hash by (auto intro: check_tag_slot)
  obtain ptr v where ptr: "get_entry_at (n_index (slot m p)) m = Some ptr" and v: "table_map py h m key = Some v"
    and u: "expected_update_entry py (n_index (slot m p)) key hash expected desired None [] (h, m) =
      (if expected \<noteq> NOT_FOUND \<and> (expected = ANY \<or> v = expected)
       then Some \<lparr>ur_ret = Updated, ur_current = Some v, ur_done = True, ur_expectation = True,
                  ur_rest = [], ur_world = (set_value ptr (Some desired) h, m)\<rparr>
       else Some \<lparr>ur_ret = Updated, ur_current = None, ur_done = True, ur_expectation = False,
                  ur_rest = [], ur_world = (h, m)\<rparr>)"
    using update_entry_matches [OF wf wb hash p' hp, where expected = expected and desired = desired and current = None]
    by metis
  show ?thesis
  proof (cases "expected \<noteq> NOT_FOUND \<and> (expected = ANY \<or> v = expected)")
    case hit: True
    let ?r = "inserted_ok expected True (Some v) [] (set_value ptr (Some desired) h, m)"
    have "insert_loop py key hash expected desired loc False k None [] (h, m) = Some ?r"
      using nt rd u tag hit by (subst insert_loop.simps) (simp add: Let_def)
    moreover have "implements_cas py key expected desired h m ?r"
      using v hit set_value_wf [OF wf wb p' hp ptr] set_value_map [OF wf wb p' hp ptr]
      by (auto simp: inserted_ok_def insert_outcome_def implements_cas_def cas_spec_def map_put_def fun_eq_iff)
    moreover have "ir_result ?r = Some v" "ir_world ?r = (set_value ptr (Some desired) h, m)"
      using hit by (auto simp: inserted_ok_def insert_outcome_def)
    with p' hp ptr v have "cas_effect py key desired location h m ?r" unfolding cas_effect_def by blast
    ultimately show ?thesis unfolding probe_result_def by blast
  next
    case miss: False
    let ?r = "inserted_ok expected False None [] (h, m)"
    have "insert_loop py key hash expected desired loc False k None [] (h, m) = Some ?r"
      using nt rd u tag miss by (subst insert_loop.simps) (auto simp: Let_def)
    moreover have "implements_cas py key expected desired h m ?r"
      using v wf miss by (auto simp: inserted_ok_def insert_outcome_def implements_cas_def cas_spec_def)
    moreover have "cas_effect py key desired location h m ?r"
      by (simp add: cas_effect_def inserted_ok_def insert_outcome_def)
    ultimately show ?thesis unfolding probe_result_def by blast
  qed
qed

lemma insert_loop_correct:
  assumes wf: "wf_index py h m" and wb: "well_behaved_keys py" and hash: "hash = PyObject_Hash py key"
    and spare: "expected = NOT_FOUND \<or> expected = ANY \<Longrightarrow> spare_slots m"
    and fresh: "expected = NOT_FOUND \<or> expected = ANY \<Longrightarrow> fresh_entry py h m key desired (loc_location loc)"
    and "k < SIZE_OF m"
    and "\<forall>j<k. index m ((home py m hash + j) mod SIZE_OF m) \<noteq> 0"
    and "\<forall>j<k. \<not> holds py h m key ((home py m hash + j) mod SIZE_OF m)"
  shows "probe_result py key expected desired (loc_location loc) h m
    (insert_loop py key hash expected desired loc False k None [] (h, m))"
  using assms(6-8)
proof (induction "SIZE_OF m - k" arbitrary: k rule: less_induct)
  case less
  define p where "p = (home py m hash + k) mod SIZE_OF m"
  consider "index m p = 0" | "holds py h m key p" | (pass) "index m p \<noteq> 0" "\<not> holds py h m key p" by blast
  then show ?case
  proof cases
    case 1
    with none_holds [OF wf wb, of k key] less.prems(3) hash have "\<forall>p<SIZE_OF m. \<not> holds py h m key p" by (simp add: p_def)
    from insert_loop_at_empty [OF wf wb hash spare fresh less.prems(1,2) this p_def 1] show ?thesis .
  next
    case 2
    from insert_loop_at_key [OF wf wb hash p_def this] show ?thesis .
  next
    case pass
    from wf_empty_slot [OF wf] obtain q where q: "q < SIZE_OF m" "index m q = 0" by blast
    have "\<forall>j\<le>k. index m ((home py m hash + j) mod SIZE_OF m) \<noteq> 0"
      using less.prems(2) pass(1) by (auto simp: le_less p_def)
    from probe_room [OF this q home_lt [OF wf_log_size_le [OF wf]]] have k: "Suc k < SIZE_OF m" .
    then have "probe_result py key expected desired (loc_location loc) h m
        (insert_loop py key hash expected desired loc False (Suc k) None [] (h, m))"
      using less.prems pass by (intro less.hyps) (auto simp: less_Suc_eq p_def)
    then show ?thesis unfolding insert_loop_passes [OF wf wb hash p_def pass k] .
  qed
qed

lemma expected_insert_or_update_correct:
  assumes "wf_index py h m" and "well_behaved_keys py"
    and "expected = NOT_FOUND \<or> expected = ANY \<longrightarrow> spare_slots m \<and> fresh_entry py h m key desired (loc_location loc)"
  shows "\<exists>r. expected_insert_or_update py key (PyObject_Hash py key) expected desired loc False [] (h, m) = Some r \<and>
             implements_cas py key expected desired h m r \<and> cas_effect py key desired (loc_location loc) h m r"
  unfolding expected_insert_or_update_def probe_result_def [symmetric]
  using assms by (intro insert_loop_correct) auto

subsection \<open>Properties\<close>

lemma example_get_entry: "get_entry_at 3 example_table = Some (0, 3)"
  by (simp add: get_entry_at_def unat_position_in_page_of example_defs)

lemma example_fresh: "fresh_entry example_env example_heap example_table (Obj 1) (Obj 2) 3"
proof -
  have "allocated example_table 3" by (simp add: allocated_def unat_page_of example_defs)
  then show ?thesis
    using example_not_live
    by (simp add: fresh_entry_def example_get_entry SIZE_OF_def) (simp add: example_defs)
qed

lemma example_spare: "spare_slots example_table"
proof -
  have "(0::nat) < SIZE_OF example_table" "1 < SIZE_OF example_table" "index example_table 0 = 0"
    "index example_table 1 = 0" by (simp_all add: SIZE_OF_def example_defs)
  then show ?thesis unfolding spare_slots_def by (metis zero_neq_one)
qed

text \<open>
  C15: Inserting into or updating a table with at least two empty slots, when nobody interferes, is
  compare-and-set on the map of the table: the return value (old value, \<open>NOT_FOUND\<close> or
  \<open>EXPECTATION_FAILED\<close>) and the new map are those of the specification on every branch, the
  invariant is kept, and the table is not reported as full.
\<close>

theorem insert_or_update_is_compare_and_set:
  assumes "wf_index py h m" and "well_behaved_keys py" and "spare_slots m"
    and "expected = NOT_FOUND \<or> expected = ANY \<longrightarrow> fresh_entry py h m key desired (loc_location loc)"
  shows "(case expected_insert_or_update py key (PyObject_Hash py key) expected desired loc False [] (h, m) of
            None \<Rightarrow> False
          | Some r \<Rightarrow> \<not> ir_must_grow r \<and>
             (case (ir_world r, cas_spec py key expected desired (table_map py h m)) of
                ((h', m'), (result, M')) \<Rightarrow>
                  ir_result r = Some result \<and> table_map py h' m' = M' \<and> wf_index py h' m'))"
proof -
  from expected_insert_or_update_correct [OF assms(1,2), of expected key desired loc] assms(3,4) obtain r where
    r: "expected_insert_or_update py key (PyObject_Hash py key) expected desired loc False [] (h, m) = Some r"
    "implements_cas py key expected desired h m r" by blast
  then show ?thesis
    by (cases "ir_world r", cases "cas_spec py key expected desired (table_map py h m)")
      (simp add: implements_cas_def)
qed

theorem insert_or_update_is_compare_and_set_witness:
  "(case expected_insert_or_update example_env (Obj 1) 5 ANY (Obj 2) \<lparr>loc_entry = Some (0, 3), loc_location = 3\<rparr>
           False [] (example_heap, example_table) of
      None \<Rightarrow> False
    | Some r \<Rightarrow> ir_result r = Some NOT_FOUND \<and>
        (case ir_world r of (h', m') \<Rightarrow> table_map example_env h' m' (Obj 1) = Some (Obj 2)))"
  using insert_or_update_is_compare_and_set [OF example_table_wf [of example_env example_heap] example_env_ok
      example_spare, of ANY "Obj 1" "Obj 2" "\<lparr>loc_entry = Some (0, 3), loc_location = 3\<rparr>"] example_fresh
  by (auto simp: cas_spec_def example_table_map map_put_def same_key_example split: option.splits prod.splits)

text \<open>
  Whatever other threads do to the memory between the steps of the compare-and-exchange loop on
  an entry, the loop ends, and there is a moment (after some number of their changes) at which it
  took effect atomically: it replaced exactly the value it reports, which is the expected one unless
  \<open>ANY\<close> was expected; or the entry had another value at that moment and nothing was changed.
\<close>

theorem update_loop_takes_effect_once:
  "(case update_loop expected desired p (read_entry (fst w) p) current fs w of
      None \<Rightarrow> False
    | Some u \<Rightarrow> \<exists>n \<le> length fs. ur_rest u = drop n fs \<and>
        takes_effect expected desired p (after_interference n fs w) u)"
  using update_loop_linearised [OF refl, where expected = expected and desired = desired and p = p and fs = fs and w = w and current = current]
  by (auto simp: update_linearised_def)

end
