(* ===== verification/Delete.thy ===== *)
theory Delete
  imports Insert
begin

text \<open>
  Deletion from one table, from \<^verbatim>\<open>src/src/cereggii/atomic_dict/delete.c\<close>
  (\<open>delete_\<close>, \<open>delete\<close> here).  The value of the entry is exchanged for \<open>NULL\<close>, which is the moment the
  key leaves the map, and the node is then turned into a tombstone.  Other threads interfere before
  every exchange.
\<close>

text \<open>
  Taking the value out of the entry that the search found.  The result structure is updated by every
  attempt, as its \<open>entry\<close> is the cell that the exchange reads the expected value from; the flag
  says whether a value was taken.
\<close>

partial_function (option) take_value ::
  "entry_ptr \<Rightarrow> search_result \<Rightarrow> interference \<Rightarrow> world \<Rightarrow> (bool \<times> search_result \<times> interference \<times> world) option"
where
  "take_value p r fs w =
     (let (fs, (h, m)) = interfere fs w;
          (ok, v, expected) = compare_exchange (e_value (h p)) (e_value (sr_entry r)) None;
          h = set_value p v h in
      if ok then Some (True, r, fs, (h, m))
      else
        (let r = r\<lparr>sr_entry := read_entry h p\<rparr> in
         if e_value (sr_entry r) = None then Some (False, r\<lparr>sr_found := False\<rparr>, fs, (h, m))
         else take_value p r fs (h, m)))"

record delete_result =
  dr_search :: search_result
  dr_tombstone :: bool
  dr_rest :: interference
  dr_world :: world

definition delete ::
  "pyenv \<Rightarrow> pyobj \<Rightarrow> i64 \<Rightarrow> search_result \<Rightarrow> interference \<Rightarrow> world \<Rightarrow> delete_result option" where
  "delete py key hash r fs w =
     (let unchanged = (\<lambda>r. \<lparr>dr_search = r, dr_tombstone = False, dr_rest = fs, dr_world = w\<rparr>) in
      case lookup py (fst w) (snd w) key hash r of
        None \<Rightarrow> None
      | Some r \<Rightarrow>
          if sr_error r then Some (unchanged r)
          else
            (case sr_entry_p r of
               None \<Rightarrow> Some (unchanged r)
             | Some p \<Rightarrow>
                 (case take_value p r fs w of
                    None \<Rightarrow> None
                  | Some (taken, r, fs, w) \<Rightarrow>
                      if \<not> taken
                      then Some \<lparr>dr_search = r, dr_tombstone = False, dr_rest = fs, dr_world = w\<rparr>
                      else
                        (let (fs, (h, m)) = interfere fs w;
                             (ok, m) = atomic_write_node_at (sr_position r) (sr_node r) (tombstone_node m) m in
                         Some \<lparr>dr_search = r, dr_tombstone = ok, dr_rest = fs, dr_world = (h, m)\<rparr>))))"

subsection \<open>Deletion under interference\<close>

text \<open>
  Whatever the other threads do, taking the value ends, and at some moment it took effect: either the
  entry had the value that is reported, and it has none from then on, or it had none.
\<close>

definition takes_value :: "entry_ptr \<Rightarrow> world \<Rightarrow> bool \<times> search_result \<times> world \<Rightarrow> bool" where
  "takes_value p w res =
     (case (w, res) of ((h, m), (taken, r, w')) \<Rightarrow>
        if taken then e_value (sr_entry r) = e_value (h p) \<and> w' = (set_value p None h, m)
        else e_value (h p) = None \<and> \<not> sr_found r \<and> w' = (h, m))"

definition take_linearised ::
  "entry_ptr \<Rightarrow> interference \<Rightarrow> world \<Rightarrow> bool \<times> search_result \<times> interference \<times> world \<Rightarrow> bool" where
  "take_linearised p fs w res =
     (case res of (taken, r, rest, w') \<Rightarrow>
        \<exists>n \<le> length fs. rest = drop n fs \<and> takes_value p (after_interference n fs w) (taken, r, w'))"

lemma take_linearised_later:
  assumes "take_linearised p fs (f w) res"
  shows "take_linearised p (f # fs) w res"
proof -
  obtain taken r rest w' where res: "res = (taken, r, rest, w')" by (cases res)
  with assms obtain n where "n \<le> length fs" "rest = drop n fs"
    "takes_value p (after_interference n fs (f w)) (taken, r, w')"
    unfolding take_linearised_def by auto
  then show ?thesis
    unfolding take_linearised_def res by (auto intro!: exI [of _ "Suc n"])
qed

lemma take_linearised_now:
  assumes "takes_value p (after_interference n fs w) (taken, r, w')" and "n \<le> length fs"
    and "rest = drop n fs"
  shows "take_linearised p fs w (taken, r, rest, w')"
  using assms unfolding take_linearised_def by auto

lemma take_value_linearised:
  assumes "fs = [] \<longrightarrow> e_value (sr_entry r) = e_value (fst w p)"
  shows "\<exists>res. take_value p r fs w = Some res \<and> take_linearised p fs w res"
  using assms
proof (induction fs arbitrary: r w)
  case Nil
  obtain h m where w: "w = (h, m)" by (cases w)
  have "take_linearised p [] w (True, r, [], (set_value p None h, m))"
    using Nil w by (intro take_linearised_now [where n = 0]) (auto simp: takes_value_def)
  then show ?case using Nil w by (subst take_value.simps) auto
next
  case (Cons f fs)
  obtain h m where fw: "f w = (h, m)" by (cases "f w")
  show ?case
  proof (cases "e_value (h p) = e_value (sr_entry r)")
    case True
    have "take_linearised p (f # fs) w (True, r, fs, (set_value p None h, m))"
      using True fw by (intro take_linearised_now [where n = 1]) (auto simp: takes_value_def)
    with True fw show ?thesis by (subst take_value.simps) auto
  next
    case other: False
    let ?r = "r\<lparr>sr_entry := read_entry h p\<rparr>"
    have ce: "compare_exchange (e_value (h p)) (e_value (sr_entry r)) None = (False, e_value (h p), e_value (h p))"
      using other by (rule compare_exchange_fail)
    show ?thesis
    proof (cases "e_value (h p) = None")
      case True
      have "take_linearised p (f # fs) w (False, ?r\<lparr>sr_found := False\<rparr>, fs, (h, m))"
        using True fw by (intro take_linearised_now [where n = 1]) (auto simp: takes_value_def)
      moreover from True set_value_id [of p h] have "set_value p None h = h" by simp
      with True fw ce have "take_value p r (f # fs) w = Some (False, ?r\<lparr>sr_found := False\<rparr>, fs, (h, m))"
        by (subst take_value.simps) (simp add: Let_def read_entry_value)
      ultimately show ?thesis by blast
    next
      case False
      from Cons.IH [of ?r "(h, m)"] obtain res where
        res: "take_value p ?r fs (h, m) = Some res" "take_linearised p fs (f w) res"
        by (auto simp: read_entry_value fw)
      moreover have "take_value p r (f # fs) w = take_value p ?r fs (h, m)"
        using False fw ce by (subst take_value.simps) (auto simp: Let_def set_value_id read_entry_value)
      ultimately show ?thesis using take_linearised_later [where f = f and w = w] by auto
    qed
  qed
qed

subsection \<open>The effect of a deletion that nobody interferes with\<close>

lemma write_tombstone:
  assumes "log_size_ok m" and "unat pos = p"
  shows "atomic_write_node_at pos (slot m p) (tombstone_node m) m = (True, put_node p (tombstone_node m) m)"
proof -
  from log_size_ok_bounds [OF assms(1)] have "n_node (compute_raw_node (slot m p) m) = index m p"
    unfolding slot_def by (subst compute_parse) simp_all
  with assms(2) show ?thesis by (simp add: atomic_write_node_at_def put_node_def)
qed

definition implements_delete :: "pyenv \<Rightarrow> pyobj \<Rightarrow> heap \<Rightarrow> meta \<Rightarrow> delete_result \<Rightarrow> bool" where
  "implements_delete py key h m d \<longleftrightarrow>
     \<not> sr_error (dr_search d) \<and>
     (case dr_world d of (h', m') \<Rightarrow>
        wf_index py h' m' \<and> table_map py h' m' = map_put py key None (table_map py h m) \<and>
        sr_found (dr_search d) = (table_map py h m key \<noteq> None) \<and>
        (sr_found (dr_search d) \<longrightarrow>
           dr_tombstone d \<and> e_value (sr_entry (dr_search d)) = table_map py h m key))"

text \<open>What it does to the memory.\<close>

definition delete_effect :: "pyenv \<Rightarrow> pyobj \<Rightarrow> heap \<Rightarrow> meta \<Rightarrow> delete_result \<Rightarrow> bool" where
  "delete_effect py key h m d \<longleftrightarrow>
     \<not> sr_found (dr_search d) \<and> dr_world d = (h, m) \<or>
     (\<exists>p ptr. p < SIZE_OF m \<and> holds py h m key p \<and> get_entry_at (n_index (slot m p)) m = Some ptr \<and>
        sr_found (dr_search d) \<and> dr_world d = (set_value ptr None h, put_node p (tombstone_node m) m))"

lemma map_put_None:
  assumes "well_behaved_keys py" and "table_map py h m key = None"
  shows "map_put py key None (table_map py h m) = table_map py h m"
  using assms table_map_cong [OF assms(1)] by (fastforce simp: map_put_def fun_eq_iff)

lemma delete_correct:
  assumes wf: "wf_index py h m" and wb: "well_behaved_keys py"
  shows "\<exists>d. delete py key (PyObject_Hash py key) r [] (h, m) = Some d \<and> implements_delete py key h m d \<and>
    delete_effect py key h m d"
proof -
  from lookup_correct [OF wf wb, of key r] obtain r' where
    r': "lookup py h m key (PyObject_Hash py key) r = Some r'" "search_ok py h m key r'" by blast
  show ?thesis
  proof (cases "sr_found r'")
    case False
    with r'(2) have nf: "sr_entry_p r' = None" "\<not> sr_error r'" "table_map py h m key = None"
      by (auto simp: search_ok_def table_map_None)
    with r' False wf map_put_None [OF wb nf(3)] show ?thesis
      by (auto simp: delete_def implements_delete_def delete_effect_def Let_def)
  next
    case True
    with r'(2) obtain p ptr where p: "p < SIZE_OF m" "holds py h m key p" "unat (sr_position r') = p"
      "sr_node r' = slot m p" "get_entry_at (n_index (slot m p)) m = Some ptr"
      "sr_entry_p r' = Some ptr" "sr_entry r' = h ptr" "\<not> sr_error r'"
      unfolding search_ok_def by auto
    let ?h = "set_value ptr None h"
    note sv = set_value_wf [OF wf wb p(1,2,5), of None] set_value_map [OF wf wb p(1,2,5), of None]
    have nh: "\<not> holds py ?h m k p" for k
      using holds_set_value [OF wf wb p(1,2,5,1), of None k] by simp
    from p(2) have ne: "index m p \<noteq> 0" by (auto elim: holdsD dest: live_not_empty)
    note tomb = tombstone_wf [OF sv(1) p(1) ne nh] tombstone_map [OF sv(1) p(1) ne nh]
    from p(2) obtain e where e: "entry_of h m p = Some e" by (blast elim: holdsD)
    with p(5) have "e = h ptr" by (simp add: entry_of_def)
    with table_map_holds [OF wf p(1,2) e] have tm: "table_map py h m key = e_value (h ptr)" by simp
    with p(1,2) have some: "table_map py h m key \<noteq> None" using table_map_None by blast
    have "take_value ptr r' [] (h, m) = Some (True, r', [], (?h, m))"
      using p(7) by (subst take_value.simps) simp
    with r'(1) p write_tombstone [OF wf_log_size [OF wf] p(3)]
    have "delete py key (PyObject_Hash py key) r [] (h, m) =
      Some \<lparr>dr_search = r', dr_tombstone = True, dr_rest = [],
            dr_world = (?h, put_node p (tombstone_node m) m)\<rparr>"
      by (simp add: delete_def Let_def)
    moreover have "table_map py ?h (put_node p (tombstone_node m) m) = map_put py key None (table_map py h m)"
      using tomb(2) sv(2) by (simp add: fun_eq_iff map_put_def)
    moreover have "delete_effect py key h m \<lparr>dr_search = r', dr_tombstone = True, dr_rest = [],
            dr_world = (?h, put_node p (tombstone_node m) m)\<rparr>"
      using p(1,2,5) True unfolding delete_effect_def by (intro disjI2 exI [of _ p] exI [of _ ptr]) simp
    ultimately show ?thesis
      using tomb(1) p(7,8) tm some True by (auto simp: implements_delete_def)
  qed
qed

subsection \<open>Properties\<close>

text \<open>
  C16: Deleting a key from a table, when nobody interferes, removes exactly that key from the map of
  the table and keeps the invariant; it reports the removed value, or that the key is not there, and
  the write of the tombstone (asserted in the code) succeeds.
\<close>

theorem delete_removes_key:
  assumes "wf_index py h m" and "well_behaved_keys py"
  shows "(case delete py key (PyObject_Hash py key) r [] (h, m) of
            None \<Rightarrow> False
          | Some d \<Rightarrow> \<not> sr_error (dr_search d) \<and>
              (case dr_world d of (h', m') \<Rightarrow>
                 wf_index py h' m' \<and> table_map py h' m' = map_put py key None (table_map py h m)) \<and>
              (case table_map py h m key of
                 None \<Rightarrow> \<not> sr_found (dr_search d)
               | Some v \<Rightarrow> sr_found (dr_search d) \<and> dr_tombstone d \<and> e_value (sr_entry (dr_search d)) = Some v))"
proof -
  from delete_correct [OF assms, of key r] obtain d where
    d: "delete py key (PyObject_Hash py key) r [] (h, m) = Some d" "implements_delete py key h m d" by blast
  then show ?thesis
    by (cases "dr_world d"; cases "table_map py h m key") (simp_all add: implements_delete_def)
qed

definition example_world :: world where
  "example_world = (example_heap, put_node 0 (insert_node example_env 3 5 0) example_table)"

lemma example_insertable:
  "insertable example_env example_heap example_table (Obj 1) 3 (0, 3) (Obj 2) 0 0"
proof -
  obtain ptr where p: "insertable example_env example_heap example_table (Obj 1) 3 ptr (Obj 2) 0 0"
  proof (rule insertable_fresh [OF example_fresh example_spare])
    have "home example_env example_table (PyObject_Hash example_env (Obj 1)) = 0"
      by (simp add: home_def distance0_of_def REHASH_def example_env_def)
    then show "0 = (home example_env example_table (PyObject_Hash example_env (Obj 1)) + 0) mod SIZE_OF example_table"
      by simp
    show "\<forall>p<SIZE_OF example_table. \<not> holds example_env example_heap example_table (Obj 1) p"
      using example_not_live by (auto elim: holdsD)
  qed (simp_all add: example_defs)
  with example_get_entry show ?thesis by (simp add: insertable_def)
qed

lemma example_world_wf: "wf_index example_env (fst example_world) (snd example_world)"
  using insert_wf [OF example_table_wf example_env_ok example_insertable]
  by (simp add: example_world_def)

lemma example_world_map:
  "table_map example_env (fst example_world) (snd example_world) k = (if k = Obj 1 then Some (Obj 2) else None)"
  using insert_map [OF example_table_wf example_env_ok example_insertable]
  by (auto simp: example_world_def example_table_map same_key_example)

theorem delete_removes_key_witness:
  "(case delete example_env (Obj 1) 5 blank_result [] example_world of
      None \<Rightarrow> False
    | Some d \<Rightarrow> e_value (sr_entry (dr_search d)) = Some (Obj 2) \<and>
        (case dr_world d of (h', m') \<Rightarrow> table_map example_env h' m' (Obj 1) = None))"
  using delete_removes_key [OF example_world_wf example_env_ok, of "Obj 1" blank_result]
  by (auto simp: example_world_map map_put_def same_key_example split: option.splits prod.splits)

text \<open>
  Whatever other threads do between the attempts to take the value out of an entry, the loop
  ends, and at some moment it either took the value that it reports and left none, or the entry had
  no value.
\<close>

theorem take_value_takes_effect_once:
  assumes "fs = [] \<longrightarrow> e_value (sr_entry r) = e_value (fst w p)"
  shows "(case take_value p r fs w of
            None \<Rightarrow> False
          | Some (taken, r', rest, w') \<Rightarrow> \<exists>n \<le> length fs. rest = drop n fs \<and>
              takes_value p (after_interference n fs w) (taken, r', w'))"
  using take_value_linearised [OF assms] by (auto simp: take_linearised_def)

theorem take_value_takes_effect_once_witness:
  "(case take_value (0, 3) blank_result [\<lambda>(h, m). (set_value (0, 3) (Some (Obj 7)) h, m), \<lambda>w. w] (example_heap, example_table) of
      None \<Rightarrow> False | Some (taken, r', rest, w') \<Rightarrow> True)"
  using take_value_takes_effect_once [of "[\<lambda>(h, m). (set_value (0, 3) (Some (Obj 7)) h, m), \<lambda>w. w]" blank_result
      "(example_heap, example_table)" "(0, 3)"]
  by (auto split: option.splits)

end
