(* ===== verification/Participants.thy ===== *)
theory Participants
  imports MigrateBlocks Delete
begin

text \<open>
  The protocol by which several threads migrate a table together: \<open>common_resize\<close>,
  \<open>migrate_nodes\<close> and \<open>nodes_migration_done\<close> of
  \<^verbatim>\<open>src/src/cereggii/atomic_dict/resize.c\<close>, as a step relation.

  A step is one atomic action of one participant: the exchange that marks it as working (0 to 1),
  the fetch of the next block, the migration of a block, the exchange that marks it as finished
  (1 to 2), the store of its counter, the reading of one cell of \<open>participants\<close>, the setting of
  \<open>node_migration_done\<close>.  The migration of one block is one step because a participant writes
  only slots that no other participant reads or writes (\<open>block_preserves\<close>, of which the two slots
  that both neighbours set to zero are part).
\<close>

subsection \<open>The steps\<close>

datatype pc =
    Outside
  | Fetching
  | Migrating nat
  | Finishing
  | Marked
  | Scanning nat
  | Waiting
  | Left

record migration =
  mg_cur :: meta
  mg_new :: meta
  mg_pc :: "nat \<Rightarrow> pc"
  mg_count :: "nat \<Rightarrow> int"
  mg_inserted :: "nat \<Rightarrow> int"

abbreviation cells :: "migration \<Rightarrow> nat list" where
  "cells g \<equiv> (case participants (mg_cur g) of None \<Rightarrow> [] | Some ps \<Rightarrow> ps)"

definition set_cell :: "nat \<Rightarrow> nat \<Rightarrow> meta \<Rightarrow> meta" where
  "set_cell i v cur = cur\<lparr>participants := map_option (\<lambda>ps. ps[i := v]) (participants cur)\<rparr>"

definition goto :: "nat \<Rightarrow> pc \<Rightarrow> migration \<Rightarrow> migration" where
  "goto i p g = g\<lparr>mg_pc := (mg_pc g)(i := p)\<rparr>"

inductive common_resize_step :: "pyenv \<Rightarrow> heap \<Rightarrow> migration \<Rightarrow> migration \<Rightarrow> bool"
  for py h where
  enter: "\<lbrakk> i < length (cells g); mg_pc g i = Outside; \<not> node_migration_done (mg_cur g); cells g ! i = 0 \<rbrakk>
    \<Longrightarrow> common_resize_step py h g (goto i Fetching (g\<lparr>mg_cur := set_cell i 1 (mg_cur g)\<rparr>))"
| fetch: "\<lbrakk> i < length (cells g); mg_pc g i = Fetching; fetch_block (mg_cur g) = (s, cur') \<rbrakk>
    \<Longrightarrow> common_resize_step py h g
      (goto i (if s < SIZE_OF cur' then Migrating s else Finishing) (g\<lparr>mg_cur := cur'\<rparr>))"
| migrate: "\<lbrakk> i < length (cells g); mg_pc g i = Migrating s;
      block_wise_migrate py h (mg_cur g) (mg_new g) s = Some (new', n) \<rbrakk>
    \<Longrightarrow> common_resize_step py h g
      (goto i Fetching (g\<lparr>mg_new := new', mg_count := (mg_count g)(i := mg_count g i + n)\<rparr>))"
| finish: "\<lbrakk> i < length (cells g); mg_pc g i = Finishing; cells g ! i = 1 \<rbrakk>
    \<Longrightarrow> common_resize_step py h g (goto i Marked (g\<lparr>mg_cur := set_cell i 2 (mg_cur g)\<rparr>))"
| store: "\<lbrakk> i < length (cells g); mg_pc g i = Marked \<rbrakk>
    \<Longrightarrow> common_resize_step py h g
      (goto i (Scanning 0) (g\<lparr>mg_inserted := (mg_inserted g)(i := mg_count g i)\<rparr>))"
| scan: "\<lbrakk> i < length (cells g); mg_pc g i = Scanning j; j < length (cells g) \<rbrakk>
    \<Longrightarrow> common_resize_step py h g (goto i (if cells g ! j = 1 then Waiting else Scanning (Suc j)) g)"
| set_done: "\<lbrakk> i < length (cells g); mg_pc g i = Scanning j; length (cells g) \<le> j \<rbrakk>
    \<Longrightarrow> common_resize_step py h g (goto i Left (g\<lparr>mg_cur := (mg_cur g)\<lparr>node_migration_done := True\<rparr>\<rparr>))"
| wait: "\<lbrakk> i < length (cells g); mg_pc g i = Waiting; node_migration_done (mg_cur g) \<rbrakk>
    \<Longrightarrow> common_resize_step py h g (goto i Left g)"

text \<open>The start: the leader has allocated the next generation and the cells of the participants.\<close>

definition migration_start :: "pyenv \<Rightarrow> heap \<Rightarrow> meta \<Rightarrow> migration \<Rightarrow> bool" where
  "migration_start py h cur g \<longleftrightarrow>
     wf_index py h cur \<and> mg_cur g = cur \<and> next_generation cur (mg_new g) \<and>
     node_to_migrate cur = 0 \<and> \<not> node_migration_done cur \<and>
     (\<exists>k. participants cur = Some (replicate k 0)) \<and>
     mg_pc g = (\<lambda>_. Outside) \<and> mg_count g = (\<lambda>_. 0)"

inductive migration_reachable :: "pyenv \<Rightarrow> heap \<Rightarrow> meta \<Rightarrow> migration \<Rightarrow> bool" for py h cur where
  start: "migration_start py h cur g \<Longrightarrow> migration_reachable py h cur g"
| step: "\<lbrakk> migration_reachable py h cur g; common_resize_step py h g g' \<rbrakk> \<Longrightarrow> migration_reachable py h cur g'"

subsection \<open>The invariant\<close>

definition working :: "pc \<Rightarrow> bool" where
  "working p \<longleftrightarrow> p = Fetching \<or> p = Finishing \<or> (\<exists>s. p = Migrating s)"

definition cell_of :: "pc \<Rightarrow> nat" where
  "cell_of p = (if p = Outside then 0 else if working p then 1 else 2)"

text \<open>The blocks that have been fetched and on which nobody is working any more.\<close>

definition finished_blocks :: "meta \<Rightarrow> migration \<Rightarrow> nat set" where
  "finished_blocks cur g =
     {s. is_block cur s \<and> s < node_to_migrate (mg_cur g) \<and> (\<forall>i<length (cells g). mg_pc g i \<noteq> Migrating s)}"

definition migration_inv :: "pyenv \<Rightarrow> heap \<Rightarrow> meta \<Rightarrow> migration \<Rightarrow> bool" where
  "migration_inv py h cur g \<longleftrightarrow>
     table_eq cur (mg_cur g) \<and> next_generation cur (mg_new g) \<and>
     ATOMIC_DICT_BLOCKWISE_MIGRATE_SIZE dvd node_to_migrate (mg_cur g) \<and>
     participants (mg_cur g) \<noteq> None \<and>
     (\<forall>i<length (cells g). cells g ! i = cell_of (mg_pc g i)) \<and>
     (\<forall>s\<in>finished_blocks cur g. block_done py h cur (mg_new g) s) \<and>
     (\<forall>i<length (cells g). \<forall>s. mg_pc g i = Migrating s \<longrightarrow>
        is_block cur s \<and> s < node_to_migrate (mg_cur g) \<and>
        (\<forall>j<length (cells g). mg_pc g j = Migrating s \<longrightarrow> j = i)) \<and>
     (\<forall>i<length (cells g). mg_pc g i \<noteq> Outside \<longrightarrow> mg_pc g i \<noteq> Fetching \<longrightarrow>
        (\<forall>s. mg_pc g i \<noteq> Migrating s) \<longrightarrow> SIZE_OF cur \<le> node_to_migrate (mg_cur g)) \<and>
     (\<forall>i<length (cells g). \<forall>j. mg_pc g i = Scanning j \<longrightarrow>
        (\<forall>l<length (cells g). l < j \<longrightarrow> (\<forall>s. mg_pc g l \<noteq> Migrating s))) \<and>
     (node_migration_done (mg_cur g) \<longrightarrow>
        SIZE_OF cur \<le> node_to_migrate (mg_cur g) \<and>
        (\<forall>l<length (cells g). \<forall>s. mg_pc g l \<noteq> Migrating s)) \<and>
     (\<Sum>i<length (cells g). mg_count g i) = int (\<Sum>s\<in>finished_blocks cur g. block_count cur s)"

lemma migration_invD:
  assumes "migration_inv py h cur g"
  shows "table_eq cur (mg_cur g)" and "next_generation cur (mg_new g)"
    and "ATOMIC_DICT_BLOCKWISE_MIGRATE_SIZE dvd node_to_migrate (mg_cur g)"
    and "participants (mg_cur g) \<noteq> None"
    and "\<And>i. i < length (cells g) \<Longrightarrow> cells g ! i = cell_of (mg_pc g i)"
    and "\<And>s. s \<in> finished_blocks cur g \<Longrightarrow> block_done py h cur (mg_new g) s"
    and "\<And>i s. i < length (cells g) \<Longrightarrow> mg_pc g i = Migrating s \<Longrightarrow>
        is_block cur s \<and> s < node_to_migrate (mg_cur g)"
    and "\<And>i j s. i < length (cells g) \<Longrightarrow> j < length (cells g) \<Longrightarrow> mg_pc g i = Migrating s \<Longrightarrow>
        mg_pc g j = Migrating s \<Longrightarrow> j = i"
    and "\<And>i. i < length (cells g) \<Longrightarrow> mg_pc g i \<noteq> Outside \<Longrightarrow> mg_pc g i \<noteq> Fetching \<Longrightarrow>
        \<forall>s. mg_pc g i \<noteq> Migrating s \<Longrightarrow> SIZE_OF cur \<le> node_to_migrate (mg_cur g)"
    and "\<And>i j l s. i < length (cells g) \<Longrightarrow> mg_pc g i = Scanning j \<Longrightarrow> l < length (cells g) \<Longrightarrow> l < j \<Longrightarrow>
        mg_pc g l \<noteq> Migrating s"
    and "node_migration_done (mg_cur g) \<Longrightarrow> SIZE_OF cur \<le> node_to_migrate (mg_cur g)"
    and "\<And>l s. node_migration_done (mg_cur g) \<Longrightarrow> l < length (cells g) \<Longrightarrow> mg_pc g l \<noteq> Migrating s"
    and "(\<Sum>i<length (cells g). mg_count g i) = int (\<Sum>s\<in>finished_blocks cur g. block_count cur s)"
  using assms unfolding migration_inv_def by blast+

lemma migration_invI:
  assumes "table_eq cur (mg_cur g)" and "next_generation cur (mg_new g)"
    and "ATOMIC_DICT_BLOCKWISE_MIGRATE_SIZE dvd node_to_migrate (mg_cur g)"
    and "participants (mg_cur g) \<noteq> None"
    and "\<And>i. i < length (cells g) \<Longrightarrow> cells g ! i = cell_of (mg_pc g i)"
    and "\<And>s. s \<in> finished_blocks cur g \<Longrightarrow> block_done py h cur (mg_new g) s"
    and "\<And>i s. i < length (cells g) \<Longrightarrow> mg_pc g i = Migrating s \<Longrightarrow>
        is_block cur s"
    and "\<And>i s. i < length (cells g) \<Longrightarrow> mg_pc g i = Migrating s \<Longrightarrow> s < node_to_migrate (mg_cur g)"
    and "\<And>i j s. i < length (cells g) \<Longrightarrow> j < length (cells g) \<Longrightarrow> mg_pc g i = Migrating s \<Longrightarrow>
        mg_pc g j = Migrating s \<Longrightarrow> j = i"
    and "\<And>i. i < length (cells g) \<Longrightarrow> mg_pc g i \<noteq> Outside \<Longrightarrow> mg_pc g i \<noteq> Fetching \<Longrightarrow>
        \<forall>s. mg_pc g i \<noteq> Migrating s \<Longrightarrow> SIZE_OF cur \<le> node_to_migrate (mg_cur g)"
    and "\<And>i j l s. i < length (cells g) \<Longrightarrow> mg_pc g i = Scanning j \<Longrightarrow> l < length (cells g) \<Longrightarrow> l < j \<Longrightarrow>
        mg_pc g l \<noteq> Migrating s"
    and "node_migration_done (mg_cur g) \<Longrightarrow> SIZE_OF cur \<le> node_to_migrate (mg_cur g)"
    and "\<And>l s. node_migration_done (mg_cur g) \<Longrightarrow> l < length (cells g) \<Longrightarrow> mg_pc g l \<noteq> Migrating s"
    and "(\<Sum>i<length (cells g). mg_count g i) = int (\<Sum>s\<in>finished_blocks cur g. block_count cur s)"
  shows "migration_inv py h cur g"
  unfolding migration_inv_def by (intro conjI ballI allI impI; (rule assms; assumption))

lemma cells_set_cell:
  assumes "participants cur \<noteq> None"
  shows "(case participants (set_cell i v cur) of None \<Rightarrow> [] | Some ps \<Rightarrow> ps) =
    (case participants cur of None \<Rightarrow> [] | Some ps \<Rightarrow> ps)[i := v]"
    and "participants (set_cell i v cur) \<noteq> None"
  using assms by (auto simp: set_cell_def)

lemma set_cell_other [simp]:
  "node_to_migrate (set_cell i v cur) = node_to_migrate cur"
  "node_migration_done (set_cell i v cur) = node_migration_done cur"
  "table_eq a (set_cell i v cur) = table_eq a cur"
  by (simp_all add: set_cell_def table_eq_def)

lemma goto_simps [simp]:
  "mg_cur (goto i p g) = mg_cur g" "mg_new (goto i p g) = mg_new g"
  "mg_pc (goto i p g) = (mg_pc g)(i := p)" "mg_count (goto i p g) = mg_count g"
  "mg_inserted (goto i p g) = mg_inserted g"
  by (simp_all add: goto_def)

text \<open>A step that neither takes a block nor gives one back.\<close>

lemma quiet_step:
  assumes inv: "migration_inv py h cur g" and i: "i < length (cells g)"
    and len: "length (cells g') = length (cells g)" and pc: "mg_pc g' = (mg_pc g)(i := p)"
    and same: "table_eq cur (mg_cur g')" "participants (mg_cur g') \<noteq> None"
    "node_to_migrate (mg_cur g') = node_to_migrate (mg_cur g)" "mg_new g' = mg_new g" "mg_count g' = mg_count g"
    and cells: "\<forall>l<length (cells g). cells g' ! l = (if l = i then cell_of p else cells g ! l)"
    and pi: "\<forall>s. mg_pc g i \<noteq> Migrating s" and p: "\<forall>s. p \<noteq> Migrating s"
    and all_fetched: "p \<noteq> Outside \<longrightarrow> p \<noteq> Fetching \<longrightarrow> SIZE_OF cur \<le> node_to_migrate (mg_cur g)"
    and scan: "\<forall>j. p = Scanning j \<longrightarrow> (\<forall>l<length (cells g). l < j \<longrightarrow> (\<forall>s. mg_pc g l \<noteq> Migrating s))"
    and d: "node_migration_done (mg_cur g') \<longrightarrow> node_migration_done (mg_cur g) \<or>
      (SIZE_OF cur \<le> node_to_migrate (mg_cur g) \<and> (\<forall>l<length (cells g). \<forall>s. mg_pc g l \<noteq> Migrating s))"
  shows "migration_inv py h cur g'"
proof -
  note v = migration_invD [OF inv]
  have nm: "mg_pc g' l = Migrating s \<longleftrightarrow> mg_pc g l = Migrating s" for l s
    using pi p by (simp add: pc)
  have fin: "finished_blocks cur g' = finished_blocks cur g"
    by (simp add: finished_blocks_def same len nm)
  show ?thesis
  proof (rule migration_invI)
    show "table_eq cur (mg_cur g')" "next_generation cur (mg_new g')" "participants (mg_cur g') \<noteq> None"
      "ATOMIC_DICT_BLOCKWISE_MIGRATE_SIZE dvd node_to_migrate (mg_cur g')"
      using same v(2,3) by simp_all
    show "cells g' ! l = cell_of (mg_pc g' l)" if "l < length (cells g')" for l
      using that cells v(5) by (simp add: len pc)
    show "block_done py h cur (mg_new g') s" if "s \<in> finished_blocks cur g'" for s
      using that v(6) by (simp add: fin same)
    show "is_block cur s" "s < node_to_migrate (mg_cur g')" if "l < length (cells g')" "mg_pc g' l = Migrating s" for l s
      using that v(7) [of l s] by (simp_all add: nm len same)
    show "m = l" if "l < length (cells g')" "m < length (cells g')" "mg_pc g' l = Migrating s"
      "mg_pc g' m = Migrating s" for l m s
      using that v(8) by (simp add: nm len)
    show "SIZE_OF cur \<le> node_to_migrate (mg_cur g')" if "l < length (cells g')" "mg_pc g' l \<noteq> Outside"
      "mg_pc g' l \<noteq> Fetching" "\<forall>s. mg_pc g' l \<noteq> Migrating s" for l
      using that all_fetched v(9) by (cases "l = i") (simp_all add: len pc same)
    show "mg_pc g' m \<noteq> Migrating s" if "l < length (cells g')" "mg_pc g' l = Scanning j"
      "m < length (cells g')" "m < j" for l j m s
      using that scan v(10) unfolding nm len by (cases "l = i") (simp_all add: pc)
    show "SIZE_OF cur \<le> node_to_migrate (mg_cur g')" if "node_migration_done (mg_cur g')"
      using d that v(11) by (auto simp: same)
    show "mg_pc g' l \<noteq> Migrating s" if "node_migration_done (mg_cur g')" "l < length (cells g')" for l s
      using d that v(12) by (auto simp: nm len)
    show "(\<Sum>i<length (cells g'). mg_count g' i) = int (\<Sum>s\<in>finished_blocks cur g'. block_count cur s)"
      using v(13) by (simp add: len same fin)
  qed
qed

lemma inv_start: "migration_start py h cur g \<Longrightarrow> migration_inv py h cur g"
  by (auto simp: migration_start_def migration_inv_def table_eq_def cell_of_def finished_blocks_def)

lemma inv_fetch_none:
  assumes inv: "migration_inv py h cur g" and i: "i < length (cells g)" and pc: "mg_pc g i = Fetching"
    and f: "fetch_block (mg_cur g) = (s, cur')" and "\<not> s < SIZE_OF cur'"
  shows "migration_inv py h cur (goto i Finishing (g\<lparr>mg_cur := cur'\<rparr>))"
proof -
  let ?g = "goto i Finishing (g\<lparr>mg_cur := cur'\<rparr>)"
  note v = migration_invD [OF inv]
  have cur': "cur' = (mg_cur g)\<lparr>node_to_migrate := node_to_migrate (mg_cur g) + ATOMIC_DICT_BLOCKWISE_MIGRATE_SIZE\<rparr>"
    "s = node_to_migrate (mg_cur g)" using f by (auto simp: fetch_block_def)
  have eq: "table_eq cur cur'" using v(1) by (simp add: cur' table_eq_def)
  with assms(5) have ge: "SIZE_OF cur \<le> node_to_migrate (mg_cur g)" by (simp add: cur' table_eqD)
  have nm: "mg_pc ?g l = Migrating t \<longleftrightarrow> mg_pc g l = Migrating t" for l t using pc by simp
  have range: "is_block cur t \<and> t < node_to_migrate cur' \<longleftrightarrow> is_block cur t \<and> t < node_to_migrate (mg_cur g)" for t
    using ge by (auto simp: is_block_def cur')
  have fin: "finished_blocks cur ?g = finished_blocks cur g"
  proof (intro set_eqI)
    fix t
    have "t \<in> finished_blocks cur ?g \<longleftrightarrow>
        (is_block cur t \<and> t < node_to_migrate cur') \<and> (\<forall>l<length (cells ?g). mg_pc g l \<noteq> Migrating t)"
      unfolding nm [symmetric] finished_blocks_def by simp
    also have "length (cells ?g) = length (cells g)" by (simp add: cur')
    also have "(is_block cur t \<and> t < node_to_migrate cur') \<longleftrightarrow> is_block cur t \<and> t < node_to_migrate (mg_cur g)"
      by (rule range)
    finally show "t \<in> finished_blocks cur ?g \<longleftrightarrow> t \<in> finished_blocks cur g"
      by (simp add: finished_blocks_def)
  qed
  have cells: "cells ?g = cells g" by (simp add: cur')
  show ?thesis
  proof (rule migration_invI, unfold fin nm cells)
    show "cells g ! l = cell_of (mg_pc ?g l)" if "l < length (cells g)" for l
      using that v(5) pc by (simp add: cell_of_def working_def)
    show "SIZE_OF cur \<le> node_to_migrate (mg_cur ?g)"
      using ge by (simp add: cur')
    then show "SIZE_OF cur \<le> node_to_migrate (mg_cur ?g)" .
    show "mg_pc g m \<noteq> Migrating t" if "l < length (cells g)" "mg_pc ?g l = Scanning j"
      "m < length (cells g)" "m < j" for l j m t
      using that v(10) by (cases "l = i") auto
    show "mg_pc g l \<noteq> Migrating t" if "node_migration_done (mg_cur ?g)" "l < length (cells g)" for l t
      using that v(12) by (simp add: cur')
    show "(\<Sum>i<length (cells g). mg_count ?g i) = int (\<Sum>s\<in>finished_blocks cur g. block_count cur s)"
      using v(13) by simp
    show "is_block cur t" "t < node_to_migrate (mg_cur ?g)" if "l < length (cells g)" "mg_pc g l = Migrating t" for l t
      using v(7) [OF that] by (simp_all add: cur')
  qed (use v eq in \<open>simp_all add: cur'\<close>)
qed

lemma inv_fetch_block:
  assumes inv: "migration_inv py h cur g" and i: "i < length (cells g)" and pc: "mg_pc g i = Fetching"
    and f: "fetch_block (mg_cur g) = (s, cur')" and "s < SIZE_OF cur'"
  shows "migration_inv py h cur (goto i (Migrating s) (g\<lparr>mg_cur := cur'\<rparr>))"
proof -
  let ?g = "goto i (Migrating s) (g\<lparr>mg_cur := cur'\<rparr>)" and ?n = "node_to_migrate (mg_cur g)"
  note v = migration_invD [OF inv]
  have cur': "cur' = (mg_cur g)\<lparr>node_to_migrate := ?n + ATOMIC_DICT_BLOCKWISE_MIGRATE_SIZE\<rparr>" "s = ?n"
    using f by (auto simp: fetch_block_def)
  have eq: "table_eq cur cur'" using v(1) by (simp add: cur' table_eq_def)
  with assms(5) have less: "?n < SIZE_OF cur" by (simp add: cur' table_eqD)
  have s: "is_block cur s" using less v(3) by (simp add: is_block_def cur')
  have fresh: "mg_pc g l \<noteq> Migrating s" if "l < length (cells g)" for l
    using v(7) [OF that, of s] cur'(2) by auto
  have mig: "mg_pc ?g l = Migrating t \<longleftrightarrow> (if l = i then t = s else mg_pc g l = Migrating t)" for l t by auto
  have none: "(\<forall>l<length (cells g). mg_pc ?g l \<noteq> Migrating t) \<longleftrightarrow>
      t \<noteq> s \<and> (\<forall>l<length (cells g). mg_pc g l \<noteq> Migrating t)" for t
  proof -
    have "mg_pc g i \<noteq> Migrating t" using pc by simp
    with i show ?thesis unfolding mig by metis
  qed
  have range: "is_block cur t \<and> t < ?n + ATOMIC_DICT_BLOCKWISE_MIGRATE_SIZE \<longleftrightarrow>
      is_block cur t \<and> (t < ?n \<or> t = s)" for t
    using is_block_next [OF v(3), of cur] less s cur'(2) by (simp add: set_eq_iff) metis
  have fin: "finished_blocks cur ?g = finished_blocks cur g"
  proof (intro set_eqI)
    fix t
    have "t \<in> finished_blocks cur ?g \<longleftrightarrow>
        (is_block cur t \<and> t < ?n + ATOMIC_DICT_BLOCKWISE_MIGRATE_SIZE) \<and> t \<noteq> s \<and>
        (\<forall>l<length (cells g). mg_pc g l \<noteq> Migrating t)"
      unfolding none [symmetric] finished_blocks_def by (simp add: cur')
    also have "\<dots> \<longleftrightarrow> t \<in> finished_blocks cur g"
      unfolding range finished_blocks_def using cur'(2) by auto
    finally show "t \<in> finished_blocks cur ?g \<longleftrightarrow> t \<in> finished_blocks cur g" .
  qed
  have not_done: "\<not> node_migration_done (mg_cur g)" using v(11) less by auto
  have early: "mg_pc g l = Outside \<or> mg_pc g l = Fetching \<or> (\<exists>s. mg_pc g l = Migrating s)"
    if "l < length (cells g)" for l using v(9) [OF that] less by auto
  have cells: "cells ?g = cells g" by (simp add: cur')
  show ?thesis
  proof (rule migration_invI, unfold fin mig cells)
    show "cells g ! l = cell_of (mg_pc ?g l)" if "l < length (cells g)" for l
      using that v(5) pc by (simp add: cell_of_def working_def)
    show "SIZE_OF cur \<le> node_to_migrate (mg_cur ?g)" if "l < length (cells g)" "mg_pc ?g l \<noteq> Outside"
      "mg_pc ?g l \<noteq> Fetching" "\<forall>t. \<not> (if l = i then t = s else mg_pc g l = Migrating t)" for l
      using that early by (cases "l = i") auto
    show "\<not> (if m = i then t = s else mg_pc g m = Migrating t)" if "l < length (cells g)" "mg_pc ?g l = Scanning j"
      "m < length (cells g)" "m < j" for l j m t
      using that early [OF that(1)] by (cases "l = i") auto
    show "SIZE_OF cur \<le> node_to_migrate (mg_cur ?g)" if "node_migration_done (mg_cur ?g)"
      using that not_done by (simp add: cur')
    show "\<not> (if l = i then t = s else mg_pc g l = Migrating t)" if "node_migration_done (mg_cur ?g)" for l t
      using that not_done by (simp add: cur')
    show "is_block cur t" "t < node_to_migrate (mg_cur ?g)"
      if "l < length (cells g)" "if l = i then t = s else mg_pc g l = Migrating t" for l t
      using that v(7) [OF that(1), of t] s
      by (cases "l = i"; simp add: cur' ATOMIC_DICT_BLOCKWISE_MIGRATE_SIZE_def)+
    show "m = l" if "l < length (cells g)" "m < length (cells g)" "if l = i then t = s else mg_pc g l = Migrating t"
      "if m = i then t = s else mg_pc g m = Migrating t" for l m t
      using that fresh v(8) [OF that(1,2), of t] by (auto split: if_splits)
    show "(\<Sum>i<length (cells g). mg_count ?g i) = int (\<Sum>s\<in>finished_blocks cur g. block_count cur s)"
      using v(13) by simp
  qed (use v eq in \<open>simp_all add: cur'\<close>)
qed

lemma inv_migrate:
  assumes inv: "migration_inv py h cur g" and wf: "wf_index py h cur"
    and i: "i < length (cells g)" and pc: "mg_pc g i = Migrating s"
    and run: "block_wise_migrate py h (mg_cur g) (mg_new g) s = Some (new', n)"
  shows "migration_inv py h cur (goto i Fetching (g\<lparr>mg_new := new', mg_count := (mg_count g)(i := mg_count g i + n)\<rparr>))"
proof -
  let ?g = "goto i Fetching (g\<lparr>mg_new := new', mg_count := (mg_count g)(i := mg_count g i + n)\<rparr>)"
  note v = migration_invD [OF inv]
  note t = table_eq_generation [OF v(1)]
  have gen: "next_generation (mg_cur g) (mg_new g)" using v(2) t by simp
  have wf': "wf_index py h (mg_cur g)" using wf table_eq_wf [OF v(1)] by simp
  have s: "is_block cur s" "s < node_to_migrate (mg_cur g)" using v(7) [OF i pc] by simp_all
  then have "s < SIZE_OF (mg_cur g)" using table_eqD(5) [OF v(1)] by (simp add: is_block_def)
  from block_wise_migrate_correct [OF gen wf' this] run t have
    r: "n = int (block_count cur s)" "same_but_index (mg_new g) new'" "block_done py h cur new' s" by auto
  have cells: "cells ?g = cells g" by simp
  have mig: "mg_pc ?g l = Migrating b \<longleftrightarrow> l \<noteq> i \<and> mg_pc g l = Migrating b" for l b by auto
  have nots: "mg_pc g l \<noteq> Migrating s" if "l < length (cells g)" "l \<noteq> i" for l
    using v(8) [OF i that(1) pc] that(2) by auto
  have fin: "finished_blocks cur ?g = insert s (finished_blocks cur g)"
  proof (intro set_eqI)
    fix b
    have "(\<forall>l<length (cells g). \<not> (l \<noteq> i \<and> mg_pc g l = Migrating b)) \<longleftrightarrow>
        b = s \<or> (\<forall>l<length (cells g). mg_pc g l \<noteq> Migrating b)"
      using nots pc by (metis pc.inject(1))
    then show "b \<in> finished_blocks cur ?g \<longleftrightarrow> b \<in> insert s (finished_blocks cur g)"
      unfolding finished_blocks_def mem_Collect_eq mig cells insert_iff using s by auto
  qed
  have new_s: "s \<notin> finished_blocks cur g" using i pc by (auto simp: finished_blocks_def)
  have finite: "finite (finished_blocks cur g)" unfolding finished_blocks_def by (rule finite_blocks)
  show ?thesis
  proof (rule migration_invI, unfold mig cells)
    show "next_generation cur (mg_new ?g)" using v(2) same_but_index_fields(7) [OF r(2)] by simp
    show "cells g ! l = cell_of (mg_pc ?g l)" if "l < length (cells g)" for l
      using that v(5) pc by (simp add: cell_of_def working_def)
    show "block_done py h cur (mg_new ?g) b" if "b \<in> finished_blocks cur ?g" for b
    proof (cases "b = s")
      case True
      with r(3) show ?thesis by simp
    next
      case False
      with that fin have b: "b \<in> finished_blocks cur g" by simp
      then have "is_block cur b" by (simp add: finished_blocks_def)
      with block_preserves [OF gen wf' _ _ _ run, of b] v(6) [OF b] s t False show ?thesis by simp
    qed
    show "is_block cur b" "b < node_to_migrate (mg_cur ?g)"
      if "l < length (cells g)" "l \<noteq> i \<and> mg_pc g l = Migrating b" for l b
      using that v(7) [OF that(1), of b] by simp_all
    show "m = l" if "l < length (cells g)" "m < length (cells g)" "l \<noteq> i \<and> mg_pc g l = Migrating b"
      "m \<noteq> i \<and> mg_pc g m = Migrating b" for l m b
      using that v(8) by blast
    show "SIZE_OF cur \<le> node_to_migrate (mg_cur ?g)" if "l < length (cells g)" "mg_pc ?g l \<noteq> Outside"
      "mg_pc ?g l \<noteq> Fetching" "\<forall>b. \<not> (l \<noteq> i \<and> mg_pc g l = Migrating b)" for l
      using that v(9) [OF that(1)] by (cases "l = i") auto
    show "\<not> (m \<noteq> i \<and> mg_pc g m = Migrating b)" if "l < length (cells g)" "mg_pc ?g l = Scanning j"
      "m < length (cells g)" "m < j" for l j m b
      using that v(10) by (cases "l = i") auto
    show "\<not> (l \<noteq> i \<and> mg_pc g l = Migrating b)" if "node_migration_done (mg_cur ?g)" "l < length (cells g)" for l b
      using that v(12) by simp
    have "(\<Sum>l<length (cells g). mg_count ?g l) = (\<Sum>l<length (cells g). mg_count g l) + n"
      using i by (simp add: sum.remove [of _ i])
    then show "(\<Sum>l<length (cells g). mg_count ?g l) = int (\<Sum>b\<in>finished_blocks cur ?g. block_count cur b)"
      unfolding fin using v(13) r(1) new_s finite by simp
  qed (use v in simp_all)
qed

lemma inv_scan:
  assumes inv: "migration_inv py h cur g" and i: "i < length (cells g)" "mg_pc g i = Scanning j" "j < length (cells g)"
  shows "migration_inv py h cur (goto i (if cells g ! j = 1 then Waiting else Scanning (Suc j)) g)"
proof -
  note v = migration_invD [OF inv]
  have ge: "SIZE_OF cur \<le> node_to_migrate (mg_cur g)" using i by (intro v(9)) auto
  have pi: "\<forall>s. mg_pc g i \<noteq> Migrating s" and ci: "cells g ! i = 2"
    using v(5) [OF i(1)] i(2) by (simp_all add: cell_of_def working_def)
  show ?thesis
  proof (cases "cells g ! j = 1")
    case True
    have "migration_inv py h cur (goto i Waiting g)"
      by (rule quiet_step [OF inv i(1) _ _ _ _ _ _ _ _ pi, where p = Waiting])
        (use v(1,4) ci ge in \<open>auto simp: cell_of_def working_def\<close>)
    with True show ?thesis by simp
  next
    case False
    have none: "mg_pc g l \<noteq> Migrating s" if "l < length (cells g)" "l < Suc j" for l s
    proof (cases "l = j")
      case True
      with False that v(5) [OF that(1)] show ?thesis by (auto simp: cell_of_def working_def split: if_splits)
    next
      case False
      with that v(10) [OF i(1,2) that(1)] show ?thesis by simp
    qed
    have "migration_inv py h cur (goto i (Scanning (Suc j)) g)"
      by (rule quiet_step [OF inv i(1) _ _ _ _ _ _ _ _ pi, where p = "Scanning (Suc j)"])
        (use v(1,4) ci ge none in \<open>auto simp: cell_of_def working_def\<close>)
    with False show ?thesis by simp
  qed
qed

lemma inv_step:
  assumes inv: "migration_inv py h cur g" and wf: "wf_index py h cur" and st: "common_resize_step py h g g'"
  shows "migration_inv py h cur g'"
proof -
  note v = migration_invD [OF inv]
  note cl = cells_set_cell [OF v(4)]
  from st show ?thesis
  proof cases
    case (enter i)
    show ?thesis
      by (rule quiet_step [OF inv enter(2), where p = Fetching])
        (use enter v cl in \<open>auto simp: nth_list_update cell_of_def working_def\<close>)
  next
    case (fetch i s cur')
    with inv_fetch_none [OF inv] inv_fetch_block [OF inv] show ?thesis by (cases "s < SIZE_OF cur'") simp_all
  next
    case (migrate i s new' n)
    with inv_migrate [OF inv wf] show ?thesis by simp
  next
    case (finish i)
    then have "SIZE_OF cur \<le> node_to_migrate (mg_cur g)" by (intro v(9)) auto
    with finish show ?thesis
      by (intro quiet_step [OF inv finish(2), where p = Marked])
        (use v cl in \<open>auto simp: nth_list_update cell_of_def working_def\<close>)
  next
    case (store i)
    then have "SIZE_OF cur \<le> node_to_migrate (mg_cur g)" by (intro v(9)) auto
    with store show ?thesis
      by (intro quiet_step [OF inv store(2), where p = "Scanning 0"])
        (use v in \<open>auto simp: cell_of_def working_def\<close>)
  next
    case (scan i j)
    with inv_scan [OF inv scan(2,3)] show ?thesis by simp
  next
    case (set_done i j)
    then have ge: "SIZE_OF cur \<le> node_to_migrate (mg_cur g)" by (intro v(9)) auto
    have none: "mg_pc g l \<noteq> Migrating s" if "l < length (cells g)" for l s
      using v(10) [OF set_done(2,3) that] set_done(4) that by simp
    show ?thesis unfolding set_done(1)
      by (rule quiet_step [OF inv set_done(2), where p = Left])
        (use set_done v ge none in \<open>auto simp: cell_of_def working_def table_eq_def\<close>)
  next
    case (wait i)
    then have "SIZE_OF cur \<le> node_to_migrate (mg_cur g)" by (intro v(9)) auto
    with wait show ?thesis
      by (intro quiet_step [OF inv wait(2), where p = Left])
        (use v in \<open>auto simp: cell_of_def working_def\<close>)
  qed
qed

lemma reachable_inv:
  assumes "migration_reachable py h cur g"
  shows "wf_index py h cur \<and> migration_inv py h cur g"
  using assms
proof induction
  case (start g)
  from inv_start [OF start] start show ?case by (auto simp: migration_start_def)
next
  case (step g g')
  then show ?case using inv_step by blast
qed

subsection \<open>The barrier\<close>

lemma barrier:
  assumes "migration_reachable py h cur g" and "node_migration_done (mg_cur g)"
  shows "wf_index py h (mg_new g)" and "table_map py h (mg_new g) = table_map py h cur"
    and "(\<Sum>i<length (cells g). mg_count g i) = int (live_count cur 0 (SIZE_OF cur))"
proof -
  from reachable_inv [OF assms(1)] have wf: "wf_index py h cur" and inv: "migration_inv py h cur g" by simp_all
  note v = migration_invD [OF inv]
  have fin: "finished_blocks cur g = {s. is_block cur s}"
    using v(11,12) [OF assms(2)] by (auto simp: finished_blocks_def is_block_def)
  with v(6) chain_complete [OF wf, of "mg_new g"] obtain e where
    e: "e < SIZE_OF cur" "region_ok py h cur (mg_new g) e (e + SIZE_OF cur)"
    "live_count cur e (e + SIZE_OF cur) = (\<Sum>s | is_block cur s. block_count cur s)" by blast
  show "wf_index py h (mg_new g)" "table_map py h (mg_new g) = table_map py h cur"
    by (rule table_of_region [OF v(2) wf e(1,2)])+
  show "(\<Sum>i<length (cells g). mg_count g i) = int (live_count cur 0 (SIZE_OF cur))"
    using v(13) fin e(3) live_count_rotate [of e cur] e(1) by simp
qed

subsection \<open>Nobody is left waiting\<close>

definition active :: "pc \<Rightarrow> bool" where
  "active p \<longleftrightarrow> p \<noteq> Outside \<and> p \<noteq> Waiting \<and> p \<noteq> Left"

definition somebody_active :: "migration \<Rightarrow> bool" where
  "somebody_active g \<longleftrightarrow>
     node_migration_done (mg_cur g) \<or> (\<forall>i<length (cells g). mg_pc g i = Outside) \<or>
     (\<exists>i<length (cells g). active (mg_pc g i))"

lemma working_active: "working p \<Longrightarrow> active p"
  by (auto simp: working_def active_def)

lemma active_step:
  assumes inv: "migration_inv py h cur g" and act: "somebody_active g" and st: "common_resize_step py h g g'"
  shows "somebody_active g'"
proof -
  note v = migration_invD [OF inv]
  note cl = cells_set_cell [OF v(4)]
  have intro: "somebody_active g'" if "i < length (cells g')" "active (mg_pc g' i)" for i
    using that unfolding somebody_active_def by blast
  from st show ?thesis
  proof cases
    case (enter i)
    then show ?thesis using cl by (intro intro [of i]) (auto simp: active_def)
  next
    case (fetch i s cur')
    then show ?thesis by (intro intro [of i]) (auto simp: active_def fetch_block_def)
  next
    case (migrate i s new' n)
    then show ?thesis by (intro intro [of i]) (auto simp: active_def)
  next
    case (finish i)
    then show ?thesis using cl by (intro intro [of i]) (auto simp: active_def)
  next
    case (store i)
    then show ?thesis by (intro intro [of i]) (auto simp: active_def)
  next
    case (scan i j)
    show ?thesis
    proof (cases "cells g ! j = 1")
      case True
      with v(5) [OF scan(4)] have "working (mg_pc g j)" by (auto simp: cell_of_def split: if_splits)
      moreover from this scan(3) have "j \<noteq> i" by (auto simp: working_def)
      ultimately show ?thesis using scan working_active by (intro intro [of j]) auto
    next
      case False
      with scan show ?thesis by (intro intro [of i]) (auto simp: active_def)
    qed
  next
    case (set_done i j)
    then show ?thesis by (simp add: somebody_active_def)
  next
    case (wait i)
    then show ?thesis by (simp add: somebody_active_def)
  qed
qed

lemma reachable_active: "migration_reachable py h cur g \<Longrightarrow> somebody_active g"
proof (induction rule: migration_reachable.induct)
  case (start g)
  then show ?case by (simp add: migration_start_def somebody_active_def)
next
  case (step g g')
  then show ?case using active_step reachable_inv by blast
qed

lemma active_can_step:
  assumes inv: "migration_inv py h cur g" and wf: "wf_index py h cur"
    and i: "i < length (cells g)" and act: "active (mg_pc g i)"
  shows "\<exists>g'. common_resize_step py h g g' \<and> mg_pc g' i \<noteq> mg_pc g i"
proof -
  note v = migration_invD [OF inv]
  have step: ?thesis if "common_resize_step py h g g'" "mg_pc g' i \<noteq> mg_pc g i" for g'
    using that by blast
  show ?thesis
  proof (cases "mg_pc g i")
    case Fetching
    obtain s cur' where f: "fetch_block (mg_cur g) = (s, cur')" by (cases "fetch_block (mg_cur g)")
    show ?thesis by (rule step [OF common_resize_step.fetch [OF i Fetching f]]) (simp add: Fetching)
  next
    case (Migrating s)
    from v(7) [OF i Migrating] have "s < SIZE_OF (mg_cur g)"
      using table_eqD(5) [OF v(1)] by (simp add: is_block_def)
    from block_wise_migrate_correct [OF _ _ this, of "mg_new g" py h] v(2) wf
      table_eq_generation(1) [OF v(1)] table_eq_wf(1) [OF v(1)] obtain new' n where
      m: "block_wise_migrate py h (mg_cur g) (mg_new g) s = Some (new', n)" by auto
    show ?thesis by (rule step [OF common_resize_step.migrate [OF i Migrating m]]) (simp add: Migrating)
  next
    case Finishing
    with v(5) [OF i] have c: "cells g ! i = 1" by (simp add: cell_of_def working_def)
    show ?thesis by (rule step [OF common_resize_step.finish [OF i Finishing c]]) (simp add: Finishing)
  next
    case Marked
    show ?thesis by (rule step [OF common_resize_step.store [OF i Marked]]) (simp add: Marked)
  next
    case (Scanning j)
    show ?thesis
    proof (cases "j < length (cells g)")
      case True
      show ?thesis by (rule step [OF common_resize_step.scan [OF i Scanning True]]) (simp add: Scanning)
    next
      case False
      then have len: "length (cells g) \<le> j" by simp
      show ?thesis by (rule step [OF common_resize_step.set_done [OF i Scanning len]]) (simp add: Scanning)
    qed
  qed (use act in \<open>simp_all add: active_def\<close>)
qed

subsection \<open>A run in which a counter is stored after the barrier\<close>

text \<open>
  Two participants and an index of one block: the second migrates the block and marks itself as
  finished; before it has stored its counter the first finds nothing to migrate, sees that nobody is
  working, and opens the barrier.
\<close>

definition two_participants ::
  "meta \<Rightarrow> nat list \<Rightarrow> nat \<Rightarrow> bool \<Rightarrow> meta \<Rightarrow> (nat \<Rightarrow> pc) \<Rightarrow> (nat \<Rightarrow> int) \<Rightarrow> (nat \<Rightarrow> int) \<Rightarrow> migration" where
  "two_participants cur ps n d new pcs cnt ins =
     \<lparr>mg_cur = cur\<lparr>participants := Some ps, node_to_migrate := n, node_migration_done := d\<rparr>,
      mg_new = new, mg_pc = pcs, mg_count = cnt, mg_inserted = ins\<rparr>"

lemma two_enter:
  assumes "i < length ps" and "pcs i = Outside" and "ps ! i = 0"
  shows "common_resize_step py h (two_participants cur ps n False new pcs cnt ins)
    (two_participants cur (ps[i := 1]) n False new (pcs(i := Fetching)) cnt ins)"
  using common_resize_step.enter [of i "two_participants cur ps n False new pcs cnt ins" py h] assms
  by (cases cur) (simp add: two_participants_def goto_def set_cell_def)

lemma two_fetch:
  assumes "i < length ps" and "pcs i = Fetching"
  shows "common_resize_step py h (two_participants cur ps n d new pcs cnt ins)
    (two_participants cur ps (n + ATOMIC_DICT_BLOCKWISE_MIGRATE_SIZE) d new
      (pcs(i := if n < SIZE_OF cur then Migrating n else Finishing)) cnt ins)"
  using common_resize_step.fetch [of i "two_participants cur ps n d new pcs cnt ins" n
      "cur\<lparr>participants := Some ps, node_to_migrate := n + ATOMIC_DICT_BLOCKWISE_MIGRATE_SIZE, node_migration_done := d\<rparr>" py h] assms
  by (simp add: two_participants_def goto_def fetch_block_def SIZE_OF_def)

lemma two_migrate:
  assumes "i < length ps" and "pcs i = Migrating s"
    and "block_wise_migrate py h (cur\<lparr>participants := Some ps, node_to_migrate := n, node_migration_done := d\<rparr>) new s = Some (new', k)"
  shows "common_resize_step py h (two_participants cur ps n d new pcs cnt ins)
    (two_participants cur ps n d new' (pcs(i := Fetching)) (cnt(i := cnt i + k)) ins)"
  using common_resize_step.migrate [of i "two_participants cur ps n d new pcs cnt ins" s py h new' k] assms
  by (simp add: two_participants_def goto_def)

lemma two_finish:
  assumes "i < length ps" and "pcs i = Finishing" and "ps ! i = 1"
  shows "common_resize_step py h (two_participants cur ps n d new pcs cnt ins)
    (two_participants cur (ps[i := 2]) n d new (pcs(i := Marked)) cnt ins)"
  using common_resize_step.finish [of i "two_participants cur ps n d new pcs cnt ins" py h] assms
  by (cases cur) (simp add: two_participants_def goto_def set_cell_def)

lemma two_store:
  assumes "i < length ps" and "pcs i = Marked"
  shows "common_resize_step py h (two_participants cur ps n d new pcs cnt ins)
    (two_participants cur ps n d new (pcs(i := Scanning 0)) cnt (ins(i := cnt i)))"
  using common_resize_step.store [of i "two_participants cur ps n d new pcs cnt ins" py h] assms
  by (simp add: two_participants_def goto_def)

lemma two_scan:
  assumes "i < length ps" and "pcs i = Scanning j" and "j < length ps" and "ps ! j \<noteq> 1"
  shows "common_resize_step py h (two_participants cur ps n d new pcs cnt ins)
    (two_participants cur ps n d new (pcs(i := Scanning (Suc j))) cnt ins)"
  using common_resize_step.scan [of i "two_participants cur ps n d new pcs cnt ins" j py h] assms
  by (simp add: two_participants_def goto_def)

lemma two_done:
  assumes "i < length ps" and "pcs i = Scanning j" and "length ps \<le> j"
  shows "common_resize_step py h (two_participants cur ps n d new pcs cnt ins)
    (two_participants cur ps n True new (pcs(i := Left)) cnt ins)"
  using common_resize_step.set_done [of i "two_participants cur ps n d new pcs cnt ins" j py h] assms
  by (simp add: two_participants_def goto_def)

lemma early_barrier_run:
  assumes wf: "wf_index py h cur" and gen: "next_generation cur new" and small: "SIZE_OF cur \<le> 4096"
    and start: "participants cur = Some [0, 0]" "node_to_migrate cur = 0" "\<not> node_migration_done cur"
  shows "\<exists>g. migration_reachable py h cur g \<and> node_migration_done (mg_cur g) \<and> length (cells g) = 2 \<and>
    mg_pc g 1 = Marked \<and> mg_inserted g = (\<lambda>_. 0)"
proof -
  let ?R = "migration_reachable py h cur" and ?O = "(\<lambda>_. Outside) :: nat \<Rightarrow> pc" and ?z = "(\<lambda>_. 0) :: nat \<Rightarrow> int"
  let ?B = "ATOMIC_DICT_BLOCKWISE_MIGRATE_SIZE"
  have B: "?B = 4096" by (simp add: ATOMIC_DICT_BLOCKWISE_MIGRATE_SIZE_def)
  have "two_participants cur [0, 0] 0 False new ?O ?z ?z = \<lparr>mg_cur = cur, mg_new = new, mg_pc = ?O, mg_count = ?z, mg_inserted = ?z\<rparr>"
    using start by (simp add: two_participants_def)
  then have "migration_start py h cur (two_participants cur [0, 0] 0 False new ?O ?z ?z)"
    using wf gen start by (auto simp: migration_start_def intro!: exI [of _ 2] simp: numeral_2_eq_2)
  from migration_reachable.start [OF this] two_enter [of 1 "[0, 0]" ?O py h cur 0 new ?z ?z]
  have r1: "?R (two_participants cur [0, 1] 0 False new (?O(1 := Fetching)) ?z ?z)"
    by (auto intro: migration_reachable.step)
  from migration_reachable.step [OF r1 two_fetch [of 1]]
  have r2: "?R (two_participants cur [0, 1] ?B False new (?O(1 := Migrating 0)) ?z ?z)" by simp
  let ?cur = "cur\<lparr>participants := Some [0, 1], node_to_migrate := ?B, node_migration_done := False\<rparr>"
  have eq: "table_eq cur ?cur" by (simp add: table_eq_def)
  then have "next_generation ?cur new" "wf_index py h ?cur" "0 < SIZE_OF ?cur"
    using gen wf table_eq_generation(1) table_eq_wf(1) by auto
  from block_wise_migrate_correct [OF this] obtain new' k where
    m: "block_wise_migrate py h ?cur new 0 = Some (new', k)" by blast
  from migration_reachable.step [OF r2 two_migrate [of 1 _ _ 0, OF _ _ m]]
  have r3: "?R (two_participants cur [0, 1] ?B False new' (?O(1 := Fetching)) (?z(1 := k)) ?z)" by simp
  have r4: "?R (two_participants cur [0, 1] (?B + ?B) False new' (?O(1 := Finishing)) (?z(1 := k)) ?z)"
    using migration_reachable.step [OF r3 two_fetch [of 1]] small B by simp
  have r5: "?R (two_participants cur [0, 2] (?B + ?B) False new' (?O(1 := Marked)) (?z(1 := k)) ?z)"
    using migration_reachable.step [OF r4 two_finish [of 1]] by simp
  have r6: "?R (two_participants cur [1, 2] (?B + ?B) False new' (?O(1 := Marked, 0 := Fetching)) (?z(1 := k)) ?z)"
    using migration_reachable.step [OF r5 two_enter [of 0]] by simp
  have r7: "?R (two_participants cur [1, 2] (?B + ?B + ?B) False new' (?O(1 := Marked, 0 := Finishing)) (?z(1 := k)) ?z)"
    using migration_reachable.step [OF r6 two_fetch [of 0]] small B by simp
  have r8: "?R (two_participants cur [2, 2] (?B + ?B + ?B) False new' (?O(1 := Marked, 0 := Marked)) (?z(1 := k)) ?z)"
    using migration_reachable.step [OF r7 two_finish [of 0]] by simp
  have r9: "?R (two_participants cur [2, 2] (?B + ?B + ?B) False new' (?O(1 := Marked, 0 := Scanning 0)) (?z(1 := k)) (?z(0 := 0)))"
    using migration_reachable.step [OF r8 two_store [of 0]] by simp
  have r10: "?R (two_participants cur [2, 2] (?B + ?B + ?B) False new' (?O(1 := Marked, 0 := Scanning 1)) (?z(1 := k)) (?z(0 := 0)))"
    using migration_reachable.step [OF r9 two_scan [of 0 _ _ 0]] by simp
  have r11: "?R (two_participants cur [2, 2] (?B + ?B + ?B) False new' (?O(1 := Marked, 0 := Scanning 2)) (?z(1 := k)) (?z(0 := 0)))"
    using migration_reachable.step [OF r10 two_scan [of 0 _ _ 1]] by (simp add: numeral_2_eq_2)
  have r12: "?R (two_participants cur [2, 2] (?B + ?B + ?B) True new' (?O(1 := Marked, 0 := Left)) (?z(1 := k)) (?z(0 := 0)))"
    using migration_reachable.step [OF r11 two_done [of 0 _ _ 2]] by simp
  show ?thesis
    by (rule exI [of _ "two_participants cur [2, 2] (?B + ?B + ?B) True new' (?O(1 := Marked, 0 := Left)) (?z(1 := k)) (?z(0 := 0))"])
      (use r12 in \<open>simp add: two_participants_def fun_eq_iff\<close>)
qed

subsection \<open>Properties\<close>

definition example_current :: meta where
  "example_current = (snd example_world)\<lparr>participants := Some [0, 0]\<rparr>"

definition example_next :: meta where
  "example_next = (example_meta 8)\<lparr>pages := (\<lambda>_. Page 0), index := (\<lambda>_. 7)\<rparr>"

lemma example_current_facts:
  "wf_index example_env example_heap example_current" "next_generation example_current example_next"
  "SIZE_OF example_current = 128" "participants example_current = Some [0, 0]"
  "node_to_migrate example_current = 0" "\<not> node_migration_done example_current"
  "live_count example_current 0 (SIZE_OF example_current) > 0"
  "table_map example_env example_heap example_current (Obj 1) = Some (Obj 2)"
proof -
  have eq: "table_eq (snd example_world) example_current" by (simp add: example_current_def table_eq_def)
  have fst: "fst example_world = example_heap" by (simp add: example_world_def)
  show "wf_index example_env example_heap example_current"
    using example_world_wf table_eq_wf(1) [OF eq] fst by simp
  show tm: "table_map example_env example_heap example_current (Obj 1) = Some (Obj 2)"
    using example_world_map table_eq_wf(2) [OF eq] fst by simp
  show "next_generation example_current example_next" "SIZE_OF example_current = 128"
    "participants example_current = Some [0, 0]" "node_to_migrate example_current = 0"
    "\<not> node_migration_done example_current"
    by (simp_all add: next_generation_def example_current_def example_next_def example_world_def put_node_def
        example_defs SIZE_OF_def)
  from tm have "\<not> (\<forall>p<SIZE_OF example_current. \<not> holds example_env example_heap example_current (Obj 1) p)"
    using table_map_None by (metis option.distinct(1))
  then obtain p where "p < SIZE_OF example_current" "live example_current p" by (auto elim: holdsD)
  then have "p \<in> {r. 0 \<le> r \<and> r < SIZE_OF example_current \<and> live example_current (r mod SIZE_OF example_current)}"
    by simp
  then show "live_count example_current 0 (SIZE_OF example_current) > 0"
    unfolding live_count_def by (subst card_gt_0_iff) auto
qed

text \<open>
  C10: However the participants interleave, when \<open>node_migration_done\<close> is set the new index
  satisfies the invariant, stands for the same map as the old one, and the participants have migrated
  every live node exactly once (their counts add up to the number of live nodes).
\<close>

theorem barrier_means_migrated:
  assumes "migration_reachable py h cur g" and "node_migration_done (mg_cur g)"
  shows "wf_index py h (mg_new g) \<and> table_map py h (mg_new g) = table_map py h cur \<and>
    (\<Sum>i<length (cells g). mg_count g i) = int (live_count cur 0 (SIZE_OF cur))"
  using barrier [OF assms] by simp

theorem barrier_means_migrated_witness:
  "\<exists>g. migration_reachable example_env example_heap example_current g \<and>
     table_map example_env example_heap (mg_new g) (Obj 1) = Some (Obj 2)"
proof -
  note x = example_current_facts
  from early_barrier_run [OF x(1,2) _ x(4-6)] x(3) obtain g where
    g: "migration_reachable example_env example_heap example_current g" "node_migration_done (mg_cur g)" by auto
  from barrier_means_migrated [OF this] g(1) x(8) show ?thesis by auto
qed





end
