(* ===== verification/Accessors.thy ===== *)
theory Accessors
  imports Pages
begin

text \<open>
  The accessor storages of a dictionary, one per thread, from
  \<^verbatim>\<open>src/src/cereggii/atomic_dict/accessor_storage.c\<close>, and the length of the dictionary, which
  is kept in them, from \<^verbatim>\<open>src/src/cereggii/atomic_dict/atomic_dict.c\<close>.

  An accessor is its position in the list that the code keeps as linked storages; the position is
  \<open>accessor_ix\<close>, and \<open>accessors_len\<close> is the length of the list.  The functions here
  describe one thread running by itself: taking a mutex that is held would block for ever, which is
  \<open>None\<close>.  Counters are integers; the code notes that it does not check them for overflow.
\<close>

subsection \<open>Creating and finding a storage\<close>

definition zero_storage :: storage where
  "zero_storage =
     \<lparr>st_meta = MetaNone, local_len = 0, local_inserted = 0, local_tombstones = 0, self_mutex = False,
      rb = \<lparr>rb_start = 0, rb_size = 0, rb_used = 0\<rparr>\<rparr>"

text \<open>The storage is not kept when it cannot be allocated or registered for the thread.\<close>

definition get_or_create_accessor_storage :: "nat \<Rightarrow> dict \<Rightarrow> (nat option \<times> dict) option" where
  "get_or_create_accessor_storage tid d =
     (case thread_storage d tid of
        Some i \<Rightarrow> Some (Some i, d)
      | None \<Rightarrow>
          (case allocate d of
             (False, d) \<Rightarrow> Some (None, d)
           | (True, d) \<Rightarrow>
               (case allocate d of
                  (False, d) \<Rightarrow> Some (None, d)
                | (True, d) \<Rightarrow>
                    if accessors_lock d then None
                    else
                      (let i = length (accessors d) in
                       Some (Some i,
                         d\<lparr>accessors := accessors d @ [zero_storage\<lparr>st_meta := metadata d\<rparr>],
                           thread_storage := (thread_storage d)(tid := Some i)\<rparr>)))))"

definition get_accessor_storage :: "nat \<Rightarrow> dict \<Rightarrow> nat option" where
  "get_accessor_storage tid d = thread_storage d tid"

text \<open>Freeing the list of storages (\<open>free_accessor_storage\<close> on each).\<close>

definition free_accessor_storage_list :: "dict \<Rightarrow> dict" where
  "free_accessor_storage_list d = d\<lparr>accessors := []\<rparr>"

text \<open>
  The thread's own reference to the current metadata is refreshed when the shared one has changed.
  Before the dictionary is initialised there is no metadata to return.
\<close>

definition get_meta :: "nat \<Rightarrow> dict \<Rightarrow> (nat \<times> dict) option" where
  "get_meta i d =
     (let d' = (if metadata d = st_meta (accessors d ! i) then d
                else upd_storage i (\<lambda>s. s\<lparr>st_meta := metadata d\<rparr>) d) in
      case st_meta (accessors d' ! i) of
        MetaAt mid \<Rightarrow> Some (mid, d')
      | _ \<Rightarrow> None)"

subsection \<open>Locks\<close>

definition begin_synchronous_operation :: "dict \<Rightarrow> dict option" where
  "begin_synchronous_operation d =
     (if sync_op d \<or> accessors_lock d \<or> (\<exists>s \<in> set (accessors d). self_mutex s) then None
      else Some (d\<lparr>sync_op := True, accessors_lock := True,
                   accessors := map (\<lambda>s. s\<lparr>self_mutex := True\<rparr>) (accessors d)\<rparr>))"

definition end_synchronous_operation :: "dict \<Rightarrow> dict" where
  "end_synchronous_operation d =
     d\<lparr>sync_op := False, accessors := map (\<lambda>s. s\<lparr>self_mutex := False\<rparr>) (accessors d),
       accessors_lock := False\<rparr>"

subsection \<open>Counters\<close>

definition accessor_len_inc :: "nat \<Rightarrow> int \<Rightarrow> dict \<Rightarrow> dict" where
  "accessor_len_inc i inc d =
     (upd_storage i (\<lambda>s. s\<lparr>local_len := local_len s + inc\<rparr>) d)\<lparr>len_dirty := True\<rparr>"

definition accessor_inserted_inc :: "nat \<Rightarrow> int \<Rightarrow> dict \<Rightarrow> dict" where
  "accessor_inserted_inc i inc d = upd_storage i (\<lambda>s. s\<lparr>local_inserted := local_inserted s + inc\<rparr>) d"

definition accessor_tombstones_inc :: "nat \<Rightarrow> int \<Rightarrow> dict \<Rightarrow> dict" where
  "accessor_tombstones_inc i inc d = upd_storage i (\<lambda>s. s\<lparr>local_tombstones := local_tombstones s + inc\<rparr>) d"

subsection \<open>The length\<close>

definition sum_of_accessors_len :: "dict \<Rightarrow> int" where
  "sum_of_accessors_len d = foldl (\<lambda>len s. len + local_len s) 0 (accessors d)"

definition approx_len :: "dict \<Rightarrow> int" where
  "approx_len d = dict_len d + sum_of_accessors_len d"

definition approx_inserted :: "dict \<Rightarrow> int" where
  "approx_inserted d = foldl (\<lambda>inserted s. inserted + local_inserted s) 0 (accessors d)"

text \<open>
  \<open>PyLong_AsSsize_t\<close> raises when the sum does not fit in a \<open>Py_ssize_t\<close>: the code then returns -1
  and changes nothing, which is \<open>None\<close> in the first component.
\<close>

definition fits_ssize_t :: "int \<Rightarrow> bool" where
  "fits_ssize_t n \<longleftrightarrow> - (2 ^ 63) \<le> n \<and> n < 2 ^ 63"

definition AtomicDict_ApproxLen :: "dict \<Rightarrow> int" where
  "AtomicDict_ApproxLen d = dict_len d + sum_of_accessors_len d"

definition AtomicDict_LenBounds :: "dict \<Rightarrow> int \<times> int" where
  "AtomicDict_LenBounds d = (AtomicDict_ApproxLen d, AtomicDict_ApproxLen d)"

definition AtomicDict_Len_impl :: "dict \<Rightarrow> int option \<times> dict" where
  "AtomicDict_Len_impl d =
     (if \<not> len_dirty d then (Some (dict_len d), d)
      else
        (let len = dict_len d + sum_of_accessors_len d in
         if \<not> fits_ssize_t len then (None, d)
         else (Some len, d\<lparr>dict_len := len, len_dirty := False,
                accessors := map (\<lambda>s. s\<lparr>local_len := 0\<rparr>) (accessors d)\<rparr>)))"

definition AtomicDict_Len :: "dict \<Rightarrow> (int option \<times> dict) option" where
  "AtomicDict_Len d =
     (case begin_synchronous_operation d of
        None \<Rightarrow> None
      | Some d \<Rightarrow> (case AtomicDict_Len_impl d of (len, d) \<Rightarrow> Some (len, end_synchronous_operation d)))"

subsection \<open>Facts\<close>

lemma sum_of_accessors_len_sum: "sum_of_accessors_len d = (\<Sum>s\<leftarrow>accessors d. local_len s)"
  by (simp add: sum_of_accessors_len_def foldl_add)

lemma approx_inserted_sum: "approx_inserted d = (\<Sum>s\<leftarrow>accessors d. local_inserted s)"
  by (simp add: approx_inserted_def foldl_add)

text \<open>The mutexes and flags of a dictionary on which no thread is in the middle of an operation.\<close>

definition unlocked :: "dict \<Rightarrow> bool" where
  "unlocked d \<longleftrightarrow> \<not> sync_op d \<and> \<not> accessors_lock d \<and> (\<forall>s \<in> set (accessors d). \<not> self_mutex s)"

text \<open>The cached length is right: it is valid whenever it is not marked dirty.\<close>

definition len_ok :: "dict \<Rightarrow> bool" where
  "len_ok d \<longleftrightarrow> (\<not> len_dirty d \<longrightarrow> sum_of_accessors_len d = 0)"

lemma begin_unlocked: "unlocked d \<Longrightarrow> begin_synchronous_operation d \<noteq> None"
  by (simp add: unlocked_def begin_synchronous_operation_def)

lemma end_unlocks: "unlocked (end_synchronous_operation d)"
  by (auto simp: unlocked_def end_synchronous_operation_def)

text \<open>
  The length of an idle dictionary is the sum of the cached length and of what every accessor
  has added since (whatever the dirty flag says); asking for it moves the accessors' part into the
  cached length, so asking again gives the same, and leaves no lock held.
\<close>

theorem Len_is_approx_len:
  assumes "unlocked d" and "len_ok d" and "fits_ssize_t (approx_len d)"
  shows "(case AtomicDict_Len d of
            None \<Rightarrow> False
          | Some (len, d') \<Rightarrow> len = Some (approx_len d) \<and> approx_len d' = approx_len d \<and>
              sum_of_accessors_len d' = 0 \<and> len_ok d' \<and> \<not> len_dirty d' \<and> unlocked d')"
proof -
  let ?lock = "\<lambda>b. map (\<lambda>s. s\<lparr>self_mutex := b\<rparr>)"
  have sums: "(\<Sum>s\<leftarrow>ss. local_len (s\<lparr>self_mutex := b\<rparr>)) = (\<Sum>s\<leftarrow>ss. local_len s)" for ss :: "storage list" and b
    by (induction ss) simp_all
  have zero: "(\<Sum>s\<leftarrow>map f ss. 0::int) = 0" for f :: "storage \<Rightarrow> storage" and ss
    by (induction ss) simp_all
  show ?thesis
    using assms
    by (auto simp: AtomicDict_Len_def AtomicDict_Len_impl_def begin_synchronous_operation_def
        end_synchronous_operation_def unlocked_def len_ok_def approx_len_def sum_of_accessors_len_sum
        sums zero comp_def Let_def)
qed

definition example_dict :: dict where
  "example_dict =
     \<lparr>metadata = MetaAt 0, metas = (\<lambda>_. (example_meta 7)\<lparr>pages := (\<lambda>_. Page 0)\<rparr>), next_meta = 1,
      entries = (\<lambda>_. zero_entry)((0, 0) := zero_entry\<lparr>e_flags := 128\<rparr>), next_page = 1,
      min_log_size = 7, reservation_buffer_size = 16, sync_op = False, len_dirty = True, dict_len = 2,
      accessors = [zero_storage\<lparr>local_len := 3\<rparr>, zero_storage\<lparr>local_len := - 1\<rparr>],
      accessors_lock = False, thread_storage = (\<lambda>_. None), allocations = []\<rparr>"

theorem Len_is_approx_len_witness:
  "(case AtomicDict_Len example_dict of None \<Rightarrow> False | Some (len, d') \<Rightarrow> len = Some 4)"
  using Len_is_approx_len [of example_dict]
  by (simp add: example_dict_def unlocked_def zero_storage_def len_ok_def approx_len_def
      sum_of_accessors_len_def fits_ssize_t_def split: option.splits prod.splits)

end
