(* ===== verification/Resize.thy ===== *)
theory Resize
  imports Accessors MigrateBlocks
begin

text \<open>
  Generations of the table: \<^verbatim>\<open>src/src/cereggii/atomic_dict/meta.c\<close> and the part of
  \<^verbatim>\<open>src/src/cereggii/atomic_dict/resize.c\<close> that elects a leader, makes the next generation and
  waits for the others, run by one thread by itself.  Waiting for an event that is not set, or for a
  mutex that is held, is \<open>None\<close>, like undefined behaviour.  A thread is known by its
  \<open>_Py_ThreadId()\<close>, which is not 0.
\<close>

subsection \<open>Metadata\<close>

text \<open>
  The index of a new generation is the memory it is allocated in, whatever that contains.  When one
  of the three events cannot be allocated the error path frees the index twice and releases pointers
  that were never initialised: that is undefined.
\<close>

definition AtomicDictMeta_New :: "nat \<Rightarrow> dict \<Rightarrow> (nat option \<times> dict) option" where
  "AtomicDictMeta_New ls d =
     (case allocate d of
        (False, d) \<Rightarrow> Some (None, d)
      | (True, d) \<Rightarrow>
          (case allocate d of
             (False, d) \<Rightarrow> Some (None, d)
           | (True, d) \<Rightarrow>
               (let (a, d) = allocate d; (b, d) = allocate d; (c, d) = allocate d;
                    new = next_meta d;
                    m = \<lparr>log_size = ls, index = index (metas d new), pages = (\<lambda>_. Uninit),
                         greatest_allocated_page = -1, new_gen_metadata = None, resize_leader = 0,
                         node_to_migrate = 0, participants = None, new_metadata_ready = False,
                         node_migration_done = False, resize_done = False\<rparr> in
                if a \<and> b \<and> c then Some (Some new, d\<lparr>next_meta := Suc new, metas := (metas d)(new := m)\<rparr>)
                else None)))"

definition meta_clear_index :: "meta \<Rightarrow> meta" where
  "meta_clear_index m = m\<lparr>index := (\<lambda>i. if i < SIZE_OF m then 0 else index m i)\<rparr>"

definition meta_init_pages :: "nat \<Rightarrow> dict \<Rightarrow> bool \<times> dict" where
  "meta_init_pages mid d =
     (case allocate d of
        (False, d) \<Rightarrow> (False, d)
      | (True, d) \<Rightarrow>
          (True, upd_meta mid (\<lambda>m. m\<lparr>pages := (\<lambda>_. Uninit)(0 := Null), greatest_allocated_page := -1\<rparr>) d))"

definition meta_copy_pages :: "nat \<Rightarrow> nat \<Rightarrow> dict \<Rightarrow> bool \<times> dict" where
  "meta_copy_pages from to d =
     (case allocate d of
        (False, d) \<Rightarrow> (False, d)
      | (True, d) \<Rightarrow>
          (let previous_pages = pages (metas d from);
               greatest = greatest_allocated_page (metas d from);
               ps = (\<lambda>i. if int i \<le> greatest then previous_pages i
                         else if int i = greatest + 1 then Null else Uninit) in
           (True, upd_meta to (\<lambda>m. m\<lparr>pages := ps, greatest_allocated_page := greatest\<rparr>) d)))"

definition pages_upto :: "meta \<Rightarrow> nat list" where
  "pages_upto m = [0..<nat (greatest_allocated_page m + 1)]"

text \<open>Pages that are shared with a newer generation are not visited.\<close>

definition AtomicDictMeta_traverse :: "heap \<Rightarrow> meta \<Rightarrow> (pyobj option \<times> pyobj option) list" where
  "AtomicDictMeta_traverse h m =
     (if new_gen_metadata m \<noteq> None then []
      else concat (map (\<lambda>i. case pages m i of Page p \<Rightarrow> AtomicDictPage_traverse h p | _ \<Rightarrow> []) (pages_upto m)))"

definition AtomicDictMeta_clear :: "meta \<Rightarrow> meta" where
  "AtomicDictMeta_clear m =
     m\<lparr>pages := (\<lambda>i. if i \<in> set (pages_upto m) then Null else pages m i), new_gen_metadata := None\<rparr>"

subsection \<open>The common part of a resize\<close>

definition cas_cell :: "nat \<Rightarrow> nat \<Rightarrow> nat \<Rightarrow> meta \<Rightarrow> meta" where
  "cas_cell i expected desired m =
     m\<lparr>participants := map_option (\<lambda>ps. ps[i := fst (snd (compare_exchange (ps ! i) expected desired))])
                        (participants m)\<rparr>"

definition common_resize :: "pyenv \<Rightarrow> nat \<Rightarrow> nat \<Rightarrow> nat option \<Rightarrow> dict \<Rightarrow> dict option" where
  "common_resize py tid cur new_meta d =
     (if node_migration_done (metas d cur) then Some d
      else
        (case (get_accessor_storage tid d, new_meta) of
           (Some i, Some new) \<Rightarrow>
             if length (case participants (metas d cur) of None \<Rightarrow> [] | Some ps \<Rightarrow> ps) \<le> i then None
             else
               (case migrate_nodes py (entries d) (cas_cell i 0 1 (metas d cur)) (metas d new) of
                  None \<Rightarrow> None
                | Some (c, n, migrated_count) \<Rightarrow>
                    (let d = d\<lparr>metas := (metas d)(cur := cas_cell i 1 2 c, new := n)\<rparr>;
                         d = upd_storage i (\<lambda>s. s\<lparr>local_inserted := migrated_count\<rparr>) d;
                         d = (if nodes_migration_done (metas d cur)
                              then upd_meta cur (\<lambda>m. m\<lparr>node_migration_done := True\<rparr>) d else d) in
                     if node_migration_done (metas d cur) then Some d else None))
         | _ \<Rightarrow> None))"

definition follower_resize :: "pyenv \<Rightarrow> nat \<Rightarrow> nat \<Rightarrow> dict \<Rightarrow> dict option" where
  "follower_resize py tid cur d =
     (if \<not> new_metadata_ready (metas d cur) then None
      else
        (case common_resize py tid cur (new_gen_metadata (metas d cur)) d of
           None \<Rightarrow> None
         | Some d \<Rightarrow> if resize_done (metas d cur) then Some d else None))"

subsection \<open>The leader\<close>

definition resize_failed :: "nat \<Rightarrow> bool \<Rightarrow> dict \<Rightarrow> int \<times> dict" where
  "resize_failed cur holding_sync_lock d =
     (-1, upd_meta cur (\<lambda>m. m\<lparr>resize_done := True, node_migration_done := True, new_metadata_ready := True\<rparr>)
            (if holding_sync_lock then end_synchronous_operation d else d))"

definition leader_resize :: "pyenv \<Rightarrow> nat \<Rightarrow> nat \<Rightarrow> dict \<Rightarrow> (int \<times> dict) option" where
  "leader_resize py tid cur d =
     (let to_log_size = log_size (metas d cur) + 1 in
      if to_log_size > ATOMIC_DICT_MAX_LOG_SIZE then Some (resize_failed cur False d)
      else
        (case AtomicDictMeta_New to_log_size d of
           None \<Rightarrow> None
         | Some (None, d) \<Rightarrow> Some (resize_failed cur False d)
         | Some (Some new, d) \<Rightarrow>
             (case begin_synchronous_operation d of
                None \<Rightarrow> None
              | Some d \<Rightarrow>
                  (case meta_copy_pages cur new d of
                     (False, d) \<Rightarrow> Some (resize_failed cur True d)
                   | (True, d) \<Rightarrow>
                       (case allocate d of
                          (False, d) \<Rightarrow> Some (resize_failed cur True d)
                        | (True, d) \<Rightarrow>
                            (let d = upd_meta cur (\<lambda>m. m\<lparr>participants := Some (replicate (length (accessors d)) 0),
                                       new_gen_metadata := Some new, new_metadata_ready := True\<rparr>) d in
                             case common_resize py tid cur (Some new) d of
                               None \<Rightarrow> None
                             | Some d \<Rightarrow>
                                 (let d = d\<lparr>metadata := fst (snd (compare_exchange (metadata d) (MetaAt cur) (MetaAt new)))\<rparr>;
                                      d = upd_meta cur (\<lambda>m. m\<lparr>resize_done := True\<rparr>) d in
                                  Some (1, end_synchronous_operation d))))))))"

definition resize :: "pyenv \<Rightarrow> nat \<Rightarrow> nat \<Rightarrow> dict \<Rightarrow> (int \<times> dict) option" where
  "resize py tid cur d =
     (if resize_leader (metas d cur) = 0
      then leader_resize py tid cur (upd_meta cur (\<lambda>m. m\<lparr>resize_leader := tid\<rparr>) d)
      else map_option (Pair 1) (follower_resize py tid cur d))"

definition grow :: "pyenv \<Rightarrow> nat \<Rightarrow> dict \<Rightarrow> (int \<times> dict) option" where
  "grow py tid d =
     (case get_or_create_accessor_storage tid d of
        None \<Rightarrow> None
      | Some (None, d) \<Rightarrow> Some (-1, d)
      | Some (Some i, d) \<Rightarrow>
          (case get_meta i d of None \<Rightarrow> None | Some (cur, d) \<Rightarrow> resize py tid cur d))"

definition maybe_help_resize :: "pyenv \<Rightarrow> nat \<Rightarrow> nat \<Rightarrow> nat option \<Rightarrow> dict \<Rightarrow> (bool \<times> dict) option" where
  "maybe_help_resize py tid cur self_mutex_of d =
     (if resize_leader (metas d cur) = 0 then Some (False, d)
      else
        (let d = (case self_mutex_of of
                    None \<Rightarrow> d
                  | Some i \<Rightarrow> upd_storage i (\<lambda>s. s\<lparr>self_mutex := False\<rparr>) d) in
         map_option (Pair True) (follower_resize py tid cur d)))"

definition lock_accessor_storage_or_help_resize :: "pyenv \<Rightarrow> nat \<Rightarrow> nat \<Rightarrow> nat \<Rightarrow> dict \<Rightarrow> (bool \<times> dict) option" where
  "lock_accessor_storage_or_help_resize py tid i cur d =
     (if self_mutex (accessors d ! i) then
        (case maybe_help_resize py tid cur None d of
           None \<Rightarrow> None
         | Some (True, d) \<Rightarrow> Some (True, d)
         | Some (False, d) \<Rightarrow>
             if self_mutex (accessors d ! i) then None
             else maybe_help_resize py tid cur (Some i) (upd_storage i (\<lambda>s. s\<lparr>self_mutex := True\<rparr>) d))
      else maybe_help_resize py tid cur (Some i) (upd_storage i (\<lambda>s. s\<lparr>self_mutex := True\<rparr>) d))"

subsection \<open>A resize by one thread\<close>

text \<open>A generation that nobody has begun to resize.\<close>

definition quiet_meta :: "meta \<Rightarrow> bool" where
  "quiet_meta m \<longleftrightarrow>
     resize_leader m = 0 \<and> node_to_migrate m = 0 \<and> new_gen_metadata m = None \<and> participants m = None \<and>
     \<not> new_metadata_ready m \<and> \<not> node_migration_done m \<and> \<not> resize_done m"

definition quiet :: "nat \<Rightarrow> dict \<Rightarrow> bool" where
  "quiet mid d \<longleftrightarrow>
     unlocked d \<and> metadata d = MetaAt mid \<and> mid < next_meta d \<and> quiet_meta (metas d mid) \<and>
     (\<forall>tid i. thread_storage d tid = Some i \<longrightarrow> i < length (accessors d))"

lemma allocate_Nil: "allocations d = [] \<Longrightarrow> allocate d = (True, d)"
  by (simp add: allocate_def)

definition storage_inserted :: "nat \<Rightarrow> int \<Rightarrow> dict \<Rightarrow> storage list" where
  "storage_inserted i n d = (accessors d)[i := (accessors d ! i)\<lparr>local_inserted := n\<rparr>]"

lemma unlocked_map_False: "unlocked d \<Longrightarrow> map (\<lambda>s. s\<lparr>self_mutex := False\<rparr>) (accessors d) = accessors d"
  by (induction "accessors d") (auto simp: unlocked_def intro!: map_idI)

lemma locked_update_unlocked:
  assumes "unlocked d" and "i < length (accessors d)"
  shows "map (\<lambda>s. s\<lparr>self_mutex := False\<rparr>)
      ((map (\<lambda>s. s\<lparr>self_mutex := True\<rparr>) (accessors d))[i := (map (\<lambda>s. s\<lparr>self_mutex := True\<rparr>) (accessors d) ! i)\<lparr>local_inserted := n\<rparr>]) =
    storage_inserted i n d"
proof (rule nth_equalityI)
  fix j assume "j < length (map (\<lambda>s. s\<lparr>self_mutex := False\<rparr>)
      ((map (\<lambda>s. s\<lparr>self_mutex := True\<rparr>) (accessors d))[i := (map (\<lambda>s. s\<lparr>self_mutex := True\<rparr>) (accessors d) ! i)\<lparr>local_inserted := n\<rparr>]))"
  then have j: "j < length (accessors d)" by simp
  with assms(1) have "\<not> self_mutex (accessors d ! j)" by (auto simp: unlocked_def)
  then have "(accessors d ! j)\<lparr>self_mutex := False\<rparr> = accessors d ! j" by simp
  then show "map (\<lambda>s. s\<lparr>self_mutex := False\<rparr>)
      ((map (\<lambda>s. s\<lparr>self_mutex := True\<rparr>) (accessors d))[i := (map (\<lambda>s. s\<lparr>self_mutex := True\<rparr>) (accessors d) ! i)\<lparr>local_inserted := n\<rparr>]) ! j =
    storage_inserted i n d ! j"
    using j assms(2) by (cases "j = i"; cases "accessors d ! i") (simp_all add: storage_inserted_def)
qed (simp add: storage_inserted_def)

text \<open>What the migration does to the generation that is left.\<close>

lemma solo_cells:
  assumes "i < k"
  shows "\<forall>p \<in> set ((replicate k (0::nat))[i := 1, i := 2]). p \<noteq> 1"
  using assms by (auto simp: set_conv_nth nth_list_update)

lemma common_resize_correct:
  assumes wf: "wf_index py (entries d) (metas d cur)" and gen: "next_generation (metas d cur) (metas d new)"
    and "cur \<noteq> new" and i: "thread_storage d tid = Some i" "i < length (accessors d)"
    and ps: "participants (metas d cur) = Some (replicate (length (accessors d)) 0)"
    and "node_to_migrate (metas d cur) = 0" and "\<not> node_migration_done (metas d cur)"
  shows "\<exists>c n k. common_resize py tid cur (Some new) d =
      Some (d\<lparr>metas := (metas d)(cur := c, new := n), accessors := storage_inserted i k d\<rparr>) \<and>
    same_but_index (metas d new) n \<and> wf_index py (entries d) n \<and>
    table_map py (entries d) n = table_map py (entries d) (metas d cur) \<and> nodes_from (metas d cur) n \<and>
    k = int (live_count (metas d cur) 0 (SIZE_OF (metas d cur))) \<and>
    new_metadata_ready c = new_metadata_ready (metas d cur) \<and> resize_leader c = resize_leader (metas d cur)"
proof -
  let ?m = "metas d cur" and ?k = "length (accessors d)"
  define c1 where "c1 = cas_cell i 0 1 ?m"
  have cell: "c1 = ?m\<lparr>participants := Some ((replicate ?k 0)[i := 1])\<rparr>"
    using ps i(2) by (simp add: c1_def cas_cell_def)
  have eq: "table_eq ?m c1" by (simp add: cell table_eq_def)
  have "next_generation c1 (metas d new)" "wf_index py (entries d) c1" "node_to_migrate c1 = 0"
    using gen wf assms(7) table_eq_generation(1) [OF eq] table_eq_wf [OF eq] by (simp_all add: cell)
  from migrate_nodes_correct [OF this] obtain k n where
    m: "migrate_nodes py (entries d) c1 (metas d new) =
      Some (c1\<lparr>node_to_migrate := k\<rparr>, n, int (live_count c1 0 (SIZE_OF c1)))"
    "same_but_index (metas d new) n" "wf_index py (entries d) n"
    "table_map py (entries d) n = table_map py (entries d) c1" "nodes_from c1 n" by blast
  have lc: "live_count c1 0 (SIZE_OF c1) = live_count ?m 0 (SIZE_OF ?m)"
    by (simp add: live_count_def table_eqD [OF eq])
  define c2 where "c2 = cas_cell i 1 2 (c1\<lparr>node_to_migrate := k\<rparr>)"
  have c2: "participants c2 = Some ((replicate ?k 0)[i := 1, i := 2])"
    using i(2) by (simp add: c2_def cell cas_cell_def)
  have don: "nodes_migration_done c2"
    using solo_cells [OF i(2)] by (simp add: nodes_migration_done_def c2)
  let ?c3 = "c2\<lparr>node_migration_done := True\<rparr>"
  let ?n = "int (live_count ?m 0 (SIZE_OF ?m))"
  have "common_resize py tid cur (Some new) d =
      Some (d\<lparr>metas := (metas d)(cur := ?c3, new := n), accessors := storage_inserted i ?n d\<rparr>)"
    using assms(3,8) i ps m(1) don
    by (simp add: common_resize_def get_accessor_storage_def Let_def lc upd_storage_def upd_meta_def
        storage_inserted_def fun_upd_twist
        c1_def [simplified, symmetric] c2_def [simplified, symmetric])
  moreover have "new_metadata_ready ?c3 = new_metadata_ready ?m" "resize_leader ?c3 = resize_leader ?m"
    by (simp_all add: c2_def cas_cell_def cell)
  moreover have "table_map py (entries d) n = table_map py (entries d) ?m"
    using m(4) table_eq_wf(2) [OF eq] by simp
  moreover have "nodes_from ?m n" using m(5) by (simp add: nodes_from_def table_eqD [OF eq])
  ultimately show ?thesis
    using m(2,3) by (intro exI [of _ ?c3] exI [of _ n] exI [of _ ?n]) simp
qed

text \<open>The memory that a leader needs is there.\<close>

lemma AtomicDictMeta_New_ok:
  assumes "allocations d = []"
  shows "\<exists>m. AtomicDictMeta_New ls d =
      Some (Some (next_meta d), d\<lparr>next_meta := Suc (next_meta d), metas := (metas d)(next_meta d := m)\<rparr>) \<and>
    log_size m = ls \<and> quiet_meta m"
  using assms by (auto simp: AtomicDictMeta_New_def allocate_Nil Let_def quiet_meta_def)

definition copied_pages :: "meta \<Rightarrow> nat \<Rightarrow> page_slot" where
  "copied_pages m = (\<lambda>i. if int i \<le> greatest_allocated_page m then pages m i
                          else if int i = greatest_allocated_page m + 1 then Null else Uninit)"

lemma leader_resize_correct:
  assumes q: "unlocked d" "metadata d = MetaAt cur" "cur < next_meta d"
    and i: "thread_storage d tid = Some i" "i < length (accessors d)"
    and m: "node_to_migrate (metas d cur) = 0" "\<not> node_migration_done (metas d cur)"
    and wf: "wf_index py (entries d) (metas d cur)" and ls: "log_size (metas d cur) \<le> 29"
    and mem: "allocations d = []"
  shows "\<exists>ms n k. leader_resize py tid cur d = Some (1,
      d\<lparr>metadata := MetaAt (next_meta d), metas := ms(next_meta d := n), next_meta := Suc (next_meta d),
        accessors := storage_inserted i k d\<rparr>) \<and>
    (\<forall>j. j \<noteq> cur \<longrightarrow> ms j = metas d j) \<and> quiet_meta n \<and> log_size n = Suc (log_size (metas d cur)) \<and>
    pages n = copied_pages (metas d cur) \<and>
    greatest_allocated_page n = greatest_allocated_page (metas d cur) \<and>
    wf_index py (entries d) n \<and> table_map py (entries d) n = table_map py (entries d) (metas d cur) \<and>
    nodes_from (metas d cur) n \<and> k = int (live_count (metas d cur) 0 (SIZE_OF (metas d cur)))"
proof -
  let ?new = "next_meta d" and ?m = "metas d cur"
  from AtomicDictMeta_New_ok [OF mem, of "Suc (log_size ?m)"] obtain m0 where
    new: "AtomicDictMeta_New (Suc (log_size ?m)) d = Some (Some ?new, d\<lparr>next_meta := Suc ?new, metas := (metas d)(?new := m0)\<rparr>)"
    "log_size m0 = Suc (log_size ?m)" "quiet_meta m0" by blast
  define acc where "acc = map (\<lambda>s. s\<lparr>self_mutex := True\<rparr>) (accessors d)"
  define d2 where "d2 = d\<lparr>next_meta := Suc ?new, metas := (metas d)(?new := m0), sync_op := True,
      accessors_lock := True, accessors := acc\<rparr>"
  have lock: "begin_synchronous_operation (d\<lparr>next_meta := Suc ?new, metas := (metas d)(?new := m0)\<rparr>) = Some d2"
    using q(1) by (cases d) (simp add: begin_synchronous_operation_def unlocked_def d2_def acc_def)
  define g where "g = greatest_allocated_page ?m"
  define ps where "ps = (\<lambda>i. if int i \<le> g then pages ?m i else if int i = g + 1 then Null else Uninit)"
  define m1 where "m1 = m0\<lparr>pages := ps, greatest_allocated_page := g\<rparr>"
  have ne: "cur \<noteq> ?new" using q(3) by simp
  have mem2: "allocations d2 = []" using mem by (simp add: d2_def)
  have copy: "meta_copy_pages cur ?new d2 = (True, upd_meta ?new (\<lambda>m. m\<lparr>pages := ps, greatest_allocated_page := g\<rparr>) d2)"
    using ne allocate_Nil [OF mem2] by (simp add: meta_copy_pages_def Let_def d2_def ps_def g_def cong: if_cong)
  define c1 where "c1 = ?m\<lparr>participants := Some (replicate (length acc) 0), new_gen_metadata := Some ?new, new_metadata_ready := True\<rparr>"
  define d4 where "d4 = d2\<lparr>metas := (metas d)(?new := m1, cur := c1)\<rparr>"
  have d4: "upd_meta cur (\<lambda>m. m\<lparr>participants := Some (replicate (length acc) 0),
      new_gen_metadata := Some ?new, new_metadata_ready := True\<rparr>)
      (upd_meta ?new (\<lambda>m. m\<lparr>pages := ps, greatest_allocated_page := g\<rparr>) d2) = d4"
    using ne by (simp add: upd_meta_def d4_def d2_def m1_def c1_def)
  have f4: "entries d4 = entries d" "metas d4 cur = c1" "metas d4 ?new = m1" "accessors d4 = acc"
    "thread_storage d4 = thread_storage d" "metadata d4 = metadata d"
    using ne by (simp_all add: d4_def d2_def)
  have eq: "table_eq ?m c1" by (simp add: table_eq_def c1_def)
  have gen: "next_generation c1 m1"
    using ls new(2) wf_pages [OF wf] by (auto simp: next_generation_def c1_def m1_def ps_def g_def pages_ok_def)
  have "wf_index py (entries d4) (metas d4 cur)" using wf table_eq_wf(1) [OF eq] by (simp add: f4)
  moreover have "participants (metas d4 cur) = Some (replicate (length (accessors d4)) 0)"
    "node_to_migrate (metas d4 cur) = 0" "\<not> node_migration_done (metas d4 cur)"
    using m by (simp_all add: f4 c1_def)
  moreover have "thread_storage d4 tid = Some i" "i < length (accessors d4)" using i by (simp_all add: f4 acc_def)
  ultimately obtain c n k where
    cr: "common_resize py tid cur (Some ?new) d4 =
      Some (d4\<lparr>metas := (metas d4)(cur := c, ?new := n), accessors := storage_inserted i k d4\<rparr>)"
    and n: "same_but_index m1 n" "wf_index py (entries d) n"
      "table_map py (entries d) n = table_map py (entries d) c1" "nodes_from c1 n"
    and k: "k = int (live_count c1 0 (SIZE_OF c1))"
    using common_resize_correct [of py d4 cur ?new tid i] gen ne unfolding f4 by blast
  have k': "k = int (live_count ?m 0 (SIZE_OF ?m))"
    unfolding k by (simp add: live_count_def table_eqD [OF eq])
  have acc': "map (\<lambda>s. s\<lparr>self_mutex := False\<rparr>) (storage_inserted i k d4) = storage_inserted i k d"
    using locked_update_unlocked [OF q(1) i(2), of k] unfolding storage_inserted_def f4 acc_def .
  have size: "\<not> ATOMIC_DICT_MAX_LOG_SIZE < log_size ?m + 1" using ls by (simp add: layout_consts)
  have len: "accessors (upd_meta ?new (\<lambda>m. m\<lparr>pages := ps, greatest_allocated_page := g\<rparr>) d2) = acc"
    by (simp add: upd_meta_def d2_def)
  have al: "allocate (upd_meta ?new (\<lambda>m. m\<lparr>pages := ps, greatest_allocated_page := g\<rparr>) d2) =
      (True, upd_meta ?new (\<lambda>m. m\<lparr>pages := ps, greatest_allocated_page := g\<rparr>) d2)"
    using mem2 by (intro allocate_Nil) (simp add: upd_meta_def)
  let ?d5 = "d4\<lparr>metas := (metas d4)(cur := c, ?new := n), accessors := storage_inserted i k d4\<rparr>"
  have "leader_resize py tid cur d = Some (1, end_synchronous_operation
      (upd_meta cur (\<lambda>m. m\<lparr>resize_done := True\<rparr>)
        (?d5\<lparr>metadata := fst (snd (compare_exchange (metadata ?d5) (MetaAt cur) (MetaAt ?new)))\<rparr>)))"
    using size new(1) lock copy al d4 cr by (simp add: leader_resize_def Let_def len)
  also have "end_synchronous_operation
      (upd_meta cur (\<lambda>m. m\<lparr>resize_done := True\<rparr>)
        (?d5\<lparr>metadata := fst (snd (compare_exchange (metadata ?d5) (MetaAt cur) (MetaAt ?new)))\<rparr>)) =
      d\<lparr>metadata := MetaAt ?new, metas := ((metas d)(cur := c\<lparr>resize_done := True\<rparr>))(?new := n),
        next_meta := Suc ?new, accessors := storage_inserted i k d\<rparr>"
    using q(1,2) ne acc'
    by (cases d) (simp add: end_synchronous_operation_def upd_meta_def d4_def d2_def unlocked_def fun_upd_twist)
  finally have run: "leader_resize py tid cur d = Some (1,
      d\<lparr>metadata := MetaAt ?new, metas := ((metas d)(cur := c\<lparr>resize_done := True\<rparr>))(?new := n),
        next_meta := Suc ?new, accessors := storage_inserted i k d\<rparr>)" .
  have nn: "n = m1\<lparr>index := index n\<rparr>" using n(1) by (simp add: same_but_index_def)
  have qn: "quiet_meta n" "log_size n = Suc (log_size ?m)" "greatest_allocated_page n = g" "pages n = ps"
    using new(2,3) by (subst nn; simp add: quiet_meta_def m1_def)+
  have "nodes_from ?m n" using n(4) by (simp add: nodes_from_def table_eqD [OF eq])
  then show ?thesis
    using run qn n(2,3) k' table_eq_wf(2) [OF eq]
    by (intro exI [of _ "(metas d)(cur := c\<lparr>resize_done := True\<rparr>)"] exI [of _ n] exI [of _ k])
      (auto simp: ps_def g_def copied_pages_def)
qed

end
