(* ===== verification/DictOps.thy ===== *)
theory DictOps
  imports Resize Delete
begin

text \<open>
  The operations of \<open>AtomicDict\<close>, from \<^verbatim>\<open>src/src/cereggii/atomic_dict/lookup.c\<close>,
  \<^verbatim>\<open>insert.c\<close> and \<^verbatim>\<open>delete.c\<close> beside it, as run by one thread while no other
  thread is inside an operation of the same dictionary.  An operation returns a value or raises an
  exception, and the new state of the dictionary; \<open>None\<close> is an operation that never returns or
  whose behaviour is undefined.  \<open>GrowFailed\<close> is what \<open>grow\<close> reports when the table
  cannot be made larger.  \<open>PyObject_Hash\<close> returning -1 is a key that cannot be hashed.
\<close>

definition unlock_storage :: "nat \<Rightarrow> dict \<Rightarrow> dict" where
  "unlock_storage i d = upd_storage i (\<lambda>s. s\<lparr>self_mutex := False\<rparr>) d"

definition no_result :: search_result where
  "no_result =
     \<lparr>sr_error = False, sr_found = False, sr_position = 0,
      sr_node = \<lparr>n_node = 0, n_index = 0, n_tag = 0, n_distance = 0\<rparr>, sr_entry_p = None,
      sr_entry = \<lparr>e_flags = 0, e_hash = 0, e_key = None, e_value = None\<rparr>\<rparr>"

subsection \<open>Lookups\<close>

text \<open>
  The search is retried while the value that was found cannot be referenced any more because another
  thread is deallocating it (\<open>_Py_TryIncref\<close>); the outcomes of the successive attempts are the list
  \<open>tries\<close>, past whose end an attempt succeeds.
\<close>

fun get_retry ::
  "pyenv \<Rightarrow> pyobj \<Rightarrow> i64 \<Rightarrow> pyobj option \<Rightarrow> nat \<Rightarrow> bool list \<Rightarrow> dict \<Rightarrow> (pyobj option outcome \<times> dict) option" where
  "get_retry py key hash default_value i tries d =
     (case get_meta i d of
        None \<Rightarrow> None
      | Some (mid, d) \<Rightarrow>
          (case lookup py (entries d) (metas d mid) key hash
                  (no_result\<lparr>sr_entry := (sr_entry no_result)\<lparr>e_value := None\<rparr>\<rparr>) of
             None \<Rightarrow> None
           | Some r \<Rightarrow>
               if sr_error r then Some (Inl RaisedByObject, d)
               else
                 (case if sr_entry_p r = None then default_value else e_value (sr_entry r) of
                    None \<Rightarrow> Some (Inr None, d)
                  | Some v \<Rightarrow>
                      (case tries of
                         [] \<Rightarrow> Some (Inr (Some v), d)
                       | ok # tries \<Rightarrow>
                           if ok then Some (Inr (Some v), d)
                           else get_retry py key hash default_value i tries d))))"

definition AtomicDict_GetItemOrDefault ::
  "pyenv \<Rightarrow> nat \<Rightarrow> pyobj \<Rightarrow> pyobj option \<Rightarrow> bool list \<Rightarrow> dict \<Rightarrow> (pyobj option outcome \<times> dict) option" where
  "AtomicDict_GetItemOrDefault py tid key default_value tries d =
     (let hash = PyObject_Hash py key in
      if hash = -1 then Some (Inl RaisedByObject, d)
      else
        (case get_or_create_accessor_storage tid d of
           None \<Rightarrow> None
         | Some (None, d) \<Rightarrow> Some (Inl MemoryError, d)
         | Some (Some i, d) \<Rightarrow> get_retry py key hash default_value i tries d))"

definition AtomicDict_GetItem ::
  "pyenv \<Rightarrow> nat \<Rightarrow> pyobj \<Rightarrow> bool list \<Rightarrow> dict \<Rightarrow> (pyobj outcome \<times> dict) option" where
  "AtomicDict_GetItem py tid key tries d =
     (case AtomicDict_GetItemOrDefault py tid key None tries d of
        None \<Rightarrow> None
      | Some (Inl e, d) \<Rightarrow> Some (Inl e, d)
      | Some (Inr None, d) \<Rightarrow> Some (Inl (KeyError key), d)
      | Some (Inr (Some v), d) \<Rightarrow> Some (Inr v, d))"

definition AtomicDict_GetItemOrDefaultVarargs ::
  "pyenv \<Rightarrow> nat \<Rightarrow> pyobj \<Rightarrow> pyobj option \<Rightarrow> bool list \<Rightarrow> dict \<Rightarrow> (pyobj option outcome \<times> dict) option" where
  "AtomicDict_GetItemOrDefaultVarargs py tid key default_value tries d =
     AtomicDict_GetItemOrDefault py tid key
       (Some (case default_value of None \<Rightarrow> Py_None | Some v \<Rightarrow> v)) tries d"

subsection \<open>Compare and set\<close>

definition fill_entry :: "entry_ptr \<Rightarrow> pyobj \<Rightarrow> i64 \<Rightarrow> pyobj \<Rightarrow> dict \<Rightarrow> dict" where
  "fill_entry p key hash desired =
     upd_entry p (\<lambda>e. e\<lparr>e_key := Some key, e_hash := hash, e_value := Some desired\<rparr>)"

definition release_entry :: "entry_ptr \<Rightarrow> dict \<Rightarrow> dict" where
  "release_entry p =
     upd_entry p (\<lambda>e. e\<lparr>e_flags := e_flags e AND ENTRY_FLAGS_RESERVED, e_key := None, e_value := None, e_hash := 0\<rparr>)"

text \<open>
  What happens under the mutex of the accessor, from the attempt on the table to the release of the
  mutex: the result of the attempt, whether the table is full, and whether the number of insertions
  has reached a multiple of \<open>log_size\<close>.
\<close>

definition cas_attempt ::
  "pyenv \<Rightarrow> nat \<Rightarrow> nat \<Rightarrow> pyobj \<Rightarrow> i64 \<Rightarrow> pyobj \<Rightarrow> pyobj \<Rightarrow> entry_loc \<Rightarrow> dict \<Rightarrow>
   (pyobj option \<times> bool \<times> bool \<times> dict) option" where
  "cas_attempt py i mid key hash expected desired loc d =
     (case expected_insert_or_update py key hash expected desired loc False [] (entries d, metas d mid) of
        None \<Rightarrow> None
      | Some r \<Rightarrow>
          (let result = ir_result r;
               d = d\<lparr>entries := fst (ir_world r), metas := (metas d)(mid := snd (ir_world r))\<rparr>;
               d = (if result \<noteq> Some NOT_FOUND \<and> loc_location loc \<noteq> 0
                    then upd_storage i (\<lambda>s. s\<lparr>rb := reservation_buffer_put_back_one (rb s)\<rparr>)
                           (case loc_entry loc of None \<Rightarrow> d | Some p \<Rightarrow> release_entry p d)
                    else d);
               inserted = (result = Some NOT_FOUND \<and> loc_location loc \<noteq> 0);
               d = (if inserted then accessor_inserted_inc i 1 (accessor_len_inc i 1 d) else d);
               significantly =
                 (inserted \<and> local_inserted (accessors d ! i) mod int (log_size (metas d mid)) = 0) in
           Some (result, ir_must_grow r, significantly, unlock_storage i d)))"

partial_function (option) cas_beginning ::
  "pyenv \<Rightarrow> nat \<Rightarrow> nat \<Rightarrow> pyobj \<Rightarrow> i64 \<Rightarrow> pyobj \<Rightarrow> pyobj \<Rightarrow> dict \<Rightarrow> (pyobj outcome \<times> dict) option" where
  "cas_beginning py tid i key hash expected desired d =
     (case get_meta i d of
        None \<Rightarrow> None
      | Some (mid, d) \<Rightarrow>
     (case lock_accessor_storage_or_help_resize py tid i mid d of
        None \<Rightarrow> None
      | Some (resized, d) \<Rightarrow>
     if resized then cas_beginning py tid i key hash expected desired d
     else
     (case if expected = NOT_FOUND \<or> expected = ANY
           then map_option (\<lambda>(r, d, b, loc). (r, upd_storage i (\<lambda>s. s\<lparr>rb := b\<rparr>) d, loc))
                  (get_empty_entry d mid (rb (accessors d ! i)) \<lparr>loc_entry = None, loc_location = 0\<rparr> hash)
           else Some (Reserved, d, \<lparr>loc_entry = None, loc_location = 0\<rparr>) of
        None \<Rightarrow> None
      | Some (got_entry, d, loc) \<Rightarrow>
     if got_entry = NoMemory then Some (Inl MemoryError, unlock_storage i d)
     else if got_entry = MustGrow then
       (case grow py tid (unlock_storage i d) of
          None \<Rightarrow> None
        | Some (resized, d) \<Rightarrow>
            if resized < 0 then Some (Inl GrowFailed, d)
            else cas_beginning py tid i key hash expected desired d)
     else
     (case cas_attempt py i mid key hash expected desired loc
             (case loc_entry loc of None \<Rightarrow> d | Some p \<Rightarrow> fill_entry p key hash desired d) of
        None \<Rightarrow> None
      | Some (result, must_grow, significantly, d) \<Rightarrow>
     if result = None \<and> \<not> must_grow then Some (Inl RaisedByObject, d)
     else if must_grow \<or> (significantly \<and> approx_inserted d \<ge> int (SIZE_OF (metas d mid) * 2 div 3)) then
       (case grow py tid d of
          None \<Rightarrow> None
        | Some (resized, d) \<Rightarrow>
            if resized < 0 then Some (Inl GrowFailed, d)
            else if must_grow then cas_beginning py tid i key hash expected desired d
            else Some (Inr (the result), d))
     else Some (Inr (the result), d)))))"

definition is_sentinel :: "pyobj \<Rightarrow> bool" where
  "is_sentinel x \<longleftrightarrow> x = NOT_FOUND \<or> x = ANY \<or> x = EXPECTATION_FAILED"

definition AtomicDict_CompareAndSet ::
  "pyenv \<Rightarrow> nat \<Rightarrow> pyobj \<Rightarrow> pyobj \<Rightarrow> pyobj \<Rightarrow> dict \<Rightarrow> (pyobj outcome \<times> dict) option" where
  "AtomicDict_CompareAndSet py tid key expected desired d =
     (if is_sentinel key then Some (Inl ValueError, d)
      else if expected = EXPECTATION_FAILED then Some (Inl ValueError, d)
      else if is_sentinel desired then Some (Inl ValueError, d)
      else
        (let hash = PyObject_Hash py key in
         if hash = -1 then Some (Inl RaisedByObject, d)
         else
           (case get_or_create_accessor_storage tid d of
              None \<Rightarrow> None
            | Some (None, d) \<Rightarrow> Some (Inl MemoryError, d)
            | Some (Some i, d) \<Rightarrow> cas_beginning py tid i key hash expected desired d)))"

definition AtomicDict_CompareAndSet_callable ::
  "pyenv \<Rightarrow> nat \<Rightarrow> pyobj \<Rightarrow> pyobj \<Rightarrow> pyobj \<Rightarrow> dict \<Rightarrow> (unit outcome \<times> dict) option" where
  "AtomicDict_CompareAndSet_callable py tid key expected desired d =
     (case AtomicDict_CompareAndSet py tid key expected desired d of
        None \<Rightarrow> None
      | Some (Inl e, d) \<Rightarrow> Some (Inl e, d)
      | Some (Inr r, d) \<Rightarrow>
          if r = EXPECTATION_FAILED then Some (Inl (ExpectationFailed key expected), d)
          else Some (Inr (), d))"

subsection \<open>Deletion and assignment\<close>

partial_function (option) del_beginning ::
  "pyenv \<Rightarrow> nat \<Rightarrow> nat \<Rightarrow> pyobj \<Rightarrow> i64 \<Rightarrow> dict \<Rightarrow> (unit outcome \<times> dict) option" where
  "del_beginning py tid i key hash d =
     (case get_meta i d of
        None \<Rightarrow> None
      | Some (mid, d) \<Rightarrow>
     (case lock_accessor_storage_or_help_resize py tid i mid d of
        None \<Rightarrow> None
      | Some (resized, d) \<Rightarrow>
     if resized then del_beginning py tid i key hash d
     else
     (case delete py key hash no_result [] (entries d, metas d mid) of
        None \<Rightarrow> None
      | Some r \<Rightarrow>
          (let d = d\<lparr>entries := fst (dr_world r), metas := (metas d)(mid := snd (dr_world r))\<rparr> in
           if sr_error (dr_search r) then Some (Inl RaisedByObject, unlock_storage i d)
           else if \<not> sr_found (dr_search r) then Some (Inl (KeyError key), unlock_storage i d)
           else Some (Inr (), unlock_storage i (accessor_tombstones_inc i 1 (accessor_len_inc i (-1) d)))))))"

definition AtomicDict_DelItem ::
  "pyenv \<Rightarrow> nat \<Rightarrow> pyobj \<Rightarrow> dict \<Rightarrow> (unit outcome \<times> dict) option" where
  "AtomicDict_DelItem py tid key d =
     (let hash = PyObject_Hash py key in
      if hash = -1 then Some (Inl RaisedByObject, d)
      else
        (case get_or_create_accessor_storage tid d of
           None \<Rightarrow> None
         | Some (None, d) \<Rightarrow> Some (Inl MemoryError, d)
         | Some (Some i, d) \<Rightarrow> del_beginning py tid i key hash d))"

text \<open>Assignment of \<open>NULL\<close> is deletion (the slot \<open>mp_ass_subscript\<close>).\<close>

definition AtomicDict_SetItem ::
  "pyenv \<Rightarrow> nat \<Rightarrow> pyobj \<Rightarrow> pyobj option \<Rightarrow> dict \<Rightarrow> (unit outcome \<times> dict) option" where
  "AtomicDict_SetItem py tid key value d =
     (case value of
        None \<Rightarrow> AtomicDict_DelItem py tid key d
      | Some v \<Rightarrow>
          if is_sentinel key then Some (Inl ValueError, d)
          else if is_sentinel v then Some (Inl ValueError, d)
          else
            (case AtomicDict_CompareAndSet py tid key ANY v d of
               None \<Rightarrow> None
             | Some (Inl e, d) \<Rightarrow> Some (Inl e, d)
             | Some (Inr _, d) \<Rightarrow> Some (Inr (), d)))"

end
