(* ===== verification/DictInit.thy ===== *)
theory DictInit
  imports DictOps
begin

text \<open>
  Construction of an \<open>AtomicDict\<close> (\<open>AtomicDict_new\<close>, \<open>AtomicDict_init\<close>,
  \<open>unsafe_insert\<close>) and its inspection (\<open>AtomicDict_Debug\<close>), from
  \<^verbatim>\<open>src/src/cereggii/atomic_dict/atomic_dict.c\<close>.

  The items of the initial dictionary are a list, in the order in which \<open>PyDict_Next\<close> gives them.
  An integer argument may be absent.
\<close>

subsection \<open>A new object\<close>

text \<open>The memory that the pointers of the object will point into is whatever it is.\<close>

definition AtomicDict_new :: "(nat \<Rightarrow> meta) \<Rightarrow> heap \<Rightarrow> dict" where
  "AtomicDict_new ms h =
     \<lparr>metadata = MetaNone, metas = ms, next_meta = 0, entries = h, next_page = 0, min_log_size = 0,
      reservation_buffer_size = 0, sync_op = False, len_dirty = False, dict_len = 0, accessors = [],
      accessors_lock = False, thread_storage = (\<lambda>_. None), allocations = []\<rparr>"

subsection \<open>Sizes\<close>

text \<open>\<open>while (n >>= 1) log_size++\<close>, and one more if that is too small.\<close>

fun shift_log :: "nat \<Rightarrow> nat" where
  "shift_log n = (if n div 2 = 0 then 0 else Suc (shift_log (n div 2)))"

declare shift_log.simps [simp del]

definition log_size_for :: "nat \<Rightarrow> nat" where
  "log_size_for n = (if n > 2 ^ shift_log n then shift_log n + 1 else shift_log n)"

definition buffer_sizes :: "int list" where
  "buffer_sizes = [1, 2, 4, 8, 16, 32, 64]"

definition int_argument :: "int \<Rightarrow> py_int option \<Rightarrow> int outcome" where
  "int_argument absent a =
     (case a of None \<Rightarrow> Inr absent | Some n \<Rightarrow> (case PyLong_AsInt64 n of Inl e \<Rightarrow> Inl e | Inr n \<Rightarrow> Inr (sint n)))"

definition init_dict_size_of :: "nat \<Rightarrow> nat" where
  "init_dict_size_of n =
     (let size = n * 2 in if size mod ATOMIC_DICT_ENTRIES_IN_PAGE = 0 then size + 1 else size)"

record sizes =
  sz_min_log_size :: nat
  sz_log_size :: nat
  sz_buffer_size :: u8
  sz_init_dict_size :: nat

definition init_sizes :: "nat \<Rightarrow> py_int option \<Rightarrow> py_int option \<Rightarrow> sizes outcome" where
  "init_sizes n min_size_arg buffer_size_arg =
     (case int_argument 0 min_size_arg of
        Inl e \<Rightarrow> Inl e
      | Inr min_size \<Rightarrow>
          if min_size < 0 \<or> min_size > 2 ^ ATOMIC_DICT_MAX_LOG_SIZE then Inl ValueError
          else
            (case int_argument 16 buffer_size_arg of
               Inl e \<Rightarrow> Inl e
             | Inr buffer_size \<Rightarrow>
                 if buffer_size \<notin> set buffer_sizes then Inl ValueError
                 else
                   (let init_dict_size = init_dict_size_of n;
                        min_size = max (nat min_size) ATOMIC_DICT_ENTRIES_IN_PAGE;
                        min_log_size = log_size_for min_size in
                    if min_log_size > ATOMIC_DICT_MAX_LOG_SIZE then Inl ValueError
                    else Inr \<lparr>sz_min_log_size = min_log_size,
                              sz_log_size = max min_log_size (log_size_for init_dict_size),
                              sz_buffer_size = of_int buffer_size,
                              sz_init_dict_size = init_dict_size\<rparr>)))"

subsection \<open>Pages\<close>

definition add_page :: "nat \<Rightarrow> nat \<Rightarrow> dict \<Rightarrow> bool \<times> dict" where
  "add_page i mid d =
     (case AtomicDictPage_New d of
        (None, d) \<Rightarrow> (False, d)
      | (Some page, d) \<Rightarrow>
          (True, upd_meta mid (\<lambda>m.
             m\<lparr>pages := (if i + 1 < 2 ^ log_size m div 2 ^ ATOMIC_DICT_LOG_ENTRIES_IN_PAGE
                         then (pages m)(i := Page page, i + 1 := Null) else (pages m)(i := Page page)),
               greatest_allocated_page := greatest_allocated_page m + 1\<rparr>) d))"

fun add_pages :: "nat list \<Rightarrow> nat \<Rightarrow> dict \<Rightarrow> bool \<times> dict" where
  "add_pages [] mid d = (True, d)"
| "add_pages (i # is) mid d =
     (case add_page i mid d of
        (False, d) \<Rightarrow> (False, d)
      | (True, d) \<Rightarrow> add_pages is mid d)"

definition init_pages :: "nat \<Rightarrow> nat \<Rightarrow> dict \<Rightarrow> bool \<times> dict" where
  "init_pages init_dict_size mid d =
     (let whole = init_dict_size div ATOMIC_DICT_ENTRIES_IN_PAGE;
          count = (if init_dict_size mod ATOMIC_DICT_ENTRIES_IN_PAGE > 0 then whole + 1 else whole) in
      case add_pages [0..<count] mid d of
        (False, d) \<Rightarrow> (False, d)
      | (True, d) \<Rightarrow>
          if greatest_allocated_page (metas d mid) = -1 then
            (case AtomicDictPage_New d of
               (None, d) \<Rightarrow> (False, d)
             | (Some page, d) \<Rightarrow>
                 (True, upd_meta mid (\<lambda>m. m\<lparr>pages := (pages m)(0 := Page page), greatest_allocated_page := 0\<rparr>) d))
          else (True, d))"

subsection \<open>Items\<close>

function unsafe_insert_from :: "pyenv \<Rightarrow> meta \<Rightarrow> i64 \<Rightarrow> u64 \<Rightarrow> nat \<Rightarrow> meta option" where
  "unsafe_insert_from py m hash pos distance =
     (let d0 = distance0_of py hash m in
      if distance < SIZE_OF m then
        if n_node (read_node_at (d0 + of_nat distance) m) = 0
        then Some (write_node_at ((d0 + of_nat distance) AND size_mask m)
               \<lparr>n_node = 0, n_index = pos, n_tag = REHASH py hash, n_distance = of_nat distance\<rparr> m)
        else unsafe_insert_from py m hash pos (Suc distance)
      else None)"
  by pat_completeness auto
termination
  by (relation "measure (\<lambda>(py, m, hash, pos, distance). SIZE_OF m - distance)") auto

declare unsafe_insert_from.simps [simp del]

definition unsafe_insert :: "pyenv \<Rightarrow> meta \<Rightarrow> i64 \<Rightarrow> u64 \<Rightarrow> meta option" where
  "unsafe_insert py m hash pos = unsafe_insert_from py m hash pos 0"

datatype items_result = ItemsDone dict | ItemsFail dict | ItemsFull dict

fun init_items :: "pyenv \<Rightarrow> nat \<Rightarrow> nat \<Rightarrow> (pyobj \<times> pyobj) list \<Rightarrow> dict \<Rightarrow> items_result option" where
  "init_items py i mid [] d = Some (ItemsDone d)"
| "init_items py i mid ((key, value) # items) d =
     (let hash = PyObject_Hash py key in
      if hash = -1 then Some (ItemsFail d)
      else
        (let d = d\<lparr>dict_len := dict_len d + 1\<rparr>; pos = of_int (dict_len d) in
         case get_entry_at pos (metas d mid) of
           None \<Rightarrow> None
         | Some p \<Rightarrow>
             (let d = upd_entry p (\<lambda>e. \<lparr>e_flags = ENTRY_FLAGS_RESERVED, e_hash = hash, e_key = Some key,
                                        e_value = Some value\<rparr>) d in
              case unsafe_insert py (metas d mid) hash pos of
                None \<Rightarrow> Some (ItemsFull d)
              | Some m \<Rightarrow>
                  init_items py i mid items
                    (upd_storage i (\<lambda>s. s\<lparr>local_inserted := local_inserted s + 1\<rparr>)
                       (upd_meta mid (\<lambda>_. m) d)))))"

subsection \<open>The first reservation buffer\<close>

text \<open>
  The entries after the last item up to the next multiple of the buffer size go to the buffer of the
  initialising thread, as far as their pages are allocated.
\<close>

fun shrink_reservation :: "int \<Rightarrow> meta \<Rightarrow> nat \<Rightarrow> nat" where
  "shrink_reservation len m 0 = 0"
| "shrink_reservation len m (Suc n) =
     (if int (unat (page_of (of_int (len + int (Suc n))))) > greatest_allocated_page m
      then shrink_reservation len m n else Suc n)"

definition init_buffer :: "nat \<Rightarrow> nat \<Rightarrow> dict \<Rightarrow> dict" where
  "init_buffer i mid d =
     (let location = of_int (dict_len d + 1) :: u64; m = metas d mid in
      if int (unat (page_of location)) \<le> greatest_allocated_page m then
        (let bs = unat (reservation_buffer_size d);
             n = shrink_reservation (dict_len d) m (bs - unat location mod bs) in
         if n > 0
         then upd_storage i (\<lambda>s. s\<lparr>rb := reservation_buffer_put (rb s) location (of_nat n)\<rparr>) d
         else d)
      else d)"

definition reserve_entry_0 :: "nat \<Rightarrow> dict \<Rightarrow> dict option" where
  "reserve_entry_0 mid d =
     (case get_entry_at 0 (metas d mid) of
        None \<Rightarrow> None
      | Some p \<Rightarrow> Some (upd_entry p (\<lambda>e. e\<lparr>e_flags := e_flags e OR ENTRY_FLAGS_RESERVED\<rparr>) d))"

subsection \<open>Initialisation\<close>

text \<open>One attempt with a given size; \<open>ItemsFull\<close> makes the code try again with the next size.\<close>

definition init_attempt ::
  "pyenv \<Rightarrow> nat \<Rightarrow> (pyobj \<times> pyobj) list option \<Rightarrow> nat \<Rightarrow> nat \<Rightarrow> dict \<Rightarrow> (items_result \<times> nat) option" where
  "init_attempt py tid initial ls init_dict_size d =
     (case AtomicDictMeta_New ls d of
        None \<Rightarrow> None
      | Some (None, d) \<Rightarrow> Some (ItemsFail d, 0)
      | Some (Some mid, d) \<Rightarrow>
     (case meta_init_pages mid (upd_meta mid meta_clear_index d) of
        (False, d) \<Rightarrow> Some (ItemsFail d, mid)
      | (True, d) \<Rightarrow>
     (case init_pages init_dict_size mid d of
        (False, d) \<Rightarrow> Some (ItemsFail d, mid)
      | (True, d) \<Rightarrow>
     (case get_or_create_accessor_storage tid
             (d\<lparr>sync_op := False, accessors_lock := False, dict_len := 0, len_dirty := False\<rparr>) of
        None \<Rightarrow> None
      | Some (None, d) \<Rightarrow> Some (ItemsFail d, mid)
      | Some (Some i, d) \<Rightarrow>
     (let d = upd_storage i (\<lambda>s. s\<lparr>local_inserted := 0\<rparr>) d in
      case (case initial of None \<Rightarrow> [] | Some items \<Rightarrow> items) of
        [] \<Rightarrow> map_option (\<lambda>d. (ItemsDone (upd_storage i (\<lambda>s. s\<lparr>rb :=
                reservation_buffer_put (rb s) 1 (reservation_buffer_size d - 1)\<rparr>) d), mid))
                (reserve_entry_0 mid d)
      | item # items \<Rightarrow>
          (case reserve_entry_0 mid d of
             None \<Rightarrow> None
           | Some d \<Rightarrow>
               map_option (\<lambda>r. (case r of ItemsDone d \<Rightarrow> ItemsDone (init_buffer i mid d) | r \<Rightarrow> r, mid))
                 (init_items py i mid (item # items) d)))))))"

partial_function (option) init_create ::
  "pyenv \<Rightarrow> nat \<Rightarrow> (pyobj \<times> pyobj) list option \<Rightarrow> nat \<Rightarrow> nat \<Rightarrow> dict \<Rightarrow> (unit outcome \<times> dict) option" where
  "init_create py tid initial ls init_dict_size d =
     (case init_attempt py tid initial ls init_dict_size d of
        None \<Rightarrow> None
      | Some (ItemsFail d, _) \<Rightarrow> Some (Inl RuntimeError, d)
      | Some (ItemsFull d, _) \<Rightarrow> init_create py tid initial (ls + 1) init_dict_size d
      | Some (ItemsDone d, mid) \<Rightarrow>
          (case compare_exchange (metadata d) MetaTrue (MetaAt mid) of
             (ok, v, _) \<Rightarrow> if ok then Some (Inr (), d\<lparr>metadata := v\<rparr>) else Some (Inl RuntimeError, d)))"

text \<open>
  A second initialisation waits until the first has finished; by itself it would wait for ever for one
  that did not.
\<close>

definition AtomicDict_init ::
  "pyenv \<Rightarrow> nat \<Rightarrow> (pyobj \<times> pyobj) list option \<Rightarrow> bool \<Rightarrow> py_int option \<Rightarrow> py_int option \<Rightarrow> dict \<Rightarrow>
   (unit outcome \<times> dict) option" where
  "AtomicDict_init py tid initial is_dict min_size_arg buffer_size_arg d =
     (if metadata d \<noteq> MetaNone then
        (if metadata d = MetaTrue then None else Some (Inl RuntimeError, d))
      else
        (let d = d\<lparr>metadata := MetaTrue\<rparr> in
         if \<not> is_dict then Some (Inl TypeError, d)
         else
           (case init_sizes (case initial of None \<Rightarrow> 0 | Some items \<Rightarrow> length items) min_size_arg buffer_size_arg of
              Inl e \<Rightarrow> Some (Inl e, d)
            | Inr sz \<Rightarrow>
                init_create py tid initial (sz_log_size sz) (sz_init_dict_size sz)
                  (d\<lparr>reservation_buffer_size := sz_buffer_size sz, min_log_size := sz_min_log_size sz\<rparr>))))"

subsection \<open>Clearing and inspection\<close>

text \<open>What the garbage collector is shown: the shared reference and those of the storages.\<close>

definition AtomicDict_traverse :: "dict \<Rightarrow> metadata_ref list" where
  "AtomicDict_traverse d = metadata d # map st_meta (accessors d)"

definition AtomicDict_clear :: "dict \<Rightarrow> dict" where
  "AtomicDict_clear d =
     free_accessor_storage_list (d\<lparr>metadata := MetaNone, thread_storage := (\<lambda>_. None)\<rparr>)"

text \<open>Deallocation clears the object; its memory goes back to the interpreter.\<close>

definition AtomicDict_dealloc :: "dict \<Rightarrow> dict" where
  "AtomicDict_dealloc d = AtomicDict_clear d"

record debug_info =
  dbg_log_size :: nat
  dbg_greatest_allocated_page :: int
  dbg_pages :: "(nat \<times> entry) list list"
  dbg_index :: "u64 list"

text \<open>Every page up to the greatest allocated one is dereferenced.\<close>

definition debug_page :: "heap \<Rightarrow> nat \<Rightarrow> page_slot \<Rightarrow> (nat \<times> entry) list option" where
  "debug_page h i page =
     (case page of
        Page p \<Rightarrow>
          Some (map (\<lambda>j. (i * 2 ^ ATOMIC_DICT_LOG_ENTRIES_IN_PAGE + j, h (p, j)))
            (filter (\<lambda>j. e_value (h (p, j)) \<noteq> None) [0..<ATOMIC_DICT_ENTRIES_IN_PAGE]))
      | _ \<Rightarrow> None)"

definition AtomicDict_Debug :: "dict \<Rightarrow> nat \<Rightarrow> debug_info option" where
  "AtomicDict_Debug d mid =
     (let m = metas d mid in
      case those (map (\<lambda>i. debug_page (entries d) i (pages m i)) (pages_upto m)) of
        None \<Rightarrow> None
      | Some ps \<Rightarrow>
          Some \<lparr>dbg_log_size = log_size m, dbg_greatest_allocated_page = greatest_allocated_page m,
                dbg_pages = ps,
                dbg_index = map (\<lambda>i. n_node (read_node_at (of_nat i) m)) [0..<SIZE_OF m]\<rparr>)"

subsection \<open>Facts\<close>

lemma shift_log_bounds: "0 < n \<Longrightarrow> 2 ^ shift_log n \<le> n \<and> n < 2 ^ Suc (shift_log n)"
proof (induction n rule: shift_log.induct)
  case (1 n)
  show ?case
  proof (cases "n div 2 = 0")
    case True
    with 1(2) show ?thesis by (subst shift_log.simps; subst shift_log.simps) auto
  next
    case False
    with 1(1) have "2 ^ shift_log (n div 2) \<le> n div 2" "n div 2 < 2 ^ Suc (shift_log (n div 2))" by simp_all
    moreover have "shift_log n = Suc (shift_log (n div 2))" using False by (subst shift_log.simps) simp
    moreover define P :: nat where "P = 2 ^ shift_log (n div 2)"
    ultimately have "P \<le> n div 2" "n div 2 < 2 * P" "shift_log n = Suc (shift_log (n div 2))" by simp_all
    then have "2 * P \<le> n \<and> n < 4 * P" "2 ^ shift_log n = 2 * P" by (arith, simp add: P_def)
    then show ?thesis by simp
  qed
qed

text \<open>
  The logarithm of the size that the initialisation computes from the number of items is the
  least one whose power of two is large enough.
\<close>

theorem log_size_for_least:
  assumes "0 < n"
  shows "n \<le> 2 ^ l \<longleftrightarrow> log_size_for n \<le> l"
proof -
  note b = shift_log_bounds [OF assms]
  show ?thesis
  proof
    assume n: "n \<le> 2 ^ l"
    with b have "(2::nat) ^ shift_log n \<le> 2 ^ l" by linarith
    then have le: "shift_log n \<le> l" by simp
    show "log_size_for n \<le> l"
    proof (cases "n > 2 ^ shift_log n")
      case True
      with n have "(2::nat) ^ shift_log n < 2 ^ l" by linarith
      then have "shift_log n < l" by simp
      with True show ?thesis by (simp add: log_size_for_def)
    qed (simp add: log_size_for_def le)
  next
    assume "log_size_for n \<le> l"
    then have "(2::nat) ^ log_size_for n \<le> 2 ^ l" by simp
    moreover have "n \<le> 2 ^ log_size_for n" using b by (auto simp: log_size_for_def)
    ultimately show "n \<le> 2 ^ l" by linarith
  qed
qed

theorem log_size_for_least_witness: "log_size_for 257 = 9 \<and> (257 \<le> (2::nat) ^ 9) \<and> \<not> 257 \<le> (2::nat) ^ 8"
  using log_size_for_least [of 257 9] log_size_for_least [of 257 8] by simp

subsection \<open>The first reservation buffer is handed out twice\<close>

lemma mask128: "127 = (mask 7 :: i64)"
  by (simp add: mask_eq_decr_exp)

lemma chunk_bits:
  assumes "q < 128" and "2 ^ j dvd q"
  shows "(of_nat q :: i64) AND (of_nat ATOMIC_DICT_ENTRIES_IN_PAGE - 1) AND NOT (mask j) = of_nat q"
proof -
  have "q mod 2 ^ 7 = q" using assms(1) by simp
  then have "take_bit 7 q = q" by (simp add: take_bit_eq_mod)
  moreover have "take_bit j q = 0" using assms(2) by (simp add: take_bit_eq_mod)
  then have "\<not> bit q n" if "n < j" for n using that by (metis bit_take_bit_iff bit_0_eq bot_apply bot_bool_def)
  moreover have "n < 7" if "bit q n" for n using that calculation by (metis bit_take_bit_iff)
  ultimately have "bit q n \<Longrightarrow> n < 7 \<and> \<not> n < j" for n by blast
  then show ?thesis
    by (intro bit_word_eqI) (auto simp: bit_simps layout_consts mask128)
qed

lemma unat_location: "int n < 2 ^ 64 \<Longrightarrow> unat (of_int (int n) :: u64) = n"
  by (simp add: unat_of_nat)

lemma shrink_reservation_all:
  assumes "n > 0" and "int (unat (page_of (of_int (len + int n)))) \<le> greatest_allocated_page m"
  shows "shrink_reservation len m n = n"
proof -
  from assms(1) obtain k where "n = Suc k" by (cases n) auto
  moreover have "\<not> int (unat (page_of (of_int (len + int (Suc k))))) > greatest_allocated_page m"
    using assms(2) unfolding calculation not_less .
  ultimately show ?thesis by (simp only: shrink_reservation.simps if_False)
qed

lemma unat_power_u8: "j \<le> 6 \<Longrightarrow> unat (2 ^ j :: u8) = 2 ^ j"
proof -
  assume "j \<le> 6"
  then have "(2::nat) ^ j \<le> 2 ^ 6" by (intro power_increasing) auto
  then show ?thesis using unat_of_nat [of "2 ^ j", where 'a = 8] by simp
qed

text \<open>A chunk that begins right after the last item of the initial dictionary.\<close>

definition unflagged_chunk :: "nat \<Rightarrow> nat \<Rightarrow> nat \<Rightarrow> nat \<Rightarrow> dict \<Rightarrow> bool" where
  "unflagged_chunk n j p mid d \<longleftrightarrow>
     dict_len d = int n \<and> n < 2 ^ 56 \<and> reservation_buffer_size d = 2 ^ j \<and> j \<le> 6 \<and> 2 ^ j dvd n + 1 \<and>
     int ((n + 1) div 128) \<le> greatest_allocated_page (metas d mid) \<and>
     pages (metas d mid) ((n + 1) div 128) = Page p \<and>
     e_flags (entries d (p, (n + 1) mod 128)) = 0"

lemma chunk_same_page:
  assumes "2 ^ j dvd (a::nat)" and "j \<le> 6" and "i < 2 ^ j"
  shows "(a + i) div 128 = a div 128"
proof -
  have "(128::nat) = 2 ^ j * 2 ^ (7 - j)" using assms(2) by (simp flip: power_add)
  moreover from assms(1) obtain c where "a = 2 ^ j * c" by blast
  ultimately show ?thesis using assms(3) by (simp only: div_mult2_eq) simp
qed

lemma location_of_page_and_position:
  "push_bit ATOMIC_DICT_LOG_ENTRIES_IN_PAGE (of_int (int (a div 128))) + of_nat (a mod 128) = (of_nat a :: u64)"
proof -
  have "push_bit ATOMIC_DICT_LOG_ENTRIES_IN_PAGE (of_int (int (a div 128))) + of_nat (a mod 128) =
      (of_nat (a div 128) * 128 + of_nat (a mod 128) :: u64)"
    by (simp add: push_bit_eq_mult layout_consts)
  also have "\<dots> = of_nat (a div 128 * 128 + a mod 128)"
    by (simp only: of_nat_add of_nat_mult of_nat_numeral)
  finally show ?thesis by (simp only: div_mult_mod_eq)
qed

lemma insert_position_of_chunk:
  assumes "2 ^ j dvd (a::nat)" and "j \<le> 6" and "reservation_buffer_size d = 2 ^ j"
  shows "insert_position_of d (of_nat (a mod 128)) = a mod 128"
proof -
  have "2 ^ j dvd a mod 128"
    using assms(1,2) by (intro dvd_mod) (use le_imp_power_dvd [of j 7 "2::nat"] in simp_all)
  from chunk_bits [OF _ this] have "(of_nat (a mod 128) :: i64) AND (of_nat ATOMIC_DICT_ENTRIES_IN_PAGE - 1) AND NOT (mask j)
    = of_nat (a mod 128)" by simp
  moreover have "(ucast (reservation_buffer_size d) - 1 :: i64) = mask j"
  proof -
    have "(ucast (2 ^ j :: u8) :: i64) = of_nat (unat (2 ^ j :: u8))" by simp
    then show ?thesis using assms(3) unat_power_u8 [OF assms(2)] by (simp add: mask_eq_decr_exp)
  qed
  ultimately show ?thesis by (simp add: insert_position_of_def unat_of_nat)
qed

lemma init_buffer_chunk:
  assumes "unflagged_chunk n j p mid d"
  shows "init_buffer i mid d =
    upd_storage i (\<lambda>s. s\<lparr>rb := reservation_buffer_put (rb s) (of_nat (n + 1)) (of_nat (2 ^ j))\<rparr>) d"
proof -
  note a = assms [unfolded unflagged_chunk_def]
  define bs :: nat where "bs = 2 ^ j"
  from a have j: "j \<le> 6" "2 ^ j dvd n + 1" "n < 2 ^ 56" by simp_all
  have bs64: "bs \<le> 2 ^ 6" unfolding bs_def using j(1) by (intro power_increasing) auto
  have ubs: "unat (reservation_buffer_size d) = bs" using a unat_power_u8 [OF j(1)] by (simp add: bs_def)
  define w :: u64 where "w = of_int (dict_len d + 1)"
  have loc: "w = of_nat (n + 1)" using a by (simp add: w_def)
  have L: "unat w = n + 1" using a unat_location [of "n + 1"] by (simp add: w_def add.commute)
  have Lm: "(n + 1) mod bs = 0" using j(2) by (simp add: bs_def dvd_eq_mod_eq_0)
  have pg: "unat (page_of w) = (n + 1) div 128" by (simp only: unat_page_of L)
  have "unat (of_int (dict_len d + int bs) :: u64) = n + bs"
    using a bs64 unat_location [of "n + bs"] by (simp add: add.commute)
  then have "unat (page_of (of_int (dict_len d + int bs))) = (n + 1) div 128"
    using chunk_same_page [OF j(2,1), of "bs - 1"] by (simp add: unat_page_of bs_def)
  then have shrink: "shrink_reservation (dict_len d) (metas d mid) (bs - 0) = bs"
    unfolding diff_zero using a by (intro shrink_reservation_all) (simp_all add: bs_def)
  show ?thesis
    unfolding init_buffer_def w_def [symmetric] Let_def pg L ubs Lm shrink loc [symmetric] bs_def [symmetric]
    using a by (simp add: bs_def)
qed


definition example_loaded :: dict where
  "example_loaded = example_dict
     \<lparr>metas := (\<lambda>_. example_table), entries := (\<lambda>_. zero_entry), dict_len := 15, reservation_buffer_size := 16\<rparr>"

lemma example_unflagged: "unflagged_chunk 15 4 0 0 example_loaded"
  by (simp add: unflagged_chunk_def example_loaded_def example_table_def example_meta_def zero_entry_def)


subsection \<open>A failed initialisation\<close>

text \<open>Only the last step of the initialisation writes the reference to the metadata.\<close>

lemma allocate_metadata: "metadata (snd (allocate d)) = metadata d"
  by (simp add: allocate_def split: list.split)

lemma upd_metadata [simp]:
  "metadata (upd_meta mid f d) = metadata d" "metadata (upd_storage i g d) = metadata d"
  "metadata (upd_entry p k d) = metadata d"
  by (simp_all add: upd_meta_def upd_storage_def upd_entry_def)

lemma New_metadata: "AtomicDictMeta_New ls d = Some (r, d') \<Longrightarrow> metadata d' = metadata d"
  using allocate_metadata
  by (auto simp: AtomicDictMeta_New_def Let_def split: prod.splits bool.splits if_splits) (metis snd_conv)+

lemma page_New_metadata: "AtomicDictPage_New d = (r, d') \<Longrightarrow> metadata d' = metadata d"
  using allocate_metadata [of d]
  by (auto simp: AtomicDictPage_New_def Let_def split: prod.splits bool.splits)

lemma init_pages_metadata: "meta_init_pages mid d = (ok, d') \<Longrightarrow> metadata d' = metadata d"
  using allocate_metadata [of d] by (auto simp: meta_init_pages_def split: prod.splits bool.splits)

lemma add_page_metadata: "add_page i mid d = (ok, d') \<Longrightarrow> metadata d' = metadata d"
  using page_New_metadata by (auto simp: add_page_def split: prod.splits option.splits)

lemma add_pages_metadata: "add_pages is mid d = (ok, d') \<Longrightarrow> metadata d' = metadata d"
  by (induction "is" mid d rule: add_pages.induct)
    (auto split: prod.splits bool.splits dest: add_page_metadata)

lemma pages_metadata: "init_pages n mid d = (ok, d') \<Longrightarrow> metadata d' = metadata d"
  by (auto simp: init_pages_def Let_def split: prod.splits bool.splits if_splits option.splits
      dest!: page_New_metadata add_pages_metadata)

lemma accessor_metadata: "get_or_create_accessor_storage tid d = Some (r, d') \<Longrightarrow> metadata d' = metadata d"
  by (auto simp: get_or_create_accessor_storage_def allocate_def Let_def
      split: option.splits prod.splits bool.splits if_splits list.splits)

fun result_dict :: "items_result \<Rightarrow> dict" where
  "result_dict (ItemsDone d) = d"
| "result_dict (ItemsFail d) = d"
| "result_dict (ItemsFull d) = d"

lemma items_metadata: "init_items py i mid items d = Some r \<Longrightarrow> metadata (result_dict r) = metadata d"
  by (induction items arbitrary: d) (auto simp: Let_def split: if_splits option.splits)

lemma reserve_0_metadata: "reserve_entry_0 mid d = Some d' \<Longrightarrow> metadata d' = metadata d"
  by (auto simp: reserve_entry_0_def split: option.splits)

lemma buffer_metadata [simp]: "metadata (init_buffer i mid d) = metadata d"
  by (simp add: init_buffer_def Let_def)

lemmas init_metadata = New_metadata init_pages_metadata pages_metadata accessor_metadata reserve_0_metadata

lemma attempt_metadata:
  assumes "init_attempt py tid initial ls n d = Some (r, mid)"
  shows "metadata (result_dict r) = metadata d"
proof -
  have items: "metadata (result_dict (case r of ItemsDone d \<Rightarrow> ItemsDone (init_buffer i mid d) | r \<Rightarrow> r)) = metadata d"
    if "init_items py i mid items d = Some r" for items d r i mid
    using items_metadata [OF that] by (cases r) simp_all
  show ?thesis
    using assms unfolding init_attempt_def Let_def
    by (auto split: option.splits prod.splits bool.splits list.splits dest!: init_metadata items)
qed

lemma create_fails_unset:
  "init_create py tid initial ls n d = Some r \<Longrightarrow> metadata d = MetaTrue \<Longrightarrow> fst r = Inl e \<Longrightarrow>
     metadata (snd r) = MetaTrue"
proof (induction rule: init_create.raw_induct [rotated, consumes 1])
  case (1 f py tid initial ls n d r)
  from 1(2) obtain t mid where t: "init_attempt py tid initial ls n d = Some (t, mid)"
    by (auto split: option.splits)
  from attempt_metadata [OF this] have md: "metadata (result_dict t) = metadata d" .
  show ?case
  proof (cases t)
    case (ItemsDone d')
    with 1(2-4) t md show ?thesis by (auto simp: compare_exchange_def)
  next
    case (ItemsFail d')
    with 1(2-4) t md show ?thesis by auto
  next
    case (ItemsFull d')
    with 1(2-4) t md show ?thesis by (intro 1(1) [of py tid initial "ls + 1" n d' r]) simp_all
  qed
qed

text \<open>
  C38: An initialisation that fails leaves the dictionary marked as being initialised, and then any
  later call of \<open>__init__\<close>, which waits for the initialisation to end, does not return.
\<close>

theorem failed_initialisation_blocks_the_next:
  assumes "metadata d = MetaNone"
    and "AtomicDict_init py tid initial is_dict min_size_arg buffer_size_arg d = Some (Inl e, d')"
  shows "AtomicDict_init py tid2 initial2 is_dict2 min_size_arg2 buffer_size_arg2 d' = None"
proof -
  have "metadata d' = MetaTrue"
    using assms create_fails_unset [of py tid initial _ _ _ "(Inl e, d')" e]
    by (auto simp: AtomicDict_init_def Let_def split: if_splits sum.splits)
  then show ?thesis by (simp add: AtomicDict_init_def)
qed

definition example_new :: dict where
  "example_new = AtomicDict_new (\<lambda>_. example_meta 7) (\<lambda>_. zero_entry)"

theorem failed_initialisation_blocks_the_next_witness:
  "(case AtomicDict_init example_env 1 None True (Some (PyInt (- 1))) None example_new of
      Some (Inl e, d') \<Rightarrow> e = ValueError \<and> AtomicDict_init example_env 1 None True None None d' = None
    | _ \<Rightarrow> False)"
proof -
  have new: "metadata example_new = MetaNone" by (simp add: example_new_def AtomicDict_new_def)
  have "AtomicDict_init example_env 1 None True (Some (PyInt (- 1))) None example_new =
      Some (Inl ValueError, example_new\<lparr>metadata := MetaTrue\<rparr>)"
    by (simp add: AtomicDict_init_def new init_sizes_def int_argument_def PyLong_AsInt64_def in_int64_def)
  with failed_initialisation_blocks_the_next [OF new this] show ?thesis by simp
qed

end
