(* ===== verification/Alloc.thy ===== *)
theory Alloc
  imports Accessors Index
begin

text \<open>
  The allocation of entries (\<^verbatim>\<open>src/src/cereggii/atomic_dict/pages.c\<close>): which locations are
  still to be handed out, and that \<open>get_empty_entry\<close> hands out each of them once.

  A location is available when its page is not allocated yet, when the chunk it lies in is not
  reserved, or when it is left in the reservation buffer of an accessor.  The counts say that a table
  always has more empty slots than locations that can still be used.
\<close>

subsection \<open>Available locations\<close>

definition page_limit :: "meta \<Rightarrow> nat" where
  "page_limit m = nat (greatest_allocated_page m + 1)"

definition buffered :: "reservation_buffer \<Rightarrow> nat set" where
  "buffered b = {unat (rb_start b) + unat (rb_used b) ..< unat (rb_start b) + unat (rb_size b)}"

definition chunk_head :: "nat \<Rightarrow> nat \<Rightarrow> nat" where
  "chunk_head bs l = bs * (l div bs)"

definition reserved_at :: "nat \<Rightarrow> heap \<Rightarrow> meta \<Rightarrow> nat \<Rightarrow> bool" where
  "reserved_at bs h m l \<longleftrightarrow> e_flags (entry_at h m (chunk_head bs l)) \<noteq> 0"

definition unreserved :: "nat \<Rightarrow> heap \<Rightarrow> meta \<Rightarrow> nat set" where
  "unreserved bs h m = {l. l < page_limit m * 128 \<and> \<not> reserved_at bs h m l}"

definition beyond :: "meta \<Rightarrow> nat set" where
  "beyond m = {page_limit m * 128 ..< SIZE_OF m}"

definition available :: "nat \<Rightarrow> heap \<Rightarrow> meta \<Rightarrow> reservation_buffer list \<Rightarrow> nat set" where
  "available bs h m bufs = unreserved bs h m \<union> beyond m \<union> (\<Union>b\<in>set bufs. buffered b)"

definition chunk_size :: "nat \<Rightarrow> bool" where
  "chunk_size bs \<longleftrightarrow> (\<exists>j\<le>6. bs = 2 ^ j)"

definition buffers_ok :: "nat \<Rightarrow> heap \<Rightarrow> meta \<Rightarrow> reservation_buffer list \<Rightarrow> bool" where
  "buffers_ok bs h m bufs \<longleftrightarrow>
     (\<forall>b\<in>set bufs. \<forall>l\<in>buffered b. l < page_limit m * 128 \<and> reserved_at bs h m l \<and> l \<noteq> 0) \<and>
     (\<forall>b\<in>set bufs. unat (rb_used b) \<le> unat (rb_size b)) \<and>
     (\<forall>i<length bufs. \<forall>j<length bufs. i \<noteq> j \<longrightarrow> buffered (bufs ! i) \<inter> buffered (bufs ! j) = {})"

text \<open>The only flag that an entry can have.\<close>

definition flags_ok :: "heap \<Rightarrow> meta \<Rightarrow> bool" where
  "flags_ok h m \<longleftrightarrow>
     (\<forall>l < page_limit m * 128. e_flags (entry_at h m l) = 0 \<or> e_flags (entry_at h m l) = ENTRY_FLAGS_RESERVED)"

definition alloc_ok :: "nat \<Rightarrow> heap \<Rightarrow> nat \<Rightarrow> meta \<Rightarrow> reservation_buffer list \<Rightarrow> bool" where
  "alloc_ok bs h pages_end m bufs \<longleftrightarrow>
     chunk_size bs \<and> pages_ok m \<and> log_size m \<le> 30 \<and> buffers_ok bs h m bufs \<and> reserved_at bs h m 0 \<and>
     flags_ok h m \<and>
     (\<forall>p\<in>occupied m. live m p \<longrightarrow> unat (n_index (slot m p)) \<notin> available bs h m bufs) \<and>
     card (occupied m) + card (available bs h m bufs) < SIZE_OF m \<and>
     (page_limit m < page_count m \<longrightarrow> pages m (page_limit m) = Null) \<and>
     (\<forall>i p. pages m i = Page p \<longrightarrow> p < pages_end) \<and>
     (\<forall>l < page_limit m * 128. has_value h m l \<longrightarrow> (\<exists>p<SIZE_OF m. live m p \<and> n_index (slot m p) = of_nat l))"

lemma alloc_okD:
  assumes "alloc_ok bs h pages_end m bufs"
  shows "chunk_size bs" and "pages_ok m" and "log_size m \<le> 30" and "buffers_ok bs h m bufs"
    and "reserved_at bs h m 0"
    and "\<And>p. p < SIZE_OF m \<Longrightarrow> live m p \<Longrightarrow> unat (n_index (slot m p)) \<notin> available bs h m bufs"
    and "card (occupied m) + card (available bs h m bufs) < SIZE_OF m"
    and "page_limit m < page_count m \<Longrightarrow> pages m (page_limit m) = Null"
    and "\<And>i p. pages m i = Page p \<Longrightarrow> p < pages_end"
    and "\<And>l. l < page_limit m * 128 \<Longrightarrow> has_value h m l \<Longrightarrow> \<exists>p<SIZE_OF m. live m p \<and> n_index (slot m p) = of_nat l"
    and "flags_ok h m"
  using assms unfolding alloc_ok_def occupied_def by (auto dest: live_not_empty)

lemma buffers_okD:
  assumes "buffers_ok bs h m bufs"
  shows "\<And>b l. b \<in> set bufs \<Longrightarrow> l \<in> buffered b \<Longrightarrow> l < page_limit m * 128"
    and "\<And>b l. b \<in> set bufs \<Longrightarrow> l \<in> buffered b \<Longrightarrow> reserved_at bs h m l"
    and "\<And>b l. b \<in> set bufs \<Longrightarrow> l \<in> buffered b \<Longrightarrow> l \<noteq> 0"
    and "\<And>b. b \<in> set bufs \<Longrightarrow> unat (rb_used b) \<le> unat (rb_size b)"
    and "\<And>i j. i < length bufs \<Longrightarrow> j < length bufs \<Longrightarrow> i \<noteq> j \<Longrightarrow> buffered (bufs ! i) \<inter> buffered (bufs ! j) = {}"
  using assms unfolding buffers_ok_def by blast+

lemma chunk_size_pos: "chunk_size bs \<Longrightarrow> 0 < bs"
  by (auto simp: chunk_size_def)

lemma chunk_size_dvd: "chunk_size bs \<Longrightarrow> bs dvd 128"
  using le_imp_power_dvd [of _ 7 "2::nat"] by (auto simp: chunk_size_def)

lemma chunk_size_le: "chunk_size bs \<Longrightarrow> bs \<le> 64"
  using power_increasing [of _ 6 "2::nat"] by (auto simp: chunk_size_def)

lemma chunk_head_le: "chunk_head bs l \<le> l"
  by (simp add: chunk_head_def)

lemma chunk_head_same:
  assumes "bs dvd a" and "a \<le> l" and "l < a + bs"
  shows "chunk_head bs l = a"
proof -
  from assms(1) obtain c where c: "a = bs * c" by blast
  with assms(2,3) have "l div bs = c"
    by (metis add.commute div_nat_eqI mult.commute mult_Suc_right)
  with c show ?thesis by (simp add: chunk_head_def)
qed

lemma chunk_head_bounds:
  assumes "0 < bs"
  shows "chunk_head bs l \<le> l" and "l < chunk_head bs l + bs" and "bs dvd chunk_head bs l"
  using dividend_less_times_div [OF assms, of l] by (simp_all add: chunk_head_def add.commute)

lemma available_0: "alloc_ok bs h e m bufs \<Longrightarrow> 0 \<notin> available bs h m bufs"
  using alloc_okD(2,5) [of bs h e m bufs] buffers_okD(3) [OF alloc_okD(4), of bs h e m bufs]
  by (auto simp: available_def unreserved_def beyond_def page_limit_def pages_ok_def)

lemma page_limit_le: "pages_ok m \<Longrightarrow> page_limit m * 128 \<le> SIZE_OF m"
  using div_times_less_eq_dividend [of "SIZE_OF m" 128] mult_le_mono1 [of "page_limit m" "SIZE_OF m div 128" 128]
  by (auto simp: pages_ok_def page_limit_def page_count_def layout_consts intro: le_trans)

lemma available_lt:
  assumes "pages_ok m" and "buffers_ok bs h m bufs"
  shows "available bs h m bufs \<subseteq> {..<SIZE_OF m}"
  using page_limit_le [OF assms(1)] buffers_okD(1) [OF assms(2)]
  by (fastforce simp: available_def unreserved_def beyond_def)

lemma page_limit_small:
  assumes "pages_ok m" and "log_size m \<le> 30"
  shows "page_limit m * 128 \<le> 2 ^ 30" and "page_limit m * 128 \<le> 2 ^ 62"
  using page_limit_le [OF assms(1)] SIZE_small [OF assms(2)] by simp_all

text \<open>An available location has no value.\<close>

lemma available_no_value:
  assumes "alloc_ok bs h e m bufs" and "l \<in> available bs h m bufs" and "l < page_limit m * 128"
  shows "\<not> has_value h m l"
proof
  assume "has_value h m l"
  with alloc_okD(10) [OF assms(1,3)] obtain p where p: "p < SIZE_OF m" "live m p" "n_index (slot m p) = of_nat l"
    by blast
  have "l < 2 ^ 62"
    using assms(3) page_limit_small [OF alloc_okD(2) [OF assms(1)] alloc_okD(3) [OF assms(1)]] by simp
  with alloc_okD(6) [OF assms(1) p(1,2)] p(3) assms(2) show False by (simp add: unat_word_small)
qed

subsection \<open>Changes outside the live entries\<close>

text \<open>
  A table with the same index, whose live nodes see the same entries, is the same table.
\<close>

lemma same_table:
  assumes wf: "wf_index py h m" and eq: "log_size m' = log_size m" "index m' = index m" and ok: "pages_ok m'"
    and ent: "\<And>p. p < SIZE_OF m \<Longrightarrow> live m p \<Longrightarrow> entry_of h' m' p = entry_of h m p"
    and al: "\<And>p. p < SIZE_OF m \<Longrightarrow> live m p \<Longrightarrow> allocated m' (n_index (slot m p))"
  shows "wf_index py h' m'" and "table_map py h' m' = table_map py h m"
proof -
  have f: "SIZE_OF m' = SIZE_OF m" "slot m' = slot m" "live m' = live m" "home py m' = home py m"
    "TAG_MASK m' = TAG_MASK m"
    by (simp_all add: fun_eq_iff SIZE_OF_def slot_def parse_node_from_raw_def live_def home_def distance0_of_def
        TAG_MASK_def eq)
  have holds: "holds py h' m' key p = holds py h m key p" if "p < SIZE_OF m" for key p
    using ent [OF that] by (cases "live m p") (simp_all add: holds_def f)
  have pl: "placed py m' p hash = placed py m p hash" for p hash
    by (simp add: placed_def on_path_def f eq)
  have node: "node_ok py h' m' p" if "p < SIZE_OF m" "live m p" for p
    using wf_node [OF wf that] ent [OF that] al [OF that] by (simp add: node_ok_def f pl)
  show "wf_index py h' m'"
    using wf ok node holds
    unfolding wf_index_def f log_size_ok_def eq by (simp add: f cong: conj_cong)
  show "table_map py h' m' = table_map py h m"
  proof
    fix key
    have eq: "find (holds py h' m' key) [0..<SIZE_OF m] = find (holds py h m key) [0..<SIZE_OF m]"
      using holds by (intro find_cong) auto
    show "table_map py h' m' key = table_map py h m key"
    proof (cases "find (holds py h m key) [0..<SIZE_OF m]")
      case None
      with eq show ?thesis by (simp add: table_map_def f)
    next
      case (Some p)
      then have "p < SIZE_OF m" "live m p" by (auto simp: find_Some_iff elim: holdsD)
      from ent [OF this] Some eq show ?thesis by (simp add: table_map_def f)
    qed
  qed
qed

lemma allocated_location:
  assumes "pages_ok m" and "l < 2 ^ 62"
  shows "allocated m (of_nat l) \<longleftrightarrow> l < page_limit m * 128"
proof -
  have "0 \<le> greatest_allocated_page m" using assms(1) by (simp add: pages_ok_def)
  then have "l div 128 \<le> nat (greatest_allocated_page m) \<longleftrightarrow> l div 128 < page_limit m"
    unfolding page_limit_def by linarith
  then show ?thesis
    by (simp add: allocated_def unat_page_of unat_word_small [OF assms(2)] div_less_iff_less_mult)
qed

lemma entry_at_upd:
  assumes "pages_ok m" and "l < page_limit m * 128" and "k < page_limit m * 128" and "page_limit m * 128 \<le> 2 ^ 62"
    and "get_entry_at (of_nat l) m = Some q"
  shows "entry_at (h(q := e)) m k = (if k = l then e else entry_at h m k)"
proof -
  have kl: "k < 2 ^ 62" "l < 2 ^ 62" using assms(2-4) by simp_all
  obtain q' where q': "get_entry_at (of_nat k) m = Some q'"
    using entry_at_get [OF assms(1) _ kl(1)] assms(3) unfolding page_limit_def by metis
  have al: "allocated m (of_nat k)" "allocated m (of_nat l)"
    using assms(1-3) kl by (simp_all add: allocated_location)
  have "q' \<noteq> q" if "k \<noteq> l"
  proof
    assume "q' = q"
    with q' assms(5) get_entry_at_inj [OF assms(1) al] have "(of_nat k :: u64) = of_nat l" by simp
    with that kl show False by (metis unat_word_small)
  qed
  with q' assms(5) show ?thesis by (auto simp: entry_at_def)
qed

lemma get_entry_at_location:
  assumes "pages_ok m" and "l < page_limit m * 128" and "page_limit m * 128 \<le> 2 ^ 62"
  obtains q where "pages m (l div 128) = Page q" and "get_entry_at (of_nat l) m = Some (q, l mod 128)"
proof -
  have "l < 2 ^ 62" using assms(2,3) by simp
  from entry_at_get [OF assms(1) assms(2) [unfolded page_limit_def] this] show thesis using that by blast
qed

subsection \<open>Handing out a location\<close>

definition handed_out ::
  "nat \<Rightarrow> heap \<Rightarrow> meta \<Rightarrow> reservation_buffer list \<Rightarrow> heap \<Rightarrow> meta \<Rightarrow> reservation_buffer list \<Rightarrow> nat \<Rightarrow> bool" where
  "handed_out bs h m bufs h' m' bufs' l \<longleftrightarrow>
     l \<in> available bs h m bufs \<and> available bs h' m' bufs' = available bs h m bufs - {l}"

text \<open>The invariant with one location in the hands of the caller.\<close>

definition alloc_room :: "nat \<Rightarrow> heap \<Rightarrow> meta \<Rightarrow> reservation_buffer list \<Rightarrow> bool" where
  "alloc_room bs h m bufs \<longleftrightarrow> card (occupied m) + card (available bs h m bufs) + 1 < SIZE_OF m"

lemma finite_available:
  assumes "alloc_ok bs h e m bufs"
  shows "finite (available bs h m bufs)"
  using available_lt [OF alloc_okD(2,4) [OF assms]] by (rule finite_subset) simp

lemma alloc_ok_after:
  assumes ok: "alloc_ok bs h e m bufs" and out: "handed_out bs h m bufs h' m' bufs' l"
    and eq: "log_size m' = log_size m" "index m' = index m" and "pages_ok m'"
    and "buffers_ok bs h' m' bufs'" and "reserved_at bs h' m' 0" and "flags_ok h' m'"
    and "page_limit m' < page_count m' \<Longrightarrow> pages m' (page_limit m') = Null"
    and "\<And>i p. pages m' i = Page p \<Longrightarrow> p < e'"
    and vals: "\<And>k. k < page_limit m' * 128 \<Longrightarrow> has_value h' m' k \<Longrightarrow> k < page_limit m * 128 \<and> has_value h m k"
  shows "alloc_ok bs h' e' m' bufs'" and "alloc_room bs h' m' bufs'"
proof -
  have f: "SIZE_OF m' = SIZE_OF m" "occupied m' = occupied m" "live m' = live m" "slot m' = slot m"
    by (simp_all add: fun_eq_iff SIZE_OF_def occupied_def live_def slot_def parse_node_from_raw_def TAG_MASK_def eq)
  note d = alloc_okD [OF ok]
  have av: "available bs h' m' bufs' = available bs h m bufs - {l}" "l \<in> available bs h m bufs"
    using out by (simp_all add: handed_out_def)
  have "card (available bs h m bufs) = card (available bs h' m' bufs') + 1"
    unfolding av(1) using av(2) finite_available [OF ok] by (metis Suc_eq_plus1 card.remove)
  then show room: "alloc_room bs h' m' bufs'"
    using d(7) by (simp add: alloc_room_def f)
  have live: "unat (n_index (slot m' p)) \<notin> available bs h' m' bufs'" if "p \<in> occupied m'" "live m' p" for p
    using that d(6) [of p] unfolding f av(1) by (auto simp: occupied_def)
  have vals': "\<exists>p<SIZE_OF m'. live m' p \<and> n_index (slot m' p) = of_nat k"
    if "k < page_limit m' * 128" "has_value h' m' k" for k
    using vals [OF that] d(10) unfolding f by blast
  show "alloc_ok bs h' e' m' bufs'"
    unfolding alloc_ok_def
    using assms(5-10) d(1,3) live vals' room eq(1) by (simp add: alloc_room_def)
qed

lemma available_buffers: "available bs h m bufs = unreserved bs h m \<union> beyond m \<union> (\<Union>i<length bufs. buffered (bufs ! i))"
  by (auto simp: available_def set_conv_nth)

lemma buffered_others:
  assumes "i < length bufs"
  shows "(\<Union>j<length bufs. buffered (bufs[i := b] ! j)) =
    buffered b \<union> (\<Union>j\<in>{..<length bufs} - {i}. buffered (bufs ! j))"
  using assms by (auto simp: nth_list_update split: if_splits)

text \<open>From the buffer.\<close>

lemma unat_plus_used:
  assumes "unat s + unat (u :: u8) < 2 ^ 62"
  shows "unat (s + ucast u :: u64) = unat s + unat u"
proof -
  have "s + ucast u = of_nat (unat s + unat u)" by simp
  then show ?thesis using unat_word_small [OF assms] by simp
qed

lemma unat_used_Suc:
  assumes "unat (u :: u8) < unat (n :: u8)"
  shows "unat (u + 1) = unat u + 1"
proof -
  have "unat n < 2 ^ 8" using unsigned_less [of n] by simp
  with assms have "unat u + 1 < 2 ^ 8" by simp
  then show ?thesis by (simp add: unat_word_ariths unat_of_nat)
qed

lemma pop_buffered:
  assumes ok: "pages_ok m" "log_size m \<le> 30" and b: "buffers_ok bs h m bufs" "b \<in> set bufs" and "rb_used b \<noteq> rb_size b"
  shows "\<exists>l q. l \<in> buffered b \<and> l < 2 ^ 62 \<and> get_entry_at (of_nat l) m = Some q \<and>
    reservation_buffer_pop b loc m =
      Some (b\<lparr>rb_used := rb_used b + 1\<rparr>, \<lparr>loc_entry = Some q, loc_location = of_nat l\<rparr>) \<and>
    buffered (b\<lparr>rb_used := rb_used b + 1\<rparr>) = buffered b - {l} \<and>
    unat (rb_used b + 1) \<le> unat (rb_size b)"
proof -
  define l where "l = unat (rb_start b) + unat (rb_used b)"
  have lt: "unat (rb_used b) < unat (rb_size b)"
    using buffers_okD(4) [OF b] assms(5) by (metis le_neq_implies_less unsigned_word_eqI)
  then have l: "l \<in> buffered b" by (simp add: buffered_def l_def)
  with buffers_okD(1) [OF b(1,2)] have inside: "l < page_limit m * 128" by blast
  have lim: "page_limit m * 128 \<le> 2 ^ 62"
    using page_limit_small [OF ok(1) ok(2)] by simp
  with inside have small: "l < 2 ^ 62" by simp
  obtain q where q: "get_entry_at (of_nat l) m = Some q"
    using get_entry_at_location [OF ok(1) inside lim] by blast
  have loc: "rb_start b + ucast (rb_used b) = of_nat l" by (simp add: l_def)
  have suc: "unat (rb_used b + 1) = unat (rb_used b) + 1" by (rule unat_used_Suc [OF lt])
  have "buffered (b\<lparr>rb_used := rb_used b + 1\<rparr>) = buffered b - {l}"
    by (auto simp: buffered_def suc l_def)
  moreover have "reservation_buffer_pop b loc m =
      Some (b\<lparr>rb_used := rb_used b + 1\<rparr>, \<lparr>loc_entry = Some q, loc_location = of_nat l\<rparr>)"
    using assms(5) by (simp add: reservation_buffer_pop_def loc q)
  moreover have "unat (rb_used b + 1) \<le> unat (rb_size b)" using lt suc by simp
  ultimately show ?thesis using l small q by blast
qed

lemma take_from_buffer:
  assumes ok: "alloc_ok bs h e m bufs" and i: "i < length bufs" and l: "l \<in> buffered (bufs ! i)"
    and b': "buffered b' = buffered (bufs ! i) - {l}" "unat (rb_used b') \<le> unat (rb_size b')"
  shows "handed_out bs h m bufs h m (bufs[i := b']) l" and "alloc_ok bs h e m (bufs[i := b'])"
    and "alloc_room bs h m (bufs[i := b'])"
proof -
  note d = alloc_okD [OF ok] and bd = buffers_okD [OF alloc_okD(4) [OF ok]]
  have mem: "bufs ! i \<in> set bufs" using i by simp
  have lu: "l \<notin> unreserved bs h m" "l \<notin> beyond m"
    using bd(1,2) [OF mem l] by (auto simp: unreserved_def beyond_def)
  have lo: "l \<notin> buffered (bufs ! j)" if "j < length bufs" "j \<noteq> i" for j
    using bd(5) [OF that(1) i that(2)] l by blast
  show out: "handed_out bs h m bufs h m (bufs[i := b']) l"
    unfolding handed_out_def available_buffers length_list_update buffered_others [OF i]
    using lu lo l i b'(1) by blast
  have "buffers_ok bs h m (bufs[i := b'])"
    unfolding buffers_ok_def
  proof (intro conjI ballI allI impI)
    fix b k assume b: "b \<in> set (bufs[i := b'])" and k: "k \<in> buffered b"
    then have "\<exists>b0\<in>set bufs. k \<in> buffered b0"
      using b'(1) mem set_update_subset_insert [of bufs i b'] by blast
    then show "k < page_limit m * 128" "reserved_at bs h m k" "k \<noteq> 0" using bd(1-3) by blast+
  next
    fix b assume "b \<in> set (bufs[i := b'])"
    then show "unat (rb_used b) \<le> unat (rb_size b)"
      using b'(2) bd(4) set_update_subset_insert [of bufs i b'] by blast
  next
    fix j k assume jk: "j < length (bufs[i := b'])" "k < length (bufs[i := b'])" "j \<noteq> k"
    then have "buffered (bufs ! j) \<inter> buffered (bufs ! k) = {}" using bd(5) by simp
    then show "buffered (bufs[i := b'] ! j) \<inter> buffered (bufs[i := b'] ! k) = {}"
      using b'(1) jk by (cases "j = i"; cases "k = i") auto
  qed
  then show "alloc_ok bs h e m (bufs[i := b'])" "alloc_room bs h m (bufs[i := b'])"
    using alloc_ok_after [OF ok out refl refl d(2)] d(5,8,9,11) by blast+
qed

text \<open>From an unreserved chunk of a page.\<close>

lemma multiple_gap:
  assumes "(bs::nat) dvd a" and "bs dvd c" and "a < c"
  shows "a + bs \<le> c"
proof -
  from assms(1,2) obtain x y where "a = bs * x" "c = bs * y" by blast
  with assms(3) have "x < y" by (metis mult_le_mono2 not_le)
  then have "bs * Suc x \<le> bs * y" by (intro mult_le_mono2) simp
  with \<open>a = _\<close> \<open>c = _\<close> show ?thesis by simp
qed

lemma buffers_ok_replace:
  assumes ok: "buffers_ok bs h m bufs" and i: "i < length bufs" and lim: "page_limit m \<le> page_limit m'"
    and keep: "\<And>b k. b \<in> set bufs \<Longrightarrow> k \<in> buffered b \<Longrightarrow> reserved_at bs h' m' k"
    and new: "\<And>k. k \<in> buffered b' \<Longrightarrow> k < page_limit m' * 128 \<and> reserved_at bs h' m' k \<and> k \<noteq> 0"
    and apart: "\<And>b. b \<in> set bufs \<Longrightarrow> buffered b \<inter> buffered b' = {}"
    and used: "unat (rb_used b') \<le> unat (rb_size b')"
  shows "buffers_ok bs h' m' (bufs[i := b'])"
  unfolding buffers_ok_def
proof (intro conjI ballI allI impI)
  note d = buffers_okD [OF ok]
  have sub: "set (bufs[i := b']) \<subseteq> insert b' (set bufs)" by (rule set_update_subset_insert)
  {
    fix b k assume b: "b \<in> set (bufs[i := b'])" and k: "k \<in> buffered b"
    have "k < page_limit m' * 128 \<and> reserved_at bs h' m' k \<and> k \<noteq> 0"
    proof (cases "b = b'")
      case True
      with k new show ?thesis by blast
    next
      case False
      with b sub have "b \<in> set bufs" by blast
      with d(1,3) [OF this k] keep [OF this k] lim show ?thesis by (auto intro: less_le_trans)
    qed
    then show "k < page_limit m' * 128" "reserved_at bs h' m' k" "k \<noteq> 0" by blast+
  }
  fix b assume "b \<in> set (bufs[i := b'])"
  with sub used d(4) show "unat (rb_used b) \<le> unat (rb_size b)" by blast
next
  fix j k assume jk: "j < length (bufs[i := b'])" "k < length (bufs[i := b'])" "j \<noteq> k"
  then have "buffered (bufs ! j) \<inter> buffered (bufs ! k) = {}" "buffered (bufs ! j) \<inter> buffered b' = {}"
    "buffered (bufs ! k) \<inter> buffered b' = {}"
    using buffers_okD(5) [OF ok] apart by simp_all
  then show "buffered (bufs[i := b'] ! j) \<inter> buffered (bufs[i := b'] ! k) = {}"
    using jk by (cases "j = i"; cases "k = i") auto
qed

lemma reserve_chunk:
  assumes ok: "alloc_ok bs h e m bufs" and i: "i < length bufs" and empty: "buffered (bufs ! i) = {}"
    and a: "bs dvd a" "a < page_limit m * 128" "e_flags (entry_at h m a) = 0"
    and q: "get_entry_at (of_nat a) m = Some q" and f: "f = ENTRY_FLAGS_RESERVED"
    and b': "buffered b' = {a + 1 ..< a + bs}" "unat (rb_used b') \<le> unat (rb_size b')"
  defines "h' \<equiv> h(q := (h q)\<lparr>e_flags := f\<rparr>)"
  shows "handed_out bs h m bufs h' m (bufs[i := b']) a" and "alloc_ok bs h' e m (bufs[i := b'])"
    and "alloc_room bs h' m (bufs[i := b'])"
proof -
  note d = alloc_okD [OF ok] and bd = buffers_okD [OF alloc_okD(4) [OF ok]]
  note bs = chunk_size_pos [OF d(1)]
  have lim: "page_limit m * 128 \<le> 2 ^ 62" using page_limit_small [OF d(2) d(3)] by simp
  have ent: "entry_at h' m k = (if k = a then (h q)\<lparr>e_flags := f\<rparr> else entry_at h m k)" if "k < page_limit m * 128" for k
    unfolding h'_def by (rule entry_at_upd [OF d(2) a(2) that lim q])
  have hq: "entry_at h m a = h q" by (simp add: entry_at_def q)
  have head: "chunk_head bs k < page_limit m * 128" if "k < page_limit m * 128" for k
    using chunk_head_le [of bs k] that by linarith
  have chunk: "chunk_head bs k = a \<longleftrightarrow> k \<in> {a ..< a + bs}" for k
    using chunk_head_same [OF a(1), of k] chunk_head_bounds [OF bs, of k] by auto
  have res: "reserved_at bs h' m k \<longleftrightarrow> reserved_at bs h m k \<or> k \<in> {a ..< a + bs}" if "k < page_limit m * 128" for k
    using ent [OF head [OF that]] f a(3) unfolding reserved_at_def chunk [symmetric] ENTRY_FLAGS_RESERVED_def by auto
  have gap: "a + bs \<le> page_limit m * 128"
    using multiple_gap [OF a(1) _ a(2)] chunk_size_dvd [OF d(1)] by simp
  have unres: "{a ..< a + bs} \<subseteq> unreserved bs h m"
  proof
    fix k assume "k \<in> {a ..< a + bs}"
    moreover from this have "chunk_head bs k = a" using chunk by blast
    ultimately show "k \<in> unreserved bs h m" using gap a(3) by (simp add: unreserved_def reserved_at_def)
  qed
  have unres': "unreserved bs h' m = unreserved bs h m - {a ..< a + bs}"
    using res unfolding unreserved_def by auto
  have out_buf: "buffered (bufs ! j) \<inter> {a ..< a + bs} = {}" if "j < length bufs" for j
  proof -
    have "bufs ! j \<in> set bufs" using that by simp
    with unres bd(2) show ?thesis by (fastforce simp: unreserved_def)
  qed
  have not_beyond: "{a ..< a + bs} \<inter> beyond m = {}" using gap by (auto simp: beyond_def)
  have mem: "a \<in> {a ..< a + bs}" using bs by simp
  show out: "handed_out bs h m bufs h' m (bufs[i := b']) a"
    unfolding handed_out_def available_buffers length_list_update buffered_others [OF i] unres' b'(1)
  proof
    show "a \<in> unreserved bs h m \<union> beyond m \<union> (\<Union>i<length bufs. buffered (bufs ! i))" using unres mem by blast
    have "(\<Union>j<length bufs. buffered (bufs ! j)) = (\<Union>j\<in>{..<length bufs} - {i}. buffered (bufs ! j))"
      using empty by blast
    moreover have "insert a {a + 1 ..< a + bs} = {a ..< a + bs}" using bs by auto
    moreover have "(\<Union>j\<in>{..<length bufs} - {i}. buffered (bufs ! j)) \<inter> {a ..< a + bs} = {}"
      using out_buf by blast
    ultimately show "unreserved bs h m - {a..<a + bs} \<union> beyond m \<union>
        ({a + 1..<a + bs} \<union> (\<Union>j\<in>{..<length bufs} - {i}. buffered (bufs ! j))) =
      unreserved bs h m \<union> beyond m \<union> (\<Union>j<length bufs. buffered (bufs ! j)) - {a}"
      using unres not_beyond by auto
  qed
  have z: "0 \<notin> {a ..< a + bs}"
  proof
    assume "0 \<in> {a ..< a + bs}"
    with unres have "0 \<in> unreserved bs h m" by blast
    with d(5) show False by (simp add: unreserved_def)
  qed
  have pos: "0 < page_limit m * 128" using a(2) by linarith
  have bufs': "buffers_ok bs h' m (bufs[i := b'])"
  proof (rule buffers_ok_replace [OF d(4) i order.refl _ _ _ b'(2)])
    fix b k assume "b \<in> set bufs" "k \<in> buffered b"
    then show "reserved_at bs h' m k" using bd(1,2) res by blast
  next
    fix k assume "k \<in> buffered b'"
    then have "k \<in> {a ..< a + bs}" unfolding b'(1) by simp
    then show "k < page_limit m * 128 \<and> reserved_at bs h' m k \<and> k \<noteq> 0" using gap res z by fastforce
  next
    fix b assume "b \<in> set bufs"
    with out_buf have "buffered b \<inter> {a ..< a + bs} = {}" by (metis in_set_conv_nth)
    then show "buffered b \<inter> buffered b' = {}" unfolding b'(1) by auto
  qed
  have "flags_ok h' m" using d(11) ent f unfolding flags_ok_def by auto
  moreover have "reserved_at bs h' m 0" using res [OF pos] d(5) by blast
  moreover have "has_value h' m k \<Longrightarrow> has_value h m k" if "k < page_limit m * 128" for k
    using ent [OF that] hq by (auto simp: has_value_def split: if_splits)
  ultimately show "alloc_ok bs h' e m (bufs[i := b'])" "alloc_room bs h' m (bufs[i := b'])"
    using alloc_ok_after [OF ok out refl refl d(2) bufs'] d(8,9) by blast+
qed

text \<open>From a new page.\<close>

definition with_page :: "nat \<Rightarrow> meta \<Rightarrow> meta" where
  "with_page e m =
     m\<lparr>pages := (if page_limit m + 1 < page_count m
                  then (pages m)(page_limit m := Page e, page_limit m + 1 := Null)
                  else (pages m)(page_limit m := Page e)),
       greatest_allocated_page := greatest_allocated_page m + 1\<rparr>"

definition with_entries :: "nat \<Rightarrow> u8 \<Rightarrow> heap \<Rightarrow> heap" where
  "with_entries e f h = (\<lambda>(p, i). if p = e then (if i = 0 then zero_entry\<lparr>e_flags := f\<rparr> else zero_entry) else h (p, i))"

lemma with_page_simps:
  assumes "pages_ok m"
  shows "log_size (with_page e m) = log_size m" "index (with_page e m) = index m"
    "SIZE_OF (with_page e m) = SIZE_OF m" "page_count (with_page e m) = page_count m"
    "page_limit (with_page e m) = page_limit m + 1"
    "i < page_limit m \<Longrightarrow> pages (with_page e m) i = pages m i"
    "pages (with_page e m) (page_limit m) = Page e"
  using assms
  by (auto simp: with_page_def SIZE_OF_def page_count_def page_limit_def pages_ok_def nat_add_distrib)

lemma with_page_ok:
  assumes "pages_ok m" and "page_limit m < page_count m" and "\<And>i p. pages m i = Page p \<Longrightarrow> p < e"
  shows "pages_ok (with_page e m)"
proof -
  have g: "0 \<le> greatest_allocated_page m" "nat (greatest_allocated_page m) + 1 = page_limit m"
    using assms(1) by (auto simp: pages_ok_def page_limit_def nat_add_distrib)
  then have lim: "nat (greatest_allocated_page (with_page e m)) = page_limit m"
    by (simp add: with_page_def nat_add_distrib)
  have le: "i \<le> nat (greatest_allocated_page m) \<longleftrightarrow> i < page_limit m" for i using g(2) by linarith
  note s = with_page_simps [OF assms(1), where e = e]
  have old: "\<exists>p. pages m i = Page p" if "i < page_limit m" for i
    using that assms(1) unfolding pages_ok_def le by blast
  have inj: "i = j" if "i < page_limit m" "j < page_limit m" "pages m i = pages m j" for i j
    using that assms(1) unfolding pages_ok_def le by blast
  show ?thesis
    unfolding pages_ok_def lim s(4)
  proof (intro conjI allI impI)
    show "0 \<le> greatest_allocated_page (with_page e m)" using g(1) by (simp add: with_page_def)
    show "page_limit m < page_count m" by (rule assms(2))
  next
    fix i assume "i \<le> page_limit m"
    then show "\<exists>p. pages (with_page e m) i = Page p"
      using old [of i] s(6) [of i] s(7) by (cases "i = page_limit m") auto
  next
    fix i j assume "i \<le> page_limit m" "j \<le> page_limit m" and eq: "pages (with_page e m) i = pages (with_page e m) j"
    then consider "i < page_limit m" "j < page_limit m" | "i = page_limit m" "j = page_limit m"
      | "i < page_limit m" "j = page_limit m" | "i = page_limit m" "j < page_limit m" by linarith
    then show "i = j"
    proof cases
      case 1
      with eq inj s(6) show ?thesis by simp
    next
      case 3
      with eq old [OF 3(1)] s(6,7) assms(3) show ?thesis by fastforce
    next
      case 4
      with eq old [OF 4(2)] s(6,7) assms(3) show ?thesis by fastforce
    qed simp
  qed
qed

lemma new_page_entries:
  assumes "pages_ok m" and "page_limit m < page_count m" and "\<And>i p. pages m i = Page p \<Longrightarrow> p < e"
    and "log_size m \<le> 30" and "k < (page_limit m + 1) * 128"
  shows "entry_at (with_entries e f h) (with_page e m) k =
    (if k < page_limit m * 128 then entry_at h m k
     else if k = page_limit m * 128 then zero_entry\<lparr>e_flags := f\<rparr> else zero_entry)"
proof -
  let ?m = "with_page e m"
  note s = with_page_simps [OF assms(1), where e = e]
  have ok: "pages_ok ?m" using assms(1-3) by (rule with_page_ok)
  have lim: "page_limit ?m * 128 \<le> 2 ^ 62"
    using page_limit_le [OF ok] SIZE_small [of ?m] assms(4) s(1) by simp
  then have k: "k < 2 ^ 62" using assms(5) s(5) by simp
  show ?thesis
  proof (cases "k < page_limit m * 128")
    case True
    from entry_at_get [OF assms(1) True [unfolded page_limit_def] k] obtain q where
      q: "pages m (k div 128) = Page q" "entry_at h m k = h (q, k mod 128)" by blast
    have "k div 128 < page_limit m" using True by (simp add: div_less_iff_less_mult)
    with q(1) s(6) have "pages ?m (k div 128) = Page q" by simp
    moreover have "k < nat (greatest_allocated_page ?m + 1) * 128"
      using assms(5) s(5) by (simp add: page_limit_def)
    ultimately have "entry_at (with_entries e f h) ?m k = with_entries e f h (q, k mod 128)"
      using entry_at_get [OF ok _ k] by (metis page_slot.inject)
    moreover have "q < e" using assms(3) q(1) by blast
    ultimately show ?thesis using True q(2) by (simp add: with_entries_def)
  next
    case False
    then have d: "k div 128 = page_limit m" using assms(5)
      by (metis Suc_eq_plus1 div_less_iff_less_mult le_antisym less_Suc_eq_le not_less zero_less_numeral)
    have "k < nat (greatest_allocated_page ?m + 1) * 128"
      using assms(5) s(5) by (simp add: page_limit_def)
    then have "entry_at (with_entries e f h) ?m k = with_entries e f h (e, k mod 128)"
      using entry_at_get [OF ok _ k] d s(7) by (metis page_slot.inject)
    moreover have "k mod 128 = 0 \<longleftrightarrow> k = page_limit m * 128"
      using d by (metis add.right_neutral div_mult_mod_eq mod_mult_self2_is_0)
    ultimately show ?thesis using False by (simp add: with_entries_def)
  qed
qed

lemma reserve_page:
  assumes ok: "alloc_ok bs h e m bufs" and i: "i < length bufs" and empty: "buffered (bufs ! i) = {}"
    and room: "page_limit m < page_count m" and f: "f = ENTRY_FLAGS_RESERVED"
    and b': "buffered b' = {page_limit m * 128 + 1 ..< page_limit m * 128 + bs}"
      "unat (rb_used b') \<le> unat (rb_size b')"
  defines "h' \<equiv> with_entries e f h" and "m' \<equiv> with_page e m"
  shows "handed_out bs h m bufs h' m' (bufs[i := b']) (page_limit m * 128)"
    and "alloc_ok bs h' (Suc e) m' (bufs[i := b'])" and "alloc_room bs h' m' (bufs[i := b'])"
proof -
  define a where "a = page_limit m * 128"
  note d = alloc_okD [OF ok] and bd = buffers_okD [OF alloc_okD(4) [OF ok]]
  note bs = chunk_size_pos [OF d(1)] chunk_size_le [OF d(1)]
  note s = with_page_simps [OF d(2), where e = e, folded m'_def]
  have lim': "page_limit m' * 128 = a + 128" by (simp add: s(5) a_def)
  have dvd: "bs dvd a" using chunk_size_dvd [OF d(1)] unfolding a_def by (rule dvd_mult)
  have ent: "entry_at h' m' k = (if k < a then entry_at h m k
     else if k = a then zero_entry\<lparr>e_flags := f\<rparr> else zero_entry)" if "k < a + 128" for k
    unfolding h'_def m'_def a_def using that d(9) a_def by (intro new_page_entries d(2,3) room) auto
  have head: "chunk_head bs k < a \<longleftrightarrow> k < a" for k
    using chunk_head_bounds [OF bs(1), of k] multiple_gap [OF _ dvd, of "chunk_head bs k"] by linarith
  have head_le: "chunk_head bs k \<le> k" for k by (rule chunk_head_le)
  have chunk: "chunk_head bs k = a \<longleftrightarrow> k \<in> {a ..< a + bs}" for k
    using chunk_head_same [OF dvd, of k] chunk_head_bounds [OF bs(1), of k] by auto
  have res: "reserved_at bs h' m' k \<longleftrightarrow> (if k < a then reserved_at bs h m k else k \<in> {a ..< a + bs})"
    if "k < a + 128" for k
  proof -
    have "chunk_head bs k < a + 128" using head_le [of k] that by linarith
    from ent [OF this] show ?thesis
      using f chunk [of k] head [of k] by (simp add: reserved_at_def zero_entry_def ENTRY_FLAGS_RESERVED_def)
  qed
  have unres: "unreserved bs h' m' = unreserved bs h m \<union> {a + bs ..< a + 128}"
    unfolding unreserved_def lim' a_def [symmetric] using res bs by (auto split: if_splits)
  have full: "a + 128 \<le> SIZE_OF m"
  proof -
    have "(page_limit m + 1) * 128 \<le> page_count m * 128" using room by (intro mult_le_mono1) simp
    also have "\<dots> \<le> SIZE_OF m" using div_times_less_eq_dividend [of "SIZE_OF m" 128]
      by (simp add: page_count_def layout_consts)
    finally show ?thesis by (simp add: a_def)
  qed
  have bey: "beyond m = {a ..< SIZE_OF m}" "beyond m' = {a + 128 ..< SIZE_OF m}"
    unfolding beyond_def lim' s(3) by (simp_all add: a_def)
  have low: "buffered (bufs ! j) \<subseteq> {..<a}" if "j < length bufs" for j
    using bd(1) [of "bufs ! j"] that by (auto simp: a_def)
  have low': "unreserved bs h m \<subseteq> {..<a}" by (auto simp: unreserved_def a_def)
  show out: "handed_out bs h m bufs h' m' (bufs[i := b']) (page_limit m * 128)"
    unfolding handed_out_def available_buffers length_list_update buffered_others [OF i] unres b'(1) a_def [symmetric] bey
  proof
    show "a \<in> unreserved bs h m \<union> {a..<SIZE_OF m} \<union> (\<Union>i<length bufs. buffered (bufs ! i))"
      using full by simp
    have 1: "(\<Union>j<length bufs. buffered (bufs ! j)) = (\<Union>j\<in>{..<length bufs} - {i}. buffered (bufs ! j))"
      using empty by blast
    have 2: "{a..<SIZE_OF m} - {a} = {a + bs ..< a + 128} \<union> {a + 128..<SIZE_OF m} \<union> {a + 1..<a + bs}"
      using full bs by auto
    have 3: "a \<notin> unreserved bs h m" "a \<notin> (\<Union>j\<in>{..<length bufs} - {i}. buffered (bufs ! j))"
      using low low' by force+
    show "unreserved bs h m \<union> {a + bs..<a + 128} \<union> {a + 128..<SIZE_OF m} \<union>
        ({a + 1..<a + bs} \<union> (\<Union>j\<in>{..<length bufs} - {i}. buffered (bufs ! j))) =
      unreserved bs h m \<union> {a..<SIZE_OF m} \<union> (\<Union>j<length bufs. buffered (bufs ! j)) - {a}"
      unfolding 1 using 2 3 by blast
  qed
  have pos: "0 < a" using d(2) unfolding a_def by (auto simp: pages_ok_def page_limit_def)
  have bufs': "buffers_ok bs h' m' (bufs[i := b'])"
  proof (rule buffers_ok_replace [OF d(4) i _ _ _ _ b'(2)])
    show "page_limit m \<le> page_limit m'" by (simp add: s(5))
  next
    fix b k assume bk: "b \<in> set bufs" "k \<in> buffered b"
    then have "k < a" using bd(1) a_def by blast
    with bk bd(2) res show "reserved_at bs h' m' k" by simp
  next
    fix k assume "k \<in> buffered b'"
    then have "k \<in> {a ..< a + bs}" unfolding b'(1) a_def by simp
    then show "k < page_limit m' * 128 \<and> reserved_at bs h' m' k \<and> k \<noteq> 0"
      unfolding lim' using bs pos res [of k] by auto
  next
    fix b assume "b \<in> set bufs"
    with bd(1) show "buffered b \<inter> buffered b' = {}" unfolding b'(1) by fastforce
  qed
  have ok': "pages_ok m'" unfolding m'_def using d(2) room d(9) by (rule with_page_ok)
  have null: "pages m' (page_limit m') = Null" if "page_limit m' < page_count m'"
    using that unfolding s(4,5) by (simp add: m'_def with_page_def)
  have below: "p < Suc e" if "pages m' j = Page p" for j p
    using that d(9) [of j p] by (auto simp: m'_def with_page_def split: if_splits)
  have vals: "k < page_limit m * 128 \<and> has_value h m k" if "k < page_limit m' * 128" "has_value h' m' k" for k
    using that ent [of k] unfolding lim' a_def [symmetric] by (auto simp: has_value_def zero_entry_def split: if_splits)
  have z: "reserved_at bs h' m' 0" using res [of 0] d(5) pos by simp
  have fl: "flags_ok h' m'"
    using d(11) ent f unfolding flags_ok_def lim' a_def [symmetric] by (auto simp: zero_entry_def split: if_splits)
  note after = alloc_ok_after [OF ok out s(1,2) ok' bufs' z fl, where e' = "Suc e"]
  show "alloc_ok bs h' (Suc e) m' (bufs[i := b'])" by (rule after(1)) (use null below vals in blast)+
  show "alloc_room bs h' m' (bufs[i := b'])" by (rule after(2)) (use null below vals in blast)+
qed

subsection \<open>The code hands out available locations\<close>

abbreviation buffers :: "dict \<Rightarrow> reservation_buffer list" where
  "buffers d \<equiv> map rb (accessors d)"

abbreviation rbs :: "dict \<Rightarrow> nat" where
  "rbs d \<equiv> unat (reservation_buffer_size d)"

lemma dvd_insert_position:
  assumes "chunk_size (rbs d)"
  shows "rbs d dvd insert_position_of d hash" and "insert_position_of d hash < 128"
proof -
  obtain k where k: "k \<le> 6" "rbs d = 2 ^ k" using assms by (auto simp: chunk_size_def)
  have "(ucast (reservation_buffer_size d) :: u64) = of_nat (rbs d)" by simp
  then have c: "(ucast (reservation_buffer_size d) :: u64) - 1 = mask k"
    by (simp add: k(2) mask_eq_decr_exp)
  define x where "x = hash AND mask 7"
  have p: "insert_position_of d hash = unat (x AND NOT (mask k))"
    by (simp add: insert_position_of_def position_mask c x_def and.assoc)
  have "take_bit k (x AND NOT (mask k)) = 0"
    by (simp add: take_bit_eq_mask bit_eq_iff bit_simps)
  then have "take_bit k (unat (x AND NOT (mask k))) = 0"
    by (metis unsigned_0 unsigned_take_bit_eq)
  then show "rbs d dvd insert_position_of d hash" by (simp add: p k(2) take_bit_eq_mod mod_eq_0_iff_dvd)
  have "x AND NOT (mask k) = (hash AND NOT (mask k)) AND mask 7"
    by (simp add: x_def ac_simps)
  then show "insert_position_of d hash < 128" unfolding p by (simp add: unat_and_mask)
qed

lemma put_then_pop:
  assumes "chunk_size (unat n)" and "get_entry_at (of_nat a) m = Some q"
  shows "reservation_buffer_pop (reservation_buffer_put b (of_nat a) n) loc m =
    Some (\<lparr>rb_start = of_nat a, rb_size = n, rb_used = 1\<rparr>, \<lparr>loc_entry = Some q, loc_location = of_nat a\<rparr>)"
proof -
  have "n \<noteq> 0" using chunk_size_pos [OF assms(1)] by auto
  with assms(2) show ?thesis
    by (cases b) (simp add: reservation_buffer_pop_def reservation_buffer_put_def Let_def)
qed

lemma buffered_first:
  assumes "a < 2 ^ 62" and "chunk_size (unat n)"
  shows "buffered \<lparr>rb_start = of_nat a, rb_size = n, rb_used = 1\<rparr> = {a + 1 ..< a + unat n}"
    and "unat (rb_used \<lparr>rb_start = of_nat a, rb_size = n, rb_used = 1\<rparr>) \<le> unat (rb_size \<lparr>rb_start = of_nat a, rb_size = n, rb_used = 1\<rparr>)"
  using assms(1) chunk_size_pos [OF assms(2)] by (simp_all add: buffered_def unat_word_small)

lemma scan_page:
  assumes m: "m = metas d mid" "pages_ok m" "log_size m \<le> 30" and bs: "chunk_size (rbs d)"
    and ip: "rbs d dvd ip" and j: "j < page_limit m" and "rbs d dvd offset"
  shows "(\<exists>loc'. reserve_entry_from d mid b loc ip (int j) offset = Some (False, d, b, loc')) \<or>
    (\<exists>a q. rbs d dvd a \<and> a < page_limit m * 128 \<and> e_flags (entry_at (entries d) m a) = 0 \<and>
       get_entry_at (of_nat a) m = Some q \<and>
       reserve_entry_from d mid b loc ip (int j) offset =
         Some (True, upd_entry q (\<lambda>e. e\<lparr>e_flags := ENTRY_FLAGS_RESERVED\<rparr>) d,
           \<lparr>rb_start = of_nat a, rb_size = reservation_buffer_size d, rb_used = 1\<rparr>,
           \<lparr>loc_entry = Some q, loc_location = of_nat a\<rparr>))"
  using assms(7)
proof (induction "128 - offset" arbitrary: offset loc rule: less_induct)
  case less
  note pos = chunk_size_pos [OF bs]
  have lim: "page_limit m * 128 \<le> 2 ^ 62" using page_limit_small [OF m(2) m(3)] by simp
  show ?case
  proof (cases "offset < 128")
    case False
    then show ?thesis by (subst reserve_entry_from.simps) (simp add: layout_consts)
  next
    case True
    define p where "p = (ip + offset) mod 128"
    define a where "a = j * 128 + p"
    have p: "p < 128" by (simp add: p_def)
    have a: "a div 128 = j" "a mod 128 = p" using p by (simp_all add: a_def)
    have "j * 128 + 128 \<le> page_limit m * 128" using j mult_le_mono1 [of "j + 1" "page_limit m" 128] by simp
    then have alim: "a < page_limit m * 128" using p by (simp add: a_def)
    from get_entry_at_location [OF m(2) alim lim] obtain q where
      q: "pages m j = Page q" "get_entry_at (of_nat a) m = Some (q, p)" unfolding a by blast
    have loc: "push_bit 7 (of_int (int j)) + of_nat p = (of_nat a :: u64)"
      by (simp add: a_def push_bit_eq_mult)
    have dvd: "rbs d dvd a"
      using ip less.prems chunk_size_dvd [OF bs] unfolding a_def p_def by (metis dvd_add dvd_mod dvd_mult)
    have ent: "entry_at (entries d) m a = entries d (q, p)" by (simp add: entry_at_def q(2))
    show ?thesis
    proof (cases "e_flags (entries d (q, p)) = 0")
      case True
      then show ?thesis
        using \<open>offset < 128\<close> q pos dvd alim ent put_then_pop [OF bs q(2)] loc
        by (intro disjI2 exI [of _ a] exI [of _ "(q, p)"], subst reserve_entry_from.simps)
          (simp add: layout_consts Let_def p_def [symmetric] m(1) [symmetric])
    next
      case False
      have "128 - (offset + rbs d) < 128 - offset" "rbs d dvd offset + rbs d"
        using True pos less.prems by simp_all
      from less.hyps [OF this, of "loc\<lparr>loc_entry := Some (q, p)\<rparr>"] show ?thesis
        using True False q pos
        by (subst reserve_entry_from.simps, subst (2) reserve_entry_from.simps)
          (simp add: layout_consts Let_def p_def [symmetric] m(1) [symmetric])
    qed
  qed
qed

text \<open>
  What the caller gets: an available location without a value, which is not available any more; the
  invariant, with room for one more node; and nothing else has changed that a node can point at.
\<close>

definition same_but_pages :: "meta \<Rightarrow> meta \<Rightarrow> bool" where
  "same_but_pages m m' \<longleftrightarrow> m' = m\<lparr>pages := pages m', greatest_allocated_page := greatest_allocated_page m'\<rparr>"

definition untouched :: "nat set \<Rightarrow> heap \<Rightarrow> meta \<Rightarrow> heap \<Rightarrow> meta \<Rightarrow> bool" where
  "untouched A h m h' m' \<longleftrightarrow>
     (\<forall>k < page_limit m * 128. k \<notin> A \<longrightarrow>
        get_entry_at (of_nat k) m' = get_entry_at (of_nat k) m \<and> entry_at h' m' k = entry_at h m k)"

definition gives_back :: "reservation_buffer \<Rightarrow> nat \<Rightarrow> bool" where
  "gives_back b l \<longleftrightarrow>
     buffered (reservation_buffer_put_back_one b) = insert l (buffered b) \<and>
     unat (rb_used (reservation_buffer_put_back_one b)) \<le> unat (rb_size (reservation_buffer_put_back_one b))"

lemma gives_back_used:
  assumes "l \<in> buffered b" and "buffered (b\<lparr>rb_used := rb_used b + 1\<rparr>) = buffered b - {l}"
    and "unat (rb_used b) \<le> unat (rb_size b)"
  shows "gives_back (b\<lparr>rb_used := rb_used b + 1\<rparr>) l"
  using assms by (cases b) (auto simp: gives_back_def reservation_buffer_put_back_one_def)

lemma gives_back_first:
  assumes "a < 2 ^ 62" and "chunk_size (unat n)"
  shows "gives_back \<lparr>rb_start = of_nat a, rb_size = n, rb_used = 1\<rparr> a"
  using assms(1) chunk_size_pos [OF assms(2)]
  by (auto simp: gives_back_def reservation_buffer_put_back_one_def buffered_def unat_word_small)

definition hands_out :: "dict \<Rightarrow> nat \<Rightarrow> nat \<Rightarrow> dict \<Rightarrow> reservation_buffer \<Rightarrow> entry_loc \<Rightarrow> bool" where
  "hands_out d mid i d' b' loc \<longleftrightarrow>
     (\<exists>l q h' m' e'.
        d' = d\<lparr>entries := h', metas := (metas d)(mid := m'), next_page := e'\<rparr> \<and>
        loc = \<lparr>loc_entry = Some q, loc_location = of_nat l\<rparr> \<and> get_entry_at (of_nat l) m' = Some q \<and>
        l < page_limit m' * 128 \<and> page_limit (metas d mid) \<le> page_limit m' \<and>
        same_but_pages (metas d mid) m' \<and>
        handed_out (rbs d) (entries d) (metas d mid) (buffers d) h' m' ((buffers d)[i := b']) l \<and>
        alloc_ok (rbs d) h' e' m' ((buffers d)[i := b']) \<and> alloc_room (rbs d) h' m' ((buffers d)[i := b']) \<and>
        gives_back b' l \<and>
        untouched (available (rbs d) (entries d) (metas d mid) (buffers d)) (entries d) (metas d mid) h' m')"

lemma same_but_pages_refl [simp]: "same_but_pages m m"
  by (simp add: same_but_pages_def)

lemma same_but_pagesD:
  assumes "same_but_pages m m'"
  shows "log_size m' = log_size m" and "index m' = index m" and "resize_leader m' = resize_leader m"
    and "SIZE_OF m' = SIZE_OF m" and "live m' = live m" and "slot m' = slot m"
proof -
  from assms show eq: "log_size m' = log_size m" "index m' = index m" "resize_leader m' = resize_leader m"
    unfolding same_but_pages_def by (cases m; cases m'; simp)+
  then show "SIZE_OF m' = SIZE_OF m" "live m' = live m" "slot m' = slot m"
    by (simp_all add: fun_eq_iff SIZE_OF_def live_def slot_def parse_node_from_raw_def TAG_MASK_def)
qed

lemma untouched_refl [simp]: "untouched A h m h m"
  by (simp add: untouched_def)

lemma hands_out_buffer:
  assumes ok: "alloc_ok (rbs d) (entries d) (next_page d) (metas d mid) (buffers d)"
    and i: "i < length (accessors d)" and ne: "rb_used (rb (accessors d ! i)) \<noteq> rb_size (rb (accessors d ! i))"
  shows "\<exists>b' loc'. reservation_buffer_pop (rb (accessors d ! i)) loc (metas d mid) = Some (b', loc') \<and>
    loc_entry loc' \<noteq> None \<and> hands_out d mid i d b' loc'"
proof -
  let ?b = "rb (accessors d ! i)" and ?m = "metas d mid"
  note k = alloc_okD [OF ok]
  have i': "i < length (buffers d)" "buffers d ! i = ?b" "?b \<in> set (buffers d)" using i by auto
  from pop_buffered [OF k(2,3) k(4) i'(3) ne, of loc] obtain l q where
    l: "l \<in> buffered ?b" "get_entry_at (of_nat l) ?m = Some q"
    "reservation_buffer_pop ?b loc ?m = Some (?b\<lparr>rb_used := rb_used ?b + 1\<rparr>, \<lparr>loc_entry = Some q, loc_location = of_nat l\<rparr>)"
    "buffered (?b\<lparr>rb_used := rb_used ?b + 1\<rparr>) = buffered ?b - {l}"
    "unat (rb_used (?b\<lparr>rb_used := rb_used ?b + 1\<rparr>)) \<le> unat (rb_size (?b\<lparr>rb_used := rb_used ?b + 1\<rparr>))" by auto
  note t = take_from_buffer [OF ok i'(1), unfolded i'(2), OF l(1,4,5)]
  have lim: "l < page_limit ?m * 128" using buffers_okD(1) [OF k(4) i'(3) l(1)] .
  have gb: "gives_back (?b\<lparr>rb_used := rb_used ?b + 1\<rparr>) l"
    by (rule gives_back_used [OF l(1,4) buffers_okD(4) [OF k(4) i'(3)]])
  have "hands_out d mid i d (?b\<lparr>rb_used := rb_used ?b + 1\<rparr>) \<lparr>loc_entry = Some q, loc_location = of_nat l\<rparr>"
    unfolding hands_out_def
    by (rule exI [of _ l], rule exI [of _ q], rule exI [of _ "entries d"], rule exI [of _ ?m],
        rule exI [of _ "next_page d"]) (use l(2) lim t gb in simp)
  with l(3) show ?thesis by auto
qed

lemma hands_out_chunk:
  assumes ok: "alloc_ok (rbs d) (entries d) (next_page d) (metas d mid) (buffers d)"
    and i: "i < length (accessors d)" and empty: "buffered (rb (accessors d ! i)) = {}"
    and a: "rbs d dvd a" "a < page_limit (metas d mid) * 128" "e_flags (entry_at (entries d) (metas d mid) a) = 0"
    and q: "get_entry_at (of_nat a) (metas d mid) = Some q"
  shows "hands_out d mid i (upd_entry q (\<lambda>e. e\<lparr>e_flags := ENTRY_FLAGS_RESERVED\<rparr>) d)
    \<lparr>rb_start = of_nat a, rb_size = reservation_buffer_size d, rb_used = 1\<rparr> \<lparr>loc_entry = Some q, loc_location = of_nat a\<rparr>"
proof -
  let ?m = "metas d mid" and ?b = "\<lparr>rb_start = of_nat a, rb_size = reservation_buffer_size d, rb_used = 1\<rparr>"
  let ?h = "(entries d)(q := (entries d q)\<lparr>e_flags := ENTRY_FLAGS_RESERVED\<rparr>)"
  note k = alloc_okD [OF ok]
  have lim: "page_limit ?m * 128 \<le> 2 ^ 62" using page_limit_small [OF k(2) k(3)] by simp
  then have small: "a < 2 ^ 62" using a(2) by simp
  have i': "i < length (buffers d)" "buffered (buffers d ! i) = {}" using i empty by auto
  note r = reserve_chunk [OF ok i' a q _ buffered_first [OF small k(1)], of ENTRY_FLAGS_RESERVED]
  have u: "untouched (available (rbs d) (entries d) ?m (buffers d)) (entries d) ?m ?h ?m"
    unfolding untouched_def
  proof (intro allI impI conjI refl)
    fix x assume x: "x < page_limit ?m * 128" "x \<notin> available (rbs d) (entries d) ?m (buffers d)"
    have "a \<in> available (rbs d) (entries d) ?m (buffers d)"
      using r(1) by (simp add: handed_out_def ENTRY_FLAGS_RESERVED_def)
    with x(2) have "x \<noteq> a" by blast
    then show "entry_at ?h ?m x = entry_at (entries d) ?m x"
      using entry_at_upd [OF k(2) a(2) x(1) lim q] by simp
  qed
  show ?thesis
    unfolding hands_out_def
    by (rule exI [of _ a], rule exI [of _ q], rule exI [of _ ?h], rule exI [of _ ?m],
        rule exI [of _ "next_page d"])
      (use r u q a(2) gives_back_first [OF small k(1)] in \<open>simp add: upd_entry_def ENTRY_FLAGS_RESERVED_def\<close>)
qed

lemma get_first_of_page:
  assumes "pages m n = Page e" and "n * 128 < 2 ^ 62"
  shows "get_entry_at (of_nat (n * 128)) m = Some (e, 0)"
proof -
  obtain a where a: "n * 128 = a" by blast
  then have "unat (page_of (of_nat a)) = n" "unat (position_in_page_of (of_nat a)) = 0"
    using unat_word_small [OF assms(2)] by (auto simp: unat_page_of unat_position_in_page_of)
  with assms(1) show ?thesis unfolding a by (simp add: get_entry_at_def)
qed

lemma same_but_pages_with_page: "same_but_pages m (with_page e m)"
  by (simp add: same_but_pages_def with_page_def)

lemma hands_out_page:
  assumes ok: "alloc_ok (rbs d) (entries d) (next_page d) (metas d mid) (buffers d)"
    and i: "i < length (accessors d)" and empty: "buffered (rb (accessors d ! i)) = {}"
    and room: "page_limit (metas d mid) < page_count (metas d mid)"
  shows "hands_out d mid i
    (d\<lparr>entries := with_entries (next_page d) ENTRY_FLAGS_RESERVED (entries d),
       metas := (metas d)(mid := with_page (next_page d) (metas d mid)), next_page := Suc (next_page d)\<rparr>)
    \<lparr>rb_start = of_nat (page_limit (metas d mid) * 128), rb_size = reservation_buffer_size d, rb_used = 1\<rparr>
    \<lparr>loc_entry = Some (next_page d, 0), loc_location = of_nat (page_limit (metas d mid) * 128)\<rparr>"
proof -
  let ?m = "metas d mid" and ?e = "next_page d" and ?a = "page_limit (metas d mid) * 128"
  let ?b = "\<lparr>rb_start = of_nat ?a, rb_size = reservation_buffer_size d, rb_used = 1\<rparr>"
  let ?h = "with_entries ?e ENTRY_FLAGS_RESERVED (entries d)" and ?m' = "with_page ?e ?m"
  note k = alloc_okD [OF ok] and s = with_page_simps [OF alloc_okD(2) [OF ok], where e = ?e]
  have i': "i < length (buffers d)" "buffered (buffers d ! i) = {}" using i empty by auto
  have lim: "page_limit ?m * 128 \<le> 2 ^ 30"
    using page_limit_small [OF k(2) k(3)] by simp
  then have small: "?a < 2 ^ 62" by simp
  note bf = buffered_first [OF small k(1)]
  note r = reserve_page [OF ok i' room _ bf, of ENTRY_FLAGS_RESERVED]
  have new: "get_entry_at (of_nat ?a) ?m' = Some (?e, 0)"
    by (rule get_first_of_page [OF s(7) small])
  have u: "untouched (available (rbs d) (entries d) ?m (buffers d)) (entries d) ?m ?h ?m'"
    unfolding untouched_def
  proof (intro allI impI conjI)
    fix x assume x: "x < page_limit ?m * 128"
    then have d: "x div 128 < page_limit ?m" "x < 2 ^ 62" using lim by (simp_all add: div_less_iff_less_mult)
    then show "get_entry_at (of_nat x) ?m' = get_entry_at (of_nat x) ?m"
      by (simp add: get_entry_at_def unat_page_of unat_word_small s(6))
    show "entry_at ?h ?m' x = entry_at (entries d) ?m x"
      using new_page_entries [OF k(2) room k(9) k(3)] x by simp
  qed
  show ?thesis
    unfolding hands_out_def
    by (rule exI [of _ ?a], rule exI [of _ "(?e, 0)"], rule exI [of _ ?h], rule exI [of _ ?m'],
        rule exI [of _ "Suc ?e"])
      (use r u new gives_back_first [OF small k(1)] in \<open>simp add: ENTRY_FLAGS_RESERVED_def s(5) same_but_pages_with_page\<close>)
qed

lemma allocate_page:
  assumes "allocations d = []"
  shows "AtomicDictPage_New d = (Some (next_page d),
    d\<lparr>next_page := Suc (next_page d),
      entries := (\<lambda>(p, i). if p = next_page d then zero_entry else entries d (p, i))\<rparr>)"
  using assms by (simp add: AtomicDictPage_New_def allocate_def Let_def)

lemma with_entries_eq:
  "(\<lambda>(p, i). if p = e then zero_entry else h (p, i))((e, 0) := zero_entry\<lparr>e_flags := f\<rparr>) = with_entries e f h"
  by (auto simp: with_entries_def fun_eq_iff)

lemma new_page_run:
  assumes ok: "alloc_ok (rbs d) (entries d) (next_page d) (metas d mid) (buffers d)"
    and mem: "allocations d = []" and room: "page_limit (metas d mid) < page_count (metas d mid)"
    and full: "reserve_entry_in_inserting_page d mid b loc hash (greatest_allocated_page (metas d mid)) =
      Some (False, d, b, loc')"
  shows "reserve_entry d mid b loc hash = Some (Reserved,
    d\<lparr>entries := with_entries (next_page d) ENTRY_FLAGS_RESERVED (entries d),
      metas := (metas d)(mid := with_page (next_page d) (metas d mid)), next_page := Suc (next_page d)\<rparr>,
    \<lparr>rb_start = of_nat (page_limit (metas d mid) * 128), rb_size = reservation_buffer_size d, rb_used = 1\<rparr>,
    \<lparr>loc_entry = Some (next_page d, 0), loc_location = of_nat (page_limit (metas d mid) * 128)\<rparr>)"
proof -
  let ?m = "metas d mid" and ?e = "next_page d"
  define g where "g = greatest_allocated_page ?m"
  define n where "n = page_limit ?m"
  note k = alloc_okD [OF ok]
  have g: "0 \<le> g" "g + 1 = int n" "nat (g + 1) = n" "nat (g + 2) = n + 1"
    using k(2) by (auto simp: g_def n_def page_limit_def pages_ok_def)
  have cnt: "SIZE_OF ?m div 2 ^ 7 = page_count ?m" by (simp add: page_count_def layout_consts)
  have null: "pages ?m n = Null" using k(8) room by (simp add: n_def)
  have lim: "page_limit ?m * 128 \<le> 2 ^ 30" using page_limit_small [OF k(2) k(3)] by simp
  have small: "n * 128 < 2 ^ 62" using lim by (simp add: n_def)
  have loc: "push_bit 7 (of_int (g + 1)) = (of_nat (n * 128) :: u64)"
    unfolding g(2) by (simp add: push_bit_eq_mult)
  define d1 where "d1 = d\<lparr>entries := with_entries ?e ENTRY_FLAGS_RESERVED (entries d), next_page := Suc ?e\<rparr>"
  have d1: "upd_entry (?e, 0) (\<lambda>e. e\<lparr>e_flags := ENTRY_FLAGS_RESERVED\<rparr>)
      (d\<lparr>next_page := Suc ?e, entries := (\<lambda>(p, i). if p = ?e then zero_entry else entries d (p, i))\<rparr>) = d1"
    by (cases d) (simp add: upd_entry_def d1_def with_entries_eq)
  define m' where "m' = with_page ?e ?m"
  have get: "get_entry_at (of_nat (n * 128)) m' = Some (?e, 0)"
    unfolding m'_def n_def
    by (rule get_first_of_page [OF with_page_simps(7) [OF k(2)] small [unfolded n_def]])
  have lt: "g + 2 < int (page_count ?m) \<longleftrightarrow> n + 1 < page_count ?m" using g(2) by linarith
  have "handle_page_allocated (upd_meta mid (\<lambda>m. m\<lparr>pages := (pages m)(n := Page ?e)\<rparr>) d1) mid b loc' g ?e (g + 1) =
      Some (d1\<lparr>metas := (metas d)(mid := m')\<rparr>,
        \<lparr>rb_start = of_nat (n * 128), rb_size = reservation_buffer_size d, rb_used = 1\<rparr>,
        \<lparr>loc_entry = Some (?e, 0), loc_location = of_nat (n * 128)\<rparr>)"
  proof (cases "n + 1 < page_count ?m")
    case True
    then have "m' = ?m\<lparr>pages := (pages ?m)(n := Page ?e, n + 1 := Null), greatest_allocated_page := g + 1\<rparr>"
      by (simp add: m'_def with_page_def n_def g_def)
    with True put_then_pop [OF k(1) get] lt loc g(3,4) cnt show ?thesis
      by (simp add: handle_page_allocated_def upd_meta_def d1_def layout_consts SIZE_OF_def g_def [symmetric]
          compare_exchange_def Let_def add.commute)
  next
    case False
    then have "m' = ?m\<lparr>pages := (pages ?m)(n := Page ?e), greatest_allocated_page := g + 1\<rparr>"
      by (simp add: m'_def with_page_def n_def g_def)
    with False put_then_pop [OF k(1) get] lt loc g(3,4) cnt show ?thesis
      by (simp add: handle_page_allocated_def upd_meta_def d1_def layout_consts SIZE_OF_def g_def [symmetric]
          compare_exchange_def Let_def add.commute)
  qed
  moreover have "metas d1 = metas d" "n < page_count ?m" using room by (simp_all add: d1_def n_def)
  moreover have "d1\<lparr>metas := (metas d)(mid := m')\<rparr> =
      d\<lparr>entries := with_entries ?e ENTRY_FLAGS_RESERVED (entries d), metas := (metas d)(mid := with_page ?e ?m), next_page := Suc ?e\<rparr>"
    by (simp add: d1_def m'_def)
  ultimately show ?thesis
    unfolding reserve_entry_def n_def [symmetric] using full null allocate_page [OF mem] cnt g
    by (subst reserve_entry_loop.simps) (simp add: Let_def g_def [symmetric] layout_consts d1)
qed

lemma reserve_entry_correct:
  assumes ok: "alloc_ok (rbs d) (entries d) (next_page d) (metas d mid) (buffers d)"
    and i: "i < length (accessors d)" and empty: "buffered (rb (accessors d ! i)) = {}" and mem: "allocations d = []"
  shows "(\<exists>d' b' loc'. reserve_entry d mid b loc hash = Some (Reserved, d', b', loc') \<and> hands_out d mid i d' b' loc') \<or>
    (\<exists>loc'. reserve_entry d mid b loc hash = Some (MustGrow, d, b, loc') \<and> page_limit (metas d mid) = page_count (metas d mid))"
proof -
  let ?m = "metas d mid"
  note k = alloc_okD [OF ok]
  have g: "0 \<le> greatest_allocated_page ?m" "nat (greatest_allocated_page ?m) < page_count ?m"
    using k(2) by (simp_all add: pages_ok_def)
  define j where "j = nat (greatest_allocated_page ?m)"
  have j: "greatest_allocated_page ?m = int j" "page_limit ?m = j + 1" "j < page_count ?m"
    using g by (simp_all add: j_def page_limit_def nat_add_distrib)
  have scan: "reserve_entry_in_inserting_page d mid b loc hash (int j) =
      reserve_entry_from d mid b loc (insert_position_of d hash) (int j) 0"
    by (simp add: reserve_entry_in_inserting_page_def)
  have "j < page_limit ?m" by (simp add: j(2))
  note cases = scan_page [OF refl k(2,3,1) dvd_insert_position(1) [OF k(1)] this dvd_0_right, of b loc hash, folded scan]
  from cases show ?thesis
  proof (elim disjE exE conjE)
    fix loc' assume full: "reserve_entry_in_inserting_page d mid b loc hash (int j) = Some (False, d, b, loc')"
    show ?thesis
    proof (cases "page_limit ?m < page_count ?m")
      case True
      from new_page_run [OF ok mem True full [folded j(1)]] hands_out_page [OF ok i empty True]
      show ?thesis by blast
    next
      case False
      then have "page_limit ?m = page_count ?m" using j(2,3) by simp
      moreover have "int (SIZE_OF ?m div 2 ^ 7) \<le> int j + 1"
        using False j(2) by (simp add: page_count_def layout_consts)
      then have "reserve_entry d mid b loc hash = Some (MustGrow, d, b, loc')"
        using full unfolding reserve_entry_def
        by (subst reserve_entry_loop.simps) (simp add: j(1) layout_consts Let_def)
      ultimately show ?thesis by blast
    qed
  next
    fix a q assume a: "rbs d dvd a" "a < page_limit ?m * 128" "e_flags (entry_at (entries d) ?m a) = 0"
      "get_entry_at (of_nat a) ?m = Some q"
      and run: "reserve_entry_in_inserting_page d mid b loc hash (int j) =
         Some (True, upd_entry q (\<lambda>e. e\<lparr>e_flags := ENTRY_FLAGS_RESERVED\<rparr>) d,
           \<lparr>rb_start = of_nat a, rb_size = reservation_buffer_size d, rb_used = 1\<rparr>,
           \<lparr>loc_entry = Some q, loc_location = of_nat a\<rparr>)"
    have "reserve_entry d mid b loc hash = Some (Reserved, upd_entry q (\<lambda>e. e\<lparr>e_flags := ENTRY_FLAGS_RESERVED\<rparr>) d,
           \<lparr>rb_start = of_nat a, rb_size = reservation_buffer_size d, rb_used = 1\<rparr>,
           \<lparr>loc_entry = Some q, loc_location = of_nat a\<rparr>)"
      using run unfolding reserve_entry_def by (subst reserve_entry_loop.simps) (simp add: j(1))
    with hands_out_chunk [OF ok i empty a] show ?thesis by blast
  qed
qed

lemma get_empty_entry_correct:
  assumes ok: "alloc_ok (rbs d) (entries d) (next_page d) (metas d mid) (buffers d)"
    and i: "i < length (accessors d)" and mem: "allocations d = []"
  obtains (reserved) d' b' loc' where "get_empty_entry d mid (rb (accessors d ! i)) loc hash = Some (Reserved, d', b', loc')"
      and "hands_out d mid i d' b' loc'"
    | (full) loc' where "get_empty_entry d mid (rb (accessors d ! i)) loc hash = Some (MustGrow, d, rb (accessors d ! i), loc')"
      and "page_limit (metas d mid) = page_count (metas d mid)" and "buffered (rb (accessors d ! i)) = {}"
proof (cases "rb_used (rb (accessors d ! i)) = rb_size (rb (accessors d ! i))")
  case False
  from hands_out_buffer [OF ok i False, of loc] obtain b' loc' where
    "reservation_buffer_pop (rb (accessors d ! i)) loc (metas d mid) = Some (b', loc')"
    "loc_entry loc' \<noteq> None" "hands_out d mid i d b' loc'" by blast
  then show thesis by (intro reserved) (auto simp: get_empty_entry_def)
next
  case True
  then have empty: "buffered (rb (accessors d ! i)) = {}" by (simp add: buffered_def)
  from reserve_entry_correct [OF ok i this mem, of "rb (accessors d ! i)" "loc\<lparr>loc_entry := None\<rparr>" hash]
  show thesis
  proof (elim disjE exE conjE)
    fix d' b' loc' assume "reserve_entry d mid (rb (accessors d ! i)) (loc\<lparr>loc_entry := None\<rparr>) hash = Some (Reserved, d', b', loc')"
      and "hands_out d mid i d' b' loc'"
    with True show thesis by (intro reserved) (auto simp: get_empty_entry_def reservation_buffer_pop_def)
  next
    fix loc' assume "reserve_entry d mid (rb (accessors d ! i)) (loc\<lparr>loc_entry := None\<rparr>) hash =
        Some (MustGrow, d, rb (accessors d ! i), loc')"
      and "page_limit (metas d mid) = page_count (metas d mid)"
    with True empty show thesis by (intro full) (auto simp: get_empty_entry_def reservation_buffer_pop_def)
  qed
qed

text \<open>A new thread gets a storage with an empty reservation buffer.\<close>

lemma alloc_ok_new_buffer:
  assumes "alloc_ok bs h e m bufs" and "buffered b = {}" and "unat (rb_used b) \<le> unat (rb_size b)"
  shows "alloc_ok bs h e m (bufs @ [b])"
proof -
  note d = alloc_okD [OF assms(1)]
  have "available bs h m (bufs @ [b]) = available bs h m bufs" using assms(2) by (simp add: available_def)
  moreover have "buffers_ok bs h m (bufs @ [b])"
    unfolding buffers_ok_def
  proof (intro conjI ballI allI impI)
    fix c l assume "c \<in> set (bufs @ [b])" "l \<in> buffered c"
    with assms(2) buffers_okD [OF d(4)] show "l < page_limit m * 128" "reserved_at bs h m l" "l \<noteq> 0" by auto
  next
    fix c assume "c \<in> set (bufs @ [b])"
    with assms(3) buffers_okD(4) [OF d(4)] show "unat (rb_used c) \<le> unat (rb_size c)" by auto
  next
    fix i j assume "i < length (bufs @ [b])" "j < length (bufs @ [b])" "i \<noteq> j"
    with assms(2) buffers_okD(5) [OF d(4)] show "buffered ((bufs @ [b]) ! i) \<inter> buffered ((bufs @ [b]) ! j) = {}"
      by (auto simp: nth_append less_Suc_eq)
  qed
  ultimately show ?thesis using assms(1) by (simp add: alloc_ok_def)
qed

subsection \<open>A fresh dictionary\<close>

definition fresh_dict :: dict where
  "fresh_dict = example_dict\<lparr>dict_len := 0, accessors := []\<rparr>"

lemma fresh_dict_simps:
  "metas fresh_dict mid = example_table" "entries fresh_dict = (\<lambda>_. zero_entry)((0, 0) := zero_entry\<lparr>e_flags := 128\<rparr>)"
  "rbs fresh_dict = 16" "accessors fresh_dict = []" "next_page fresh_dict = 1"
  by (simp_all add: fresh_dict_def example_dict_def example_table_def)

lemma example_table_sizes:
  "SIZE_OF example_table = 128" "page_limit example_table = 1" "page_count example_table = 1" "index example_table p = 0"
  "pages example_table i = Page 0" "log_size example_table = 7"
  by (simp_all add: SIZE_OF_def page_limit_def page_count_def layout_consts example_table_def example_meta_def)

lemma fresh_entry_at:
  assumes "k < 128"
  shows "entry_at (entries fresh_dict) example_table k = (if k = 0 then zero_entry\<lparr>e_flags := 128\<rparr> else zero_entry)"
proof -
  have "unat (of_nat k :: u64) = k" using assms by (intro unat_word_small) simp
  with assms show ?thesis
    by (simp add: entry_at_def get_entry_at_def unat_page_of unat_position_in_page_of example_table_sizes fresh_dict_simps)
qed

lemma fresh_reserved:
  assumes "k < 128"
  shows "reserved_at 16 (entries fresh_dict) example_table k \<longleftrightarrow> k < 16"
proof -
  have "chunk_head 16 k < 128" using chunk_head_le [of 16 k] assms by linarith
  moreover have "chunk_head 16 k = 0 \<longleftrightarrow> k < 16" by (auto simp: chunk_head_def div_eq_0_iff)
  ultimately show ?thesis using fresh_entry_at by (simp add: reserved_at_def zero_entry_def)
qed

lemma fresh_available: "available 16 (entries fresh_dict) example_table [] = {16 ..< 128}"
proof -
  have "unreserved 16 (entries fresh_dict) example_table = {16 ..< 128}"
    using fresh_reserved by (auto simp: unreserved_def example_table_sizes)
  then show ?thesis by (simp add: available_def beyond_def example_table_sizes)
qed

lemma fresh_alloc_ok: "alloc_ok 16 (entries fresh_dict) 1 example_table []"
proof -
  let ?h = "entries fresh_dict" and ?m = example_table
  have occ: "occupied ?m = {}" by (simp add: occupied_def example_table_sizes)
  have "chunk_size 16" unfolding chunk_size_def by (intro exI [of _ 4]) simp
  moreover have "pages_ok ?m" using wf_pages [OF example_table_wf] .
  moreover have "flags_ok ?h ?m"
    using fresh_entry_at by (simp add: flags_ok_def example_table_sizes zero_entry_def ENTRY_FLAGS_RESERVED_def)
  moreover have "\<not> has_value ?h ?m l" if "l < page_limit ?m * 128" for l
    using fresh_entry_at [of l] that by (simp add: has_value_def example_table_sizes zero_entry_def)
  ultimately show ?thesis
    unfolding alloc_ok_def fresh_available occ using fresh_reserved [of 0] by (simp add: example_table_sizes buffers_ok_def)
qed

subsection \<open>Properties\<close>

text \<open>
  C4: A thread that asks for an empty entry gets one, unless its buffer is empty and all pages that the
  table can have are allocated: a location that was available and now is not, so no other thread will get it, and it has
  an entry.  The invariant of the allocation is kept, and there is room for a node for the entry.
\<close>

theorem entries_are_handed_out_once:
  assumes "alloc_ok (rbs d) (entries d) (next_page d) (metas d mid) (buffers d)"
    and "i < length (accessors d)" and "allocations d = []"
  shows "(case get_empty_entry d mid (rb (accessors d ! i)) loc hash of
      None \<Rightarrow> False
    | Some (r, d', b', loc') \<Rightarrow>
        r = MustGrow \<and> d' = d \<and> b' = rb (accessors d ! i) \<and> buffered b' = {} \<and>
        page_limit (metas d mid) = page_count (metas d mid) \<or>
        r = Reserved \<and>
        (\<exists>l. loc_location loc' = of_nat l \<and> get_entry_at (of_nat l) (metas d' mid) = loc_entry loc' \<and>
           l \<in> available (rbs d) (entries d) (metas d mid) (buffers d) \<and>
           available (rbs d) (entries d') (metas d' mid) ((buffers d)[i := b']) =
             available (rbs d) (entries d) (metas d mid) (buffers d) - {l}) \<and>
        alloc_ok (rbs d) (entries d') (next_page d') (metas d' mid) ((buffers d)[i := b']) \<and>
        alloc_room (rbs d) (entries d') (metas d' mid) ((buffers d)[i := b']))"
proof (rule get_empty_entry_correct [OF assms, of loc hash])
  fix d' b' loc'
  assume run: "get_empty_entry d mid (rb (accessors d ! i)) loc hash = Some (Reserved, d', b', loc')"
    and "hands_out d mid i d' b' loc'"
  then obtain l q h' m' e' where h: "d' = d\<lparr>entries := h', metas := (metas d)(mid := m'), next_page := e'\<rparr>"
    "loc' = \<lparr>loc_entry = Some q, loc_location = of_nat l\<rparr>" "get_entry_at (of_nat l) m' = Some q"
    "handed_out (rbs d) (entries d) (metas d mid) (buffers d) h' m' ((buffers d)[i := b']) l"
    "alloc_ok (rbs d) h' e' m' ((buffers d)[i := b'])" "alloc_room (rbs d) h' m' ((buffers d)[i := b'])"
    unfolding hands_out_def by blast
  then show ?thesis using run by (auto simp: handed_out_def)
next
  fix loc'
  assume "get_empty_entry d mid (rb (accessors d ! i)) loc hash = Some (MustGrow, d, rb (accessors d ! i), loc')"
    and "page_limit (metas d mid) = page_count (metas d mid)" and "buffered (rb (accessors d ! i)) = {}"
  then show ?thesis by simp
qed

definition first_buffer :: reservation_buffer where
  "first_buffer = \<lparr>rb_start = 1, rb_size = 15, rb_used = 0\<rparr>"

lemma first_buffered: "buffered first_buffer = {1 ..< 16}"
  by (simp add: first_buffer_def buffered_def)

lemma first_alloc_ok:
  "alloc_ok 16 (entries fresh_dict) 1 example_table [first_buffer]"
  "available 16 (entries fresh_dict) example_table [first_buffer] = {1 ..< 128}"
proof -
  note d = alloc_okD [OF fresh_alloc_ok]
  have av: "available 16 (entries fresh_dict) example_table [first_buffer] = {1 ..< 128}"
  proof -
    have "available 16 (entries fresh_dict) example_table [first_buffer] =
        available 16 (entries fresh_dict) example_table [] \<union> buffered first_buffer" by (simp add: available_def)
    also have "\<dots> = {1 ..< 128}" unfolding fresh_available first_buffered by (intro equalityI subsetI) (simp_all, linarith+)
    finally show ?thesis .
  qed
  have "buffers_ok 16 (entries fresh_dict) example_table [first_buffer]"
  proof -
    have "unat (rb_used first_buffer) \<le> unat (rb_size first_buffer)" by (simp add: first_buffer_def)
    then show ?thesis using fresh_reserved by (auto simp: buffers_ok_def first_buffered example_table_sizes)
  qed
  moreover have "occupied example_table = {}" by (simp add: occupied_def example_table_sizes)
  ultimately show "alloc_ok 16 (entries fresh_dict) 1 example_table [first_buffer]"
    using fresh_alloc_ok unfolding alloc_ok_def av by (simp add: example_table_sizes)
  show "available 16 (entries fresh_dict) example_table [first_buffer] = {1 ..< 128}" by (rule av)
qed

theorem entries_are_handed_out_once_witness:
  "(case get_empty_entry (fresh_dict\<lparr>accessors := [zero_storage\<lparr>rb := first_buffer\<rparr>]\<rparr>) 0 first_buffer
           \<lparr>loc_entry = None, loc_location = 0\<rparr> 5 of
      None \<Rightarrow> False
    | Some (r, d', b', loc') \<Rightarrow> r = Reserved \<and> 1 \<le> unat (loc_location loc') \<and> unat (loc_location loc') < 128)"
proof -
  let ?d = "fresh_dict\<lparr>accessors := [zero_storage\<lparr>rb := first_buffer\<rparr>]\<rparr>"
  have f: "rbs ?d = 16" "entries ?d = entries fresh_dict" "metas ?d 0 = example_table" "next_page ?d = 1"
    "buffers ?d = [first_buffer]" "allocations ?d = []"
    using fresh_dict_simps by (simp_all add: fresh_dict_def [unfolded example_dict_def])
  have "unat (of_nat l :: u64) = l" if "l < 128" for l using that by (intro unat_word_small) simp
  moreover have ok: "alloc_ok (rbs ?d) (entries ?d) (next_page ?d) (metas ?d 0) (buffers ?d)" "0 < length (accessors ?d)"
    using first_alloc_ok(1) by (simp_all only: f) simp
  note t = entries_are_handed_out_once [OF ok f(6), of "\<lparr>loc_entry = None, loc_location = 0\<rparr>" 5]
  ultimately show ?thesis
    using t by (auto simp only: f first_alloc_ok(2) split: option.splits prod.splits)
      (auto simp: first_buffered)
qed

end
