(* ===== verification/AllocOps.thy ===== *)
theory AllocOps
  imports Alloc Resize
begin

text \<open>
  What the operations on a table do to the allocation of entries: writing a value, a new node or a
  tombstone, giving a location back to the buffer it came from, and moving to a larger table.
\<close>

subsection \<open>Changes that hand out nothing\<close>

lemma alloc_ok_update:
  assumes ok: "alloc_ok bs h e m bufs"
    and pg: "pages m' = pages m" "greatest_allocated_page m' = greatest_allocated_page m" "log_size m' = log_size m"
    and flags: "\<And>k. k < page_limit m * 128 \<Longrightarrow> e_flags (entry_at h' m' k) = e_flags (entry_at h m k)"
    and occ: "card (occupied m') + card (available bs h m bufs) < SIZE_OF m"
    and live: "\<And>p. p < SIZE_OF m \<Longrightarrow> live m' p \<Longrightarrow> unat (n_index (slot m' p)) \<notin> available bs h m bufs"
    and vals: "\<And>k. k < page_limit m * 128 \<Longrightarrow> has_value h' m' k \<Longrightarrow> \<exists>p<SIZE_OF m. live m' p \<and> n_index (slot m' p) = of_nat k"
  shows "alloc_ok bs h' e m' bufs" and "available bs h' m' bufs = available bs h m bufs"
proof -
  note d = alloc_okD [OF ok]
  have f: "SIZE_OF m' = SIZE_OF m" "page_limit m' = page_limit m" "page_count m' = page_count m"
    by (simp_all add: SIZE_OF_def page_limit_def page_count_def pg)
  have res: "reserved_at bs h' m' k = reserved_at bs h m k" if "k < page_limit m * 128" for k
  proof -
    have "chunk_head bs k < page_limit m * 128" using chunk_head_le [of bs k] that by linarith
    from flags [OF this] show ?thesis by (simp add: reserved_at_def)
  qed
  then have "unreserved bs h' m' = unreserved bs h m" by (auto simp: unreserved_def f)
  then show av: "available bs h' m' bufs = available bs h m bufs" by (simp add: available_def beyond_def f)
  have "0 < page_limit m * 128" using d(2) by (auto simp: pages_ok_def page_limit_def)
  from res [OF this] d(5) have z: "reserved_at bs h' m' 0" by simp
  have "pages_ok m'" using d(2) by (simp add: pages_ok_def f pg)
  moreover have "flags_ok h' m'" using d(11) flags by (simp add: flags_ok_def f)
  moreover have "buffers_ok bs h' m' bufs" using d(4) res buffers_okD(1) [OF d(4)] by (simp add: buffers_ok_def f)
  moreover have "\<forall>p\<in>occupied m'. live m' p \<longrightarrow> unat (n_index (slot m' p)) \<notin> available bs h m bufs"
    using live by (auto simp: occupied_def f)
  ultimately show "alloc_ok bs h' e m' bufs"
    unfolding alloc_ok_def av f pg using d(1,3,8,9) z occ vals by simp
qed

lemma entry_at_index [simp]: "entry_at h (put_node p nd m) = entry_at h m" "has_value h (put_node p nd m) = has_value h m"
  by (simp_all add: fun_eq_iff entry_at_def has_value_def)

text \<open>Writing a value into the entry of a live node.\<close>

lemma live_location:
  assumes ok: "alloc_ok bs h e m bufs" and al: "allocated m (n_index (slot m p))"
  defines "l \<equiv> unat (n_index (slot m p))"
  shows "l < page_limit m * 128" and "of_nat l = n_index (slot m p)" and "page_limit m * 128 \<le> 2 ^ 62"
proof -
  note d = alloc_okD [OF ok]
  have "l div 128 \<le> nat (greatest_allocated_page m)" using al by (simp add: allocated_def unat_page_of l_def)
  moreover have "page_limit m = nat (greatest_allocated_page m) + 1"
    using d(2) by (simp add: page_limit_def pages_ok_def nat_add_distrib)
  ultimately have "l div 128 < page_limit m" by simp
  then show "l < page_limit m * 128" by (simp add: div_less_iff_less_mult)
  show "of_nat l = n_index (slot m p)" by (simp add: l_def)
  show "page_limit m * 128 \<le> 2 ^ 62" using page_limit_small [OF d(2) d(3)] by simp
qed

lemma alloc_set_value:
  assumes ok: "alloc_ok bs h e m bufs" and wf: "wf_index py h m"
    and p: "p < SIZE_OF m" "live m p" and ptr: "get_entry_at (n_index (slot m p)) m = Some ptr"
  shows "alloc_ok bs (set_value ptr v h) e m bufs"
    and "available bs (set_value ptr v h) m bufs = available bs h m bufs"
    and "k < page_limit m * 128 \<Longrightarrow> entry_at (set_value ptr v h) m k =
      (if k = unat (n_index (slot m p)) then (entry_at h m k)\<lparr>e_value := v\<rparr> else entry_at h m k)"
proof -
  note d = alloc_okD [OF ok]
  have al: "allocated m (n_index (slot m p))" using wf_node [OF wf p] by (simp add: node_ok_def)
  note l = live_location [OF ok al]
  have ent: "entry_at (set_value ptr v h) m k =
      (if k = unat (n_index (slot m p)) then (entry_at h m k)\<lparr>e_value := v\<rparr> else entry_at h m k)"
    if "k < page_limit m * 128" for k
    using entry_at_upd [OF d(2) l(1) that l(3), unfolded l(2), OF ptr] ptr l(2)
    by (auto simp: set_value_def entry_at_def)
  then show "k < page_limit m * 128 \<Longrightarrow> entry_at (set_value ptr v h) m k =
      (if k = unat (n_index (slot m p)) then (entry_at h m k)\<lparr>e_value := v\<rparr> else entry_at h m k)" .
  have flags: "e_flags (entry_at (set_value ptr v h) m k) = e_flags (entry_at h m k)" if "k < page_limit m * 128" for k
    using ent [OF that] by simp
  have vals: "\<exists>p<SIZE_OF m. live m p \<and> n_index (slot m p) = of_nat k"
    if k: "k < page_limit m * 128" "has_value (set_value ptr v h) m k" for k
  proof (cases "k = unat (n_index (slot m p))")
    case True
    with p l(2) show ?thesis by auto
  next
    case False
    with k ent have "has_value h m k" by (simp add: has_value_def)
    with d(10) k(1) show ?thesis by blast
  qed
  note u = alloc_ok_update [OF ok refl refl refl flags d(7,6) vals]
  show "alloc_ok bs (set_value ptr v h) e m bufs"
    "available bs (set_value ptr v h) m bufs = available bs h m bufs"
    by (rule u; simp)+
qed

text \<open>Turning the node of an entry without a value into a tombstone.\<close>

lemma alloc_tombstone:
  assumes ok: "alloc_ok bs h e m bufs" and wf: "wf_index py h m"
    and p: "p < SIZE_OF m" "live m p" and none: "\<not> has_value h m (unat (n_index (slot m p)))"
  shows "alloc_ok bs h e (put_node p (tombstone_node m) m) bufs"
proof -
  let ?m = "put_node p (tombstone_node m) m"
  note d = alloc_okD [OF ok]
  have ne: "index m p \<noteq> 0" using p(2) by (rule live_not_empty)
  have ts: "index ?m p \<noteq> 0" "\<not> live ?m p"
    using tombstone_slot [OF wf] by (auto simp: index_put_node)
  have occ: "occupied ?m = occupied m" using ne ts(1) by (auto simp: occupied_def index_put_node split: if_splits)
  have live: "q \<noteq> p \<and> live m q \<and> n_index (slot ?m q) = n_index (slot m q)" if "live ?m q" for q
    using that ts(2) by (cases "q = p") (simp_all add: live_put_node_other slot_put_node_other)
  have vals: "\<exists>q<SIZE_OF m. live ?m q \<and> n_index (slot ?m q) = of_nat k"
    if k: "k < page_limit m * 128" "has_value h ?m k" for k
  proof -
    from d(10) [OF k(1)] k(2) obtain q where q: "q < SIZE_OF m" "live m q" "n_index (slot m q) = of_nat k" by auto
    have "k < 2 ^ 62" using k(1) page_limit_small [OF d(2) d(3)] by simp
    then have "unat (n_index (slot m q)) = k" by (simp add: q(3) unat_word_small)
    with none k(2) have "q \<noteq> p" by auto
    with q show ?thesis by (auto simp: live_put_node_other slot_put_node_other)
  qed
  show ?thesis
    using d(6,7) live by (intro alloc_ok_update(1) [OF ok]) (auto simp: occ intro!: vals)
qed

subsection \<open>What becomes of a location that was handed out\<close>

lemma location_index:
  assumes ok: "alloc_ok bs h e m bufs" and l: "l < page_limit m * 128"
  shows "unat (of_nat l :: u64) = l" and "l < SIZE_OF m" and "page_limit m * 128 \<le> 2 ^ 62"
proof -
  note d = alloc_okD [OF ok]
  show lim: "page_limit m * 128 \<le> 2 ^ 62" using page_limit_small [OF d(2) d(3)] by simp
  with l show "unat (of_nat l :: u64) = l" by (intro unat_word_small) simp
  show "l < SIZE_OF m" using l page_limit_le [OF d(2)] by simp
qed

text \<open>A node that points at it is written.\<close>

lemma alloc_insert:
  assumes ok: "alloc_ok bs h e m bufs" and room: "alloc_room bs h m bufs"
    and l: "l < page_limit m * 128" "l \<notin> available bs h m bufs" and q: "get_entry_at (of_nat l) m = Some q"
    and wf: "wf_index py (h(q := e1)) m" and ins: "insertable py (h(q := e1)) m key (of_nat l) q v k p"
    and e1: "e_flags e1 = e_flags (h q)"
  shows "alloc_ok bs (h(q := e1)) e (put_node p (insert_node py (of_nat l) hash k) m) bufs"
proof -
  let ?m = "put_node p (insert_node py (of_nat l) hash k) m"
  note d = alloc_okD [OF ok] and loc = location_index [OF ok l(1)]
  note s = slot_inserted [OF wf ins, of hash]
  have p: "p < SIZE_OF m" "index m p = 0" using ins by (auto simp: insertable_def on_path_def)
  have ent: "entry_at (h(q := e1)) m x = (if x = l then e1 else entry_at h m x)" if "x < page_limit m * 128" for x
    by (rule entry_at_upd [OF d(2) l(1) that loc(3) q])
  have hq: "entry_at h m l = h q" by (simp add: entry_at_def q)
  have occ: "occupied ?m = insert p (occupied m)"
    using p s(4) by (auto simp: occupied_def index_put_node)
  have "card (occupied ?m) \<le> card (occupied m) + 1" unfolding occ by (simp add: card_insert_le_m1)
  then have card: "card (occupied ?m) + card (available bs h m bufs) < SIZE_OF m"
    using room by (simp add: alloc_room_def)
  have lp: "live ?m p" "n_index (slot ?m p) = of_nat l"
    using s(1) ins by (simp_all add: live_iff insertable_def)
  have live: "unat (n_index (slot ?m x)) \<notin> available bs h m bufs" if "x < SIZE_OF m" "live ?m x" for x
    using that d(6) [of x] lp(2) l(2) loc(1)
    by (cases "x = p") (simp_all add: live_put_node_other slot_put_node_other)
  have vals: "\<exists>x<SIZE_OF m. live ?m x \<and> n_index (slot ?m x) = of_nat y"
    if y: "y < page_limit m * 128" "has_value (h(q := e1)) ?m y" for y
  proof (cases "y = l")
    case True
    with p lp show ?thesis by blast
  next
    case False
    with y ent have "has_value h m y" by (simp add: has_value_def)
    from d(10) [OF y(1) this] obtain x where x: "x < SIZE_OF m" "live m x" "n_index (slot m x) = of_nat y" by blast
    from x(2) p(2) have "x \<noteq> p" by (auto dest: live_not_empty)
    with x show ?thesis by (auto simp: live_put_node_other slot_put_node_other)
  qed
  show ?thesis
    using ent hq e1 live card by (intro alloc_ok_update(1) [OF ok]) (auto intro!: vals)
qed

text \<open>Or its entry is cleared and it is given back.\<close>

lemma alloc_clear:
  assumes ok: "alloc_ok bs h e m bufs" and l: "l < page_limit m * 128"
    and q: "get_entry_at (of_nat l) m = Some q" and e1: "e_flags e1 = e_flags (h q)" "e_value e1 = None"
  shows "alloc_ok bs (h(q := e1)) e m bufs" and "available bs (h(q := e1)) m bufs = available bs h m bufs"
proof -
  note d = alloc_okD [OF ok] and loc = location_index [OF ok l]
  have ent: "entry_at (h(q := e1)) m x = (if x = l then e1 else entry_at h m x)" if "x < page_limit m * 128" for x
    by (rule entry_at_upd [OF d(2) l that loc(3) q])
  have hq: "entry_at h m l = h q" by (simp add: entry_at_def q)
  have flags: "e_flags (entry_at (h(q := e1)) m k) = e_flags (entry_at h m k)" if "k < page_limit m * 128" for k
    using ent [OF that] hq e1 by simp
  have vals: "\<exists>p<SIZE_OF m. live m p \<and> n_index (slot m p) = of_nat y"
    if y: "y < page_limit m * 128" "has_value (h(q := e1)) m y" for y
  proof -
    have "has_value h m y" using y ent [OF y(1)] e1 by (auto simp: has_value_def split: if_splits)
    with d(10) y(1) show ?thesis by blast
  qed
  note u = alloc_ok_update [OF ok refl refl refl flags d(7,6) vals]
  show "alloc_ok bs (h(q := e1)) e m bufs" "available bs (h(q := e1)) m bufs = available bs h m bufs"
    by (rule u; simp)+
qed

lemma alloc_put_back:
  assumes ok: "alloc_ok bs h e m bufs" and room: "alloc_room bs h m bufs" and i: "i < length bufs"
    and gives: "gives_back (bufs ! i) l"
    and l: "l < page_limit m * 128" "l \<notin> available bs h m bufs" "l \<noteq> 0"
    and dead: "\<And>p. p < SIZE_OF m \<Longrightarrow> live m p \<Longrightarrow> unat (n_index (slot m p)) \<noteq> l"
  shows "alloc_ok bs h e m (bufs[i := reservation_buffer_put_back_one (bufs ! i)])"
proof -
  let ?b = "reservation_buffer_put_back_one (bufs ! i)"
  note d = alloc_okD [OF ok] and bd = buffers_okD [OF alloc_okD(4) [OF ok]]
  have gb: "buffered ?b = insert l (buffered (bufs ! i))" "unat (rb_used ?b) \<le> unat (rb_size ?b)"
    using gives by (simp_all add: gives_back_def)
  have mem: "bufs ! i \<in> set bufs" using i by simp
  have av: "available bs h m (bufs[i := ?b]) = insert l (available bs h m bufs)"
    unfolding available_buffers length_list_update buffered_others [OF i] gb(1) using i by auto
  have res: "reserved_at bs h m l" using l by (auto simp: available_def unreserved_def)
  have out: "l \<notin> buffered b" if "b \<in> set bufs" for b using l(2) that by (auto simp: available_def)
  have "buffers_ok bs h m (bufs[i := ?b])"
    unfolding buffers_ok_def
  proof (intro conjI ballI allI impI)
    fix b k assume "b \<in> set (bufs[i := ?b])" "k \<in> buffered b"
    then have "k = l \<or> (\<exists>b0\<in>set bufs. k \<in> buffered b0)"
      using gb(1) mem set_update_subset_insert [of bufs i ?b] by blast
    then show "k < page_limit m * 128" "reserved_at bs h m k" "k \<noteq> 0"
      using bd(1-3) l(1,3) res by blast+
  next
    fix b assume "b \<in> set (bufs[i := ?b])"
    then show "unat (rb_used b) \<le> unat (rb_size b)"
      using gb(2) bd(4) set_update_subset_insert [of bufs i ?b] by blast
  next
    fix j k assume jk: "j < length (bufs[i := ?b])" "k < length (bufs[i := ?b])" "j \<noteq> k"
    then have "buffered (bufs ! j) \<inter> buffered (bufs ! k) = {}" "l \<notin> buffered (bufs ! j)" "l \<notin> buffered (bufs ! k)"
      using bd(5) out by simp_all
    then show "buffered (bufs[i := ?b] ! j) \<inter> buffered (bufs[i := ?b] ! k) = {}"
      using gb(1) jk by (cases "j = i"; cases "k = i") auto
  qed
  moreover have "card (occupied m) + card (available bs h m (bufs[i := ?b])) < SIZE_OF m"
    unfolding av using room l(2) finite_available [OF ok] by (simp add: alloc_room_def)
  moreover have "\<forall>p\<in>occupied m. live m p \<longrightarrow> unat (n_index (slot m p)) \<notin> available bs h m (bufs[i := ?b])"
    unfolding av using d(6) dead by (auto simp: occupied_def)
  ultimately show ?thesis unfolding alloc_ok_def using d by simp
qed

subsection \<open>Moving to a larger table\<close>

lemma copied_pages_same:
  assumes "pages_ok m" and "pages n = copied_pages m" and "greatest_allocated_page n = greatest_allocated_page m"
  shows "page_limit n = page_limit m" and "i < page_limit m \<Longrightarrow> pages n i = pages m i"
    and "k < page_limit m * 128 \<Longrightarrow> k < 2 ^ 62 \<Longrightarrow> get_entry_at (of_nat k) n = get_entry_at (of_nat k) m"
    and "k < page_limit m * 128 \<Longrightarrow> k < 2 ^ 62 \<Longrightarrow> entry_at h n k = entry_at h m k"
proof -
  have g: "0 \<le> greatest_allocated_page m" using assms(1) by (simp add: pages_ok_def)
  show "page_limit n = page_limit m" by (simp add: page_limit_def assms(3))
  have same: "pages n i = pages m i" if "i < page_limit m" for i
  proof -
    have "int i \<le> greatest_allocated_page m" using that g by (simp add: page_limit_def zless_nat_eq_int_zless)
    then show ?thesis by (simp add: assms(2) copied_pages_def)
  qed
  show "i < page_limit m \<Longrightarrow> pages n i = pages m i" by (rule same)
  have get: "get_entry_at (of_nat k) n = get_entry_at (of_nat k) m" if "k < page_limit m * 128" "k < 2 ^ 62" for k
    using same [of "k div 128"] that
    by (simp add: get_entry_at_def unat_page_of unat_word_small div_less_iff_less_mult)
  show "k < page_limit m * 128 \<Longrightarrow> k < 2 ^ 62 \<Longrightarrow> get_entry_at (of_nat k) n = get_entry_at (of_nat k) m" by (rule get)
  show "k < page_limit m * 128 \<Longrightarrow> k < 2 ^ 62 \<Longrightarrow> entry_at h n k = entry_at h m k" by (simp add: entry_at_def get)
qed

text \<open>The old node of a key and the new one point at the same entry.\<close>

lemma same_location:
  assumes wf: "wf_index py h cur" "wf_index py h new" and map: "table_map py h new = table_map py h cur"
    and from_old: "nodes_from cur new"
    and ent: "\<And>p t. p < SIZE_OF new \<Longrightarrow> t < SIZE_OF cur \<Longrightarrow> live cur t \<Longrightarrow>
      n_index (slot new p) = n_index (slot cur t) \<Longrightarrow> entry_of h new p = entry_of h cur t"
    and p: "p < SIZE_OF cur" "holds py h cur key p"
  shows "\<exists>q<SIZE_OF new. live new q \<and> n_index (slot new q) = n_index (slot cur p)"
proof -
  have "table_map py h new key \<noteq> None" using p map table_map_None [of py h cur key] by auto
  then obtain q where q: "q < SIZE_OF new" "holds py h new key q"
    unfolding table_map_None by blast
  then have lq: "live new q" by (blast elim: holdsD)
  with q(1) from_old obtain t where t: "t < SIZE_OF cur" "live cur t" "n_index (slot new q) = n_index (slot cur t)"
    unfolding nodes_from_def by (auto dest: live_not_empty)
  have "holds py h cur key t" using q(2) t(2) ent [OF q(1) t] by (simp add: holds_def)
  with wf_unique [OF wf(1) t(1) p(1)] p(2) have "t = p" by blast
  with q(1) lq t(3) show ?thesis by blast
qed

lemma occupied_grow:
  assumes wf: "wf_index py h new" and from_old: "nodes_from cur new"
  shows "card (occupied new) \<le> card (occupied cur)"
proof -
  have inj: "inj_on (\<lambda>p. n_index (slot new p)) (occupied new)"
  proof (rule inj_onI)
    fix a b assume "a \<in> occupied new" "b \<in> occupied new" "n_index (slot new a) = n_index (slot new b)"
    with from_old wf_distinct [OF wf, of a b] show "a = b" by (auto simp: occupied_def nodes_from_def)
  qed
  have "(\<lambda>p. n_index (slot new p)) ` occupied new \<subseteq> (\<lambda>p. n_index (slot cur p)) ` occupied cur"
  proof
    fix x assume "x \<in> (\<lambda>p. n_index (slot new p)) ` occupied new"
    then obtain p where "p < SIZE_OF new" "index new p \<noteq> 0" "x = n_index (slot new p)"
      by (auto simp: occupied_def)
    with from_old obtain t where "t < SIZE_OF cur" "live cur t" "x = n_index (slot cur t)"
      unfolding nodes_from_def by metis
    then show "x \<in> (\<lambda>p. n_index (slot cur p)) ` occupied cur"
      by (auto simp: occupied_def dest: live_not_empty)
  qed
  then have "card ((\<lambda>p. n_index (slot new p)) ` occupied new) \<le> card ((\<lambda>p. n_index (slot cur p)) ` occupied cur)"
    by (intro card_mono) (simp_all add: occupied_def)
  also have "\<dots> \<le> card (occupied cur)" by (intro card_image_le) (simp add: occupied_def)
  finally show ?thesis using inj by (simp add: card_image)
qed

lemma alloc_grow:
  assumes ok: "alloc_ok bs h e cur bufs" and wb: "well_behaved_keys py"
    and wf: "wf_index py h cur" "wf_index py h new" and map: "table_map py h new = table_map py h cur"
    and from_old: "nodes_from cur new" and ls: "log_size new = Suc (log_size cur)"
    and pg: "pages new = copied_pages cur" "greatest_allocated_page new = greatest_allocated_page cur"
  shows "alloc_ok bs h e new bufs" and "page_limit new < page_count new"
proof -
  note d = alloc_okD [OF ok] and same = copied_pages_same [OF alloc_okD(2) [OF ok] pg]
  have size: "SIZE_OF new = 2 * SIZE_OF cur" by (simp add: SIZE_OF_def ls)
  have le: "page_limit cur * 128 \<le> SIZE_OF cur" "SIZE_OF cur \<le> 2 ^ 30"
    using page_limit_le [OF d(2)] SIZE_small [OF d(3)] by simp_all
  have small: "k < 2 ^ 62" if "k < page_limit cur * 128" for k using that le by simp
  note ent = same(4) [OF _ small]
  have res: "reserved_at bs h new k = reserved_at bs h cur k" if "k < page_limit cur * 128" for k
  proof -
    have "chunk_head bs k < page_limit cur * 128" using chunk_head_le [of bs k] that by linarith
    with ent show ?thesis by (simp add: reserved_at_def)
  qed
  have un: "unreserved bs h new = unreserved bs h cur" using res by (auto simp: unreserved_def same(1))
  have "beyond new = beyond cur \<union> {SIZE_OF cur ..< SIZE_OF new}"
    using le(1) by (auto simp: beyond_def same(1) size)
  then have av: "available bs h new bufs = available bs h cur bufs \<union> {SIZE_OF cur ..< SIZE_OF new}"
    by (auto simp: available_def un)
  have lim: "page_limit cur \<le> page_count cur"
    using d(2) by (auto simp: pages_ok_def page_limit_def nat_add_distrib)
  have "2 * page_count cur * 128 \<le> 2 * SIZE_OF cur"
    using div_times_less_eq_dividend [of "SIZE_OF cur" 128] by (simp add: page_count_def layout_consts)
  then have "2 * page_count cur \<le> page_count new"
    by (simp add: page_count_def [of new] layout_consts size less_eq_div_iff_mult_less_eq)
  moreover have "0 < page_count cur" using d(2) by (auto simp: pages_ok_def)
  ultimately show less: "page_limit new < page_count new" using lim same(1) by linarith
  have loc: "entry_of h new p = entry_of h cur t"
    if "p < SIZE_OF new" "t < SIZE_OF cur" "live cur t" "n_index (slot new p) = n_index (slot cur t)" for p t
  proof -
    have "allocated cur (n_index (slot cur t))" using wf_node [OF wf(1) that(2,3)] by (simp add: node_ok_def)
    note l = live_location [OF ok this]
    from same(3) [OF l(1) small [OF l(1)]] show ?thesis by (simp add: entry_of_def that(4) l(2))
  qed
  have old: "\<exists>t<SIZE_OF cur. live cur t \<and> n_index (slot new p) = n_index (slot cur t)" if "p \<in> occupied new" for p
    using that from_old by (auto simp: occupied_def nodes_from_def)
  have out: "unat (n_index (slot new p)) \<notin> available bs h new bufs" if p: "p \<in> occupied new" for p
  proof -
    from old [OF p] obtain t where t: "t < SIZE_OF cur" "live cur t" "n_index (slot new p) = n_index (slot cur t)" by blast
    have "allocated cur (n_index (slot cur t))" using wf_node [OF wf(1) t(1,2)] by (simp add: node_ok_def)
    from live_location(1) [OF ok this] le(1) have "unat (n_index (slot cur t)) < SIZE_OF cur" by simp
    with d(6) [OF t(1,2)] show ?thesis by (simp add: t(3) av)
  qed
  have "card (available bs h new bufs) \<le> card (available bs h cur bufs) + SIZE_OF cur"
    unfolding av using card_Un_le [of "available bs h cur bufs" "{SIZE_OF cur ..< SIZE_OF new}"] by (simp add: size)
  then have card: "card (occupied new) + card (available bs h new bufs) < SIZE_OF new"
    using occupied_grow [OF wf(2) from_old] d(7) size by linarith
  have vals: "\<exists>q<SIZE_OF new. live new q \<and> n_index (slot new q) = of_nat k"
    if k: "k < page_limit cur * 128" "has_value h new k" for k
  proof -
    have "has_value h cur k" using k ent by (simp add: has_value_def)
    from d(10) [OF k(1) this] obtain p where p: "p < SIZE_OF cur" "live cur p" "n_index (slot cur p) = of_nat k" by blast
    from wf_node [OF wf(1) p(1,2)] obtain e1 key where e1: "entry_of h cur p = Some e1" "e_key e1 = Some key"
      unfolding node_ok_def by blast
    then have "e_value e1 \<noteq> None"
      using \<open>has_value h cur k\<close> by (auto simp: has_value_def entry_at_def entry_of_def p(3))
    with p(2) e1 same_key_refl [OF wb] have "holds py h cur key p" by (auto simp: holds_def)
    from same_location [OF wf map from_old _ p(1) this] loc show ?thesis unfolding p(3) by blast
  qed
  have bufs: "buffers_ok bs h new bufs"
    using d(4) res buffers_okD(1) [OF d(4)] by (simp add: buffers_ok_def same(1))
  have flags: "flags_ok h new" using d(11) ent by (simp add: flags_ok_def same(1))
  have pos: "0 < page_limit cur * 128" using d(2) by (auto simp: pages_ok_def page_limit_def)
  have "0 \<le> greatest_allocated_page cur" using d(2) by (simp add: pages_ok_def)
  then have null: "pages new (page_limit new) = Null"
    unfolding same(1) by (simp add: pg(1) copied_pages_def page_limit_def)
  have below: "p < e" if "pages new j = Page p" for j p
    using that d(9) [of j] by (simp add: pg(1) copied_pages_def split: if_splits)
  show "alloc_ok bs h e new bufs"
    unfolding alloc_ok_def
  proof (intro conjI ballI allI impI)
    show "reserved_at bs h new 0" using res [OF pos] d(5) by simp
    show "\<exists>p<SIZE_OF new. live new p \<and> n_index (slot new p) = of_nat l"
      if "l < page_limit new * 128" "has_value h new l" for l
      using vals that unfolding same(1) by blast
    show "p < e" if "pages new j = Page p" for j p using that by (rule below)
  qed (fact d(1) wf_pages [OF wf(2)] wf_log_size_le [OF wf(2)] bufs flags card | rule null out, assumption?)+
qed

end
