(* ===== verification/DictCorrect.thy ===== *)
theory DictCorrect
  imports AllocOps DictOps
begin

text \<open>
  The operations of a whole dictionary, run one after the other by any number of threads, against the
  map from keys to values that the dictionary stands for: lookups read the map, compare-and-set,
  assignment and deletion change it as specified, growing the table does not change it, and the length
  is the number of entries that have a value.
\<close>

subsection \<open>The invariant\<close>

definition value_locations :: "heap \<Rightarrow> meta \<Rightarrow> nat set" where
  "value_locations h m = {k. k < page_limit m * 128 \<and> has_value h m k}"

definition proper_values :: "pyenv \<Rightarrow> heap \<Rightarrow> meta \<Rightarrow> bool" where
  "proper_values py h m \<longleftrightarrow> (\<forall>key v. table_map py h m key = Some v \<longrightarrow> \<not> is_sentinel v)"

definition table_ok :: "pyenv \<Rightarrow> nat \<Rightarrow> dict \<Rightarrow> bool" where
  "table_ok py mid d \<longleftrightarrow>
     metadata d = MetaAt mid \<and> mid < next_meta d \<and> quiet_meta (metas d mid) \<and>
     (\<forall>tid i. thread_storage d tid = Some i \<longrightarrow> i < length (accessors d)) \<and>
     wf_index py (entries d) (metas d mid) \<and>
     alloc_ok (rbs d) (entries d) (next_page d) (metas d mid) (buffers d) \<and>
     proper_values py (entries d) (metas d mid) \<and> len_ok d \<and>
     approx_len d = int (card (value_locations (entries d) (metas d mid)))"

lemma table_okD:
  assumes "table_ok py mid d"
  shows "metadata d = MetaAt mid" and "mid < next_meta d" and "quiet_meta (metas d mid)"
    and "\<And>tid i. thread_storage d tid = Some i \<Longrightarrow> i < length (accessors d)"
    and "wf_index py (entries d) (metas d mid)"
    and "alloc_ok (rbs d) (entries d) (next_page d) (metas d mid) (buffers d)"
    and "proper_values py (entries d) (metas d mid)" and "len_ok d"
    and "approx_len d = int (card (value_locations (entries d) (metas d mid)))"
  using assms by (auto simp: table_ok_def)

text \<open>The map of the dictionary.\<close>

definition dict_map :: "pyenv \<Rightarrow> dict \<Rightarrow> pyobj \<Rightarrow> pyobj option" where
  "dict_map py d =
     (case metadata d of MetaAt mid \<Rightarrow> table_map py (entries d) (metas d mid) | _ \<Rightarrow> (\<lambda>_. None))"

text \<open>
  A dictionary between two operations, whose table can still double \<open>n\<close> times before its index has
  \<open>2 ^ 30\<close> slots.
\<close>

definition dict_ok :: "pyenv \<Rightarrow> nat \<Rightarrow> dict \<Rightarrow> bool" where
  "dict_ok py n d \<longleftrightarrow>
     unlocked d \<and> allocations d = [] \<and> (\<exists>mid. table_ok py mid d \<and> log_size (metas d mid) + n \<le> 30)"

text \<open>Changes of the accessors that are no part of the table.\<close>

definition like_storages :: "storage list \<Rightarrow> storage list \<Rightarrow> bool" where
  "like_storages as bs \<longleftrightarrow> map rb bs = map rb as \<and> map local_len bs = map local_len as"

lemma like_storages_refl [simp]: "like_storages as as"
  by (simp add: like_storages_def)

lemma like_storages_trans [trans]: "like_storages as bs \<Longrightarrow> like_storages bs cs \<Longrightarrow> like_storages as cs"
  by (simp add: like_storages_def)

lemma like_storages_length: "like_storages as bs \<Longrightarrow> length bs = length as"
  unfolding like_storages_def by (metis length_map)

lemma like_storages_upd:
  assumes "\<And>s. rb (f s) = rb s" and "\<And>s. local_len (f s) = local_len s"
  shows "like_storages as (as[i := f (as ! i)])"
  using assms unfolding like_storages_def
  by (metis list_update_beyond list_update_id map_update not_le nth_map)

lemma like_storages_map:
  assumes "\<And>s. rb (f s) = rb s" and "\<And>s. local_len (f s) = local_len s"
  shows "like_storages as (map f as)"
  using assms by (simp add: like_storages_def comp_def)

lemma sum_like: "like_storages (accessors d) as \<Longrightarrow> sum_of_accessors_len (d\<lparr>accessors := as\<rparr>) = sum_of_accessors_len d"
  by (simp add: sum_of_accessors_len_sum like_storages_def)

lemma table_ok_storages:
  assumes "table_ok py mid d" and "like_storages (accessors d) as"
  shows "table_ok py mid (d\<lparr>accessors := as\<rparr>)"
  using assms sum_like [OF assms(2)] like_storages_length [OF assms(2)]
  by (simp add: table_ok_def like_storages_def len_ok_def approx_len_def)

lemma get_storage_ok:
  assumes ok: "table_ok py mid d" and "unlocked d" and mem: "allocations d = []"
  obtains i d' where "get_or_create_accessor_storage tid d = Some (Some i, d')" and "table_ok py mid d'"
    and "unlocked d'" and "allocations d' = []" and "thread_storage d' tid = Some i" and "i < length (accessors d')"
    and "entries d' = entries d" and "metas d' = metas d"
proof (cases "thread_storage d tid")
  case (Some i)
  with table_okD(4) [OF ok] assms that show thesis by (simp add: get_or_create_accessor_storage_def)
next
  case None
  let ?d = "d\<lparr>accessors := accessors d @ [zero_storage\<lparr>st_meta := metadata d\<rparr>],
      thread_storage := (thread_storage d)(tid := Some (length (accessors d)))\<rparr>"
  have "buffered (rb (zero_storage\<lparr>st_meta := metadata d\<rparr>)) = {}"
    by (simp add: buffered_def zero_storage_def)
  from alloc_ok_new_buffer [OF table_okD(6) [OF ok] this]
  have "alloc_ok (rbs d) (entries d) (next_page d) (metas d mid) (buffers ?d)"
    by (simp add: zero_storage_def)
  moreover have "sum_of_accessors_len ?d = sum_of_accessors_len d"
    by (simp add: sum_of_accessors_len_sum zero_storage_def)
  ultimately have "table_ok py mid ?d"
    using ok by (auto simp: table_ok_def len_ok_def approx_len_def less_Suc_eq split: if_splits)
  moreover have "unlocked ?d" using assms(2) by (auto simp: unlocked_def zero_storage_def)
  moreover have "get_or_create_accessor_storage tid d = Some (Some (length (accessors d)), ?d)"
    using None assms(2) by (simp add: get_or_create_accessor_storage_def allocate_Nil [OF mem] unlocked_def Let_def)
  ultimately show thesis using mem by (intro that [of "length (accessors d)" ?d]) auto
qed

text \<open>The accessor's own reference to the metadata is refreshed, and its mutex taken.\<close>

definition locked_by :: "nat \<Rightarrow> dict \<Rightarrow> bool" where
  "locked_by i d \<longleftrightarrow> \<not> sync_op d \<and> \<not> accessors_lock d \<and> i < length (accessors d) \<and>
     (\<forall>j<length (accessors d). self_mutex (accessors d ! j) \<longleftrightarrow> j = i)"

lemma unlocked_nth:
  "unlocked d \<longleftrightarrow> \<not> sync_op d \<and> \<not> accessors_lock d \<and> (\<forall>j<length (accessors d). \<not> self_mutex (accessors d ! j))"
  by (simp add: unlocked_def all_set_conv_all_nth)

lemma unlocked_upd:
  assumes "unlocked (d\<lparr>accessors := as\<rparr>)" and "\<And>s. self_mutex (f s) = self_mutex s"
  shows "unlocked (d\<lparr>accessors := as[i := f (as ! i)]\<rparr>)"
  using assms unfolding unlocked_nth
  by simp (metis list_update_beyond not_le nth_list_update)

lemma unlock_locked: "locked_by i d \<Longrightarrow> unlocked (unlock_storage i d)"
  by (simp add: locked_by_def unlocked_nth unlock_storage_def upd_storage_def nth_list_update)

lemma unlock_like: "\<exists>as. unlock_storage i d = d\<lparr>accessors := as\<rparr> \<and> like_storages (accessors d) as"
  unfolding unlock_storage_def upd_storage_def
  using like_storages_upd [where f = "\<lambda>s. s\<lparr>self_mutex := False\<rparr>"] by auto

lemma get_meta_ok:
  assumes ok: "table_ok py mid d" and "unlocked d" and "i < length (accessors d)"
  obtains as where "get_meta i d = Some (mid, d\<lparr>accessors := as\<rparr>)" and "like_storages (accessors d) as"
    and "unlocked (d\<lparr>accessors := as\<rparr>)"
proof (cases "metadata d = st_meta (accessors d ! i)")
  case True
  with table_okD(1) [OF ok] assms(2) that [of "accessors d"] show thesis by (simp add: get_meta_def)
next
  case False
  let ?as = "(accessors d)[i := (accessors d ! i)\<lparr>st_meta := metadata d\<rparr>]"
  have "get_meta i d = Some (mid, d\<lparr>accessors := ?as\<rparr>)"
    using False assms(3) table_okD(1) [OF ok] by (simp add: get_meta_def upd_storage_def)
  moreover have "like_storages (accessors d) ?as" by (rule like_storages_upd) simp_all
  moreover have "unlocked (d\<lparr>accessors := ?as\<rparr>)"
    using assms(2) by (intro unlocked_upd) simp_all
  ultimately show thesis by (rule that)
qed

lemma lock_ok:
  assumes ok: "table_ok py mid d" and "unlocked d" and "i < length (accessors d)"
  obtains as where "lock_accessor_storage_or_help_resize py tid i mid d = Some (False, d\<lparr>accessors := as\<rparr>)"
    and "like_storages (accessors d) as" and "locked_by i (d\<lparr>accessors := as\<rparr>)"
proof -
  let ?as = "(accessors d)[i := (accessors d ! i)\<lparr>self_mutex := True\<rparr>]"
  have "resize_leader (metas d mid) = 0" using table_okD(3) [OF ok] by (simp add: quiet_meta_def)
  moreover have "\<not> self_mutex (accessors d ! i)" using assms(2,3) by (auto simp: unlocked_def)
  ultimately have "lock_accessor_storage_or_help_resize py tid i mid d = Some (False, d\<lparr>accessors := ?as\<rparr>)"
    by (simp add: lock_accessor_storage_or_help_resize_def maybe_help_resize_def upd_storage_def)
  moreover have "like_storages (accessors d) ?as" by (rule like_storages_upd) simp_all
  moreover have "locked_by i (d\<lparr>accessors := ?as\<rparr>)"
    using assms(2,3) by (simp add: locked_by_def unlocked_nth nth_list_update)
  ultimately show thesis by (rule that)
qed

subsection \<open>Growing\<close>

lemma value_locations_same:
  assumes "page_limit m' = page_limit m" and "\<And>k. k < page_limit m * 128 \<Longrightarrow> has_value h' m' k = has_value h m k"
  shows "value_locations h' m' = value_locations h m"
  using assms by (auto simp: value_locations_def)

lemma storage_inserted_like: "like_storages (accessors d) (storage_inserted i k d)"
  unfolding storage_inserted_def by (rule like_storages_upd) simp_all

lemma grow_ok:
  assumes ok: "table_ok py mid d" and wb: "well_behaved_keys py" and un: "unlocked d" and mem: "allocations d = []"
    and i: "thread_storage d tid = Some i" and ls: "log_size (metas d mid) \<le> 29"
  obtains d' mid' where "grow py tid d = Some (1, d')" and "table_ok py mid' d'" and "unlocked d'"
    and "allocations d' = []" and "thread_storage d' = thread_storage d"
    and "log_size (metas d' mid') = Suc (log_size (metas d mid))"
    and "page_limit (metas d' mid') < page_count (metas d' mid')"
    and "table_map py (entries d') (metas d' mid') = table_map py (entries d) (metas d mid)"
proof -
  note t = table_okD [OF ok]
  have i': "i < length (accessors d)" by (rule t(4) [OF i])
  from get_meta_ok [OF ok un i'] obtain as where
    as: "get_meta i d = Some (mid, d\<lparr>accessors := as\<rparr>)" "like_storages (accessors d) as" "unlocked (d\<lparr>accessors := as\<rparr>)" .
  define d1 where "d1 = d\<lparr>accessors := as, metas := (metas d)(mid := (metas d mid)\<lparr>resize_leader := tid\<rparr>)\<rparr>"
  have q: "resize_leader (metas d mid) = 0" "node_to_migrate (metas d mid) = 0" "\<not> node_migration_done (metas d mid)"
    using t(3) by (simp_all add: quiet_meta_def)
  have eq: "table_eq (metas d mid) (metas d1 mid)" by (simp add: d1_def table_eq_def)
  note same = table_eqD [OF eq] table_eq_wf [OF eq]
  have f: "metadata d1 = MetaAt mid" "mid < next_meta d1" "thread_storage d1 tid = Some i" "allocations d1 = []"
    "entries d1 = entries d" "next_meta d1 = next_meta d" "accessors d1 = as"
    using t(1,2) i mem by (simp_all add: d1_def)
  have "unlocked d1" using as(3) by (simp add: d1_def unlocked_def)
  moreover have "i < length (accessors d1)" using i' like_storages_length [OF as(2)] by (simp add: f)
  moreover have "node_to_migrate (metas d1 mid) = 0" "\<not> node_migration_done (metas d1 mid)"
    "log_size (metas d1 mid) \<le> 29" using q ls by (simp_all add: d1_def)
  moreover have "wf_index py (entries d1) (metas d1 mid)" using t(5) by (simp add: f same)
  ultimately obtain ms n k where
    run: "leader_resize py tid mid d1 = Some (1,
      d1\<lparr>metadata := MetaAt (next_meta d1), metas := ms(next_meta d1 := n), next_meta := Suc (next_meta d1),
        accessors := storage_inserted i k d1\<rparr>)"
    and n: "quiet_meta n" "log_size n = Suc (log_size (metas d1 mid))" "pages n = copied_pages (metas d1 mid)"
      "greatest_allocated_page n = greatest_allocated_page (metas d1 mid)" "wf_index py (entries d1) n"
      "table_map py (entries d1) n = table_map py (entries d1) (metas d1 mid)" "nodes_from (metas d1 mid) n"
    using leader_resize_correct [OF _ f(1,2,3) _ _ _ _ _ f(4)] by blast
  let ?d = "d1\<lparr>metadata := MetaAt (next_meta d1), metas := ms(next_meta d1 := n), next_meta := Suc (next_meta d1),
        accessors := storage_inserted i k d1\<rparr>"
  have cp: "copied_pages (metas d1 mid) = copied_pages (metas d mid)" by (simp add: copied_pages_def same cong: if_cong)
  have nf: "nodes_from (metas d mid) n" using n(7) by (simp add: nodes_from_def same)
  note n' = n(2) [unfolded same] n(3) [unfolded cp] n(4) [unfolded same] n(5) [unfolded f] n(6) [unfolded f same]
  note al = alloc_grow [OF t(6) wb t(5) n'(4,5) nf n'(1-3)]
  have like: "like_storages (accessors d) (storage_inserted i k d1)"
    using like_storages_trans [OF as(2)] storage_inserted_like [of d1] by (simp add: f)
  have lim: "page_limit n = page_limit (metas d mid)" by (simp add: page_limit_def n'(3))
  have vl: "value_locations (entries d) n = value_locations (entries d) (metas d mid)"
  proof (rule value_locations_same [OF lim])
    fix k assume k: "k < page_limit (metas d mid) * 128"
    have "k < 2 ^ 62" using k page_limit_small [OF alloc_okD(2) [OF t(6)] alloc_okD(3) [OF t(6)]] by simp
    from copied_pages_same(4) [OF alloc_okD(2) [OF t(6)] n'(2,3) k this]
    show "has_value (entries d) n k = has_value (entries d) (metas d mid) k" by (simp add: has_value_def)
  qed
  have "table_ok py (next_meta d) ?d"
    unfolding table_ok_def
    using t(4,7-9) n(1) n'(4,5) al(1) like like_storages_length [OF like] sum_like [OF like] vl
    by (simp add: d1_def f like_storages_def proper_values_def len_ok_def approx_len_def sum_of_accessors_len_def)
  moreover have "unlocked ?d"
    using unlocked_upd [where d = d1 and as = "accessors d1" and i = i and f = "\<lambda>s. s\<lparr>local_inserted := k\<rparr>"] \<open>unlocked d1\<close>
    by (simp add: storage_inserted_def) (simp add: unlocked_def)
  moreover have "grow py tid d = Some (1, ?d)"
    using i as(1) q(1) run
    by (simp add: grow_def get_or_create_accessor_storage_def resize_def upd_meta_def d1_def)
  ultimately show thesis
    using al n'(1,5) mem by (intro that [of ?d "next_meta d"]) (simp_all add: d1_def)
qed

subsection \<open>A filled entry\<close>

lemma same_but_pages_quiet: "same_but_pages m m' \<Longrightarrow> quiet_meta m' = quiet_meta m"
  unfolding same_but_pages_def quiet_meta_def by (cases m; cases m') simp

text \<open>
  What an insertion starts from: location \<open>l\<close>, whose entry is \<open>q\<close>, has been handed out to it.  Whatever is
  in that entry, the table is the one before.
\<close>

definition hand_over :: "dict \<Rightarrow> nat \<Rightarrow> nat \<Rightarrow> reservation_buffer \<Rightarrow> heap \<Rightarrow> meta \<Rightarrow> nat \<Rightarrow> nat \<Rightarrow> entry_ptr \<Rightarrow> bool" where
  "hand_over d mid i b h m e l q \<longleftrightarrow>
     get_entry_at (of_nat l) m = Some q \<and> l < page_limit m * 128 \<and> page_limit (metas d mid) \<le> page_limit m \<and>
     same_but_pages (metas d mid) m \<and>
     handed_out (rbs d) (entries d) (metas d mid) (buffers d) h m ((buffers d)[i := b]) l \<and>
     alloc_ok (rbs d) h e m ((buffers d)[i := b]) \<and> alloc_room (rbs d) h m ((buffers d)[i := b]) \<and>
     gives_back b l \<and> untouched (available (rbs d) (entries d) (metas d mid) (buffers d)) (entries d) (metas d mid) h m"

lemma hand_overI:
  assumes "hands_out d mid i d1 b loc"
  obtains l q h m e where "d1 = d\<lparr>entries := h, metas := (metas d)(mid := m), next_page := e\<rparr>"
    and "loc = \<lparr>loc_entry = Some q, loc_location = of_nat l\<rparr>" and "hand_over d mid i b h m e l q"
  using assms unfolding hands_out_def hand_over_def by blast

lemma hand_overD:
  assumes "hand_over d mid i b h m e l q"
  shows "get_entry_at (of_nat l) m = Some q" and "l < page_limit m * 128" and "page_limit (metas d mid) \<le> page_limit m"
    and "same_but_pages (metas d mid) m"
    and "l \<in> available (rbs d) (entries d) (metas d mid) (buffers d)" and "l \<notin> available (rbs d) h m ((buffers d)[i := b])"
    and "alloc_ok (rbs d) h e m ((buffers d)[i := b])" and "alloc_room (rbs d) h m ((buffers d)[i := b])"
    and "gives_back b l"
    and "untouched (available (rbs d) (entries d) (metas d mid) (buffers d)) (entries d) (metas d mid) h m"
  using assms unfolding hand_over_def handed_out_def by auto

lemma hand_over_dead:
  assumes ok: "table_ok py mid d" and ho: "hand_over d mid i b h m e l q" and "p < SIZE_OF m" and "live m p"
  shows "unat (n_index (slot m p)) \<noteq> l"
  using alloc_okD(6) [OF table_okD(6) [OF ok], of p] assms(3,4) hand_overD(5) [OF ho]
  by (auto simp: same_but_pagesD [OF hand_overD(4) [OF ho]])

lemma hand_over_nonzero: "table_ok py mid d \<Longrightarrow> hand_over d mid i b h m e l q \<Longrightarrow> l \<noteq> 0"
  using available_0 [OF table_okD(6)] hand_overD(5) by metis

text \<open>The live nodes still see their entries.\<close>

lemma hand_over_entries:
  assumes ok: "table_ok py mid d" and ho: "hand_over d mid i b h m e l q" and p: "p < SIZE_OF m" "live m p"
  shows "unat (n_index (slot m p)) < page_limit (metas d mid) * 128"
    and "entry_at h m (unat (n_index (slot m p))) = entry_at (entries d) (metas d mid) (unat (n_index (slot m p)))"
    and "entry_of (h(q := e1)) m p = entry_of (entries d) (metas d mid) p"
proof -
  let ?m = "metas d mid" and ?h = "entries d" and ?l = "unat (n_index (slot m p))"
  note t = table_okD [OF ok] and H = hand_overD [OF ho] and s = same_but_pagesD [OF hand_overD(4) [OF ho]]
  note a = alloc_okD [OF t(6)]
  have al: "allocated ?m (n_index (slot m p))" using wf_node [OF t(5), of p] p by (simp add: s node_ok_def)
  show limit: "?l < page_limit ?m * 128" using live_location(1) [OF t(6), of p] al by (simp add: s)
  have "?l \<notin> available (rbs d) ?h ?m (buffers d)" using a(6) [of p] p by (simp add: s)
  with H(10) limit have "get_entry_at (of_nat ?l) m = get_entry_at (of_nat ?l) ?m"
    and same: "entry_at h m ?l = entry_at ?h ?m ?l" unfolding untouched_def by blast+
  then have get: "get_entry_at (n_index (slot m p)) m = get_entry_at (n_index (slot m p)) ?m" by simp
  show "entry_at h m ?l = entry_at ?h ?m ?l" by (rule same)
  have "?l < page_limit m * 128" using limit H(3) by (meson less_le_trans mult_le_mono1)
  from entry_at_upd [OF alloc_okD(2) [OF H(7)] H(2) this location_index(3) [OF H(7,2)] H(1), of h e1]
    hand_over_dead [OF ok ho p] same
  have "entry_at (h(q := e1)) m ?l = entry_at ?h ?m ?l" by simp
  moreover from get_entry_at_some [OF a(2) al] obtain ptr where "get_entry_at (n_index (slot m p)) ?m = Some ptr" by blast
  ultimately show "entry_of (h(q := e1)) m p = entry_of ?h ?m p" using get by (simp add: entry_at_def entry_of_def s(6))
qed

lemma hand_over_table:
  assumes ok: "table_ok py mid d" and ho: "hand_over d mid i b h m e l q"
  shows "wf_index py (h(q := e1)) m" and "table_map py (h(q := e1)) m = table_map py (entries d) (metas d mid)"
proof -
  note t = table_okD [OF ok] and H = hand_overD [OF ho] and s = same_but_pagesD [OF hand_overD(4) [OF ho]]
  note pg = alloc_okD(2) [OF H(7)] and ent = hand_over_entries [OF ok ho, unfolded s(4,5)]
  have al: "allocated m (n_index (slot (metas d mid) p))" if "p < SIZE_OF (metas d mid)" "live (metas d mid) p" for p
  proof -
    have "unat (n_index (slot (metas d mid) p)) < page_limit m * 128"
      using ent(1) [OF that] H(3) by (auto simp: s intro: less_le_trans)
    from allocated_location [OF pg, of "unat (n_index (slot (metas d mid) p))"] this location_index(3) [OF H(7,2)]
    show ?thesis by simp
  qed
  show "wf_index py (h(q := e1)) m" "table_map py (h(q := e1)) m = table_map py (entries d) (metas d mid)"
    by (rule same_table [OF t(5) s(1,2) pg ent(3) al]; assumption)+
qed

lemma hand_over_values:
  assumes ok: "table_ok py mid d" and ho: "hand_over d mid i b h m e l q"
  shows "value_locations h m = value_locations (entries d) (metas d mid)" and "\<not> has_value h m l"
proof -
  note t = table_okD [OF ok] and H = hand_overD [OF ho]
  have node: "\<exists>p<SIZE_OF m. live m p \<and> unat (n_index (slot m p)) = k" if k: "k < page_limit m * 128" "has_value h m k" for k
    using alloc_okD(10) [OF H(7) k] location_index(1) [OF H(7) k(1)] by auto
  show "value_locations h m = value_locations (entries d) (metas d mid)"
  proof (rule set_eqI)
    fix k
    show "k \<in> value_locations h m \<longleftrightarrow> k \<in> value_locations (entries d) (metas d mid)"
    proof
      assume "k \<in> value_locations h m"
      with node [of k] hand_over_entries [OF ok ho] show "k \<in> value_locations (entries d) (metas d mid)"
        by (auto simp: value_locations_def has_value_def)
    next
      assume "k \<in> value_locations (entries d) (metas d mid)"
      then have k: "k < page_limit (metas d mid) * 128" "has_value (entries d) (metas d mid) k"
        by (simp_all add: value_locations_def)
      with available_no_value [OF t(6)] have "k \<notin> available (rbs d) (entries d) (metas d mid) (buffers d)" by blast
      with H(3,10) k show "k \<in> value_locations h m"
        by (auto simp: value_locations_def untouched_def has_value_def intro: less_le_trans)
    qed
  qed
  show "\<not> has_value h m l" using node [OF H(2)] hand_over_dead [OF ok ho] by blast
qed

subsection \<open>The state after an operation under the mutex\<close>

lemma sum_local_upd:
  assumes "i < length as"
  shows "(\<Sum>s\<leftarrow>as[i := x]. local_len s) = (\<Sum>s\<leftarrow>as. local_len s) + local_len x - local_len (as ! i)"
  using assms by (induction as arbitrary: i) (auto split: nat.splits)

definition after_operation :: "dict \<Rightarrow> nat \<Rightarrow> heap \<Rightarrow> meta \<Rightarrow> nat \<Rightarrow> nat \<Rightarrow> storage \<Rightarrow> bool \<Rightarrow> dict" where
  "after_operation d mid h m e i s dirty =
     d\<lparr>entries := h, metas := (metas d)(mid := m), next_page := e, accessors := (accessors d)[i := s], len_dirty := dirty\<rparr>"

lemma after_operation_simps [simp]:
  "entries (after_operation d mid h m e i s dirty) = h" "metas (after_operation d mid h m e i s dirty) mid = m"
  "allocations (after_operation d mid h m e i s dirty) = allocations d"
  "thread_storage (after_operation d mid h m e i s dirty) = thread_storage d"
  by (simp_all add: after_operation_def)

lemma after_operation_ok:
  assumes ok: "table_ok py mid d" and i: "i < length (accessors d)" and "quiet_meta m" and "wf_index py h m"
    and "alloc_ok (rbs d) h e m ((buffers d)[i := rb s])" and "proper_values py h m"
    and len: "int (card (value_locations h m)) = approx_len d + local_len s - local_len (accessors d ! i)"
    and dirty: "dirty \<or> local_len s = local_len (accessors d ! i) \<and> dirty = len_dirty d"
  shows "table_ok py mid (after_operation d mid h m e i s dirty)"
proof -
  have "sum_of_accessors_len (after_operation d mid h m e i s dirty) =
      sum_of_accessors_len d + local_len s - local_len (accessors d ! i)"
    by (simp add: after_operation_def sum_of_accessors_len_sum sum_local_upd [OF i])
  then show ?thesis
    using assms table_okD [OF ok] i
    by (auto simp: table_ok_def after_operation_def len_ok_def approx_len_def map_update)
qed

lemma after_operation_unlocked:
  "locked_by i d \<Longrightarrow> \<not> self_mutex s \<Longrightarrow> unlocked (after_operation d mid h m e i s dirty)"
  by (simp add: unlocked_nth locked_by_def after_operation_def nth_list_update)

lemma finite_value_locations [simp]: "finite (value_locations h m)"
  by (simp add: value_locations_def)

lemma value_locations_put_node [simp]: "value_locations h (put_node p nd m) = value_locations h m"
  by (simp add: value_locations_def page_limit_def)

text \<open>The values that compare-and-set leaves are those that were there and the new one.\<close>

lemma proper_cas:
  assumes "proper_values py h m" and "\<not> is_sentinel desired"
    and "table_map py h' m' = snd (cas_spec py key expected desired (table_map py h m))"
  shows "proper_values py h' m'"
  using assms by (auto simp: proper_values_def cas_spec_def map_put_def split: option.splits if_splits)

text \<open>Filling or clearing an entry that has no value changes the locations with a value by itself only.\<close>

lemma value_locations_upd:
  assumes ok: "alloc_ok bs h e m bufs" and l: "l < page_limit m * 128" and q: "get_entry_at (of_nat l) m = Some q"
  shows "value_locations (h(q := e1)) m =
    (if e_value e1 = None then value_locations h m - {l} else insert l (value_locations h m))"
proof -
  note d = alloc_okD [OF ok] and loc = location_index [OF ok l]
  have "entry_at (h(q := e1)) m x = (if x = l then e1 else entry_at h m x)" if "x < page_limit m * 128" for x
    by (rule entry_at_upd [OF d(2) l that loc(3) q])
  then show ?thesis using l by (auto simp: value_locations_def has_value_def split: if_splits)
qed

lemma value_locations_set:
  assumes ok: "alloc_ok bs h e m bufs" and wf: "wf_index py h m"
    and p: "p < SIZE_OF m" "holds py h m key p" and ptr: "get_entry_at (n_index (slot m p)) m = Some ptr"
  shows "value_locations (set_value ptr v h) m =
    (if v = None then value_locations h m - {unat (n_index (slot m p))} else value_locations h m)"
    and "unat (n_index (slot m p)) \<in> value_locations h m"
proof -
  have lp: "live m p" using p(2) by (blast elim: holdsD)
  have "allocated m (n_index (slot m p))" using wf_node [OF wf p(1) lp] by (simp add: node_ok_def)
  note l = live_location [OF ok this]
  have "has_value h m (unat (n_index (slot m p)))"
    using p(2) ptr l(2) by (auto simp: has_value_def entry_at_def entry_of_def elim!: holdsD)
  with l(1) show mem: "unat (n_index (slot m p)) \<in> value_locations h m" by (simp add: value_locations_def)
  show "value_locations (set_value ptr v h) m =
    (if v = None then value_locations h m - {unat (n_index (slot m p))} else value_locations h m)"
    using mem alloc_set_value(3) [OF ok wf p(1) lp ptr, of _ v]
    by (auto simp: value_locations_def has_value_def split: if_splits)
qed

subsection \<open>Compare and set under the mutex\<close>

abbreviation filled_entry :: "entry \<Rightarrow> pyobj \<Rightarrow> i64 \<Rightarrow> pyobj \<Rightarrow> entry" where
  "filled_entry x key hash v \<equiv> x\<lparr>e_key := Some key, e_hash := hash, e_value := Some v\<rparr>"

abbreviation cleared_entry :: "entry \<Rightarrow> entry" where
  "cleared_entry x \<equiv> x\<lparr>e_flags := e_flags x AND ENTRY_FLAGS_RESERVED, e_key := None, e_value := None, e_hash := 0\<rparr>"

abbreviation reserving :: "nat \<Rightarrow> reservation_buffer \<Rightarrow> pyobj \<Rightarrow> i64 \<Rightarrow> pyobj \<Rightarrow> entry_loc \<Rightarrow> dict \<Rightarrow> dict" where
  "reserving i b key hash desired loc d1 \<equiv>
     (case loc_entry loc of None \<Rightarrow> upd_storage i (\<lambda>s. s\<lparr>rb := b\<rparr>) d1
      | Some p \<Rightarrow> fill_entry p key hash desired (upd_storage i (\<lambda>s. s\<lparr>rb := b\<rparr>) d1))"

lemma flags_and:
  assumes "alloc_ok bs h e m bufs" and "l < page_limit m * 128" and "get_entry_at (of_nat l) m = Some q"
  shows "e_flags (h q) AND ENTRY_FLAGS_RESERVED = e_flags (h q)"
  using alloc_okD(11) [OF assms(1)] assms(2,3)
  by (auto simp: flags_ok_def entry_at_def ENTRY_FLAGS_RESERVED_def)

text \<open>What the two outcomes leave: the filled entry with a node, or the cleared entry in the buffer.\<close>

definition inserting_storage :: "reservation_buffer \<Rightarrow> storage \<Rightarrow> storage" where
  "inserting_storage b s = s\<lparr>rb := b, local_len := local_len s + 1, local_inserted := local_inserted s + 1, self_mutex := False\<rparr>"

definition returning_storage :: "reservation_buffer \<Rightarrow> storage \<Rightarrow> storage" where
  "returning_storage b s = s\<lparr>rb := reservation_buffer_put_back_one b, self_mutex := False\<rparr>"

lemma attempt_runs:
  assumes i: "i < length (accessors d)" and d1: "d1 = d\<lparr>entries := h, metas := (metas d)(mid := m), next_page := e\<rparr>"
    and loc: "loc = \<lparr>loc_entry = Some q, loc_location = of_nat l\<rparr>" and l: "(of_nat l :: u64) \<noteq> 0"
    and run: "expected_insert_or_update py key hash expected desired loc False []
      (h(q := filled_entry (h q) key hash desired), m) = Some r" and "ir_world r = (h', m')"
  shows "cas_attempt py i mid key hash expected desired loc (reserving i b key hash desired loc d1) =
    (if ir_result r = Some NOT_FOUND
     then Some (ir_result r, ir_must_grow r,
       (local_inserted (accessors d ! i) + 1) mod int (log_size m') = 0,
       after_operation d mid h' m' e i (inserting_storage b (accessors d ! i)) True)
     else Some (ir_result r, ir_must_grow r, False,
       after_operation d mid (h'(q := cleared_entry (h' q))) m' e i
         (returning_storage b (accessors d ! i)) (len_dirty d)))"
proof -
  have fill: "reserving i b key hash desired loc d1 =
      d\<lparr>entries := h(q := filled_entry (h q) key hash desired), metas := (metas d)(mid := m), next_page := e,
        accessors := (accessors d)[i := (accessors d ! i)\<lparr>rb := b\<rparr>]\<rparr>"
    by (cases d) (simp add: loc d1 fill_entry_def upd_entry_def upd_storage_def)
  show ?thesis
    unfolding cas_attempt_def fill using run assms(6) i l
    by (simp add: loc Let_def after_operation_def unlock_storage_def upd_storage_def release_entry_def
        upd_entry_def accessor_inserted_inc_def accessor_len_inc_def inserting_storage_def returning_storage_def)
qed

lemma entry_of_other:
  assumes "get_entry_at (n_index (slot m p)) m \<noteq> Some q"
  shows "entry_of (h(q := e1)) m p = entry_of h m p"
  using assms by (auto simp: entry_of_def map_option_case split: option.splits)

text \<open>The filled entry is one that an insertion may point a node at.\<close>

lemma hand_over_fresh:
  assumes ok: "table_ok py mid d" and ho: "hand_over d mid i b h m e l q"
    and "e_key f = Some key" and "e_hash f = PyObject_Hash py key" and "e_value f = Some v"
  shows "fresh_entry py (h(q := f)) m key v (of_nat l)" and "spare_slots m"
proof -
  note H = hand_overD [OF ho]
  note ll = location_index [OF H(7,2)]
  have "(of_nat l :: u64) \<noteq> 0" using ll(1) hand_over_nonzero [OF ok ho] by force
  moreover have "allocated m (of_nat l)"
    using allocated_location [OF alloc_okD(2) [OF H(7)], of l] ll H(2) by simp
  moreover have "n_index (slot m p) \<noteq> of_nat l" if "p < SIZE_OF m" "live m p" for p
    using hand_over_dead [OF ok ho that] ll(1) by auto
  ultimately show "fresh_entry py (h(q := f)) m key v (of_nat l)"
    unfolding fresh_entry_def using assms(3-) H(1) ll by simp
  show "spare_slots m" using H(8) by (intro spare_of_room) (simp add: alloc_room_def)
qed

text \<open>The entry is cleared and goes back to the buffer; or a node points at it.\<close>

lemma hand_over_cleared:
  assumes ok: "table_ok py mid d" and ho: "hand_over d mid i b h m e l q" and i: "i < length (accessors d)"
    and c: "e_flags c = e_flags (h q)" "e_value c = None"
  shows "alloc_ok (rbs d) (h(q := c)) e m ((buffers d)[i := reservation_buffer_put_back_one b])"
    and "value_locations (h(q := c)) m = value_locations (entries d) (metas d mid)"
proof -
  note H = hand_overD [OF ho] and v = hand_over_values [OF ok ho]
  note clear = alloc_clear [OF H(7,2,1) c]
  have "alloc_room (rbs d) (h(q := c)) m ((buffers d)[i := b])" using H(8) by (simp add: alloc_room_def clear(2))
  from alloc_put_back [OF clear(1) this, of i l] H(2,6,9) i hand_over_nonzero [OF ok ho] hand_over_dead [OF ok ho]
  show "alloc_ok (rbs d) (h(q := c)) e m ((buffers d)[i := reservation_buffer_put_back_one b])" by (simp add: clear(2))
  show "value_locations (h(q := c)) m = value_locations (entries d) (metas d mid)"
    using value_locations_upd [OF H(7,2,1), of c] v c(2) by (auto simp: value_locations_def)
qed

lemma hand_over_returned:
  assumes ok: "table_ok py mid d" and ho: "hand_over d mid i b h m e l q" and i: "i < length (accessors d)"
    and "alloc_ok (rbs d) H e m ((buffers d)[i := reservation_buffer_put_back_one b])"
    and "value_locations H m = value_locations (entries d) (metas d mid)" and "wf_index py H m" and "proper_values py H m"
  shows "table_ok py mid (after_operation d mid H m e i (returning_storage b (accessors d ! i)) (len_dirty d))"
  using assms(4-) table_okD(3,9) [OF ok] same_but_pages_quiet [OF hand_overD(4) [OF ho]]
  by (intro after_operation_ok [OF ok i]) (auto simp: returning_storage_def)

lemma hand_over_inserted:
  assumes ok: "table_ok py mid d" and ho: "hand_over d mid i b h m e l q" and i: "i < length (accessors d)"
    and ins: "insertable py (h(q := f)) m key (of_nat l) q v k p" and f: "e_flags f = e_flags (h q)" "e_value f = Some v"
    and m': "m' = put_node p (insert_node py (of_nat l) hash k) m" "wf_index py (h(q := f)) m'" "proper_values py (h(q := f)) m'"
  shows "table_ok py mid (after_operation d mid (h(q := f)) m' e i (inserting_storage b (accessors d ! i)) True)"
proof -
  note H = hand_overD [OF ho] and v = hand_over_values [OF ok ho] and t = table_okD [OF ok]
  let ?s = "inserting_storage b (accessors d ! i)"
  have "alloc_ok (rbs d) (h(q := f)) e m' ((buffers d)[i := rb ?s])"
    using alloc_insert [OF H(7,8,2,6,1) hand_over_table(1) [OF ok ho] ins f(1), of hash]
    by (simp add: m'(1) inserting_storage_def)
  moreover have "int (card (value_locations (h(q := f)) m')) = approx_len d + local_len ?s - local_len (accessors d ! i)"
    using value_locations_upd [OF H(7,2,1), of f] v(2) t(9) H(2) f(2)
    by (simp add: m'(1) v(1) [symmetric] inserting_storage_def) (simp add: value_locations_def)
  moreover have "quiet_meta m'" using t(3) same_but_pages_quiet [OF H(4)] by (simp add: m'(1) put_node_def quiet_meta_def)
  ultimately show ?thesis using m' by (intro after_operation_ok [OF ok i]) auto
qed

lemma set_value_clear: "ptr \<noteq> q \<Longrightarrow> (set_value ptr v (h(q := f)))(q := c) = set_value ptr v (h(q := c))"
  by (auto simp: set_value_def fun_upd_twist)

text \<open>The value of the key's own entry was exchanged, and the reserved entry is cleared.\<close>

lemma hand_over_updated:
  assumes ok: "table_ok py mid d" and ho: "hand_over d mid i b h m e l q" and i: "i < length (accessors d)"
    and wb: "well_behaved_keys py" and c: "e_flags c = e_flags (h q)" "e_value c = None"
    and p: "p < SIZE_OF m" "holds py (h(q := f)) m key p" "get_entry_at (n_index (slot m p)) m = Some ptr"
  shows "ptr \<noteq> q" and "wf_index py (set_value ptr v (h(q := c))) m"
    and "alloc_ok (rbs d) (set_value ptr v (h(q := c))) e m ((buffers d)[i := reservation_buffer_put_back_one b])"
    and "v \<noteq> None \<Longrightarrow> value_locations (set_value ptr v (h(q := c))) m = value_locations (entries d) (metas d mid)"
    and "table_map py (set_value ptr v (h(q := c))) m = table_map py (set_value ptr v (h(q := f))) m"
proof -
  note H = hand_overD [OF ho] and tab = hand_over_table [OF ok ho]
  have lp: "live m p" using p(2) by (blast elim: holdsD)
  have "allocated m (n_index (slot m p))" using wf_node [OF tab(1) p(1) lp] by (simp add: node_ok_def)
  moreover have "allocated m (of_nat l)"
    using allocated_location [OF alloc_okD(2) [OF H(7)], of l] location_index [OF H(7,2)] H(2) by simp
  moreover have "n_index (slot m p) \<noteq> of_nat l"
    using hand_over_dead [OF ok ho p(1) lp] location_index(1) [OF H(7,2)] by auto
  ultimately show ne: "ptr \<noteq> q" using get_entry_at_inj [OF alloc_okD(2) [OF H(7)]] H(1) p(3) by metis
  have "entry_of (h(q := x)) m p = entry_of h m p" for x using ne p(3) by (intro entry_of_other) simp
  then have hc: "holds py (h(q := c)) m key p" using p(2) by (simp add: holds_def)
  note cl = hand_over_cleared [OF ok ho i c] and sv = set_value_map [OF tab(1) wb p(1)]
  show "wf_index py (set_value ptr v (h(q := c))) m" by (rule set_value_wf [OF tab(1) wb p(1) hc p(3)])
  show "alloc_ok (rbs d) (set_value ptr v (h(q := c))) e m ((buffers d)[i := reservation_buffer_put_back_one b])"
    by (rule alloc_set_value(1) [OF cl(1) tab(1) p(1) lp p(3)])
  show "table_map py (set_value ptr v (h(q := c))) m = table_map py (set_value ptr v (h(q := f))) m"
    by (simp add: fun_eq_iff sv [OF hc p(3)] sv [OF p(2,3)] tab(2))
  show "value_locations (set_value ptr v (h(q := c))) m = value_locations (entries d) (metas d mid)" if "v \<noteq> None"
    using value_locations_set(1) [OF cl(1) tab(1) p(1) hc p(3), of v] cl(2) that by simp
qed

lemma attempt_reserved:
  assumes ok: "table_ok py mid d" and lk: "locked_by i d" and out: "hands_out d mid i d1 b loc"
    and wb: "well_behaved_keys py" and hash: "hash = PyObject_Hash py key"
    and desired: "\<not> is_sentinel desired" and exp: "expected = NOT_FOUND \<or> expected = ANY"
  obtains res significant d' where
    "cas_attempt py i mid key hash expected desired loc (reserving i b key hash desired loc d1) =
       Some (Some res, False, significant, d')"
    and "table_ok py mid d'" and "unlocked d'" and "allocations d' = allocations d"
    and "thread_storage d' = thread_storage d" and "log_size (metas d' mid) = log_size (metas d mid)"
    and "(res, table_map py (entries d') (metas d' mid)) =
           cas_spec py key expected desired (table_map py (entries d) (metas d mid))"
proof -
  note result = that and t = table_okD [OF ok]
  let ?M = "table_map py (entries d) (metas d mid)"
  have i: "i < length (accessors d)" using lk by (simp add: locked_by_def)
  from hand_overI [OF out] obtain l q h m e where
    d1: "d1 = d\<lparr>entries := h, metas := (metas d)(mid := m), next_page := e\<rparr>"
    and loc: "loc = \<lparr>loc_entry = Some q, loc_location = of_nat l\<rparr>" and ho: "hand_over d mid i b h m e l q" .
  note H = hand_overD [OF ho] and tab = hand_over_table [OF ok ho]
  define f where "f = filled_entry (h q) key hash desired"
  define c where "c = cleared_entry f"
  have c: "e_flags c = e_flags (h q)" "e_value c = None" using flags_and [OF H(7,2,1)] by (simp_all add: c_def f_def)
  have f: "e_flags f = e_flags (h q)" "e_key f = Some key" "e_hash f = PyObject_Hash py key" "e_value f = Some desired"
    by (simp_all add: f_def hash)
  note fresh = hand_over_fresh [OF ok ho f(2-4)]
  from expected_insert_or_update_correct [OF tab(1) [of f] wb, of expected key desired loc] fresh hash loc obtain r where
    r: "expected_insert_or_update py key hash expected desired loc False [] (h(q := f), m) = Some r"
    "implements_cas py key expected desired (h(q := f)) m r" "cas_effect py key desired (of_nat l) (h(q := f)) m r" by auto
  obtain h' m' where w: "ir_world r = (h', m')" by (cases "ir_world r")
  have l0: "(of_nat l :: u64) \<noteq> 0" using fresh(1) by (simp add: fresh_entry_def)
  note run = attempt_runs [OF i d1 loc l0 r(1) [unfolded f_def] w, of b, folded f_def]
  have imp: "\<not> ir_must_grow r" "wf_index py h' m'" "ir_result r = Some (fst (cas_spec py key expected desired ?M))"
    "table_map py h' m' = snd (cas_spec py key expected desired ?M)"
    using r(2) w tab(2) [of f] by (simp_all add: implements_cas_def)
  have finish: thesis
    if "cas_attempt py i mid key hash expected desired loc (reserving i b key hash desired loc d1) =
        Some (ir_result r, ir_must_grow r, sig, after_operation d mid h0 m0 e i s dirty)"
      and "table_ok py mid (after_operation d mid h0 m0 e i s dirty)" and "\<not> self_mutex s"
      and "log_size m0 = log_size m" and "table_map py h0 m0 = snd (cas_spec py key expected desired ?M)"
    for sig h0 m0 s dirty
    using that imp(1,3) after_operation_unlocked [OF lk that(3)] same_but_pagesD(1) [OF H(4)]
    by (intro result [of "fst (cas_spec py key expected desired ?M)" sig "after_operation d mid h0 m0 e i s dirty"])
      simp_all
  have returned: thesis
    if "ir_result r \<noteq> Some NOT_FOUND" "m' = m" and "h'(q := cleared_entry (h' q)) = G"
      and "alloc_ok (rbs d) G e m ((buffers d)[i := reservation_buffer_put_back_one b])"
      and "value_locations G m = value_locations (entries d) (metas d mid)" and "wf_index py G m"
      and "table_map py G m = snd (cas_spec py key expected desired ?M)" for G
    using run that hand_over_returned [OF ok ho i that(4-6) proper_cas [OF t(7) desired that(7)]]
    by (intro finish [of False G m "returning_storage b (accessors d ! i)" "len_dirty d"])
      (simp_all add: returning_storage_def)
  from r(3) show thesis
  proof (cases rule: cas_effect_cases)
    case (inserted k p ptr)
    have "ptr = q" using inserted(1) H(1) by (simp add: insertable_def)
    with hand_over_inserted [OF ok ho i _ f(1,4), of key k p m' hash] inserted w imp(2)
      proper_cas [OF t(7) desired imp(4)] hash
    have "table_ok py mid (after_operation d mid h' m' e i (inserting_storage b (accessors d ! i)) True)" by simp
    with run inserted w imp(4) hash show ?thesis by (intro finish) (auto simp: inserting_storage_def)
  next
    case unchanged
    with w have "h' = h(q := f)" "m' = m" by simp_all
    with unchanged imp(4) tab hand_over_cleared [OF ok ho i c] show ?thesis
      by (intro returned [of "h(q := c)"]) (simp_all add: c_def)
  next
    case (updated p ptr v)
    note u = hand_over_updated [OF ok ho i wb c updated(1-3)]
    have w': "h' = set_value ptr (Some desired) (h(q := f))" "m' = m" using w updated(6) by simp_all
    have "set_value ptr (Some desired) (h(q := f)) q = f" using u(1) by (simp add: set_value_def)
    then have "h'(q := cleared_entry (h' q)) = set_value ptr (Some desired) (h(q := c))"
      unfolding w' c_def [symmetric] using set_value_clear [OF u(1)] by (simp add: c_def)
    moreover have "ir_result r \<noteq> Some NOT_FOUND"
      using updated(4,5) t(7) tab(2) [of f] by (auto simp: proper_values_def is_sentinel_def)
    ultimately show ?thesis
      using u(2-5) imp(4) w' by (intro returned [of "set_value ptr (Some desired) (h(q := c))"]) simp_all
  qed
qed

text \<open>Without a reserved entry only the value of the key's entry can change.\<close>

lemma attempt_plain:
  assumes ok: "table_ok py mid d" and lk: "locked_by i d" and wb: "well_behaved_keys py"
    and hash: "hash = PyObject_Hash py key" and desired: "\<not> is_sentinel desired"
    and exp: "expected \<noteq> NOT_FOUND" "expected \<noteq> ANY" and loc: "loc = \<lparr>loc_entry = None, loc_location = 0\<rparr>"
  obtains res d' where "cas_attempt py i mid key hash expected desired loc d = Some (Some res, False, False, d')"
    and "table_ok py mid d'" and "unlocked d'" and "allocations d' = allocations d"
    and "thread_storage d' = thread_storage d" and "log_size (metas d' mid) = log_size (metas d mid)"
    and "(res, table_map py (entries d') (metas d' mid)) =
           cas_spec py key expected desired (table_map py (entries d) (metas d mid))"
proof -
  let ?h = "entries d" and ?m = "metas d mid"
  let ?M = "table_map py ?h ?m"
  have i: "i < length (accessors d)" using lk by (simp add: locked_by_def)
  note t = table_okD [OF ok]
  let ?s = "(accessors d ! i)\<lparr>self_mutex := False\<rparr>"
  from expected_insert_or_update_correct [OF t(5) wb, of expected key desired loc] exp hash obtain r where
    r: "expected_insert_or_update py key hash expected desired loc False [] (?h, ?m) = Some r"
    "implements_cas py key expected desired ?h ?m r" "cas_effect py key desired (loc_location loc) ?h ?m r" by auto
  obtain h' m' where w: "ir_world r = (h', m')" by (cases "ir_world r")
  have imp: "\<not> ir_must_grow r" "wf_index py h' m'" "ir_result r = Some (fst (cas_spec py key expected desired ?M))"
    "table_map py h' m' = snd (cas_spec py key expected desired ?M)"
    using r(2) w by (simp_all add: implements_cas_def)
  have run: "cas_attempt py i mid key hash expected desired loc d =
      Some (ir_result r, False, False, after_operation d mid h' m' (next_page d) i ?s (len_dirty d))"
    using r(1) w imp(1)
    by (simp add: cas_attempt_def loc Let_def after_operation_def unlock_storage_def upd_storage_def)
  have bufs: "(buffers d)[i := rb ?s] = buffers d" by (simp add: list_update_same_conv i)
  have m': "m' = ?m" and al: "alloc_ok (rbs d) h' (next_page d) ?m (buffers d)"
    and vl: "value_locations h' ?m = value_locations ?h ?m"
  proof -
    have "m' = ?m \<and> alloc_ok (rbs d) h' (next_page d) ?m (buffers d) \<and> value_locations h' ?m = value_locations ?h ?m"
      using r(3)
    proof (cases rule: cas_effect_cases)
      case unchanged
      with w t(6) show ?thesis by simp
    next
      case (updated p ptr v)
      have lp: "live ?m p" using updated(2) by (blast elim: holdsD)
      have w': "h' = set_value ptr (Some desired) ?h" "m' = ?m" using w updated(6) by simp_all
      show ?thesis
        unfolding w' using alloc_set_value(1) [OF t(6,5) updated(1) lp updated(3)]
          value_locations_set(1) [OF t(6,5) updated(1-3)] by simp
    next
      case (inserted k p ptr)
      then show ?thesis by (simp add: loc insertable_def)
    qed
    then show "m' = ?m" "alloc_ok (rbs d) h' (next_page d) ?m (buffers d)"
      "value_locations h' ?m = value_locations ?h ?m" by simp_all
  qed
  have "table_ok py mid (after_operation d mid h' m' (next_page d) i ?s (len_dirty d))"
    using al vl t(3,9) imp(2) proper_cas [OF t(7) desired imp(4)] bufs unfolding m'
    by (intro after_operation_ok [OF ok i]) auto
  moreover have "unlocked (after_operation d mid h' m' (next_page d) i ?s (len_dirty d))"
    using lk by (rule after_operation_unlocked) simp
  ultimately show thesis
    using imp(4) by (intro that [OF run [unfolded imp(3)]]) (simp_all add: m')
qed

end
