(* ===== verification/InitCorrect.thy ===== *)
theory InitCorrect
  imports DictInit DictCorrect
begin

text \<open>
  \<^verbatim>\<open>AtomicDict_init\<close> of \<^verbatim>\<open>src/src/cereggii/atomic_dict/atomic_dict.c\<close> makes a dictionary that satisfies
  the invariant of the operations and stands for the map of the initial items.
\<close>

subsection \<open>Pages\<close>

definition page_table :: "nat \<Rightarrow> nat \<Rightarrow> nat \<Rightarrow> nat \<Rightarrow> page_slot" where
  "page_table first count k i =
     (if i < k then Page (first + i) else if i = k \<and> (k < count \<or> k = 0) then Null else Uninit)"

definition zeroed_pages :: "nat \<Rightarrow> nat \<Rightarrow> heap \<Rightarrow> heap" where
  "zeroed_pages first k h = (\<lambda>p. if first \<le> fst p \<and> fst p < first + k then zero_entry else h p)"

lemma zeroed_pages_0 [simp]: "zeroed_pages first 0 h = h"
  by (auto simp: zeroed_pages_def fun_eq_iff)

lemma zeroed_pages_Suc: "zeroed_pages (first + k) 1 (zeroed_pages first k h) = zeroed_pages first (Suc k) h"
  by (auto simp: zeroed_pages_def fun_eq_iff)

lemma page_New_run:
  assumes "allocations d = []"
  shows "AtomicDictPage_New d =
    (Some (next_page d), d\<lparr>next_page := Suc (next_page d), entries := zeroed_pages (next_page d) 1 (entries d)\<rparr>)"
proof -
  have "(\<lambda>(p, i). if p = next_page d then zero_entry else entries d (p, i)) = zeroed_pages (next_page d) 1 (entries d)"
    by (auto simp: zeroed_pages_def fun_eq_iff)
  then show ?thesis by (simp add: AtomicDictPage_New_def allocate_Nil [OF assms] Let_def)
qed

text \<open>The dictionary with \<open>k\<close> new pages in its new metadata.\<close>

definition with_pages :: "nat \<Rightarrow> nat \<Rightarrow> nat \<Rightarrow> dict \<Rightarrow> dict" where
  "with_pages mid count k d =
     d\<lparr>entries := zeroed_pages (next_page d) k (entries d),
       next_page := next_page d + k,
       metas := (metas d)(mid := (metas d mid)\<lparr>pages := page_table (next_page d) count k,
                                               greatest_allocated_page := int k - 1\<rparr>)\<rparr>"

lemma page_table_Suc:
  "(if Suc k < count then (page_table first count k)(k := Page (first + k), Suc k := Null)
    else (page_table first count k)(k := Page (first + k))) = page_table first count (Suc k)"
  by (auto simp: page_table_def fun_eq_iff)

lemma add_page_with_pages:
  assumes "allocations d = []" and "count = 2 ^ log_size (metas d mid) div 2 ^ ATOMIC_DICT_LOG_ENTRIES_IN_PAGE"
  shows "add_page k mid (with_pages mid count k d) = (True, with_pages mid count (Suc k) d)"
proof -
  have mem: "allocations (with_pages mid count k d) = []" using assms(1) by (simp add: with_pages_def)
  have log: "log_size (metas (with_pages mid count k d) mid) = log_size (metas d mid)" by (simp add: with_pages_def)
  have run: "add_page k mid (with_pages mid count k d) =
      (True, d\<lparr>next_page := Suc (next_page d + k), entries := zeroed_pages (next_page d) (Suc k) (entries d),
        metas := (metas d)(mid := (metas d mid)\<lparr>pages :=
          (if Suc k < count then (page_table (next_page d) count k)(k := Page (next_page d + k), Suc k := Null)
           else (page_table (next_page d) count k)(k := Page (next_page d + k))), greatest_allocated_page := int k\<rparr>)\<rparr>)"
    using zeroed_pages_Suc [of "next_page d" k "entries d"]
    by (simp add: add_page_def page_New_run [OF mem] upd_meta_def log assms(2) [symmetric])
      (simp add: with_pages_def)
  show ?thesis unfolding run page_table_Suc by (simp add: with_pages_def)
qed

lemma add_pages_with_pages:
  assumes "allocations d = []" and "count = 2 ^ log_size (metas d mid) div 2 ^ ATOMIC_DICT_LOG_ENTRIES_IN_PAGE"
  shows "add_pages [k..<k + n] mid (with_pages mid count k d) = (True, with_pages mid count (k + n) d)"
proof (induction n arbitrary: k)
  case 0
  then show ?case by simp
next
  case (Suc n)
  have "[k..<k + Suc n] = k # [Suc k..<Suc k + n]" by (simp add: upt_conv_Cons)
  with Suc [of "Suc k"] add_page_with_pages [OF assms] show ?case by simp
qed

text \<open>The number of pages for the initial size, of which there is at least one.\<close>

definition pages_for :: "nat \<Rightarrow> nat" where
  "pages_for n = (n + 127) div 128"

lemma pages_for_bounds:
  shows "n \<le> pages_for n * 128" and "128 dvd N \<Longrightarrow> n \<le> N \<Longrightarrow> pages_for n \<le> N div 128"
proof -
  have "n + 127 < ((n + 127) div 128) * 128 + 128"
    using dividend_less_times_div [of 128 "n + 127"] by (simp add: mult.commute)
  then show "n \<le> pages_for n * 128" by (simp add: pages_for_def)
  assume "128 dvd N" "n \<le> N"
  then obtain c where c: "N = 128 * c" by blast
  have "(n + 127) div 128 < Suc c" using \<open>n \<le> N\<close> c by (intro div_less_iff_less_mult [THEN iffD2]) simp_all
  then show "pages_for n \<le> N div 128" by (simp add: pages_for_def c)
qed

lemma pages_for_eq:
  "(if n mod 128 > 0 then n div 128 + 1 else n div 128) = pages_for n"
proof (cases "n mod 128 = 0")
  case True
  then obtain c where "n = 128 * c" by blast
  then show ?thesis by (simp add: pages_for_def)
next
  case False
  define c r where "c = n div 128" and "r = n mod 128"
  have n: "n + 127 = (r - 1) + 128 * (c + 1)" "r - 1 < 128"
    using False mult_div_mod_eq [of 128 n] by (simp_all add: c_def r_def)
  have "(n + 127) div 128 = c + 1" unfolding n(1) div_mult_self2 [OF zero_neq_numeral [symmetric]] using n(2) by simp
  with False show ?thesis by (simp add: pages_for_def c_def)
qed

lemma init_pages_run:
  assumes "allocations d = []" and "0 < n" and "pages (metas d mid) = (\<lambda>_. Uninit)(0 := Null)"
    and "greatest_allocated_page (metas d mid) = - 1"
    and "count = 2 ^ log_size (metas d mid) div 2 ^ ATOMIC_DICT_LOG_ENTRIES_IN_PAGE"
  shows "init_pages n mid d = (True, with_pages mid count (pages_for n) d)"
proof -
  have count: "(if n mod ATOMIC_DICT_ENTRIES_IN_PAGE > 0 then n div ATOMIC_DICT_ENTRIES_IN_PAGE + 1
      else n div ATOMIC_DICT_ENTRIES_IN_PAGE) = pages_for n"
    using pages_for_eq [of n] by (auto simp: layout_consts split: if_splits)
  have "page_table (next_page d) count 0 = (\<lambda>_. Uninit)(0 := Null)"
    by (auto simp: page_table_def fun_eq_iff)
  moreover have "(metas d mid)\<lparr>pages := (\<lambda>_. Uninit)(0 := Null), greatest_allocated_page := - 1\<rparr> = metas d mid"
    using assms(3,4) by (cases "metas d mid") simp
  ultimately have "with_pages mid count 0 d = d" by (simp add: with_pages_def)
  with add_pages_with_pages [OF assms(1,5), of 0 "pages_for n"]
  have "add_pages [0..<pages_for n] mid d = (True, with_pages mid count (pages_for n) d)" by simp
  moreover have "0 < pages_for n" using assms(2) pages_for_bounds(1) [of n] by (cases "pages_for n") auto
  then have "greatest_allocated_page (metas (with_pages mid count (pages_for n) d) mid) \<noteq> - 1"
    by (simp add: with_pages_def)
  ultimately show ?thesis unfolding init_pages_def Let_def count by simp
qed

subsection \<open>Writing a node without synchronisation\<close>

lemma unsafe_insert_finds:
  assumes ls: "log_size m \<le> 30" and "k < SIZE_OF m" and "index m ((home py m hash + k) mod SIZE_OF m) = 0"
    and "\<forall>j<k. index m ((home py m hash + j) mod SIZE_OF m) \<noteq> 0" and "i \<le> k"
  shows "unsafe_insert_from py m hash pos i =
    Some (put_node ((home py m hash + k) mod SIZE_OF m) (insert_node py pos hash k) m)"
  using assms(5)
proof (induction "k - i" arbitrary: i)
  case 0
  then have "i = k" by simp
  have "unat ((distance0_of py hash m + of_nat k) AND size_mask m) = (home py m hash + k) mod SIZE_OF m"
    using mod_add_word [of "log_size m" "distance0_of py hash m" k] ls
    by (simp add: unat_and_size_mask home_def SIZE_OF_def)
  with assms(2,3) \<open>i = k\<close> show ?case
    by (subst unsafe_insert_from.simps)
      (simp add: Let_def read_node_at_slot [OF ls] home_def write_node_at_put insert_node_def)
next
  case (Suc n)
  then have "i < k" by simp
  with assms(2,4) have "unsafe_insert_from py m hash pos i = unsafe_insert_from py m hash pos (Suc i)"
    by (subst unsafe_insert_from.simps) (simp add: Let_def read_node_at_slot [OF ls] home_def)
  with Suc \<open>i < k\<close> show ?case by simp
qed

text \<open>A probe reaches the first empty slot.\<close>

lemma first_empty_on_probe:
  assumes "q < SIZE_OF m" and "index m q = 0" and "a < SIZE_OF m"
  obtains k where "k < SIZE_OF m" and "index m ((a + k) mod SIZE_OF m) = 0"
    and "\<forall>j<k. index m ((a + j) mod SIZE_OF m) \<noteq> 0"
proof -
  from ring_surj [OF SIZE_OF_pos assms(1,3)] obtain i where i: "i < SIZE_OF m" "q = (a + i) mod SIZE_OF m" by blast
  let ?P = "\<lambda>k. index m ((a + k) mod SIZE_OF m) = 0"
  have "?P i" using i(2) assms(2) by simp
  from LeastI [of ?P, OF this] Least_le [of ?P, OF this] i(1) not_less_Least [of _ ?P] show thesis
    by (intro that [of "LEAST k. ?P k"]) auto
qed

subsection \<open>The items\<close>

definition items_map :: "pyenv \<Rightarrow> (pyobj \<times> pyobj) list \<Rightarrow> pyobj \<Rightarrow> pyobj option" where
  "items_map py items = foldl (\<lambda>M (key, v). map_put py key (Some v) M) (\<lambda>_. None) items"

text \<open>
  What a Python dictionary gives: keys that have a hash and are not equal to each other.  The values
  are those that the other operations take.
\<close>

definition proper_items :: "pyenv \<Rightarrow> (pyobj \<times> pyobj) list \<Rightarrow> bool" where
  "proper_items py items \<longleftrightarrow>
     (\<forall>(key, v) \<in> set items. PyObject_Hash py key \<noteq> - 1 \<and> \<not> is_sentinel v) \<and>
     (\<forall>i j. i < j \<and> j < length items \<longrightarrow> \<not> same_key py (fst (items ! i)) (fst (items ! j)))"

definition item_entry :: "pyenv \<Rightarrow> (pyobj \<times> pyobj) list \<Rightarrow> nat \<Rightarrow> entry" where
  "item_entry py items l =
     (if l = 0 then zero_entry\<lparr>e_flags := ENTRY_FLAGS_RESERVED\<rparr>
      else if l \<le> length items then
        (case items ! (l - 1) of (key, v) \<Rightarrow>
           \<lparr>e_flags = ENTRY_FLAGS_RESERVED, e_hash = PyObject_Hash py key, e_key = Some key, e_value = Some v\<rparr>)
      else zero_entry)"

text \<open>A table into which some items have been loaded, into the entries from 1 on.\<close>

definition loaded :: "pyenv \<Rightarrow> (pyobj \<times> pyobj) list \<Rightarrow> heap \<Rightarrow> meta \<Rightarrow> bool" where
  "loaded py items h m \<longleftrightarrow>
     wf_index py h m \<and> length items < page_limit m * 128 \<and>
     (\<forall>l < page_limit m * 128. entry_at h m l = item_entry py items l) \<and>
     (\<forall>p < SIZE_OF m. live m p \<longrightarrow> unat (n_index (slot m p)) \<in> {1..length items}) \<and>
     (\<forall>l \<in> {1..length items}. \<exists>p < SIZE_OF m. live m p \<and> n_index (slot m p) = of_nat l) \<and>
     card (occupied m) = length items \<and> table_map py h m = items_map py items"

lemma loadedD:
  assumes "loaded py items h m"
  shows "wf_index py h m" and "length items < page_limit m * 128"
    and "\<And>l. l < page_limit m * 128 \<Longrightarrow> entry_at h m l = item_entry py items l"
    and "\<And>p. p < SIZE_OF m \<Longrightarrow> live m p \<Longrightarrow> unat (n_index (slot m p)) \<in> {1..length items}"
    and "\<And>l. l \<in> {1..length items} \<Longrightarrow> \<exists>p < SIZE_OF m. live m p \<and> n_index (slot m p) = of_nat l"
    and "card (occupied m) = length items" and "table_map py h m = items_map py items"
  using assms by (auto simp: loaded_def)

lemma items_map_snoc: "items_map py (items @ [(key, v)]) = map_put py key (Some v) (items_map py items)"
  by (simp add: items_map_def)

lemma items_map_None:
  assumes "\<forall>(k, v) \<in> set items. \<not> same_key py k key"
  shows "items_map py items key = None"
  using assms by (induction items rule: rev_induct) (auto simp: items_map_def map_put_def)

lemma item_entry_snoc:
  "item_entry py (items @ [(key, v)]) l =
     (if l = Suc (length items)
      then \<lparr>e_flags = ENTRY_FLAGS_RESERVED, e_hash = PyObject_Hash py key, e_key = Some key, e_value = Some v\<rparr>
      else item_entry py items l)"
  by (auto simp: item_entry_def nth_append)

text \<open>An entry that no node points at is no part of the table.\<close>

lemma unused_entry:
  assumes wf: "wf_index py h m" and l: "l < page_limit m * 128" and q: "get_entry_at (of_nat l) m = Some q"
    and unused: "\<forall>p<SIZE_OF m. live m p \<longrightarrow> unat (n_index (slot m p)) \<noteq> l"
  shows "wf_index py (h(q := e1)) m" and "table_map py (h(q := e1)) m = table_map py h m"
    and "x < page_limit m * 128 \<Longrightarrow> entry_at (h(q := e1)) m x = (if x = l then e1 else entry_at h m x)"
    and "unat (of_nat l :: u64) = l" and "l < SIZE_OF m" and "allocated m (of_nat l)"
proof -
  note pg = wf_pages [OF wf] and ls = wf_log_size_le [OF wf]
  note lim = page_limit_small(2) [OF pg ls]
  show ul: "unat (of_nat l :: u64) = l" using l lim by (intro unat_word_small) simp
  show "l < SIZE_OF m" using l page_limit_le [OF pg] by simp
  show al: "allocated m (of_nat l)" using allocated_location [OF pg, of l] l lim by simp
  show "entry_at (h(q := e1)) m x = (if x = l then e1 else entry_at h m x)" if "x < page_limit m * 128"
    by (rule entry_at_upd [OF pg l that lim q])
  have nal: "allocated m (n_index (slot m p))" if "p < SIZE_OF m" "live m p" for p
    using wf_node [OF wf that] by (simp add: node_ok_def)
  have ent: "entry_of (h(q := e1)) m p = entry_of h m p" if "p < SIZE_OF m" "live m p" for p
    using get_entry_at_inj [OF pg nal [OF that] al] unused that q ul by (intro entry_of_other) auto
  show "wf_index py (h(q := e1)) m" "table_map py (h(q := e1)) m = table_map py h m"
    by (rule same_table [OF wf refl refl pg ent nal]; assumption)+
qed

lemma loaded_unused:
  assumes "loaded py its h m"
  shows "\<forall>p<SIZE_OF m. live m p \<longrightarrow> unat (n_index (slot m p)) \<noteq> Suc (length its)"
  using loadedD(4) [OF assms] by fastforce

text \<open>The node of a new item is written to the first empty slot of its probe.\<close>

lemma unsafe_insert_new:
  assumes wf: "wf_index py h m" and "card (occupied m) + 1 < SIZE_OF m"
    and fresh: "fresh_entry py h m key v location" and none: "table_map py h m key = None"
    and hash: "hash = PyObject_Hash py key"
  obtains k p ptr where "insertable py h m key location ptr v k p"
    and "unsafe_insert py m hash location = Some (put_node p (insert_node py location hash k) m)"
proof -
  note ls = wf_log_size_le [OF wf]
  from wf_empty_slot [OF wf] obtain z where z: "z < SIZE_OF m" "index m z = 0" by blast
  from first_empty_on_probe [OF z home_lt [OF ls]] obtain k where
    k: "k < SIZE_OF m" "index m ((home py m hash + k) mod SIZE_OF m) = 0"
    "\<forall>j<k. index m ((home py m hash + j) mod SIZE_OF m) \<noteq> 0" by blast
  from none have "\<forall>p<SIZE_OF m. \<not> holds py h m key p" by (simp add: table_map_None)
  with insertable_fresh [OF fresh spare_of_room [OF assms(2)] ls k(1) _ refl] k(2,3) hash obtain ptr where
    "insertable py h m key location ptr v k ((home py m hash + k) mod SIZE_OF m)" by metis
  moreover have "unsafe_insert py m hash location =
      Some (put_node ((home py m hash + k) mod SIZE_OF m) (insert_node py location hash k) m)"
    unfolding unsafe_insert_def by (rule unsafe_insert_finds [OF ls k]) simp
  ultimately show thesis by (rule that)
qed

text \<open>The locations that the nodes point at, after one more.\<close>

lemma put_node_locations:
  assumes wf: "wf_index py h m" and ins: "insertable py h m key (of_nat l) ptr v k p" and l: "unat (of_nat l :: u64) = l"
    and m': "m' = put_node p (insert_node py (of_nat l) hash k) m"
  shows "occupied m' = insert p (occupied m)" and "p \<notin> occupied m" and "p < SIZE_OF m"
    and "x < SIZE_OF m \<Longrightarrow> live m' x \<Longrightarrow> unat (n_index (slot m' x)) = l \<or> live m x \<and> n_index (slot m' x) = n_index (slot m x)"
    and "live m' p" and "n_index (slot m' p) = of_nat l"
    and "live m x \<Longrightarrow> live m' x \<and> n_index (slot m' x) = n_index (slot m x)"
proof -
  note s = slot_inserted [OF wf ins, of hash, folded m']
  show p: "p < SIZE_OF m" "p \<notin> occupied m" using ins by (auto simp: insertable_def on_path_def occupied_def)
  show "n_index (slot m' p) = of_nat l" by (rule s(1))
  then show "live m' p" using ins by (simp add: live_iff insertable_def)
  show "occupied m' = insert p (occupied m)" using p s(4) by (auto simp: occupied_def m' index_put_node)
  show "unat (n_index (slot m' x)) = l \<or> live m x \<and> n_index (slot m' x) = n_index (slot m x)"
    if "x < SIZE_OF m" "live m' x"
    using that s(1) l by (cases "x = p") (simp_all add: m' live_put_node_other slot_put_node_other)
  show "live m' x \<and> n_index (slot m' x) = n_index (slot m x)" if "live m x"
  proof -
    have "x \<noteq> p" using that ins by (auto simp: insertable_def dest: live_not_empty)
    then show ?thesis using that by (simp add: m' live_put_node_other slot_put_node_other)
  qed
qed

text \<open>One more item is loaded.\<close>

lemma load_item:
  assumes L: "loaded py its h m" and wb: "well_behaved_keys py" and new: "\<forall>(k, x) \<in> set its. \<not> same_key py k key"
    and room: "Suc (length its) < page_limit m * 128" and hash: "hash = PyObject_Hash py key"
    and E: "E = \<lparr>e_flags = ENTRY_FLAGS_RESERVED, e_hash = hash, e_key = Some key, e_value = Some v\<rparr>"
  obtains q p k where "get_entry_at (of_nat (Suc (length its))) m = Some q"
    and "unsafe_insert py m hash (of_nat (Suc (length its))) =
           Some (put_node p (insert_node py (of_nat (Suc (length its))) hash k) m)"
    and "loaded py (its @ [(key, v)]) (h(q := E)) (put_node p (insert_node py (of_nat (Suc (length its))) hash k) m)"
proof -
  define l where "l = Suc (length its)"
  have l: "l < page_limit m * 128" using room by (simp add: l_def)
  note L' = loadedD [OF L] and pg = wf_pages [OF loadedD(1) [OF L]]
  obtain q where q: "get_entry_at (of_nat l) m = Some q"
    using get_entry_at_location [OF pg l page_limit_small(2) [OF pg wf_log_size_le [OF L'(1)]]] by blast
  note u = unused_entry(1-3) [where h = h and ?e1.0 = E, OF L'(1) l q loaded_unused [OF L, folded l_def]]
    unused_entry(4-6) [OF L'(1) l q loaded_unused [OF L, folded l_def]]
  have none: "table_map py (h(q := E)) m key = None" using items_map_None [OF new] by (simp add: u(2) L'(7))
  have "n_index (slot m p) \<noteq> of_nat l" if "p < SIZE_OF m" "live m p" for p
    using loaded_unused [OF L] that u(4) by (auto simp: l_def)
  moreover have "(of_nat l :: u64) \<noteq> 0" using u(4) by (auto simp: l_def)
  ultimately have fresh: "fresh_entry py (h(q := E)) m key v (of_nat l)"
    unfolding fresh_entry_def using q u(4-6) by (simp add: E hash)
  have "card (occupied m) + 1 < SIZE_OF m" using L'(6) u(5) by (simp add: l_def)
  from unsafe_insert_new [OF u(1) this fresh none hash] obtain k p ptr where
    ins: "insertable py (h(q := E)) m key (of_nat l) ptr v k p"
    and run: "unsafe_insert py m hash (of_nat l) = Some (put_node p (insert_node py (of_nat l) hash k) m)" .
  define m' where "m' = put_node p (insert_node py (of_nat l) hash k) m"
  note n = put_node_locations [OF u(1) ins u(4) m'_def]
  have f: "SIZE_OF m' = SIZE_OF m" "page_limit m' = page_limit m" by (simp_all add: m'_def page_limit_def)
  have "loaded py (its @ [(key, v)]) (h(q := E)) m'"
    unfolding loaded_def f
  proof (intro conjI allI ballI impI)
    show "wf_index py (h(q := E)) m'" unfolding m'_def hash by (rule insert_wf [OF u(1) wb ins])
    show "length (its @ [(key, v)]) < page_limit m * 128" using l by (simp add: l_def)
    have "finite (occupied m)" by (simp add: occupied_def)
    then show "card (occupied m') = length (its @ [(key, v)])" using n(1,2) L'(6) by simp
    show "table_map py (h(q := E)) m' = items_map py (its @ [(key, v)])"
      unfolding m'_def hash items_map_snoc using insert_map [OF u(1) wb ins] by (simp add: fun_eq_iff map_put_def u(2) L'(7))
  next
    fix x assume "x < page_limit m * 128"
    with u(3) [OF this] L'(3) [OF this] show "entry_at (h(q := E)) m' x = item_entry py (its @ [(key, v)]) x"
      unfolding item_entry_snoc by (simp add: entry_at_def m'_def l_def E hash)
  next
    fix x assume "x < SIZE_OF m" "live m' x"
    with n(4) [OF this] L'(4) [of x] show "unat (n_index (slot m' x)) \<in> {1..length (its @ [(key, v)])}"
      by (auto simp: l_def)
  next
    fix y assume "y \<in> {1..length (its @ [(key, v)])}"
    then have "y = l \<or> y \<in> {1..length its}" by (auto simp: l_def)
    then consider "y = l" | "y \<in> {1..length its}" by blast
    then show "\<exists>x<SIZE_OF m. live m' x \<and> n_index (slot m' x) = of_nat y"
      using n(3,5,6,7) L'(5) [of y] by cases metis+
  qed
  with q run show thesis unfolding l_def m'_def by (rule that)
qed

lemma proper_items_apart:
  "proper_items py items \<Longrightarrow> i < j \<Longrightarrow> j < length items \<Longrightarrow> \<not> same_key py (fst (items ! i)) (fst (items ! j))"
  unfolding proper_items_def by blast

lemma proper_itemsD:
  assumes "proper_items py (its @ (key, v) # rest)"
  shows "PyObject_Hash py key \<noteq> - 1" and "\<not> is_sentinel v" and "\<forall>(k, x) \<in> set its. \<not> same_key py k key"
proof -
  show "PyObject_Hash py key \<noteq> - 1" "\<not> is_sentinel v" using assms by (simp_all add: proper_items_def)
  have "\<not> same_key py (fst ((its @ (key, v) # rest) ! i)) (fst ((its @ (key, v) # rest) ! length its))"
    if "i < length its" for i
    by (rule proper_items_apart [OF assms that]) simp
  then have "\<not> same_key py (fst (its ! i)) key" if "i < length its" for i
    using that by (simp add: nth_append)
  then show "\<forall>(k, x) \<in> set its. \<not> same_key py k key"
    by (auto simp: in_set_conv_nth) (metis fst_conv)
qed

lemma init_items_run:
  assumes wb: "well_behaved_keys py" and "proper_items py (its @ rest)" and i: "i < length (accessors d)"
    and "loaded py its (entries d) (metas d mid)" and "dict_len d = int (length its)"
    and "length (its @ rest) < page_limit (metas d mid) * 128"
  shows "\<exists>k h m. init_items py i mid rest d =
      Some (ItemsDone (d\<lparr>dict_len := int (length (its @ rest)), entries := h, metas := (metas d)(mid := m),
        accessors := storage_inserted i k d\<rparr>)) \<and>
    m = (metas d mid)\<lparr>index := index m\<rparr> \<and> loaded py (its @ rest) h m"
  using assms(2-)
proof (induction rest arbitrary: its d)
  case Nil
  have "storage_inserted i (local_inserted (accessors d ! i)) d = accessors d"
    by (simp add: storage_inserted_def)
  with Nil have "init_items py i mid [] d =
      Some (ItemsDone (d\<lparr>dict_len := int (length (its @ [])), entries := entries d, metas := (metas d)(mid := metas d mid),
        accessors := storage_inserted i (local_inserted (accessors d ! i)) d\<rparr>))"
    by (simp add: Nil.prems(4) [symmetric])
  moreover have "metas d mid = (metas d mid)\<lparr>index := index (metas d mid)\<rparr>" by simp
  moreover have "loaded py (its @ []) (entries d) (metas d mid)" using Nil.prems(3) by simp
  ultimately show ?case by blast
next
  case (Cons item rest)
  obtain key v where item: "item = (key, v)" by (cases item)
  define hash where "hash = PyObject_Hash py key"
  define E where "E = \<lparr>e_flags = ENTRY_FLAGS_RESERVED, e_hash = hash, e_key = Some key, e_value = Some v\<rparr>"
  let ?m = "metas d mid" and ?loc = "of_nat (Suc (length its)) :: u64"
  note pr = proper_itemsD [OF Cons.prems(1) [unfolded item]]
  have "Suc (length its) < page_limit ?m * 128" using Cons.prems(5) by simp
  from load_item [OF Cons.prems(3) wb pr(3) this hash_def E_def] obtain q p k where
    q: "get_entry_at ?loc ?m = Some q" and ins: "unsafe_insert py ?m hash ?loc = Some (put_node p (insert_node py ?loc hash k) ?m)"
    and l1: "loaded py (its @ [(key, v)]) ((entries d)(q := E)) (put_node p (insert_node py ?loc hash k) ?m)" .
  define m1 where "m1 = put_node p (insert_node py ?loc hash k) ?m"
  have m1: "m1 = ?m\<lparr>index := index m1\<rparr>" "page_limit m1 = page_limit ?m" by (simp_all add: m1_def put_node_def page_limit_def)
  define d1 where "d1 = d\<lparr>dict_len := dict_len d + 1, entries := (entries d)(q := E), metas := (metas d)(mid := m1),
    accessors := storage_inserted i (local_inserted (accessors d ! i) + 1) d\<rparr>"
  have f: "entries d1 = (entries d)(q := E)" "metas d1 mid = m1" "dict_len d1 = dict_len d + 1"
    "accessors d1 = storage_inserted i (local_inserted (accessors d ! i) + 1) d" by (simp_all add: d1_def)
  have run: "init_items py i mid (item # rest) d = init_items py i mid rest d1"
    using pr(1) q ins unfolding item init_items.simps Let_def hash_def [symmetric] m1_def [symmetric]
    by (simp add: Cons.prems(4) add.commute upd_entry_def upd_meta_def upd_storage_def d1_def storage_inserted_def E_def)
  have "\<exists>k h m. init_items py i mid rest d1 =
      Some (ItemsDone (d1\<lparr>dict_len := int (length ((its @ [(key, v)]) @ rest)), entries := h, metas := (metas d1)(mid := m),
        accessors := storage_inserted i k d1\<rparr>)) \<and>
    m = (metas d1 mid)\<lparr>index := index m\<rparr> \<and> loaded py ((its @ [(key, v)]) @ rest) h m"
    using Cons.prems l1 [folded m1_def] m1(2)
    by (intro Cons.IH) (simp_all add: f item storage_inserted_def del: fun_upd_apply)
  then obtain k h m where r: "init_items py i mid rest d1 =
      Some (ItemsDone (d1\<lparr>dict_len := int (length ((its @ [(key, v)]) @ rest)), entries := h, metas := (metas d1)(mid := m),
        accessors := storage_inserted i k d1\<rparr>))" "m = (metas d1 mid)\<lparr>index := index m\<rparr>"
    "loaded py ((its @ [(key, v)]) @ rest) h m" by blast
  have "m = ?m\<lparr>index := index m\<rparr>" using r(2) m1(1) by (simp add: d1_def) (metis meta.surjective meta.update_convs(2))
  moreover have "storage_inserted i k d1 = storage_inserted i k d"
    using Cons.prems(2) by (simp add: storage_inserted_def d1_def)
  ultimately show ?case
    using r(1,3) unfolding run by (intro exI [of _ k] exI [of _ h] exI [of _ m])
      (simp add: d1_def item del: fun_upd_apply)
qed

subsection \<open>The table before the items\<close>

lemma loaded_Nil:
  assumes "log_size_ok m" and pg: "pages_ok m" and empty: "\<forall>p < SIZE_OF m. index m p = 0"
    and ent: "\<And>l. l < page_limit m * 128 \<Longrightarrow> entry_at h m l = item_entry py [] l"
  shows "loaded py [] h m"
proof -
  have dead: "\<not> live m p" if "p < SIZE_OF m" for p using empty that by (auto dest: live_not_empty)
  then have none: "\<not> holds py h m key p" if "p < SIZE_OF m" for key p
    using that by (auto simp: holds_def)
  have "wf_index py h m"
    unfolding wf_index_def using assms(1) pg empty dead none SIZE_OF_pos by blast
  moreover have "table_map py h m key = None" for key using none by (simp add: table_map_None)
  then have "table_map py h m = items_map py []" by (auto simp: items_map_def)
  moreover have "occupied m = {}" using empty by (auto simp: occupied_def)
  moreover have "0 < page_limit m" using pg by (simp add: page_limit_def pages_ok_def)
  ultimately show ?thesis unfolding loaded_def using ent dead by simp
qed

lemma with_pages_meta:
  assumes k: "0 < k" "k \<le> page_count (metas d mid)"
    and m: "m = metas (with_pages mid (page_count (metas d mid)) k d) mid"
  shows "pages_ok m" and "page_limit m = k" and "l < k * 128 \<Longrightarrow> l < 2 ^ 62 \<Longrightarrow>
      get_entry_at (of_nat l) m = Some (next_page d + l div 128, l mod 128)"
    and "l < k * 128 \<Longrightarrow> l < 2 ^ 62 \<Longrightarrow> entry_at (entries (with_pages mid (page_count (metas d mid)) k d)) m l = zero_entry"
proof -
  have f: "greatest_allocated_page m = int k - 1" "pages m = page_table (next_page d) (page_count (metas d mid)) k"
    "page_count m = page_count (metas d mid)"
    by (simp_all add: m with_pages_def page_count_def SIZE_OF_def)
  then show lim: "page_limit m = k" by (simp add: page_limit_def)
  show pg: "pages_ok m" using k by (auto simp: pages_ok_def f page_table_def)
  assume l: "l < k * 128" "l < 2 ^ 62"
  then have "l div 128 < k" by (simp add: div_less_iff_less_mult)
  moreover from l entry_at_get [OF pg _ l(2)] obtain q where
    "pages m (l div 128) = Page q" "get_entry_at (of_nat l) m = Some (q, l mod 128)" by (auto simp: f)
  ultimately show g: "get_entry_at (of_nat l) m = Some (next_page d + l div 128, l mod 128)"
    by (simp add: f page_table_def)
  from \<open>l div 128 < k\<close> show "entry_at (entries (with_pages mid (page_count (metas d mid)) k d)) m l = zero_entry"
    unfolding entry_at_def g by (simp add: with_pages_def zeroed_pages_def)
qed

subsection \<open>The locations that are left\<close>

lemma chunk_head_le_iff: "0 < bs \<Longrightarrow> chunk_head bs l \<le> n \<longleftrightarrow> l < chunk_head bs n + bs"
proof -
  assume bs: "0 < bs"
  have "chunk_head bs l \<le> n \<longleftrightarrow> l div bs \<le> n div bs"
    using bs by (simp add: chunk_head_def less_eq_div_iff_mult_less_eq mult.commute)
  also have "\<dots> \<longleftrightarrow> l div bs < Suc (n div bs)" by (rule less_Suc_eq_le [symmetric])
  also have "\<dots> \<longleftrightarrow> l < chunk_head bs n + bs"
    using bs by (simp add: chunk_head_def div_less_iff_less_mult algebra_simps)
  finally show ?thesis .
qed

lemma end_of_chunk:
  assumes "chunk_size bs" and "n < P * 128"
  shows "n + 1 \<le> chunk_head bs n + bs" and "chunk_head bs n + bs \<le> P * 128"
proof -
  note b = chunk_head_bounds [OF chunk_size_pos [OF assms(1)], of n]
  show "n + 1 \<le> chunk_head bs n + bs" using b(2) by simp
  have "bs dvd P * 128" using chunk_size_dvd [OF assms(1)] by (rule dvd_mult)
  with b assms(2) show "chunk_head bs n + bs \<le> P * 128" by (intro multiple_gap) simp_all
qed

text \<open>The rest of the last chunk of the items is in the buffer, and the chunks after it are not reserved.\<close>

lemma loaded_alloc_ok:
  assumes L: "loaded py items h m" and bs: "chunk_size bs"
    and buf: "buffered b = {length items + 1 ..< chunk_head bs (length items) + bs}" "unat (rb_used b) \<le> unat (rb_size b)"
    and "page_limit m < page_count m \<Longrightarrow> pages m (page_limit m) = Null" and "\<And>i p. pages m i = Page p \<Longrightarrow> p < e"
  shows "alloc_ok bs h e m [b]"
proof -
  let ?n = "length items"
  note L' = loadedD [OF L]
  note pg = wf_pages [OF L'(1)] and pos = chunk_size_pos [OF bs]
  note ch = end_of_chunk [OF bs L'(2)] and lim = page_limit_le [OF pg]
  have flag: "e_flags (entry_at h m l) = (if l \<le> ?n then ENTRY_FLAGS_RESERVED else 0)" if "l < page_limit m * 128" for l
    unfolding L'(3) [OF that] by (simp add: item_entry_def zero_entry_def split: prod.splits)
  have nz: "ENTRY_FLAGS_RESERVED \<noteq> 0" by (simp add: ENTRY_FLAGS_RESERVED_def)
  have res: "reserved_at bs h m l \<longleftrightarrow> l < chunk_head bs ?n + bs" if "l < page_limit m * 128" for l
    using flag [of "chunk_head bs l"] chunk_head_le [of bs l] that nz
    by (simp add: reserved_at_def chunk_head_le_iff [OF pos, symmetric])
  have un: "unreserved bs h m = {chunk_head bs ?n + bs ..< page_limit m * 128}"
    using res by (auto simp: unreserved_def)
  have av: "available bs h m [b] = {?n + 1 ..< SIZE_OF m}"
    using ch lim by (auto simp: available_def un beyond_def buf(1))
  have "buffers_ok bs h m [b]"
    using ch buf res by (auto simp: buffers_ok_def)
  moreover have "reserved_at bs h m 0" using res [of 0] L'(2) pos by simp
  moreover have "flags_ok h m" using flag by (simp add: flags_ok_def)
  moreover have "unat (n_index (slot m p)) \<notin> available bs h m [b]" if "p \<in> occupied m" "live m p" for p
    using L'(4) [of p] that by (auto simp: av occupied_def)
  moreover have "card (occupied m) + card (available bs h m [b]) < SIZE_OF m"
    unfolding av L'(6) using L'(2) lim by simp
  moreover have "\<exists>p<SIZE_OF m. live m p \<and> n_index (slot m p) = of_nat l"
    if "l < page_limit m * 128" "has_value h m l" for l
  proof -
    have "l \<in> {1..?n}" using that L'(3) [OF that(1)]
      by (auto simp: has_value_def item_entry_def zero_entry_def split: if_splits)
    then show ?thesis by (rule L'(5))
  qed
  ultimately show ?thesis
    unfolding alloc_ok_def using bs pg wf_log_size_le [OF L'(1)] assms(5,6) by blast
qed

lemma unat_small_u8: "n \<le> 64 \<Longrightarrow> unat (of_nat n :: u8) = n"
  by (simp add: unat_of_nat take_bit_nat_eq_self)

text \<open>What \<open>init_buffer\<close> puts into the buffer when the last item is not at the end of its chunk.\<close>

lemma init_buffer_rest:
  assumes bs: "chunk_size (rbs d)" and n: "dict_len d = int n" "n < page_limit (metas d mid) * 128"
    and "\<not> rbs d dvd n + 1" and pg: "pages_ok (metas d mid)" and small: "page_limit (metas d mid) * 128 \<le> 2 ^ 62"
  shows "\<exists>a u. init_buffer i mid d = upd_storage i (\<lambda>s. s\<lparr>rb := reservation_buffer_put (rb s) a u\<rparr>) d \<and>
    unat a = n + 1 \<and> unat u = chunk_head (rbs d) n + rbs d - (n + 1)"
proof -
  define bs where "bs = rbs d"
  let ?m = "metas d mid" and ?c = "chunk_head bs n"
  note ch = end_of_chunk [OF assms(1) n(2), folded bs_def] and pos = chunk_size_pos [OF assms(1), folded bs_def]
  note hb = chunk_head_bounds [OF pos, of n]
  have "n + 1 \<noteq> ?c + bs" using assms(4) hb(3) by (metis bs_def dvd_add_right_iff dvd_refl add.commute)
  with ch have lt: "n + 1 < ?c + bs" "n + 1 < page_limit ?m * 128" by simp_all
  have page: "int (unat (page_of (of_int (int x)))) \<le> greatest_allocated_page ?m" if "x < page_limit ?m * 128" for x
  proof -
    have "x div 128 < page_limit ?m" using that by (simp add: div_less_iff_less_mult)
    moreover have "unat (page_of (of_int (int x))) = x div 128"
      using that small unat_word_small [of x] by (simp add: unat_page_of)
    ultimately show ?thesis by (simp add: page_limit_def)
  qed
  define w :: u64 where "w = of_int (dict_len d + 1)"
  have w: "unat w = n + 1" using unat_word_small [of "n + 1"] lt(2) small n(1) by (simp add: w_def add.commute)
  have "bs * (n div bs) \<le> n + 1" using hb(1) unfolding chunk_head_def by linarith
  moreover have "n + 1 < bs * Suc (n div bs)" using lt(1) by (simp add: chunk_head_def)
  ultimately have "(n + 1) div bs = n div bs" by (rule div_nat_eqI)
  then have "(n + 1) mod bs = n + 1 - ?c"
    by (simp add: minus_div_mult_eq_mod [symmetric] chunk_head_def mult.commute)
  with hb(1) lt(1) have mod: "bs - (n + 1) mod bs = ?c + bs - (n + 1)" by arith
  define u where "u = ?c + bs - (n + 1)"
  have u: "0 < u" "u \<le> 64" using lt hb(1) chunk_size_le [OF assms(1)] by (auto simp: u_def bs_def)
  have fin: "dict_len d + int u = int (?c + bs - 1)" "?c + bs - 1 < page_limit ?m * 128"
    using n(1) lt ch by (simp_all add: u_def of_nat_diff)
  have "shrink_reservation (dict_len d) ?m u = u"
    using u(1) page [OF fin(2)] by (intro shrink_reservation_all) (simp_all only: fin(1))
  moreover have "int (unat (page_of w)) \<le> greatest_allocated_page ?m"
    using page [OF lt(2)] n(1) by (simp add: w_def add.commute)
  ultimately have "init_buffer i mid d = upd_storage i (\<lambda>s. s\<lparr>rb := reservation_buffer_put (rb s) w (of_nat u)\<rparr>) d"
    using u(1) unfolding init_buffer_def Let_def w_def [symmetric] w bs_def [symmetric] mod u_def [symmetric] by simp
  then show ?thesis
    using w unat_small_u8 [OF u(2)] unfolding bs_def [symmetric] u_def [symmetric] by blast
qed

subsection \<open>One attempt\<close>

text \<open>The dictionary with new metadata and the accessor of the initialising thread.\<close>

definition started :: "nat \<Rightarrow> heap \<Rightarrow> meta \<Rightarrow> nat \<Rightarrow> dict \<Rightarrow> dict" where
  "started tid h m k d =
     d\<lparr>next_meta := Suc (next_meta d), metas := (metas d)(next_meta d := m), entries := h,
       next_page := next_page d + k, sync_op := False, accessors_lock := False, dict_len := 0, len_dirty := False,
       accessors := [zero_storage\<lparr>st_meta := metadata d\<rparr>], thread_storage := (thread_storage d)(tid := Some 0)\<rparr>"

text \<open>What is said of the new metadata beside the index: its pages are the last ones.\<close>

definition new_pages :: "nat \<Rightarrow> meta \<Rightarrow> bool" where
  "new_pages e m \<longleftrightarrow> quiet_meta m \<and> (page_limit m < page_count m \<longrightarrow> pages m (page_limit m) = Null) \<and>
     (\<forall>i p. pages m i = Page p \<longrightarrow> p < e)"

lemma new_pages_index:
  assumes "new_pages e m" and "m' = m\<lparr>index := f\<rparr>"
  shows "new_pages e m'" and "log_size m' = log_size m" and "page_limit m' = page_limit m"
  using assms by (simp_all add: new_pages_def quiet_meta_def page_limit_def page_count_def SIZE_OF_def)

lemma attempt_starts:
  assumes mem: "allocations d = []" and acc: "accessors d = []" "thread_storage d tid = None"
    and N: "0 < N" "pages_for N \<le> 2 ^ ls div 128" and ls: "7 \<le> ls" "ls \<le> 30"
  shows "\<exists>h m. init_attempt py tid (Some items) ls N d =
      (let d' = started tid h m (pages_for N) d in
       if items = [] then Some (ItemsDone (upd_storage 0 (\<lambda>s. s\<lparr>rb :=
           reservation_buffer_put (rb s) 1 (reservation_buffer_size d - 1)\<rparr>) d'), next_meta d)
       else map_option (\<lambda>r. (case r of ItemsDone d1 \<Rightarrow> ItemsDone (init_buffer 0 (next_meta d) d1) | r \<Rightarrow> r, next_meta d))
         (init_items py 0 (next_meta d) items d')) \<and>
    loaded py [] h m \<and> log_size m = ls \<and> page_limit m = pages_for N \<and> new_pages (next_page d + pages_for N) m"
proof -
  let ?M = "next_meta d" and ?k = "pages_for N"
  from AtomicDictMeta_New_ok [OF mem] obtain m0 where
    m0: "AtomicDictMeta_New ls d = Some (Some ?M, d\<lparr>next_meta := Suc ?M, metas := (metas d)(?M := m0)\<rparr>)"
    "log_size m0 = ls" "quiet_meta m0" by blast
  define m1 where "m1 = (meta_clear_index m0)\<lparr>pages := (\<lambda>_. Uninit)(0 := Null), greatest_allocated_page := - 1\<rparr>"
  define d1 where "d1 = d\<lparr>next_meta := Suc ?M, metas := (metas d)(?M := m1)\<rparr>"
  have d1: "allocations d1 = []" "metas d1 ?M = m1" "next_page d1 = next_page d" by (simp_all add: d1_def mem)
  have "allocations (d\<lparr>next_meta := Suc ?M, metas := (metas d)(?M := m0)\<rparr>) = []" by (simp add: mem)
  then have init1: "meta_init_pages ?M (upd_meta ?M meta_clear_index
      (d\<lparr>next_meta := Suc ?M, metas := (metas d)(?M := m0)\<rparr>)) = (True, d1)"
    by (simp add: meta_init_pages_def allocate_def upd_meta_def d1_def m1_def)
  have m1: "pages m1 = (\<lambda>_. Uninit)(0 := Null)" "greatest_allocated_page m1 = - 1" "log_size m1 = ls"
    "quiet_meta m1" "\<forall>p<SIZE_OF m1. index m1 p = 0"
    using m0 by (simp_all add: m1_def meta_clear_index_def quiet_meta_def SIZE_OF_def)
  have count: "page_count m1 = 2 ^ ls div 128" by (simp add: page_count_def SIZE_OF_def m1(3) layout_consts)
  then have "page_count m1 = 2 ^ log_size (metas d1 ?M) div 2 ^ ATOMIC_DICT_LOG_ENTRIES_IN_PAGE"
    by (simp add: d1 m1 layout_consts)
  note pages = init_pages_run [OF d1(1) N(1) _ _ this, unfolded d1(2), OF m1(1,2)]
  define d2 where "d2 = with_pages ?M (page_count m1) ?k d1"
  define m2 where "m2 = metas d2 ?M"
  have k: "0 < ?k" "?k \<le> page_count (metas d1 ?M)"
    using N pages_for_bounds(1) [of N] count by (auto simp: d1(2) intro: Nat.gr0I)
  note wp = with_pages_meta [OF k, unfolded d1, OF m2_def [unfolded d2_def], folded d2_def]
  have m2: "m2 = m1\<lparr>pages := page_table (next_page d) (page_count m1) ?k, greatest_allocated_page := int ?k - 1\<rparr>"
    by (simp add: m2_def d2_def with_pages_def d1)
  have lm: "log_size m2 = ls" "quiet_meta m2" "\<forall>p<SIZE_OF m2. index m2 p = 0"
    using m1 by (simp_all add: m2 quiet_meta_def SIZE_OF_def)
  have pg2: "pages m2 = page_table (next_page d) (page_count m1) ?k" "page_count m2 = page_count m1"
    by (simp_all add: m2 page_count_def SIZE_OF_def)
  define q0 :: entry_ptr where "q0 = (next_page d, 0)"
  define h where "h = (entries d2)(q0 := (entries d2 q0)\<lparr>e_flags := e_flags (entries d2 q0) OR ENTRY_FLAGS_RESERVED\<rparr>)"
  have q0: "get_entry_at 0 m2 = Some q0" using wp(3) [of 0] k(1) by (simp add: q0_def)
  have D: "d2\<lparr>sync_op := False, accessors_lock := False, dict_len := 0, len_dirty := False,
      accessors := [zero_storage\<lparr>st_meta := metadata d\<rparr>], thread_storage := (thread_storage d)(tid := Some 0),
      entries := h\<rparr> = started tid h m2 ?k d"
    by (simp add: d2_def with_pages_def d1_def started_def m2 d1 acc)
  have lim: "?k * 128 \<le> 2 ^ 62"
    using k(2) page_limit_le [OF wp(1)] SIZE_small [of m2] ls(2) by (simp add: wp(2) lm(1))
  have "loaded py [] h m2"
  proof (rule loaded_Nil)
    show "log_size_ok m2" using ls by (simp add: log_size_ok_def lm(1) layout_consts)
    fix l assume l: "l < page_limit m2 * 128"
    have "entry_at h m2 l = (if l = 0 then (entries d2 q0)\<lparr>e_flags := e_flags (entries d2 q0) OR ENTRY_FLAGS_RESERVED\<rparr>
        else entry_at (entries d2) m2 l)"
      unfolding h_def using l lim k(1) q0 by (intro entry_at_upd [OF wp(1)]) (simp_all add: wp(2))
    moreover have "entry_at (entries d2) m2 l = zero_entry" "entry_at (entries d2) m2 0 = zero_entry"
      using l lim wp(4) k(1) by (simp_all add: wp(2))
    ultimately show "entry_at h m2 l = item_entry py [] l"
      using q0 by (simp add: item_entry_def entry_at_def zero_entry_def)
  qed (use wp(1) lm in auto)
  moreover have "new_pages (next_page d + ?k) m2"
    using lm(2) k by (auto simp: new_pages_def wp(2) pg2 page_table_def split: if_splits)
  moreover have "init_attempt py tid (Some items) ls N d =
      (let d' = started tid h m2 ?k d in
       if items = [] then Some (ItemsDone (upd_storage 0 (\<lambda>s. s\<lparr>rb :=
           reservation_buffer_put (rb s) 1 (reservation_buffer_size d - 1)\<rparr>) d'), next_meta d)
       else map_option (\<lambda>r. (case r of ItemsDone d1 \<Rightarrow> ItemsDone (init_buffer 0 (next_meta d) d1) | r \<Rightarrow> r, next_meta d))
         (init_items py 0 (next_meta d) items d'))"
  proof -
    let ?d = "d2\<lparr>sync_op := False, accessors_lock := False, dict_len := 0, len_dirty := False\<rparr>"
    let ?d' = "?d\<lparr>accessors := [zero_storage\<lparr>st_meta := metadata d\<rparr>], thread_storage := (thread_storage d)(tid := Some 0)\<rparr>"
    have same: "allocations d2 = []" "accessors d2 = []" "thread_storage d2 = thread_storage d" "metadata d2 = metadata d"
      by (simp_all add: d2_def with_pages_def d1_def mem acc)
    have "get_or_create_accessor_storage tid ?d = Some (Some 0, ?d')"
      using same acc by (simp add: get_or_create_accessor_storage_def allocate_def Let_def)
    moreover have "upd_storage 0 (\<lambda>s. s\<lparr>local_inserted := 0\<rparr>) ?d' = ?d'"
      by (simp add: upd_storage_def zero_storage_def)
    moreover have "reserve_entry_0 ?M ?d' = Some (started tid h m2 ?k d)"
      using q0 unfolding reserve_entry_0_def D [symmetric]
      by (simp add: m2_def [symmetric] upd_entry_def h_def)
    moreover have "reservation_buffer_size (started tid h m2 ?k d) = reservation_buffer_size d"
      by (simp add: started_def)
    ultimately show ?thesis
      unfolding init_attempt_def m0(1) option.case prod.case init1 bool.case pages d2_def [symmetric]
      by (simp add: Let_def del: init_items.simps split: list.split)
  qed
  ultimately show ?thesis using lm(1) wp(2) by blast
qed

subsection \<open>The dictionary after the initialisation\<close>

definition finished :: "nat \<Rightarrow> heap \<Rightarrow> meta \<Rightarrow> nat \<Rightarrow> nat \<Rightarrow> storage \<Rightarrow> dict \<Rightarrow> dict" where
  "finished tid h m k n s d = (started tid h m k d)\<lparr>dict_len := int n, accessors := [s]\<rparr>"

lemma items_map_Some: "items_map py items key = Some v \<Longrightarrow> \<exists>k. (k, v) \<in> set items"
  by (induction items rule: rev_induct) (auto simp: items_map_def map_put_def split: if_splits)

lemma loaded_value_locations: "loaded py items h m \<Longrightarrow> value_locations h m = {1..length items}"
  using loadedD(2,3) [of py items h m]
  by (auto simp: value_locations_def has_value_def item_entry_def zero_entry_def split: prod.splits if_splits)

lemma finished_ok:
  assumes L: "loaded py items h m" and "proper_items py items" and bs: "chunk_size (rbs d)"
    and new: "new_pages (next_page d + k) m" and "thread_storage d = (\<lambda>_. None)"
    and s: "buffered (rb s) = {length items + 1 ..< chunk_head (rbs d) (length items) + rbs d}"
      "unat (rb_used (rb s)) \<le> unat (rb_size (rb s))" "local_len s = 0"
  shows "table_ok py (next_meta d) ((finished tid h m k (length items) s d)\<lparr>metadata := MetaAt (next_meta d)\<rparr>)"
proof -
  have "proper_values py h m"
    using assms(2) items_map_Some [of py items] unfolding proper_values_def loadedD(7) [OF L]
    by (fastforce simp: proper_items_def)
  moreover have "alloc_ok (rbs d) h (next_page d + k) m [rb s]"
    using new by (intro loaded_alloc_ok [OF L bs s(1,2)]) (auto simp: new_pages_def)
  ultimately show ?thesis
    using loadedD(1) [OF L] loaded_value_locations [OF L] new assms(5) s(3)
    by (simp add: table_ok_def finished_def started_def new_pages_def len_ok_def approx_len_def
        sum_of_accessors_len_def)
qed

lemma attempt_done:
  assumes wb: "well_behaved_keys py" and proper: "proper_items py items" and bs: "chunk_size (rbs d)"
    and rest: "items = [] \<or> \<not> rbs d dvd length items + 1" and mem: "allocations d = []"
    and acc: "accessors d = []" "thread_storage d = (\<lambda>_. None)"
    and N: "0 < N" "pages_for N \<le> 2 ^ ls div 128" "length items < pages_for N * 128" and ls: "7 \<le> ls" "ls \<le> 30"
  shows "\<exists>h m s. init_attempt py tid (Some items) ls N d =
      Some (ItemsDone (finished tid h m (pages_for N) (length items) s d), next_meta d) \<and>
    table_ok py (next_meta d)
      ((finished tid h m (pages_for N) (length items) s d)\<lparr>metadata := MetaAt (next_meta d)\<rparr>) \<and>
    table_map py h m = items_map py items \<and> log_size m = ls \<and> \<not> self_mutex s \<and> local_len s = 0"
proof -
  let ?k = "pages_for N" and ?M = "next_meta d"
  from attempt_starts [OF mem acc(1) _ N(1,2) ls] acc(2) obtain h m where
    run: "init_attempt py tid (Some items) ls N d =
      (let d' = started tid h m ?k d in
       if items = [] then Some (ItemsDone (upd_storage 0 (\<lambda>s. s\<lparr>rb :=
           reservation_buffer_put (rb s) 1 (reservation_buffer_size d - 1)\<rparr>) d'), ?M)
       else map_option (\<lambda>r. (case r of ItemsDone d1 \<Rightarrow> ItemsDone (init_buffer 0 ?M d1) | r \<Rightarrow> r, ?M))
         (init_items py 0 ?M items d'))"
    and L: "loaded py [] h m" and m: "log_size m = ls" "page_limit m = ?k" and new: "new_pages (next_page d + ?k) m"
    by force
  let ?d = "started tid h m ?k d" and ?s = "zero_storage\<lparr>st_meta := metadata d\<rparr>"
  have f: "entries ?d = h" "metas ?d ?M = m" "dict_len ?d = 0" "accessors ?d = [?s]"
    "reservation_buffer_size ?d = reservation_buffer_size d" by (simp_all add: started_def)
  show ?thesis
  proof (cases "items = []")
    case True
    define s where "s = ?s\<lparr>rb := reservation_buffer_put (rb ?s) 1 (reservation_buffer_size d - 1)\<rparr>"
    have "unat (reservation_buffer_size d - 1) = rbs d - 1"
      using chunk_size_pos [OF bs] by (intro unat_minus_one) auto
    then have "buffered (rb s) = {1 ..< rbs d}" "unat (rb_used (rb s)) \<le> unat (rb_size (rb s))" "local_len s = 0"
      "\<not> self_mutex s"
      using chunk_size_pos [OF bs]
      by (auto simp: s_def buffered_def reservation_buffer_put_def zero_storage_def)
    moreover have "init_attempt py tid (Some items) ls N d = Some (ItemsDone (finished tid h m ?k (length items) s d), ?M)"
      using True unfolding run by (simp add: f s_def upd_storage_def finished_def started_def Let_def)
    ultimately show ?thesis
      using finished_ok [OF L _ bs new acc(2), of s tid] True proper m loadedD(7) [OF L]
      by (intro exI [of _ h] exI [of _ m] exI [of _ s]) (simp add: chunk_head_def)
  next
    case False
    have "loaded py [] (entries ?d) (metas ?d ?M)" "length ([] @ items) < page_limit (metas ?d ?M) * 128"
      using L N(3) m(2) by (simp_all add: f)
    from init_items_run [OF wb _ _ this(1) _ this(2), of 0] proper obtain j h' m' where
      r: "init_items py 0 ?M items ?d = Some (ItemsDone (?d\<lparr>dict_len := int (length items), entries := h',
          metas := (metas ?d)(?M := m'), accessors := storage_inserted 0 j ?d\<rparr>))"
      "m' = m\<lparr>index := index m'\<rparr>" "loaded py items h' m'" by (auto simp: f)
    let ?d1 = "?d\<lparr>dict_len := int (length items), entries := h',
          metas := (metas ?d)(?M := m'), accessors := storage_inserted 0 j ?d\<rparr>"
    note m' = new_pages_index [OF new r(2)] and pg = wf_pages [OF loadedD(1) [OF r(3)]]
    have lim: "page_limit m' * 128 \<le> 2 ^ 62"
      using page_limit_le [OF pg] SIZE_small [of m'] ls(2) m(1) m'(2) by simp
    have "\<exists>a u. init_buffer 0 ?M ?d1 = upd_storage 0 (\<lambda>s. s\<lparr>rb := reservation_buffer_put (rb s) a u\<rparr>) ?d1 \<and>
      unat a = length items + 1 \<and> unat u = chunk_head (rbs ?d1) (length items) + rbs ?d1 - (length items + 1)"
      using bs loadedD(2) [OF r(3)] rest False pg lim by (intro init_buffer_rest) (simp_all add: f)
    then obtain a u where b: "init_buffer 0 ?M ?d1 = upd_storage 0 (\<lambda>s. s\<lparr>rb := reservation_buffer_put (rb s) a u\<rparr>) ?d1"
      "unat a = length items + 1" "unat u = chunk_head (rbs d) (length items) + rbs d - (length items + 1)"
      by (auto simp: f)
    define s where "s = ?s\<lparr>local_inserted := j, rb := reservation_buffer_put (rb ?s) a u\<rparr>"
    have "init_buffer 0 ?M ?d1 = finished tid h' m' ?k (length items) s d"
      unfolding b(1) by (simp add: upd_storage_def storage_inserted_def f s_def finished_def started_def)
    then have "init_attempt py tid (Some items) ls N d = Some (ItemsDone (finished tid h' m' ?k (length items) s d), ?M)"
      unfolding run Let_def r(1) using False by simp
    moreover have "buffered (rb s) = {length items + 1 ..< chunk_head (rbs d) (length items) + rbs d}"
      "unat (rb_used (rb s)) \<le> unat (rb_size (rb s))" "local_len s = 0" "\<not> self_mutex s"
      using b(2,3) end_of_chunk(1) [OF bs loadedD(2) [OF r(3)]]
      by (auto simp: s_def buffered_def reservation_buffer_put_def zero_storage_def)
    ultimately show ?thesis
      using finished_ok [OF r(3) proper bs m'(1) acc(2), of s tid] m m'(2) loadedD(7) [OF r(3)]
      by (intro exI [of _ h'] exI [of _ m'] exI [of _ s]) simp
  qed
qed

subsection \<open>The initialisation\<close>

lemma log_size_for_enough: "0 < n \<Longrightarrow> n \<le> 2 ^ log_size_for n"
  using shift_log_bounds [of n] by (auto simp: log_size_for_def)

lemma init_sizes_bounds:
  assumes "init_sizes n min_arg buf_arg = Inr sz"
  shows "7 \<le> sz_log_size sz" and "sz_init_dict_size sz = init_dict_size_of n"
    and "init_dict_size_of n \<le> 2 ^ sz_log_size sz" and "chunk_size (unat (sz_buffer_size sz))"
proof -
  from assms obtain lo bs where bs: "bs \<in> set buffer_sizes"
    and sz: "sz = \<lparr>sz_min_log_size = log_size_for (max lo 128),
      sz_log_size = max (log_size_for (max lo 128)) (log_size_for (init_dict_size_of n)),
      sz_buffer_size = of_int bs, sz_init_dict_size = init_dict_size_of n\<rparr>"
    by (auto simp: init_sizes_def Let_def layout_consts split: sum.splits if_splits)
  then show "sz_init_dict_size sz = init_dict_size_of n" by simp
  have "0 < init_dict_size_of n" by (cases n) (auto simp: init_dict_size_of_def Let_def)
  from log_size_for_enough [OF this]
  have "init_dict_size_of n \<le> 2 ^ log_size_for (init_dict_size_of n)" .
  also have "\<dots> \<le> 2 ^ sz_log_size sz" by (intro power_increasing) (simp_all add: sz)
  finally show "init_dict_size_of n \<le> 2 ^ sz_log_size sz" .
  have "max lo 128 \<le> 2 ^ log_size_for (max lo 128)" by (rule log_size_for_enough) simp
  then have "(2::nat) ^ 7 \<le> 2 ^ log_size_for (max lo 128)" by simp
  then have "7 \<le> log_size_for (max lo 128)" by (subst (asm) power_increasing_iff) simp_all
  then show "7 \<le> sz_log_size sz" by (simp add: sz)
  have "\<exists>j\<le>6. bs = 2 ^ j"
  proof -
    have "\<exists>j \<in> set [0..<7]. bs = 2 ^ j" using bs by (auto simp: buffer_sizes_def upt_rec)
    then show ?thesis by (auto intro: less_Suc_eq_le [THEN iffD1])
  qed
  then obtain j where j: "j \<le> 6" "bs = 2 ^ j" by blast
  then have "unat (sz_buffer_size sz) = 2 ^ j" using unat_power_u8 [OF j(1)] by (simp add: sz)
  with j(1) show "chunk_size (unat (sz_buffer_size sz))" by (auto simp: chunk_size_def)
qed

text \<open>
  C14: The initialisation with the items of a dictionary, whose keys are different from each other,
  succeeds and leaves a dictionary that satisfies the invariant of all operations, that stands for the
  map of these items and whose length is their number, unless the entry after the last item begins a
  chunk (or the table would have more than 2 ^ 30 slots).
\<close>

theorem init_makes_the_map:
  assumes "well_behaved_keys py" and "proper_items py items"
    and "init_sizes (length items) min_arg buf_arg = Inr sz" and "sz_log_size sz + n \<le> 30"
    and "items = [] \<or> \<not> unat (sz_buffer_size sz) dvd length items + 1"
  shows "\<exists>d. AtomicDict_init py tid (Some items) True min_arg buf_arg (AtomicDict_new ms h) = Some (Inr (), d) \<and>
    dict_ok py n d \<and> dict_map py d = items_map py items \<and> approx_len d = int (length items)"
proof -
  note sz = init_sizes_bounds [OF assms(3)]
  let ?N = "sz_init_dict_size sz"
  define d where "d = (AtomicDict_new ms h)\<lparr>metadata := MetaTrue, reservation_buffer_size := sz_buffer_size sz,
    min_log_size := sz_min_log_size sz\<rparr>"
  have d: "allocations d = []" "accessors d = []" "thread_storage d = (\<lambda>_. None)" "rbs d = unat (sz_buffer_size sz)"
    "metadata d = MetaTrue" "next_meta d = 0" by (simp_all add: d_def AtomicDict_new_def)
  have "length items \<le> init_dict_size_of (length items)" "init_dict_size_of (length items) = length items \<longrightarrow> items = []"
    "0 < init_dict_size_of (length items)"
    by (auto simp: init_dict_size_of_def Let_def intro: Nat.gr0I)
  moreover have "?N \<le> pages_for ?N * 128" by (rule pages_for_bounds)
  ultimately have N: "0 < ?N" "length items < pages_for ?N * 128" unfolding sz(2) by (cases "items = []"; force)+
  have "(128::nat) dvd 2 ^ sz_log_size sz" using le_imp_power_dvd [OF sz(1), of "2::nat"] by simp
  then have "pages_for ?N \<le> 2 ^ sz_log_size sz div 128" using sz(2,3) by (intro pages_for_bounds) simp_all
  from attempt_done [OF assms(1,2) _ _ d(1-3) N(1) this N(2) sz(1), of tid] sz(4) assms(4,5) obtain h' m s where
    run: "init_attempt py tid (Some items) (sz_log_size sz) ?N d =
      Some (ItemsDone (finished tid h' m (pages_for ?N) (length items) s d), next_meta d)"
    and ok: "table_ok py (next_meta d)
      ((finished tid h' m (pages_for ?N) (length items) s d)\<lparr>metadata := MetaAt (next_meta d)\<rparr>)"
    and m: "table_map py h' m = items_map py items" "log_size m = sz_log_size sz" "\<not> self_mutex s" "local_len s = 0"
    by (auto simp: d(4))
  let ?d = "(finished tid h' m (pages_for ?N) (length items) s d)\<lparr>metadata := MetaAt (next_meta d)\<rparr>"
  have "AtomicDict_init py tid (Some items) True min_arg buf_arg (AtomicDict_new ms h) =
      init_create py tid (Some items) (sz_log_size sz) ?N d"
    by (simp add: AtomicDict_init_def assms(3) d_def) (simp add: AtomicDict_new_def)
  also have "\<dots> = Some (Inr (), ?d)"
    by (subst init_create.simps) (simp add: run compare_exchange_def finished_def started_def d(5))
  finally have "AtomicDict_init py tid (Some items) True min_arg buf_arg (AtomicDict_new ms h) = Some (Inr (), ?d)" .
  moreover have "dict_ok py n ?d"
    using ok m(2,3) assms(4) d(1) by (auto simp: dict_ok_def unlocked_def finished_def started_def)
  moreover have "dict_map py ?d = items_map py items"
    using m(1) by (simp add: dict_map_def finished_def started_def)
  moreover have "approx_len ?d = int (length items)"
    using m(4) by (simp add: approx_len_def sum_of_accessors_len_def finished_def started_def)
  ultimately show ?thesis by blast
qed

theorem init_makes_the_map_witness:
  "\<exists>d. AtomicDict_init example_env 7 (Some [(Obj 1, Obj 2), (Obj 3, Obj 4)]) True None None
      (AtomicDict_new (\<lambda>_. example_meta 7) (\<lambda>_. zero_entry)) = Some (Inr (), d) \<and>
    dict_ok example_env 3 d \<and> dict_map example_env d = [Obj 1 \<mapsto> Obj 2, Obj 3 \<mapsto> Obj 4] \<and> approx_len d = 2"
proof -
  let ?items = "[(Obj 1, Obj 2), (Obj 3, Obj 4)]"
  have items: "proper_items example_env ?items"
    by (auto simp: proper_items_def is_sentinel_def same_key_example nth_Cons less_Suc_eq split: nat.splits)
  have log: "log_size_for 128 = 7" "log_size_for 4 = 2"
    by (simp_all add: log_size_for_def shift_log.simps)
  have "init_sizes (length ?items) None None = Inr
      \<lparr>sz_min_log_size = 7, sz_log_size = 7, sz_buffer_size = 16, sz_init_dict_size = 4\<rparr>"
    by (simp add: init_sizes_def int_argument_def buffer_sizes_def init_dict_size_of_def layout_consts log)
  moreover have "\<not> (16::nat) dvd 3" by simp
  then have "\<not> (16::nat) dvd length ?items + 1" by (simp add: numeral_3_eq_3)
  ultimately
  obtain d where d: "AtomicDict_init example_env 7 (Some ?items) True None None
      (AtomicDict_new (\<lambda>_. example_meta 7) (\<lambda>_. zero_entry)) = Some (Inr (), d)"
    "dict_ok example_env 3 d" "dict_map example_env d = items_map example_env ?items" "approx_len d = 2"
    using init_makes_the_map [OF example_env_ok items, of None None _ 3 7 "\<lambda>_. example_meta 7" "\<lambda>_. zero_entry"]
    by fastforce
  have "items_map example_env ?items = [Obj 1 \<mapsto> Obj 2, Obj 3 \<mapsto> Obj 4]"
    by (auto simp: items_map_def map_put_def same_key_example)
  with d show ?thesis by auto
qed

end
