(* ===== verification/Cells.thy ===== *)
theory Cells
  imports Prelude
begin

text \<open>
  Cells that several threads read and update with compare-and-exchange, and the loop that the code
  uses to update them: read the cell, compute the new contents, try to exchange, and start again when
  somebody else was faster.

  What other threads do is a list of changes of the state: one happens between the read and the
  exchange of each round, and none once the list is used up.  \<open>None\<close> is a loop that never ends or
  a computation whose behaviour is undefined in C.
\<close>

fun after_changes :: "nat \<Rightarrow> ('s \<Rightarrow> 's) list \<Rightarrow> 's \<Rightarrow> 's" where
  "after_changes 0 fs s = s"
| "after_changes (Suc n) [] s = s"
| "after_changes (Suc n) (f # fs) s = after_changes n fs (f s)"

lemma after_changes_Nil [simp]: "after_changes n [] s = s"
  by (cases n) simp_all

fun cas_loop ::
  "('s \<Rightarrow> 'v) \<Rightarrow> ('s \<Rightarrow> 'v \<Rightarrow> 'v \<Rightarrow> bool \<times> 's) \<Rightarrow> ('v \<Rightarrow> ('e + 'v) option) \<Rightarrow> ('s \<Rightarrow> 's) list \<Rightarrow> 's \<Rightarrow>
   (('e + 'v \<times> 'v) \<times> 's) option" where
  "cas_loop get cas compute [] s =
     (let current = get s in
      case compute current of
        None \<Rightarrow> None
      | Some (Inl e) \<Rightarrow> Some (Inl e, s)
      | Some (Inr desired) \<Rightarrow>
          (case cas s current desired of
             (ok, s) \<Rightarrow> if ok then Some (Inr (current, desired), s) else None))"
| "cas_loop get cas compute (f # fs) s =
     (let current = get s in
      case compute current of
        None \<Rightarrow> None
      | Some (Inl e) \<Rightarrow> Some (Inl e, s)
      | Some (Inr desired) \<Rightarrow>
          (case cas (f s) current desired of
             (ok, s) \<Rightarrow> if ok then Some (Inr (current, desired), s) else cas_loop get cas compute fs s))"

text \<open>
  What an update does when it happens at one moment: it reads the cell, and either fails and changes
  nothing or replaces the contents it has read.  \<open>done_at_once\<close> says that a run of the loop has
  that effect at the moment when the state is \<open>s\<close>.
\<close>

definition done_at_once ::
  "('s \<Rightarrow> 'v) \<Rightarrow> ('s \<Rightarrow> 'v \<Rightarrow> 's) \<Rightarrow> ('v \<Rightarrow> ('e + 'v) option) \<Rightarrow> 's \<Rightarrow> ('e + 'v \<times> 'v) \<times> 's \<Rightarrow> bool" where
  "done_at_once get put compute s r =
     (case compute (get s) of
        None \<Rightarrow> False
      | Some (Inl e) \<Rightarrow> r = (Inl e, s)
      | Some (Inr desired) \<Rightarrow> r = (Inr (get s, desired), put s desired))"

locale atomic_cell =
  fixes get :: "'s \<Rightarrow> 'v"
    and put :: "'s \<Rightarrow> 'v \<Rightarrow> 's"
    and cas :: "'s \<Rightarrow> 'v \<Rightarrow> 'v \<Rightarrow> bool \<times> 's"
  assumes cas_hit: "get s = expected \<Longrightarrow> cas s expected desired = (True, put s desired)"
    and cas_miss: "get s \<noteq> expected \<Longrightarrow> cas s expected desired = (False, s)"
    and get_put [simp]: "get (put s v) = v"
begin

text \<open>The loop ends, and takes effect at one moment.\<close>

lemma loop_takes_effect:
  assumes "\<And>v. compute v \<noteq> None"
  shows "\<exists>r. cas_loop get cas compute fs s = Some r \<and>
             (\<exists>n \<le> length fs. done_at_once get put compute (after_changes n fs s) r)"
proof (induction fs arbitrary: s)
  case Nil
  obtain c where c: "compute (get s) = Some c" using assms by blast
  show ?case
  proof (cases c)
    case (Inl e)
    with c show ?thesis by (simp add: done_at_once_def)
  next
    case (Inr desired)
    with c show ?thesis by (simp add: done_at_once_def cas_hit)
  qed
next
  case (Cons f fs)
  obtain c where c: "compute (get s) = Some c" using assms by blast
  show ?case
  proof (cases c)
    case (Inl e)
    with c show ?thesis by (auto simp: done_at_once_def intro!: exI [of _ 0])
  next
    case (Inr desired)
    show ?thesis
    proof (cases "get (f s) = get s")
      case True
      with c Inr show ?thesis
        by (auto simp: done_at_once_def cas_hit intro!: exI [of _ 1])
    next
      case False
      with c Inr have "cas_loop get cas compute (f # fs) s = cas_loop get cas compute fs (f s)"
        by (simp add: cas_miss)
      with Cons.IH [of "f s"] show ?thesis by (fastforce intro: exI [of _ "Suc n" for n])
    qed
  qed
qed

text \<open>Left alone, the loop takes effect in its first round.\<close>

lemma loop_alone:
  "cas_loop get cas compute [] s =
     (case compute (get s) of
        None \<Rightarrow> None
      | Some (Inl e) \<Rightarrow> Some (Inl e, s)
      | Some (Inr desired) \<Rightarrow> Some (Inr (get s, desired), put s desired))"
  by (simp add: cas_hit Let_def split: option.split sum.split)

end

end
