(* ===== verification/AtomicInt.thy ===== *)
theory AtomicInt
  imports Cells "HOL-Library.Signed_Division"
begin

text \<open>
  \<open>AtomicInt64\<close>, from \<^verbatim>\<open>src/src/cereggii/atomic_int.c\<close>: checked arithmetic, and updates by
  compare-and-exchange loops.

  The cell is a 64-bit word read with \<open>sint\<close>.  Every operation that loops takes the changes that
  other threads make between its steps.  A result is a value or an exception, with the new state;
  \<open>None\<close> is behaviour that C does not define.  Conversions from Python to C integers are
  \<open>PyLong_AsInt64\<close>, which raises.
\<close>

record AtomicInt64 =
  integer :: i64

type_synonym changes = "(AtomicInt64 \<Rightarrow> AtomicInt64) list"

definition INT64_MAX :: i64 where "INT64_MAX = 2 ^ 63 - 1"

definition INT64_MIN :: i64 where "INT64_MIN = 2 ^ 63"

lemma sint_INT64 [word_arith]: "sint INT64_MAX = 2 ^ 63 - 1" "sint INT64_MIN = - (2 ^ 63)"
  by (simp_all add: INT64_MAX_def INT64_MIN_def)

subsection \<open>Checked arithmetic\<close>

definition AtomicInt64_ConvertToCLongOrSetException :: "py_int \<Rightarrow> i64 outcome" where
  "AtomicInt64_ConvertToCLongOrSetException py_integer = PyLong_AsInt64 py_integer"

text \<open>With the compiler builtins the result wraps and the overflow is reported.\<close>

definition AtomicInt64_AddOrSetOverflow :: "i64 \<Rightarrow> i64 \<Rightarrow> i64 outcome" where
  "AtomicInt64_AddOrSetOverflow current to_add =
     (if in_int64 (sint current + sint to_add) then Inr (current + to_add) else Inl OverflowError)"

definition AtomicInt64_SubOrSetOverflow :: "i64 \<Rightarrow> i64 \<Rightarrow> i64 outcome" where
  "AtomicInt64_SubOrSetOverflow current to_sub =
     (if in_int64 (sint current - sint to_sub) then Inr (current - to_sub) else Inl OverflowError)"

definition AtomicInt64_MulOrSetOverflow :: "i64 \<Rightarrow> i64 \<Rightarrow> i64 outcome" where
  "AtomicInt64_MulOrSetOverflow current to_mul =
     (if in_int64 (sint current * sint to_mul) then Inr (current * to_mul) else Inl OverflowError)"

text \<open>Division in C truncates, and is undefined for a zero divisor and for \<open>INT64_MIN / -1\<close>.\<close>

definition c_div :: "i64 \<Rightarrow> i64 \<Rightarrow> i64 option" where
  "c_div a b = (if b = 0 \<or> (a = INT64_MIN \<and> b = - 1) then None else Some (of_int (sint a sdiv sint b)))"

definition c_mod :: "i64 \<Rightarrow> i64 \<Rightarrow> i64 option" where
  "c_mod a b = (if b = 0 \<or> (a = INT64_MIN \<and> b = - 1) then None else Some (of_int (sint a smod sint b)))"

text \<open>The branches for compilers without the builtins.\<close>

definition AtomicInt64_AddOrSetOverflow_portable :: "i64 \<Rightarrow> i64 \<Rightarrow> i64 outcome" where
  "AtomicInt64_AddOrSetOverflow_portable current to_add =
     (if (0 <s to_add \<and> INT64_MAX - to_add <s current) \<or> (to_add <s 0 \<and> current <s INT64_MIN - to_add)
      then Inl OverflowError else Inr (current + to_add))"

definition AtomicInt64_SubOrSetOverflow_portable :: "i64 \<Rightarrow> i64 \<Rightarrow> i64 outcome" where
  "AtomicInt64_SubOrSetOverflow_portable current to_sub =
     (if (to_sub <s 0 \<and> INT64_MAX + to_sub <s current) \<or> (0 <s to_sub \<and> current <s INT64_MIN + to_sub)
      then Inl OverflowError else Inr (current - to_sub))"

definition AtomicInt64_MulOrSetOverflow_portable :: "i64 \<Rightarrow> i64 \<Rightarrow> i64 outcome option" where
  "AtomicInt64_MulOrSetOverflow_portable current to_mul =
     map_option (\<lambda>overflowed. if overflowed then Inl OverflowError else Inr (current * to_mul))
       (if 0 <s current then
          if 0 <s to_mul then map_option (\<lambda>q. q <s current) (c_div INT64_MAX to_mul)
          else map_option (\<lambda>q. to_mul <s q) (c_div INT64_MIN current)
        else if 0 <s to_mul then map_option (\<lambda>q. current <s q) (c_div INT64_MIN to_mul)
        else if current \<noteq> 0 then map_option (\<lambda>q. to_mul <s q) (c_div INT64_MAX current)
        else Some False)"

text \<open>The quotient is computed before the overflow is reported.\<close>

definition AtomicInt64_DivOrSetException :: "i64 \<Rightarrow> i64 \<Rightarrow> i64 outcome option" where
  "AtomicInt64_DivOrSetException current to_div =
     (if to_div = 0 then Some (Inl ZeroDivisionError)
      else
        (let overflowed = (current = INT64_MIN \<and> to_div = - 1) in
         map_option (\<lambda>result. if overflowed then Inl OverflowError else Inr result) (c_div current to_div)))"

subsection \<open>The cell\<close>

definition AtomicInt64_init :: "AtomicInt64 \<Rightarrow> py_int option \<Rightarrow> unit outcome \<times> AtomicInt64" where
  "AtomicInt64_init self py_integer =
     (case py_integer of
        None \<Rightarrow> (Inr (), self\<lparr>integer := 0\<rparr>)
      | Some n \<Rightarrow>
          (case AtomicInt64_ConvertToCLongOrSetException n of
             Inl e \<Rightarrow> (Inl e, self)
           | Inr i \<Rightarrow> (Inr (), self\<lparr>integer := i\<rparr>)))"

definition AtomicInt64_Get :: "AtomicInt64 \<Rightarrow> i64" where
  "AtomicInt64_Get self = integer self"

definition PyLong_FromInt64 :: "i64 \<Rightarrow> py_int" where
  "PyLong_FromInt64 i = PyInt (sint i)"

definition AtomicInt64_Get_callable :: "AtomicInt64 \<Rightarrow> py_int" where
  "AtomicInt64_Get_callable self = PyLong_FromInt64 (AtomicInt64_Get self)"

definition AtomicInt64_CompareAndSet :: "AtomicInt64 \<Rightarrow> i64 \<Rightarrow> i64 \<Rightarrow> bool \<times> AtomicInt64" where
  "AtomicInt64_CompareAndSet self expected desired =
     (case compare_exchange (integer self) expected desired of (ok, i, _) \<Rightarrow> (ok, self\<lparr>integer := i\<rparr>))"

definition AtomicInt64_CompareAndSet_callable ::
  "AtomicInt64 \<Rightarrow> py_int \<Rightarrow> py_int \<Rightarrow> bool outcome \<times> AtomicInt64" where
  "AtomicInt64_CompareAndSet_callable self py_expected py_desired =
     (case AtomicInt64_ConvertToCLongOrSetException py_expected of
        Inl e \<Rightarrow> (Inl e, self)
      | Inr expected \<Rightarrow>
          (case AtomicInt64_ConvertToCLongOrSetException py_desired of
             Inl e \<Rightarrow> (Inl e, self)
           | Inr desired \<Rightarrow>
               (case AtomicInt64_CompareAndSet self expected desired of (ok, self) \<Rightarrow> (Inr ok, self))))"

definition AtomicInt64_GetAndSet :: "AtomicInt64 \<Rightarrow> i64 \<Rightarrow> i64 \<times> AtomicInt64" where
  "AtomicInt64_GetAndSet self desired = (integer self, self\<lparr>integer := desired\<rparr>)"

definition AtomicInt64_GetAndSet_callable :: "AtomicInt64 \<Rightarrow> py_int \<Rightarrow> py_int outcome \<times> AtomicInt64" where
  "AtomicInt64_GetAndSet_callable self py_integer =
     (case AtomicInt64_ConvertToCLongOrSetException py_integer of
        Inl e \<Rightarrow> (Inl e, self)
      | Inr desired \<Rightarrow>
          (case AtomicInt64_GetAndSet self desired of (previous, self) \<Rightarrow> (Inr (PyLong_FromInt64 previous), self)))"

interpretation int_cell: atomic_cell AtomicInt64_Get "\<lambda>self i. self\<lparr>integer := i\<rparr>" AtomicInt64_CompareAndSet
  by unfold_locales
    (auto simp: AtomicInt64_Get_def AtomicInt64_CompareAndSet_def compare_exchange_def)

subsection \<open>Updates\<close>

text \<open>
  The loop that the updates share, with the part of its outcome that an operation returns: the
  contents before, or the contents after.
\<close>

definition update_int ::
  "(i64 \<Rightarrow> i64 outcome option) \<Rightarrow> (i64 \<times> i64 \<Rightarrow> 'r) \<Rightarrow> changes \<Rightarrow> AtomicInt64 \<Rightarrow>
   ('r outcome \<times> AtomicInt64) option" where
  "update_int compute result fs self =
     map_option (map_prod (map_sum id result) id)
       (cas_loop AtomicInt64_Get AtomicInt64_CompareAndSet compute fs self)"

definition AtomicInt64_Set :: "changes \<Rightarrow> AtomicInt64 \<Rightarrow> i64 \<Rightarrow> (unit outcome \<times> AtomicInt64) option" where
  "AtomicInt64_Set fs self desired = update_int (\<lambda>_. Some (Inr desired)) (\<lambda>_. ()) fs self"

definition AtomicInt64_Set_callable ::
  "changes \<Rightarrow> AtomicInt64 \<Rightarrow> py_int \<Rightarrow> (unit outcome \<times> AtomicInt64) option" where
  "AtomicInt64_Set_callable fs self py_integer =
     (case AtomicInt64_ConvertToCLongOrSetException py_integer of
        Inl e \<Rightarrow> Some (Inl e, self)
      | Inr desired \<Rightarrow> AtomicInt64_Set fs self desired)"

definition AtomicInt64_IncrementAndGet ::
  "changes \<Rightarrow> AtomicInt64 \<Rightarrow> i64 \<Rightarrow> (i64 outcome \<times> AtomicInt64) option" where
  "AtomicInt64_IncrementAndGet fs self other =
     update_int (\<lambda>current. Some (AtomicInt64_AddOrSetOverflow current other)) snd fs self"

definition AtomicInt64_GetAndIncrement ::
  "changes \<Rightarrow> AtomicInt64 \<Rightarrow> i64 \<Rightarrow> (i64 outcome \<times> AtomicInt64) option" where
  "AtomicInt64_GetAndIncrement fs self other =
     update_int (\<lambda>current. Some (AtomicInt64_AddOrSetOverflow current other)) fst fs self"

definition AtomicInt64_DecrementAndGet ::
  "changes \<Rightarrow> AtomicInt64 \<Rightarrow> i64 \<Rightarrow> (i64 outcome \<times> AtomicInt64) option" where
  "AtomicInt64_DecrementAndGet fs self other =
     update_int (\<lambda>current. Some (AtomicInt64_SubOrSetOverflow current other)) snd fs self"

definition AtomicInt64_GetAndDecrement ::
  "changes \<Rightarrow> AtomicInt64 \<Rightarrow> i64 \<Rightarrow> (i64 outcome \<times> AtomicInt64) option" where
  "AtomicInt64_GetAndDecrement fs self other =
     update_int (\<lambda>current. Some (AtomicInt64_SubOrSetOverflow current other)) fst fs self"

text \<open>The amount of an increment or decrement is optional, and \<open>None\<close> in Python counts as absent.\<close>

definition optional_amount :: "py_int option \<Rightarrow> i64 outcome" where
  "optional_amount py_other =
     (case py_other of None \<Rightarrow> Inr 1 | Some other \<Rightarrow> AtomicInt64_ConvertToCLongOrSetException other)"

definition to_python :: "(i64 outcome \<times> AtomicInt64) option \<Rightarrow> (py_int outcome \<times> AtomicInt64) option" where
  "to_python r = map_option (map_prod (map_sum id PyLong_FromInt64) id) r"

definition AtomicInt64_IncrementAndGet_callable ::
  "changes \<Rightarrow> AtomicInt64 \<Rightarrow> py_int option \<Rightarrow> (py_int outcome \<times> AtomicInt64) option" where
  "AtomicInt64_IncrementAndGet_callable fs self py_other =
     (case optional_amount py_other of
        Inl e \<Rightarrow> Some (Inl e, self)
      | Inr other \<Rightarrow> to_python (AtomicInt64_IncrementAndGet fs self other))"

definition AtomicInt64_GetAndIncrement_callable ::
  "changes \<Rightarrow> AtomicInt64 \<Rightarrow> py_int option \<Rightarrow> (py_int outcome \<times> AtomicInt64) option" where
  "AtomicInt64_GetAndIncrement_callable fs self py_other =
     (case optional_amount py_other of
        Inl e \<Rightarrow> Some (Inl e, self)
      | Inr other \<Rightarrow> to_python (AtomicInt64_GetAndIncrement fs self other))"

definition AtomicInt64_DecrementAndGet_callable ::
  "changes \<Rightarrow> AtomicInt64 \<Rightarrow> py_int option \<Rightarrow> (py_int outcome \<times> AtomicInt64) option" where
  "AtomicInt64_DecrementAndGet_callable fs self py_other =
     (case optional_amount py_other of
        Inl e \<Rightarrow> Some (Inl e, self)
      | Inr other \<Rightarrow> to_python (AtomicInt64_DecrementAndGet fs self other))"

definition AtomicInt64_GetAndDecrement_callable ::
  "changes \<Rightarrow> AtomicInt64 \<Rightarrow> py_int option \<Rightarrow> (py_int outcome \<times> AtomicInt64) option" where
  "AtomicInt64_GetAndDecrement_callable fs self py_other =
     (case optional_amount py_other of
        Inl e \<Rightarrow> Some (Inl e, self)
      | Inr other \<Rightarrow> to_python (AtomicInt64_GetAndDecrement fs self other))"

text \<open>
  Updates by a Python function: it gets the contents as an integer, and what it returns is
  converted.  Changes that the function itself makes to the cell are among the changes of the loop.
\<close>

definition call_update :: "(py_int \<Rightarrow> py_int outcome) \<Rightarrow> i64 \<Rightarrow> i64 outcome option" where
  "call_update callable current =
     Some (case callable (PyLong_FromInt64 current) of
             Inl e \<Rightarrow> Inl e
           | Inr py_desired \<Rightarrow> AtomicInt64_ConvertToCLongOrSetException py_desired)"

definition AtomicInt64_GetAndUpdate ::
  "changes \<Rightarrow> AtomicInt64 \<Rightarrow> (py_int \<Rightarrow> py_int outcome) \<Rightarrow> (i64 outcome \<times> AtomicInt64) option" where
  "AtomicInt64_GetAndUpdate fs self callable = update_int (call_update callable) fst fs self"

definition AtomicInt64_GetAndUpdate_callable ::
  "changes \<Rightarrow> AtomicInt64 \<Rightarrow> (py_int \<Rightarrow> py_int outcome) \<Rightarrow> (py_int outcome \<times> AtomicInt64) option" where
  "AtomicInt64_GetAndUpdate_callable fs self callable = to_python (AtomicInt64_GetAndUpdate fs self callable)"

definition AtomicInt64_UpdateAndGet ::
  "changes \<Rightarrow> AtomicInt64 \<Rightarrow> (py_int \<Rightarrow> py_int outcome) \<Rightarrow> (i64 outcome \<times> AtomicInt64) option" where
  "AtomicInt64_UpdateAndGet fs self callable = update_int (call_update callable) snd fs self"

definition AtomicInt64_UpdateAndGet_callable ::
  "changes \<Rightarrow> AtomicInt64 \<Rightarrow> (py_int \<Rightarrow> py_int outcome) \<Rightarrow> (py_int outcome \<times> AtomicInt64) option" where
  "AtomicInt64_UpdateAndGet_callable fs self callable = to_python (AtomicInt64_UpdateAndGet fs self callable)"

end
