(* ===== verification/AtomicIntOps.thy ===== *)
theory AtomicIntOps
  imports AtomicInt
begin

text \<open>
  The number protocol of \<open>AtomicInt64\<close>, from \<^verbatim>\<open>src/src/cereggii/atomic_int.c\<close>: binary
  and unary operators, which compute on the value of the cell with the operations of Python, and
  in-place operators, which update the cell.
\<close>

subsection \<open>Operators that leave the cell alone\<close>

text \<open>
  An operand is an \<open>AtomicInt64\<close>, an integer, or another object.  \<open>PyNumber_\<close>\<^emph>\<open>op\<close> is the
  interpreter's: a parameter.
\<close>

datatype operand = Atomic AtomicInt64 | Integer py_int | Other nat

datatype binary_op = Add | Subtract | Multiply | Remainder | Divmod | Lshift | Rshift | And | Xor | Or
  | FloorDivide | TrueDivide

datatype unary_op = Negative | Positive | Absolute | Invert | Float | Index

type_synonym number_ops = "binary_op \<Rightarrow> operand \<Rightarrow> operand \<Rightarrow> operand outcome option"

text \<open>
  The slot is called with the cell on either side; when the right operand is a cell it is read and
  the operation starts again with the left operand as it is.  Otherwise the left operand is read as a
  cell, which has no result (\<open>None\<close>) when it is something else.
\<close>

definition AtomicInt64_binary :: "number_ops \<Rightarrow> binary_op \<Rightarrow> operand \<Rightarrow> operand \<Rightarrow> operand outcome option" where
  "AtomicInt64_binary PyNumber bop self other =
     (case other of
        Atomic cell \<Rightarrow> PyNumber bop self (Integer (AtomicInt64_Get_callable cell))
      | _ \<Rightarrow>
          (case self of
             Atomic cell \<Rightarrow> PyNumber bop (Integer (AtomicInt64_Get_callable cell)) other
           | _ \<Rightarrow> None))"

definition AtomicInt64_Power ::
  "(operand \<Rightarrow> operand \<Rightarrow> operand \<Rightarrow> operand outcome option) \<Rightarrow> operand \<Rightarrow> operand \<Rightarrow> operand \<Rightarrow>
   operand outcome option" where
  "AtomicInt64_Power PyNumber_Power self other m =
     (case other of
        Atomic cell \<Rightarrow> PyNumber_Power self (Integer (AtomicInt64_Get_callable cell)) m
      | _ \<Rightarrow>
          (case self of
             Atomic cell \<Rightarrow> PyNumber_Power (Integer (AtomicInt64_Get_callable cell)) other m
           | _ \<Rightarrow> None))"

definition AtomicInt64_unary :: "(unary_op \<Rightarrow> py_int \<Rightarrow> operand outcome) \<Rightarrow> unary_op \<Rightarrow> AtomicInt64 \<Rightarrow> operand outcome" where
  "AtomicInt64_unary PyNumber uop self = PyNumber uop (AtomicInt64_Get_callable self)"

definition AtomicInt64_Bool :: "AtomicInt64 \<Rightarrow> bool" where
  "AtomicInt64_Bool self = (AtomicInt64_Get self \<noteq> 0)"

definition AtomicInt64_Int :: "AtomicInt64 \<Rightarrow> py_int" where
  "AtomicInt64_Int self = AtomicInt64_Get_callable self"

definition AtomicInt64_MatrixMultiply ::
  "(operand \<Rightarrow> operand \<Rightarrow> operand outcome) \<Rightarrow> operand \<Rightarrow> operand \<Rightarrow> operand outcome" where
  "AtomicInt64_MatrixMultiply PyNumber_MatrixMultiply self other =
     (case other of
        Atomic _ \<Rightarrow> PyNumber_MatrixMultiply (Integer (PyLong_FromInt64 0)) self
      | _ \<Rightarrow> PyNumber_MatrixMultiply (Integer (PyLong_FromInt64 0)) other)"

definition AtomicInt64_RichCompare :: "(py_int \<Rightarrow> operand \<Rightarrow> nat \<Rightarrow> 'r outcome) \<Rightarrow> AtomicInt64 \<Rightarrow> operand \<Rightarrow> nat \<Rightarrow> 'r outcome" where
  "AtomicInt64_RichCompare PyObject_RichCompare self other cmp_op =
     PyObject_RichCompare (AtomicInt64_Get_callable self) other cmp_op"

text \<open>Methods of \<open>int\<close> that are not offered.\<close>

datatype int_method = As_integer_ratio | Bit_length | Conjugate | From_bytes | To_bytes
  | Denominator_get | Denominator_set | Numerator_get | Numerator_set | Imag_get | Imag_set | Real_get | Real_set

fun unsupported_message :: "int_method \<Rightarrow> string" where
  "unsupported_message As_integer_ratio = ''use AtomicInt64().get().as_integer_ratio instead.''"
| "unsupported_message Bit_length = ''use AtomicInt64().get().bit_length instead.''"
| "unsupported_message Conjugate = ''use AtomicInt64().get().conjugate instead.''"
| "unsupported_message From_bytes = ''use int.from_bytes instead.''"
| "unsupported_message To_bytes = ''use AtomicInt64().get().to_bytes instead.''"
| "unsupported_message Denominator_get = ''use AtomicInt64().get().denominator.__get__ instead.''"
| "unsupported_message Denominator_set = ''use AtomicInt64().get().denominator.__set__ instead.''"
| "unsupported_message Numerator_get = ''use AtomicInt64().get().numerator.__get__ instead.''"
| "unsupported_message Numerator_set = ''use AtomicInt64().get().numerator.__set__ instead.''"
| "unsupported_message Imag_get = ''use AtomicInt64().get().imag.__get__ instead.''"
| "unsupported_message Imag_set = ''use AtomicInt64().get().imag.__set__ instead.''"
| "unsupported_message Real_get = ''use AtomicInt64().get().real.__get__ instead.''"
| "unsupported_message Real_set = ''use AtomicInt64().get().real.__set__ instead.''"

definition AtomicInt64_unsupported :: "int_method \<Rightarrow> unit outcome" where
  "AtomicInt64_unsupported meth = Inl (NotImplementedError (unsupported_message meth))"

subsection \<open>In-place operators\<close>

text \<open>
  They return the cell itself: the value here is the number of references to it that are added.
\<close>

type_synonym inplace_result = "(nat outcome \<times> AtomicInt64) option"

definition inplace_update ::
  "(i64 \<Rightarrow> i64 outcome option) \<Rightarrow> changes \<Rightarrow> AtomicInt64 \<Rightarrow> bool \<Rightarrow> inplace_result" where
  "inplace_update compute fs self do_refcount = update_int compute (\<lambda>_. if do_refcount then 1 else 0) fs self"

text \<open>
  Shifting a signed integer by an amount that is negative or not less than its width is undefined in
  C, and so is shifting bits out on the left; the compilers that build the extension define the
  latter, and the model follows them.
\<close>

definition c_shl :: "i64 \<Rightarrow> i64 \<Rightarrow> i64 option" where
  "c_shl a n = (if 0 \<le> sint n \<and> sint n < 64 then Some (push_bit (unat n) a) else None)"

definition c_shr :: "i64 \<Rightarrow> i64 \<Rightarrow> i64 option" where
  "c_shr a n = (if 0 \<le> sint n \<and> sint n < 64 then Some (signed_drop_bit (unat n) a) else None)"

definition inplace_with ::
  "(i64 \<Rightarrow> i64 \<Rightarrow> i64 outcome option) \<Rightarrow> changes \<Rightarrow> AtomicInt64 \<Rightarrow> py_int \<Rightarrow> bool \<Rightarrow> inplace_result" where
  "inplace_with compute fs self other do_refcount =
     (case AtomicInt64_ConvertToCLongOrSetException other of
        Inl e \<Rightarrow> Some (Inl e, self)
      | Inr amount \<Rightarrow> inplace_update (\<lambda>current. compute current amount) fs self do_refcount)"

definition AtomicInt64_InplaceAdd_internal :: "changes \<Rightarrow> AtomicInt64 \<Rightarrow> py_int \<Rightarrow> bool \<Rightarrow> inplace_result" where
  "AtomicInt64_InplaceAdd_internal =
     inplace_with (\<lambda>current amount. Some (AtomicInt64_AddOrSetOverflow current amount))"

definition AtomicInt64_InplaceAdd :: "changes \<Rightarrow> AtomicInt64 \<Rightarrow> py_int \<Rightarrow> inplace_result" where
  "AtomicInt64_InplaceAdd fs self other = AtomicInt64_InplaceAdd_internal fs self other True"

definition AtomicInt64_InplaceSubtract_internal :: "changes \<Rightarrow> AtomicInt64 \<Rightarrow> py_int \<Rightarrow> bool \<Rightarrow> inplace_result" where
  "AtomicInt64_InplaceSubtract_internal =
     inplace_with (\<lambda>current amount. Some (AtomicInt64_SubOrSetOverflow current amount))"

definition AtomicInt64_InplaceSubtract :: "changes \<Rightarrow> AtomicInt64 \<Rightarrow> py_int \<Rightarrow> inplace_result" where
  "AtomicInt64_InplaceSubtract fs self other = AtomicInt64_InplaceSubtract_internal fs self other True"

definition AtomicInt64_InplaceMultiply_internal :: "changes \<Rightarrow> AtomicInt64 \<Rightarrow> py_int \<Rightarrow> bool \<Rightarrow> inplace_result" where
  "AtomicInt64_InplaceMultiply_internal =
     inplace_with (\<lambda>current amount. Some (AtomicInt64_MulOrSetOverflow current amount))"

definition AtomicInt64_InplaceMultiply :: "changes \<Rightarrow> AtomicInt64 \<Rightarrow> py_int \<Rightarrow> inplace_result" where
  "AtomicInt64_InplaceMultiply fs self other = AtomicInt64_InplaceMultiply_internal fs self other True"

definition AtomicInt64_InplaceRemainder_internal :: "changes \<Rightarrow> AtomicInt64 \<Rightarrow> py_int \<Rightarrow> bool \<Rightarrow> inplace_result" where
  "AtomicInt64_InplaceRemainder_internal fs self other do_refcount =
     (case AtomicInt64_ConvertToCLongOrSetException other of
        Inl e \<Rightarrow> Some (Inl e, self)
      | Inr amount \<Rightarrow>
          if amount = 0 then Some (Inl ZeroDivisionError, self)
          else inplace_update (\<lambda>current. map_option Inr (c_mod current amount)) fs self do_refcount)"

definition AtomicInt64_InplaceRemainder :: "changes \<Rightarrow> AtomicInt64 \<Rightarrow> py_int \<Rightarrow> inplace_result" where
  "AtomicInt64_InplaceRemainder fs self other = AtomicInt64_InplaceRemainder_internal fs self other True"

text \<open>The power is computed by Python, with its optional modulus.\<close>

definition AtomicInt64_InplacePower_internal ::
  "(py_int \<Rightarrow> operand \<Rightarrow> operand \<Rightarrow> py_int outcome) \<Rightarrow> changes \<Rightarrow> AtomicInt64 \<Rightarrow> operand \<Rightarrow> operand \<Rightarrow> bool \<Rightarrow>
   inplace_result" where
  "AtomicInt64_InplacePower_internal PyNumber_Power fs self other m do_refcount =
     inplace_update (call_update (\<lambda>py_current. PyNumber_Power py_current other m)) fs self do_refcount"

definition AtomicInt64_InplacePower ::
  "(py_int \<Rightarrow> operand \<Rightarrow> operand \<Rightarrow> py_int outcome) \<Rightarrow> changes \<Rightarrow> AtomicInt64 \<Rightarrow> operand \<Rightarrow> operand \<Rightarrow> inplace_result" where
  "AtomicInt64_InplacePower PyNumber_Power fs self other m =
     AtomicInt64_InplacePower_internal PyNumber_Power fs self other m True"

definition AtomicInt64_InplaceLshift_internal :: "changes \<Rightarrow> AtomicInt64 \<Rightarrow> py_int \<Rightarrow> bool \<Rightarrow> inplace_result" where
  "AtomicInt64_InplaceLshift_internal =
     inplace_with (\<lambda>current amount. map_option Inr (c_shl current amount))"

definition AtomicInt64_InplaceLshift :: "changes \<Rightarrow> AtomicInt64 \<Rightarrow> py_int \<Rightarrow> inplace_result" where
  "AtomicInt64_InplaceLshift fs self other = AtomicInt64_InplaceLshift_internal fs self other True"

definition AtomicInt64_InplaceRshift_internal :: "changes \<Rightarrow> AtomicInt64 \<Rightarrow> py_int \<Rightarrow> bool \<Rightarrow> inplace_result" where
  "AtomicInt64_InplaceRshift_internal =
     inplace_with (\<lambda>current amount. map_option Inr (c_shr current amount))"

definition AtomicInt64_InplaceRshift :: "changes \<Rightarrow> AtomicInt64 \<Rightarrow> py_int \<Rightarrow> inplace_result" where
  "AtomicInt64_InplaceRshift fs self other = AtomicInt64_InplaceRshift_internal fs self other True"

definition AtomicInt64_InplaceAnd_internal :: "changes \<Rightarrow> AtomicInt64 \<Rightarrow> py_int \<Rightarrow> bool \<Rightarrow> inplace_result" where
  "AtomicInt64_InplaceAnd_internal =
     inplace_with (\<lambda>current amount. Some (Inr (current AND amount)))"

definition AtomicInt64_InplaceAnd :: "changes \<Rightarrow> AtomicInt64 \<Rightarrow> py_int \<Rightarrow> inplace_result" where
  "AtomicInt64_InplaceAnd fs self other = AtomicInt64_InplaceAnd_internal fs self other True"

definition AtomicInt64_InplaceXor_internal :: "changes \<Rightarrow> AtomicInt64 \<Rightarrow> py_int \<Rightarrow> bool \<Rightarrow> inplace_result" where
  "AtomicInt64_InplaceXor_internal =
     inplace_with (\<lambda>current amount. Some (Inr (current XOR amount)))"

definition AtomicInt64_InplaceXor :: "changes \<Rightarrow> AtomicInt64 \<Rightarrow> py_int \<Rightarrow> inplace_result" where
  "AtomicInt64_InplaceXor fs self other = AtomicInt64_InplaceXor_internal fs self other True"

definition AtomicInt64_InplaceOr_internal :: "changes \<Rightarrow> AtomicInt64 \<Rightarrow> py_int \<Rightarrow> bool \<Rightarrow> inplace_result" where
  "AtomicInt64_InplaceOr_internal =
     inplace_with (\<lambda>current amount. Some (Inr (current OR amount)))"

definition AtomicInt64_InplaceOr :: "changes \<Rightarrow> AtomicInt64 \<Rightarrow> py_int \<Rightarrow> inplace_result" where
  "AtomicInt64_InplaceOr fs self other = AtomicInt64_InplaceOr_internal fs self other True"

definition AtomicInt64_InplaceFloorDivide_internal :: "changes \<Rightarrow> AtomicInt64 \<Rightarrow> py_int \<Rightarrow> bool \<Rightarrow> inplace_result" where
  "AtomicInt64_InplaceFloorDivide_internal =
     inplace_with (\<lambda>current amount. AtomicInt64_DivOrSetException current amount)"

definition AtomicInt64_InplaceFloorDivide :: "changes \<Rightarrow> AtomicInt64 \<Rightarrow> py_int \<Rightarrow> inplace_result" where
  "AtomicInt64_InplaceFloorDivide fs self other = AtomicInt64_InplaceFloorDivide_internal fs self other True"

definition AtomicInt64_InplaceTrueDivide :: "unit outcome" where
  "AtomicInt64_InplaceTrueDivide =
     Inl (NotImplementedError ''AtomicInt64 cannot store float(), use AtomicInt64() //= int() instead.'')"

definition AtomicInt64_InplaceMatrixMultiply :: "(py_int \<Rightarrow> operand \<Rightarrow> operand outcome) \<Rightarrow> operand \<Rightarrow> operand outcome" where
  "AtomicInt64_InplaceMatrixMultiply PyNumber_InPlaceMatrixMultiply other =
     PyNumber_InPlaceMatrixMultiply (PyLong_FromInt64 0) other"

subsection \<open>The checks of the portable branches\<close>

lemma int_le_div_iff:
  assumes "0 < (m::int)"
  shows "c \<le> N div m \<longleftrightarrow> c * m \<le> N"
proof
  assume "c \<le> N div m"
  then have "c * m \<le> N div m * m" using assms by (intro mult_right_mono) auto
  also have "\<dots> \<le> N" using assms pos_mod_sign [of m N] div_mult_mod_eq [of N m] by linarith
  finally show "c * m \<le> N" .
next
  assume "c * m \<le> N"
  from zdiv_mono1 [OF this assms] show "c \<le> N div m" using assms by simp
qed

lemma sdiv_pos: "0 \<le> N \<Longrightarrow> 0 < (c::int) \<Longrightarrow> N sdiv c = N div c"
  by (auto simp: signed_divide_int_def sgn_if)

lemma sdiv_neg_left: "0 \<le> N \<Longrightarrow> 0 < (c::int) \<Longrightarrow> (- N) sdiv c = - (N div c)"
  by (simp add: sdiv_pos)

lemma sdiv_neg_right: "0 \<le> N \<Longrightarrow> (c::int) < 0 \<Longrightarrow> N sdiv c = - (N div (- c))"
  using sdiv_pos [of N "- c"] by (simp add: signed_divide_int_def sgn_if)

lemma add_range [word_arith]: "in_int64 (sint a + sint b) \<Longrightarrow> sint (a + b :: i64) = sint a + sint b"
  by (drule sint_of_int64) simp

lemma sub_range [word_arith]: "in_int64 (sint a - sint b) \<Longrightarrow> sint (a - b :: i64) = sint a - sint b"
  by (drule sint_of_int64) simp

lemma mul_range [word_arith]: "in_int64 (sint a * sint b) \<Longrightarrow> sint (a * b :: i64) = sint a * sint b"
  by (drule sint_of_int64) simp

lemma sint_eq_iff: "sint (a :: i64) = sint b \<longleftrightarrow> a = b"
  by (auto intro: signed_word_eqI)

lemma div_in_int64:
  assumes "in_int64 a" and "b \<noteq> 0" and "\<not> (a = - (2 ^ 63) \<and> b = - 1)"
  shows "in_int64 (a sdiv b)"
proof (cases "a = - (2 ^ 63)")
  case False
  with assms(1) sdiv_int_range [of a b] show ?thesis by (auto simp: in_int64_def)
next
  case True
  show ?thesis
  proof (cases "b < 0")
    case b: True
    with True assms(3) have "- b \<ge> 2" by auto
    then have "2 ^ 63 div (- b) \<le> (2 ^ 63 :: int) div 2" by (intro zdiv_mono2) auto
    moreover have "0 \<le> 2 ^ 63 div (- b)" using b by (simp add: pos_imp_zdiv_nonneg_iff)
    moreover have "a sdiv b = 2 ^ 63 div (- b)"
      using True b sdiv_neg_right [of "2 ^ 63" b] by simp
    ultimately show ?thesis by (simp add: in_int64_def)
  next
    case False
    with assms(2) have "0 < b" by simp
    then have "2 ^ 63 div b \<le> (2 ^ 63 :: int) div 1" by (intro zdiv_mono2) auto
    moreover from \<open>0 < b\<close> have "0 \<le> 2 ^ 63 div b" by (simp add: pos_imp_zdiv_nonneg_iff)
    ultimately show ?thesis using True sdiv_neg_left [of "2 ^ 63" b] \<open>0 < b\<close> by (simp add: in_int64_def)
  qed
qed

lemma c_div_sint:
  assumes "b \<noteq> 0" and "\<not> (a = INT64_MIN \<and> b = - 1)"
  shows "\<exists>q. c_div a b = Some q \<and> sint q = sint a sdiv sint b"
proof -
  have "in_int64 (sint a sdiv sint b)"
  proof (rule div_in_int64)
    show "sint b \<noteq> 0" using assms(1) sint_eq_iff [of b 0] by simp
    show "\<not> (sint a = - (2 ^ 63) \<and> sint b = - 1)"
      using assms(2) sint_eq_iff [of a INT64_MIN] sint_eq_iff [of b "- 1"] by (auto simp: sint_INT64)
  qed (rule sint_in_int64)
  with assms show ?thesis by (auto simp: c_div_def sint_of_int64)
qed

lemma add_portable: "AtomicInt64_AddOrSetOverflow_portable a b = AtomicInt64_AddOrSetOverflow a b"
proof -
  note r = sint_in_int64 [of a] sint_in_int64 [of b]
  consider "0 < sint b" | "sint b = 0" | "sint b < 0" by linarith
  then show ?thesis
  proof cases
    case 1
    with r have "sint (INT64_MAX - b) = 2 ^ 63 - 1 - sint b"
      using sub_range [of INT64_MAX b] by (simp add: sint_INT64 in_int64_def)
    with 1 r show ?thesis
      by (auto simp: AtomicInt64_AddOrSetOverflow_portable_def AtomicInt64_AddOrSetOverflow_def
          word_sless_alt in_int64_def)
  next
    case 2
    with r show ?thesis
      by (auto simp: AtomicInt64_AddOrSetOverflow_portable_def AtomicInt64_AddOrSetOverflow_def word_sless_alt)
  next
    case 3
    with r have "sint (INT64_MIN - b) = - (2 ^ 63) - sint b"
      using sub_range [of INT64_MIN b] by (simp add: sint_INT64 in_int64_def)
    with 3 r show ?thesis
      by (auto simp: AtomicInt64_AddOrSetOverflow_portable_def AtomicInt64_AddOrSetOverflow_def
          word_sless_alt in_int64_def)
  qed
qed

lemma sub_portable: "AtomicInt64_SubOrSetOverflow_portable a b = AtomicInt64_SubOrSetOverflow a b"
proof -
  note r = sint_in_int64 [of a] sint_in_int64 [of b]
  consider "0 < sint b" | "sint b = 0" | "sint b < 0" by linarith
  then show ?thesis
  proof cases
    case 1
    with r have "sint (INT64_MIN + b) = - (2 ^ 63) + sint b"
      using add_range [of INT64_MIN b] by (simp add: sint_INT64 in_int64_def)
    with 1 r show ?thesis
      by (auto simp: AtomicInt64_SubOrSetOverflow_portable_def AtomicInt64_SubOrSetOverflow_def
          word_sless_alt in_int64_def)
  next
    case 2
    with r show ?thesis
      by (auto simp: AtomicInt64_SubOrSetOverflow_portable_def AtomicInt64_SubOrSetOverflow_def word_sless_alt)
  next
    case 3
    with r have "sint (INT64_MAX + b) = 2 ^ 63 - 1 + sint b"
      using add_range [of INT64_MAX b] by (simp add: sint_INT64 in_int64_def)
    with 3 r show ?thesis
      by (auto simp: AtomicInt64_SubOrSetOverflow_portable_def AtomicInt64_SubOrSetOverflow_def
          word_sless_alt in_int64_def)
  qed
qed

text \<open>When a product leaves the range, by the signs of the factors.\<close>

lemma mul_limits:
  fixes a b :: int
  assumes "in_int64 a" and "in_int64 b"
  shows "0 < a \<Longrightarrow> 0 < b \<Longrightarrow> in_int64 (a * b) \<longleftrightarrow> \<not> (2 ^ 63 - 1) div b < a"
    and "0 < a \<Longrightarrow> b \<le> 0 \<Longrightarrow> in_int64 (a * b) \<longleftrightarrow> \<not> b < - (2 ^ 63 div a)"
    and "a \<le> 0 \<Longrightarrow> 0 < b \<Longrightarrow> in_int64 (a * b) \<longleftrightarrow> \<not> a < - (2 ^ 63 div b)"
    and "a < 0 \<Longrightarrow> b \<le> 0 \<Longrightarrow> in_int64 (a * b) \<longleftrightarrow> \<not> b < - ((2 ^ 63 - 1) div (- a))"
proof -
  have neg: "0 < x \<Longrightarrow> y \<le> 0 \<Longrightarrow> in_int64 (x * y) \<longleftrightarrow> \<not> y < - (2 ^ 63 div x)" for x y :: int
  proof -
    assume x: "0 < x" "y \<le> 0"
    then have "x * y \<le> 0" by (simp add: mult_le_0_iff)
    then have "in_int64 (x * y) \<longleftrightarrow> - y * x \<le> 2 ^ 63" by (auto simp: in_int64_def mult.commute)
    with int_le_div_iff [OF x(1), of "- y" "2 ^ 63"] show ?thesis by linarith
  qed
  show "0 < a \<Longrightarrow> 0 < b \<Longrightarrow> in_int64 (a * b) \<longleftrightarrow> \<not> (2 ^ 63 - 1) div b < a"
  proof -
    assume ab: "0 < a" "0 < b"
    then have "0 < a * b" by simp
    then have "in_int64 (a * b) \<longleftrightarrow> a * b \<le> 2 ^ 63 - 1" by (auto simp: in_int64_def)
    with int_le_div_iff [OF ab(2), of a "2 ^ 63 - 1"] show ?thesis by linarith
  qed
  show "0 < a \<Longrightarrow> b \<le> 0 \<Longrightarrow> in_int64 (a * b) \<longleftrightarrow> \<not> b < - (2 ^ 63 div a)"
    by (rule neg)
  show "a \<le> 0 \<Longrightarrow> 0 < b \<Longrightarrow> in_int64 (a * b) \<longleftrightarrow> \<not> a < - (2 ^ 63 div b)"
    using neg [of b a] by (simp add: mult.commute)
  show "a < 0 \<Longrightarrow> b \<le> 0 \<Longrightarrow> in_int64 (a * b) \<longleftrightarrow> \<not> b < - ((2 ^ 63 - 1) div (- a))"
  proof -
    assume ab: "a < 0" "b \<le> 0"
    then have "0 \<le> a * b" by (simp add: mult_nonpos_nonpos)
    then have "in_int64 (a * b) \<longleftrightarrow> - b * - a \<le> 2 ^ 63 - 1" by (auto simp: in_int64_def mult.commute)
    with int_le_div_iff [of "- a" "- b" "2 ^ 63 - 1"] ab show ?thesis by linarith
  qed
qed

lemma c_div_some:
  assumes "b \<noteq> 0" and "a \<noteq> INT64_MIN \<or> b \<noteq> - 1"
  obtains q where "c_div a b = Some q" and "sint q = sint a sdiv sint b"
  using c_div_sint [of b a] assms by blast

lemma mul_portable: "AtomicInt64_MulOrSetOverflow_portable a b = Some (AtomicInt64_MulOrSetOverflow a b)"
proof -
  note lim = mul_limits [OF sint_in_int64 [of a] sint_in_int64 [of b]]
  have MAX: "INT64_MAX \<noteq> INT64_MIN" using sint_eq_iff [of INT64_MAX INT64_MIN] by (simp add: sint_INT64)
  note defs = AtomicInt64_MulOrSetOverflow_portable_def AtomicInt64_MulOrSetOverflow_def word_sless_alt
  have nz: "w \<noteq> 0" "w \<noteq> - 1" if "0 < sint w" for w :: i64 using that by auto
  consider "0 < sint a" "0 < sint b" | "0 < sint a" "sint b \<le> 0" | "sint a \<le> 0" "0 < sint b"
    | "sint a < 0" "sint b \<le> 0" | "sint a = 0" "sint b \<le> 0" by linarith
  then show ?thesis
  proof cases
    case 1
    obtain q where q: "c_div INT64_MAX b = Some q" "sint q = sint INT64_MAX sdiv sint b"
      using nz [OF 1(2)] by (blast intro: c_div_some)
    then have "sint q = (2 ^ 63 - 1) div sint b" using 1 by (simp add: sint_INT64 sdiv_pos)
    with 1 q(1) lim(1) show ?thesis by (simp add: defs)
  next
    case 2
    obtain q where q: "c_div INT64_MIN a = Some q" "sint q = sint INT64_MIN sdiv sint a"
      using nz [OF 2(1)] by (blast intro: c_div_some)
    then have "sint q = - (2 ^ 63 div sint a)" using 2 sdiv_neg_left [of "2 ^ 63" "sint a"] by (simp add: sint_INT64)
    with 2 q(1) lim(2) show ?thesis by (simp add: defs)
  next
    case 3
    obtain q where q: "c_div INT64_MIN b = Some q" "sint q = sint INT64_MIN sdiv sint b"
      using nz [OF 3(2)] by (blast intro: c_div_some)
    then have "sint q = - (2 ^ 63 div sint b)" using 3 sdiv_neg_left [of "2 ^ 63" "sint b"] by (simp add: sint_INT64)
    with 3 q(1) lim(3) show ?thesis by (simp add: defs)
  next
    case 4
    then have "a \<noteq> 0" by auto
    then obtain q where q: "c_div INT64_MAX a = Some q" "sint q = sint INT64_MAX sdiv sint a"
      using MAX by (blast intro: c_div_some)
    then have "sint q = - ((2 ^ 63 - 1) div (- sint a))"
      using 4 sdiv_neg_right [of "2 ^ 63 - 1" "sint a"] by (simp add: sint_INT64)
    with 4 \<open>a \<noteq> 0\<close> q(1) lim(4) show ?thesis by (simp add: defs)
  next
    case 5
    then have "a = 0" using sint_eq_iff [of a 0] by simp
    with 5 show ?thesis by (simp add: defs in_int64_def)
  qed
qed

subsection \<open>Truncation and the floor\<close>

definition signs_differ :: "int \<Rightarrow> int \<Rightarrow> bool" where
  "signs_differ a n \<longleftrightarrow> \<not> n dvd a \<and> (a < 0) \<noteq> (n < 0)"

lemma sdiv_floor:
  assumes "n \<noteq> (0::int)"
  shows "a sdiv n = a div n + (if signs_differ a n then 1 else 0)"
proof -
  have "signs_differ a n \<longleftrightarrow> n \<noteq> 0 \<and> sgn a \<noteq> sgn n \<and> \<not> n dvd a"
    using assms by (cases "a = 0") (auto simp: signs_differ_def sgn_if)
  then show ?thesis using divide_int_eq_signed_divide_int [of a n] by simp
qed

lemma smod_floor:
  assumes "n \<noteq> (0::int)"
  shows "a smod n = a mod n - (if signs_differ a n then n else 0)"
proof -
  let ?k = "if signs_differ a n then 1 else 0 :: int"
  have "a smod n + (a div n + ?k) * n = a div n * n + a mod n"
    using smod_sdiv_mult_eq [of a n] unfolding sdiv_floor [OF assms, of a] by simp
  then have "a smod n = a mod n - ?k * n" by (simp only: distrib_right)
  then show ?thesis by simp
qed

lemma convert_in_range: "in_int64 n \<Longrightarrow> AtomicInt64_ConvertToCLongOrSetException (PyInt n) = Inr (of_int n)"
  by (simp add: AtomicInt64_ConvertToCLongOrSetException_def PyLong_AsInt64_def)

lemma update_int_alone:
  "update_int compute result [] self =
     (case compute (integer self) of
        None \<Rightarrow> None
      | Some (Inl e) \<Rightarrow> Some (Inl e, self)
      | Some (Inr desired) \<Rightarrow> Some (Inr (result (integer self, desired)), self\<lparr>integer := desired\<rparr>))"
  unfolding update_int_def int_cell.loop_alone AtomicInt64_Get_def by (simp split: option.split sum.split)

lemma update_int_effect:
  assumes "\<And>v. compute v \<noteq> None"
  shows "\<exists>n \<le> length fs.
    update_int compute result fs self =
     (case compute (integer (after_changes n fs self)) of
        None \<Rightarrow> None
      | Some (Inl e) \<Rightarrow> Some (Inl e, after_changes n fs self)
      | Some (Inr desired) \<Rightarrow>
          Some (Inr (result (integer (after_changes n fs self), desired)), (after_changes n fs self)\<lparr>integer := desired\<rparr>))"
  using int_cell.loop_takes_effect [where compute = compute and fs = fs and s = self] assms
  by (fastforce simp: update_int_def done_at_once_def AtomicInt64_Get_def split: option.splits sum.splits)

subsection \<open>Properties\<close>

text \<open>
  C35: The overflow checks written out for compilers without the builtins report exactly the sums,
  differences and products that do not fit in 64 bits, and otherwise compute the same, without
  dividing by zero or overflowing on the way.
\<close>

theorem overflow_checks_agree:
  "AtomicInt64_AddOrSetOverflow_portable a b = AtomicInt64_AddOrSetOverflow a b \<and>
   AtomicInt64_SubOrSetOverflow_portable a b = AtomicInt64_SubOrSetOverflow a b \<and>
   AtomicInt64_MulOrSetOverflow_portable a b = Some (AtomicInt64_MulOrSetOverflow a b)"
  by (simp add: add_portable sub_portable mul_portable)

text \<open>
  C29: However other threads change the cell meanwhile, an increment returns, and there is a moment
  at which it took effect at once: the cell held \<open>i\<close>, and then \<open>i + other\<close>, exactly; or that
  sum does not fit, \<open>OverflowError\<close> is raised and the cell is left as it was.
\<close>

theorem increment_takes_effect_once:
  "\<exists>n \<le> length fs. let cell = after_changes n fs self; i = sint (integer cell) + sint other in
     AtomicInt64_IncrementAndGet fs self other =
       (if in_int64 i then Some (Inr (of_int i), cell\<lparr>integer := of_int i\<rparr>) else Some (Inl OverflowError, cell)) \<and>
     AtomicInt64_GetAndIncrement fs self other =
       (if in_int64 i then Some (Inr (integer cell), cell\<lparr>integer := of_int i\<rparr>) else Some (Inl OverflowError, cell))"
proof -
  let ?compute = "\<lambda>current. Some (AtomicInt64_AddOrSetOverflow current other)"
  obtain r where r: "cas_loop AtomicInt64_Get AtomicInt64_CompareAndSet ?compute fs self = Some r"
    "\<exists>n \<le> length fs. done_at_once AtomicInt64_Get (\<lambda>self i. self\<lparr>integer := i\<rparr>) ?compute (after_changes n fs self) r"
    using int_cell.loop_takes_effect [where compute = ?compute and fs = fs and s = self] by auto
  then show ?thesis
    by (auto simp: AtomicInt64_IncrementAndGet_def AtomicInt64_GetAndIncrement_def update_int_def Let_def
        done_at_once_def AtomicInt64_Get_def AtomicInt64_AddOrSetOverflow_def)
qed

text \<open>
  C36: The in-place \<open>//=\<close> and \<open>%=\<close> of a cell truncate towards zero, as C does: when the division
  is not exact and the signs differ, the quotient is one more than Python's and the remainder has the
  sign of the dividend.  For the least value and the divisor -1 both are undefined in C, although the
  code means to report an overflow.
\<close>

theorem inplace_division_truncates:
  assumes "in_int64 n" and "n \<noteq> 0" and "a = sint (integer self)"
  shows "if a = - (2 ^ 63) \<and> n = - 1 then
      AtomicInt64_InplaceFloorDivide [] self (PyInt n) = None \<and>
      AtomicInt64_InplaceRemainder [] self (PyInt n) = None
    else
      (\<exists>q r. AtomicInt64_InplaceFloorDivide [] self (PyInt n) = Some (Inr 1, self\<lparr>integer := q\<rparr>) \<and>
         AtomicInt64_InplaceRemainder [] self (PyInt n) = Some (Inr 1, self\<lparr>integer := r\<rparr>) \<and>
         sint q = a div n + (if signs_differ a n then 1 else 0) \<and>
         sint r = a mod n - (if signs_differ a n then n else 0))"
proof -
  note n = sint_of_int64 [OF assms(1)]
  have nz: "(of_int n :: i64) \<noteq> 0" using n assms(2) by auto
  have MIN: "integer self = INT64_MIN \<longleftrightarrow> a = - (2 ^ 63)"
    using sint_eq_iff [of "integer self" INT64_MIN] assms(3) by (simp add: sint_INT64)
  have M1: "(of_int n :: i64) = - 1 \<longleftrightarrow> n = - 1"
    using sint_eq_iff [of "of_int n" "- 1"] n by simp
  have rem: "in_int64 (a smod n)"
    using smod_int_range [OF assms(2), of a] sint_in_int64 [of "integer self"] assms(1,2,3)
    by (auto simp: in_int64_def)
  have quot: "in_int64 (a sdiv n)" if "\<not> (a = - (2 ^ 63) \<and> n = - 1)"
    using that assms sint_in_int64 by (intro div_in_int64) auto
  note defs = AtomicInt64_InplaceFloorDivide_def AtomicInt64_InplaceFloorDivide_internal_def
    AtomicInt64_InplaceRemainder_def AtomicInt64_InplaceRemainder_internal_def inplace_with_def
    inplace_update_def AtomicInt64_DivOrSetException_def c_div_def c_mod_def
  show ?thesis
  proof (cases "a = - (2 ^ 63) \<and> n = - 1")
    case True
    then show ?thesis
      unfolding defs convert_in_range [OF assms(1)] using MIN M1 nz by (simp add: update_int_alone)
  next
    case False
    then have "\<not> (integer self = INT64_MIN \<and> (of_int n :: i64) = - 1)" using MIN M1 by simp
    then have "AtomicInt64_InplaceFloorDivide [] self (PyInt n) = Some (Inr 1, self\<lparr>integer := of_int (a sdiv n)\<rparr>) \<and>
        AtomicInt64_InplaceRemainder [] self (PyInt n) = Some (Inr 1, self\<lparr>integer := of_int (a smod n)\<rparr>)"
      unfolding defs convert_in_range [OF assms(1)] using nz n assms(3)
      by (simp add: update_int_alone)
    moreover have "sint (of_int (a sdiv n) :: i64) = a div n + (if signs_differ a n then 1 else 0)"
      unfolding sint_of_int64 [OF quot [OF False]] by (rule sdiv_floor [OF assms(2)])
    moreover have "sint (of_int (a smod n) :: i64) = a mod n - (if signs_differ a n then n else 0)"
      unfolding sint_of_int64 [OF rem] by (rule smod_floor [OF assms(2)])
    ultimately show ?thesis using False by (simp only: if_False) blast
  qed
qed

theorem inplace_division_truncates_witness:
  "\<exists>q r. AtomicInt64_InplaceFloorDivide [] \<lparr>integer = - 7\<rparr> (PyInt 2) = Some (Inr 1, \<lparr>integer = q\<rparr>) \<and>
     AtomicInt64_InplaceRemainder [] \<lparr>integer = - 7\<rparr> (PyInt 2) = Some (Inr 1, \<lparr>integer = r\<rparr>) \<and>
     sint q = - 3 \<and> sint r = - 1"
proof -
  have "sint (- 7 :: i64) = - 7" by simp
  with inplace_division_truncates [of 2 "- 7" "\<lparr>integer = - 7\<rparr>"] show ?thesis
    by (simp add: in_int64_def signs_differ_def)
qed

definition value_of :: "operand \<Rightarrow> operand" where
  "value_of x = (case x of Atomic cell \<Rightarrow> Integer (AtomicInt64_Get_callable cell) | _ \<Rightarrow> x)"

definition is_cell :: "operand \<Rightarrow> bool" where
  "is_cell x = (case x of Atomic _ \<Rightarrow> True | _ \<Rightarrow> False)"

lemma value_of_no_cell: "\<not> is_cell (value_of x)" and value_of_id: "\<not> is_cell x \<Longrightarrow> value_of x = x"
  by (simp_all add: is_cell_def value_of_def split: operand.splits)

text \<open>
  A binary operator of Python with a cell on either side, or on both, gives what the operator
  gives for the values of the cells, if Python calls the slot when an operand is a cell.
\<close>

theorem binary_operators_read_the_cells:
  assumes "\<And>x y. is_cell x \<or> is_cell y \<Longrightarrow> PyNumber bop x y = AtomicInt64_binary PyNumber bop x y"
  shows "PyNumber bop x y = PyNumber bop (value_of x) (value_of y)"
  by (cases x; cases y) (simp_all add: AtomicInt64_binary_def value_of_def is_cell_def assms)

definition example_number :: number_ops where
  "example_number bop x y =
     (case (value_of x, value_of y) of
        (Integer (PyInt a), Integer (PyInt b)) \<Rightarrow> Some (Inr (Integer (PyInt (a + b))))
      | _ \<Rightarrow> Some (Inl TypeError))"

theorem binary_operators_read_the_cells_witness:
  "example_number Add (Atomic \<lparr>integer = 5\<rparr>) (Atomic \<lparr>integer = 7\<rparr>) = Some (Inr (Integer (PyInt 12)))"
proof -
  have "example_number Add x y = AtomicInt64_binary example_number Add x y" if "is_cell x \<or> is_cell y" for x y
    using that by (cases x; cases y) (simp_all add: AtomicInt64_binary_def example_number_def value_of_def is_cell_def)
  from binary_operators_read_the_cells [of example_number Add, OF this, of "Atomic \<lparr>integer = 5\<rparr>" "Atomic \<lparr>integer = 7\<rparr>"]
  show ?thesis
    by (simp add: example_number_def value_of_def AtomicInt64_Get_callable_def AtomicInt64_Get_def PyLong_FromInt64_def)
qed

text \<open>
  \<open>pow\<close> whose modulus is a cell: the interpreter calls the slot of the third operand with the other
  two in the first places, and the first is read as a cell.
\<close>

lemma cell_as_modulus_is_undefined:
  assumes "\<And>x y. is_cell x \<or> is_cell y \<or> is_cell m \<Longrightarrow>
      PyNumber_Power x y m = AtomicInt64_Power PyNumber_Power x y m" and "is_cell m"
  shows "PyNumber_Power x y m = None"
proof -
  have plain: "PyNumber_Power x y m = None" if "\<not> is_cell x" "\<not> is_cell y" for x y
    using that assms(1) [of x y] assms(2) by (cases x; cases y) (simp_all add: AtomicInt64_Power_def is_cell_def)
  have left: "PyNumber_Power x y m = None" if "\<not> is_cell y" for x y
  proof (cases x)
    case (Atomic cell)
    with that assms(1) [of x y] assms(2)
    have "PyNumber_Power x y m = PyNumber_Power (value_of x) y m"
      by (cases y) (simp_all add: AtomicInt64_Power_def is_cell_def value_of_def)
    with plain [OF value_of_no_cell that] show ?thesis by simp
  qed (use plain that in \<open>simp_all add: is_cell_def\<close>)
  show ?thesis
  proof (cases y)
    case (Atomic cell)
    with assms(1) [of x y] assms(2) have "PyNumber_Power x y m = PyNumber_Power x (value_of y) m"
      by (simp add: AtomicInt64_Power_def is_cell_def value_of_def)
    with left [OF value_of_no_cell] show ?thesis by simp
  qed (use left in \<open>simp_all add: is_cell_def\<close>)
qed

end
