(* ===== verification/PyCore.thy ===== *)
theory PyCore
  imports Cells
begin

text \<open>
  Reference counts of the free-threaded interpreter, from
  \<^verbatim>\<open>src/src/include/cereggii/internal/py_core.h\<close>.

  An object has a local count that only its owning thread changes, and a shared count whose two low
  bits are flags.  A thread is given by its identifier; what other threads do to an object is a list
  of changes, as in \<open>Cells\<close>.
\<close>

record object =
  ob_ref_local :: u32
  ob_ref_shared :: i64
  ob_tid :: nat

definition Py_REF_SHARED_SHIFT :: nat where "Py_REF_SHARED_SHIFT = 2"
definition Py_REF_SHARED_FLAG_MASK :: i64 where "Py_REF_SHARED_FLAG_MASK = 3"
definition Py_REF_MAYBE_WEAKREF :: i64 where "Py_REF_MAYBE_WEAKREF = 1"
definition Py_REF_MERGED :: i64 where "Py_REF_MERGED = 3"

lemmas ref_consts = Py_REF_SHARED_SHIFT_def Py_REF_SHARED_FLAG_MASK_def Py_REF_MAYBE_WEAKREF_def Py_REF_MERGED_def

text \<open>An immortal object has the greatest local count (\<open>_Py_IsImmortal\<close> of the interpreter).\<close>

definition Py_IsImmortal :: "object \<Rightarrow> bool" where
  "Py_IsImmortal op \<longleftrightarrow> ob_ref_local op = - 1"

definition compare_exchange_shared :: "object \<Rightarrow> i64 \<Rightarrow> i64 \<Rightarrow> bool \<times> object" where
  "compare_exchange_shared op expected desired =
     (case compare_exchange (ob_ref_shared op) expected desired of (ok, v, _) \<Rightarrow> (ok, op\<lparr>ob_ref_shared := v\<rparr>))"

definition Py_TryIncrefFast :: "nat \<Rightarrow> object \<Rightarrow> bool \<times> object" where
  "Py_TryIncrefFast tid op =
     (let local_count = ob_ref_local op + 1 in
      if local_count = 0 then (True, op)
      else if ob_tid op = tid then (True, op\<lparr>ob_ref_local := local_count\<rparr>)
      else (False, op))"

text \<open>
  When the exchange fails, the next round uses the count that it has seen, which is reading the count
  again.
\<close>

definition Py_TryIncRefShared :: "(object \<Rightarrow> object) list \<Rightarrow> object \<Rightarrow> (bool \<times> object) option" where
  "Py_TryIncRefShared fs op =
     map_option (\<lambda>(r, op). (case r of Inl _ \<Rightarrow> False | Inr _ \<Rightarrow> True, op))
       (cas_loop ob_ref_shared compare_exchange_shared
         (\<lambda>shared. Some (if shared = 0 \<or> shared = Py_REF_MERGED then Inl ()
                         else Inr (shared + push_bit Py_REF_SHARED_SHIFT 1))) fs op)"

definition PyObject_SetMaybeWeakref :: "(object \<Rightarrow> object) list \<Rightarrow> object \<Rightarrow> object option" where
  "PyObject_SetMaybeWeakref fs op =
     (if Py_IsImmortal op then Some op
      else
        map_option snd
          (cas_loop ob_ref_shared compare_exchange_shared
            (\<lambda>shared. Some (if shared AND Py_REF_SHARED_FLAG_MASK \<noteq> 0 then Inl ()
                            else Inr (shared OR Py_REF_MAYBE_WEAKREF))) fs op))"

definition Py_NewRefWithLock :: "nat \<Rightarrow> (object \<Rightarrow> object) list \<Rightarrow> object \<Rightarrow> object option" where
  "Py_NewRefWithLock tid fs op =
     (case Py_TryIncrefFast tid op of
        (True, op) \<Rightarrow> Some op
      | (False, op) \<Rightarrow>
          map_option snd
            (cas_loop ob_ref_shared compare_exchange_shared
              (\<lambda>shared. Some (let new_shared = shared + push_bit Py_REF_SHARED_SHIFT 1 in
                 Inr (if shared AND Py_REF_SHARED_FLAG_MASK = 0 then new_shared OR Py_REF_MAYBE_WEAKREF
                      else new_shared) :: unit + i64)) fs op))"

definition Py_TryIncref :: "nat \<Rightarrow> (object \<Rightarrow> object) list \<Rightarrow> object \<Rightarrow> (bool \<times> object) option" where
  "Py_TryIncref tid fs op =
     (case Py_TryIncrefFast tid op of
        (True, op) \<Rightarrow> Some (True, op)
      | (False, op) \<Rightarrow> Py_TryIncRefShared fs op)"

text \<open>\<open>fs\<close> are the changes of others while the flag is set, \<open>gs\<close> those while the count is taken.\<close>

definition Py_SetWeakrefAndIncref ::
  "(object \<Rightarrow> object) list \<Rightarrow> (object \<Rightarrow> object) list \<Rightarrow> object \<Rightarrow> (bool \<times> object) option" where
  "Py_SetWeakrefAndIncref fs gs op =
     (if Py_IsImmortal op then Some (True, op)
      else
        (case PyObject_SetMaybeWeakref fs op of
           None \<Rightarrow> None
         | Some op \<Rightarrow> Py_TryIncRefShared gs op))"

interpretation shared_count: atomic_cell ob_ref_shared "\<lambda>op v. op\<lparr>ob_ref_shared := v\<rparr>" compare_exchange_shared
  by unfold_locales (auto simp: compare_exchange_shared_def compare_exchange_def)

subsection \<open>Facts\<close>

text \<open>
  What holds of an object to which somebody has a strong reference: its count is not merged at zero;
  other threads keep this, and never take back a flag.
\<close>

definition referenced :: "object \<Rightarrow> bool" where
  "referenced op \<longleftrightarrow> ob_ref_shared op \<noteq> Py_REF_MERGED"

definition flagged :: "object \<Rightarrow> bool" where
  "flagged op \<longleftrightarrow> ob_ref_shared op AND Py_REF_SHARED_FLAG_MASK \<noteq> 0"

definition respects_references :: "(object \<Rightarrow> object) \<Rightarrow> bool" where
  "respects_references f \<longleftrightarrow>
     (\<forall>op. referenced op \<longrightarrow> referenced (f op) \<and> (flagged op \<longrightarrow> flagged (f op)))"

lemma changes_respect:
  assumes "\<forall>f \<in> set fs. respects_references f" and "referenced op"
  shows "referenced (after_changes n fs op)" and "flagged op \<Longrightarrow> flagged (after_changes n fs op)"
proof -
  have "referenced (after_changes n fs op) \<and> (flagged op \<longrightarrow> flagged (after_changes n fs op))"
    using assms
    by (induction n fs op rule: after_changes.induct) (auto simp: respects_references_def)
  then show "referenced (after_changes n fs op)" "flagged op \<Longrightarrow> flagged (after_changes n fs op)" by blast+
qed

lemma weakref_bit:
  assumes "w AND 3 = (0 :: i64)"
  shows "w OR 1 \<noteq> 3" and "(w OR 1) AND 3 \<noteq> 0"
proof -
  have three: "bit (3 :: i64) 0" "bit (3 :: i64) 1" by simp_all
  have "\<not> bit (w AND 3) 1" using assms by simp
  then have w1: "\<not> bit w 1" using three by (simp add: bit_and_iff)
  have "\<not> bit (w OR 1) 1" using w1 by (simp add: bit_or_iff)
  then show "w OR 1 \<noteq> 3" using three(2) by metis
  have "bit ((w OR 1) AND 3) 0" using three by (simp add: bit_and_iff bit_or_iff)
  then show "(w OR 1) AND 3 \<noteq> 0" by (metis bit_0_eq bot_apply bot_bool_def)
qed

lemma set_flag:
  assumes "\<forall>f \<in> set fs. respects_references f" and "referenced op" and "\<not> Py_IsImmortal op"
  shows "\<exists>op'. PyObject_SetMaybeWeakref fs op = Some op' \<and> referenced op' \<and> flagged op'"
proof -
  let ?compute = "\<lambda>shared. Some (if shared AND Py_REF_SHARED_FLAG_MASK \<noteq> 0 then Inl ()
      else Inr (shared OR Py_REF_MAYBE_WEAKREF))"
  obtain r n where r: "cas_loop ob_ref_shared compare_exchange_shared ?compute fs op = Some r"
    "done_at_once ob_ref_shared (\<lambda>op v. op\<lparr>ob_ref_shared := v\<rparr>) ?compute (after_changes n fs op) r"
    using shared_count.loop_takes_effect [where compute = ?compute and fs = fs and s = op] by auto
  define c where "c = after_changes n fs op"
  have c: "referenced c" unfolding c_def by (rule changes_respect [OF assms(1,2)])
  show ?thesis
  proof (cases "flagged c")
    case True
    with r c assms(3) show ?thesis
      by (auto simp: PyObject_SetMaybeWeakref_def done_at_once_def flagged_def c_def [symmetric])
  next
    case False
    then have "ob_ref_shared c AND 3 = 0" by (simp add: flagged_def ref_consts)
    from weakref_bit [OF this] r False assms(3) show ?thesis
      by (auto simp: PyObject_SetMaybeWeakref_def done_at_once_def flagged_def referenced_def ref_consts c_def [symmetric])
  qed
qed

lemma incref_flagged:
  assumes "\<forall>f \<in> set fs. respects_references f" and "referenced op" and "flagged op"
  shows "\<exists>n \<le> length fs. Py_TryIncRefShared fs op =
           Some (True, (after_changes n fs op)\<lparr>ob_ref_shared := ob_ref_shared (after_changes n fs op) + 4\<rparr>)"
proof -
  let ?compute = "\<lambda>shared. Some (if shared = 0 \<or> shared = Py_REF_MERGED then Inl ()
      else Inr (shared + push_bit Py_REF_SHARED_SHIFT 1))"
  obtain r n where r: "cas_loop ob_ref_shared compare_exchange_shared ?compute fs op = Some r" "n \<le> length fs"
    "done_at_once ob_ref_shared (\<lambda>op v. op\<lparr>ob_ref_shared := v\<rparr>) ?compute (after_changes n fs op) r"
    using shared_count.loop_takes_effect [where compute = ?compute and fs = fs and s = op] by auto
  have c: "referenced (after_changes n fs op)" "flagged (after_changes n fs op)"
    using changes_respect [OF assms(1,2)] assms(3) by blast+
  then have "ob_ref_shared (after_changes n fs op) \<noteq> 0" "ob_ref_shared (after_changes n fs op) \<noteq> Py_REF_MERGED"
    by (auto simp: flagged_def referenced_def)
  with r show ?thesis
    by (auto simp: Py_TryIncRefShared_def done_at_once_def ref_consts intro!: exI [of _ n])
qed

text \<open>
  C34: Taking a reference to an object that the caller keeps alive never fails, whatever other threads
  do to its count that respects the references to it: the assertion in \<open>_Py_SetWeakrefAndIncref\<close>
  holds, and the shared count has been raised by exactly one reference, at one moment.
\<close>

theorem incref_of_referenced_object:
  assumes "\<forall>f \<in> set (fs @ gs). respects_references f" and "referenced op" and "\<not> Py_IsImmortal op"
  shows "\<exists>before. Py_SetWeakrefAndIncref fs gs op =
           Some (True, before\<lparr>ob_ref_shared := ob_ref_shared before + 4\<rparr>) \<and> referenced before \<and> flagged before"
proof -
  have "\<forall>f \<in> set fs. respects_references f" using assms(1) by simp
  from set_flag [OF this assms(2,3)] obtain op' where op':
    "PyObject_SetMaybeWeakref fs op = Some op'" "referenced op'" "flagged op'" by blast
  have gs: "\<forall>f \<in> set gs. respects_references f" using assms(1) by simp
  from incref_flagged [OF gs op'(2,3)] obtain n where
    "Py_TryIncRefShared gs op' =
      Some (True, (after_changes n gs op')\<lparr>ob_ref_shared := ob_ref_shared (after_changes n gs op') + 4\<rparr>)" by blast
  with op' changes_respect [OF gs op'(2)] assms(3) show ?thesis
    by (auto simp: Py_SetWeakrefAndIncref_def intro!: exI [of _ "after_changes n gs op'"])
qed

theorem incref_of_referenced_object_witness:
  "\<exists>before. Py_SetWeakrefAndIncref [] [\<lambda>op. op\<lparr>ob_ref_shared := 7\<rparr>] \<lparr>ob_ref_local = 1, ob_ref_shared = 0, ob_tid = 3\<rparr> =
     Some (True, before\<lparr>ob_ref_shared := ob_ref_shared before + 4\<rparr>) \<and> referenced before \<and> flagged before"
  using incref_of_referenced_object [of "[]" "[\<lambda>op. op\<lparr>ob_ref_shared := 7\<rparr>]"
      "\<lparr>ob_ref_local = 1, ob_ref_shared = 0, ob_tid = 3\<rparr>"]
  by (simp add: respects_references_def referenced_def flagged_def ref_consts Py_IsImmortal_def)

end
