(* ===== verification/AtomicRef.thy ===== *)
theory AtomicRef
  imports Cells
begin

text \<open>
  \<open>AtomicRef\<close> and \<open>AtomicEvent\<close>, from \<^verbatim>\<open>src/src/cereggii/atomic_ref.c\<close> and
  \<^verbatim>\<open>src/src/cereggii/atomic_event.c\<close>.

  A cell that holds a reference to an object.  The state has the object and the number of references
  that exist to every object; what other threads do between the steps are changes of the state.
\<close>

record ref_world =
  reference :: pyobj
  refs :: "pyobj \<Rightarrow> int"

type_synonym ref_change = "ref_world \<Rightarrow> ref_world"

definition incref :: "pyobj \<Rightarrow> ref_world \<Rightarrow> ref_world" where
  "incref x w = w\<lparr>refs := (refs w)(x := refs w x + 1)\<rparr>"

definition decref :: "pyobj \<Rightarrow> ref_world \<Rightarrow> ref_world" where
  "decref x w = w\<lparr>refs := (refs w)(x := refs w x - 1)\<rparr>"

definition AtomicRef_new :: "(pyobj \<Rightarrow> int) \<Rightarrow> ref_world" where
  "AtomicRef_new rc = incref Py_None \<lparr>reference = Py_None, refs = rc\<rparr>"

definition AtomicRef_init :: "pyobj option \<Rightarrow> ref_world \<Rightarrow> ref_world" where
  "AtomicRef_init initial_value w =
     (case initial_value of
        None \<Rightarrow> w
      | Some v \<Rightarrow> decref Py_None ((incref v w)\<lparr>reference := v\<rparr>))"

text \<open>
  The reference is loaded again while the object that was loaded cannot be referenced any more
  (\<open>_Py_TryIncref\<close> fails); \<open>tries\<close> are the changes after each such failure.
\<close>

fun AtomicRef_Get :: "ref_change list \<Rightarrow> ref_world \<Rightarrow> pyobj \<times> ref_world" where
  "AtomicRef_Get [] w = (reference w, incref (reference w) w)"
| "AtomicRef_Get (f # tries) w = AtomicRef_Get tries (f w)"

text \<open>
  In \<open>AtomicRef_Set\<close>, others act before each exchange and again before the reference is read anew;
  the variable \<open>expected\<close> is left with what a failed exchange has seen.
\<close>

partial_function (option) AtomicRef_Set_loop ::
  "pyobj \<Rightarrow> (ref_change \<times> ref_change list) list \<Rightarrow> pyobj \<Rightarrow> pyobj \<Rightarrow> ref_world \<Rightarrow> (pyobj \<times> ref_world) option" where
  "AtomicRef_Set_loop desired rounds current_reference expected w =
     (let before = (case rounds of [] \<Rightarrow> id | (f, _) # _ \<Rightarrow> f);
          tries = (case rounds of [] \<Rightarrow> [] | (_, gs) # _ \<Rightarrow> gs);
          w = before w in
      case compare_exchange (reference w) expected desired of
        (ok, new, seen) \<Rightarrow>
          if ok then Some (current_reference, w\<lparr>reference := new\<rparr>)
          else
            (case AtomicRef_Get tries (decref current_reference w) of
               (current_reference, w) \<Rightarrow>
                 AtomicRef_Set_loop desired (drop 1 rounds) current_reference seen w))"

definition AtomicRef_Set ::
  "pyobj \<Rightarrow> ref_change list \<Rightarrow> (ref_change \<times> ref_change list) list \<Rightarrow> ref_world \<Rightarrow> ref_world option" where
  "AtomicRef_Set desired tries rounds w =
     (case AtomicRef_Get tries (incref desired w) of
        (current_reference, w) \<Rightarrow>
          (case AtomicRef_Set_loop desired rounds current_reference current_reference w of
             None \<Rightarrow> None
           | Some (current_reference, w) \<Rightarrow> Some (decref current_reference (decref current_reference w))))"

definition AtomicRef_CompareAndSet :: "pyobj \<Rightarrow> pyobj \<Rightarrow> ref_change \<Rightarrow> ref_world \<Rightarrow> bool \<times> ref_world" where
  "AtomicRef_CompareAndSet expected desired f w =
     (let w = f (incref desired w) in
      case compare_exchange (reference w) expected desired of
        (ok, new, _) \<Rightarrow>
          if ok then (True, decref expected (w\<lparr>reference := new\<rparr>))
          else (False, decref desired w))"

text \<open>The arguments are the two objects, or \<open>None\<close> when they are not what the method takes.\<close>

definition AtomicRef_CompareAndSet_callable ::
  "(pyobj \<times> pyobj) option \<Rightarrow> ref_change \<Rightarrow> ref_world \<Rightarrow> pyobj outcome \<times> ref_world" where
  "AtomicRef_CompareAndSet_callable args f w =
     (case args of
        None \<Rightarrow> (Inl TypeError, w)
      | Some (expected, desired) \<Rightarrow>
          (case AtomicRef_CompareAndSet expected desired f w of
             (ok, w) \<Rightarrow> (Inr (if ok then Py_True else Py_False), w)))"

definition AtomicRef_GetAndSet :: "pyobj \<Rightarrow> ref_change \<Rightarrow> ref_world \<Rightarrow> pyobj \<times> ref_world" where
  "AtomicRef_GetAndSet desired f w = (let w = f (incref desired w) in (reference w, w\<lparr>reference := desired\<rparr>))"

definition AtomicRef_traverse :: "ref_world \<Rightarrow> pyobj list" where
  "AtomicRef_traverse w = [reference w]"

definition AtomicRef_clear :: "ref_world \<Rightarrow> ref_world" where
  "AtomicRef_clear w = decref (reference w) w"

subsection \<open>Events\<close>

text \<open>
  The mutex and the condition variable are the operating system's: \<open>cnd_wait\<close> may return at any
  moment, after others have changed the state.  Waiting for ever is \<open>None\<close>.
\<close>

record AtomicEvent =
  event_state :: bool

definition AtomicEvent_init :: "AtomicEvent \<Rightarrow> AtomicEvent" where
  "AtomicEvent_init e = e\<lparr>event_state := False\<rparr>"

definition AtomicEvent_Set :: "AtomicEvent \<Rightarrow> AtomicEvent" where
  "AtomicEvent_Set e = e\<lparr>event_state := True\<rparr>"

definition AtomicEvent_IsSet :: "AtomicEvent \<Rightarrow> bool" where
  "AtomicEvent_IsSet e = event_state e"

fun wait_gil_released :: "(AtomicEvent \<Rightarrow> AtomicEvent) list \<Rightarrow> AtomicEvent \<Rightarrow> AtomicEvent option" where
  "wait_gil_released [] e = (if event_state e then Some e else None)"
| "wait_gil_released (f # fs) e = (if event_state e then Some e else wait_gil_released fs (f e))"

definition AtomicEvent_Wait :: "(AtomicEvent \<Rightarrow> AtomicEvent) list \<Rightarrow> AtomicEvent \<Rightarrow> AtomicEvent option" where
  "AtomicEvent_Wait fs e = wait_gil_released fs e"

definition AtomicEvent_Set_callable :: "AtomicEvent \<Rightarrow> pyobj \<times> AtomicEvent" where
  "AtomicEvent_Set_callable e = (Py_None, AtomicEvent_Set e)"

definition AtomicEvent_IsSet_callable :: "AtomicEvent \<Rightarrow> py_int" where
  "AtomicEvent_IsSet_callable e = PyInt (if AtomicEvent_IsSet e then 1 else 0)"

definition AtomicEvent_Wait_callable :: "(AtomicEvent \<Rightarrow> AtomicEvent) list \<Rightarrow> AtomicEvent \<Rightarrow> (pyobj \<times> AtomicEvent) option" where
  "AtomicEvent_Wait_callable fs e = map_option (Pair Py_None) (AtomicEvent_Wait fs e)"

subsection \<open>Facts\<close>

text \<open>The references are those that others hold and the one of the cell.\<close>

definition counted :: "(pyobj \<Rightarrow> int) \<Rightarrow> ref_world \<Rightarrow> bool" where
  "counted held w \<longleftrightarrow> (\<forall>x. refs w x = held x + (if reference w = x then 1 else 0))"

definition balanced :: "ref_change \<Rightarrow> bool" where
  "balanced f \<longleftrightarrow> (\<forall>held w. counted held w \<longrightarrow> counted held (f w))"

lemma incref_simps [simp]:
  "reference (incref x w) = reference w" "refs (incref x w) = (refs w)(x := refs w x + 1)"
  "reference (decref x w) = reference w" "refs (decref x w) = (refs w)(x := refs w x - 1)"
  by (simp_all add: incref_def decref_def)

lemma counted_incref: "counted held w \<Longrightarrow> counted (held(x := held x + 1)) (incref x w)"
  by (simp add: counted_def)

lemma counted_decref: "counted held w \<Longrightarrow> counted (held(x := held x - 1)) (decref x w)"
  by (simp add: counted_def)

lemma counted_Get:
  assumes "\<forall>f \<in> set tries. balanced f" and "counted held w"
  shows "(case AtomicRef_Get tries w of (x, w') \<Rightarrow> counted (held(x := held x + 1)) w' \<and> reference w' = x)"
  using assms
proof (induction tries w rule: AtomicRef_Get.induct)
  case (1 w)
  then show ?case by (simp add: counted_def)
next
  case (2 f tries w)
  then show ?case by (simp add: balanced_def)
qed

lemma counted_swap:
  assumes "counted held w"
  shows "counted (held(reference w := held (reference w) + 1, desired := (held(reference w := held (reference w) + 1)) desired - 1))
           (w\<lparr>reference := desired\<rparr>)"
  using assms by (auto simp: counted_def)

text \<open>Setting, left alone, exchanges at the first attempt.\<close>

lemma Set_alone:
  "AtomicRef_Set desired [] [] w =
     Some (let old = reference w in
           decref old (decref old ((incref old (incref desired w))\<lparr>reference := desired\<rparr>)))"
  by (simp add: AtomicRef_Set_def AtomicRef_Set_loop.simps Let_def)


text \<open>Another thread's \<open>set\<close>.\<close>

definition store :: "pyobj \<Rightarrow> ref_change" where
  "store x w = decref (reference w) ((incref x w)\<lparr>reference := x\<rparr>)"

lemma store_balanced: "balanced (store x)"
  by (auto simp: balanced_def store_def counted_def)


definition balanced_rounds :: "(ref_change \<times> ref_change list) list \<Rightarrow> bool" where
  "balanced_rounds rounds \<longleftrightarrow> list_all (\<lambda>(f, gs). balanced f \<and> list_all balanced gs) rounds"

text \<open>
  C37: \<open>set\<close> can release an object that it did not replace: when its exchange fails, it reads the
  cell again but goes on expecting what the exchange has seen.  If others have changed the cell in
  between, and change it back before the next exchange, the references of the object that was read
  are released although the other one was replaced.
\<close>

theorem set_may_release_the_wrong_object:
  "\<exists>rounds w w'. balanced_rounds rounds \<and> counted (\<lambda>_. 1) w \<and>
     AtomicRef_Set (Obj 4) [] rounds w = Some w' \<and> reference w' = Obj 4 \<and>
     refs w' (Obj 3) = 0 \<and> refs w' (Obj 2) = 2"
proof -
  define w :: ref_world where "w = \<lparr>reference = Obj 1, refs = (\<lambda>_. 1)(Obj 1 := 2)\<rparr>"
  define rounds where "rounds = [(store (Obj 2), [store (Obj 3)]), (store (Obj 2), [])]"
  have "AtomicRef_Set (Obj 4) [] rounds w =
      Some \<lparr>reference = Obj 4, refs = (\<lambda>_. 1)(Obj 2 := 2, Obj 3 := 0, Obj 4 := 2)\<rparr>"
    by (simp add: AtomicRef_Set_def AtomicRef_Set_loop.simps rounds_def w_def Let_def compare_exchange_def
        store_def incref_def decref_def fun_eq_iff)
  moreover have "balanced_rounds rounds"
    by (simp add: balanced_rounds_def rounds_def store_balanced)
  moreover have "counted (\<lambda>_. 1) w" by (auto simp: counted_def w_def)
  ultimately show ?thesis
    by (intro exI [of _ rounds] exI [of _ w] exI [of _ "\<lparr>reference = Obj 4, refs = (\<lambda>_. 1)(Obj 2 := 2, Obj 3 := 0, Obj 4 := 2)\<rparr>"]) simp
qed

end
