(* ===== verification/Iter.thy ===== *)
theory Iter
  imports Accessors Index
begin

text \<open>
  Iteration over a dictionary by several threads, each over its partition of the pages, from
  \<^verbatim>\<open>src/src/cereggii/atomic_dict/iter.c\<close>.

  \<open>partitions\<close> and \<open>this_partition\<close> are \<open>int\<close> arguments; a product that does not fit in an
  \<open>int\<close> is undefined in C, which is \<open>None\<close>, like the other undefined behaviour.  The list
  \<open>tries\<close> has the outcomes of \<open>_Py_TryIncref\<close> on the key and the value of an entry.
\<close>

record fast_iterator =
  it_meta :: nat
  it_position :: u64
  it_partitions :: nat

definition int_product :: "nat \<Rightarrow> nat \<Rightarrow> nat option" where
  "int_product a b = (if a * b < 2 ^ 31 then Some (a * b) else None)"

definition AtomicDict_FastIter :: "dict \<Rightarrow> int \<Rightarrow> int \<Rightarrow> fast_iterator outcome option" where
  "AtomicDict_FastIter d partitions this_partition =
     (if partitions \<le> 0 then Some (Inl ValueError)
      else if this_partition < 0 \<or> this_partition \<ge> partitions then Some (Inl ValueError)
      else
        (case metadata d of
           MetaAt mid \<Rightarrow>
             map_option (\<lambda>start. Inr \<lparr>it_meta = mid, it_position = of_nat start, it_partitions = nat partitions\<rparr>)
               (int_product (nat this_partition) ATOMIC_DICT_ENTRIES_IN_PAGE)
         | _ \<Rightarrow> None))"

text \<open>The position after \<open>pos\<close>: past the end of a page come the pages of the other partitions.\<close>

definition next_position :: "nat \<Rightarrow> u64 \<Rightarrow> u64 option" where
  "next_position partitions pos =
     (if (pos + 1) AND (of_nat ATOMIC_DICT_ENTRIES_IN_PAGE - 1) = 0
      then map_option (\<lambda>skip. (pos AND NOT (of_nat ATOMIC_DICT_ENTRIES_IN_PAGE - 1)) + of_nat skip)
             (int_product partitions ATOMIC_DICT_ENTRIES_IN_PAGE)
      else Some (pos + 1))"

partial_function (option) next_entry :: "heap \<Rightarrow> meta \<Rightarrow> nat \<Rightarrow> u64 \<Rightarrow> (entry option \<times> u64) option" where
  "next_entry h m partitions pos =
     (if int (unat (page_of pos)) > greatest_allocated_page m then Some (None, pos)
      else
        (case get_entry_at pos m of
           None \<Rightarrow> None
         | Some p \<Rightarrow>
             (case next_position partitions pos of
                None \<Rightarrow> None
              | Some pos' \<Rightarrow>
                  if e_value (read_entry h p) = None then next_entry h m partitions pos'
                  else Some (Some (read_entry h p), pos'))))"

datatype next_result = StopIteration | Yield pyobj pyobj | ConcurrentUsage

definition AtomicDictFastIterator_Next ::
  "dict \<Rightarrow> bool list \<Rightarrow> fast_iterator \<Rightarrow> (next_result \<times> fast_iterator) option" where
  "AtomicDictFastIterator_Next d tries it =
     (let m = metas d (it_meta it) in
      if greatest_allocated_page m < 0 then Some (StopIteration, it)
      else
        (case next_entry (entries d) m (it_partitions it) (it_position it) of
           None \<Rightarrow> None
         | Some (None, pos) \<Rightarrow> Some (StopIteration, it\<lparr>it_position := pos\<rparr>)
         | Some (Some e, pos) \<Rightarrow>
             (let it = it\<lparr>it_position := pos\<rparr> in
              case (e_key e, e_value e) of
                (Some k, Some v) \<Rightarrow>
                  if list_all id (take 2 tries) then Some (Yield k v, it) else Some (ConcurrentUsage, it)
              | _ \<Rightarrow> Some (ConcurrentUsage, it))))"

subsection \<open>The positions of a partition\<close>

text \<open>Stepping through the positions below the end \<open>n * 128\<close>, on natural numbers.\<close>

definition step_position :: "nat \<Rightarrow> nat \<Rightarrow> nat" where
  "step_position P pos = (if (pos + 1) mod 128 = 0 then (pos div 128 + P) * 128 else pos + 1)"

lemma step_position_gt: "0 < P \<Longrightarrow> pos < step_position P pos"
proof -
  assume "0 < P"
  have "pos < (pos div 128 + 1) * 128" using div_mult_mod_eq [of pos 128] by simp
  also have "\<dots> \<le> (pos div 128 + P) * 128" using \<open>0 < P\<close> by (intro mult_right_mono) auto
  finally show ?thesis by (simp add: step_position_def)
qed

lemma congruent_apart:
  assumes "a mod P = b mod P" and "b < (a::nat)"
  shows "b + P \<le> a"
proof -
  have "P dvd a - b" using assms by (simp flip: mod_eq_dvd_iff_nat)
  with assms(2) have "P \<le> a - b" by (intro dvd_imp_le) auto
  with assms(2) show ?thesis by linarith
qed

function visit :: "nat \<Rightarrow> nat \<Rightarrow> nat \<Rightarrow> nat list" where
  "visit P n pos = (if P = 0 \<or> n * 128 \<le> pos then [] else pos # visit P n (step_position P pos))"
  by pat_completeness auto
termination
  by (relation "measure (\<lambda>(P, n, pos). n * 128 - pos)") (use step_position_gt diff_less_mono2 in \<open>auto simp: not_le\<close>)

declare visit.simps [simp del]

lemma visit_positions:
  assumes "0 < P"
  shows "set (visit P n pos) = {p. pos \<le> p \<and> p < n * 128 \<and> (p div 128) mod P = (pos div 128) mod P}"
    and "sorted_wrt (<) (visit P n pos)"
proof -
  have "set (visit P n pos) = {p. pos \<le> p \<and> p < n * 128 \<and> (p div 128) mod P = (pos div 128) mod P} \<and>
    sorted_wrt (<) (visit P n pos)"
    using assms
  proof (induction P n pos rule: visit.induct)
    case (1 P n pos)
    show ?case
    proof (cases "n * 128 \<le> pos")
      case True
      then show ?thesis by (subst visit.simps; subst (2) visit.simps) auto
    next
      case False
      let ?s = "step_position P pos"
      from 1 False have IH:
        "set (visit P n ?s) = {p. ?s \<le> p \<and> p < n * 128 \<and> (p div 128) mod P = (?s div 128) mod P}"
        "sorted_wrt (<) (visit P n ?s)" by simp_all
      have eq: "visit P n pos = pos # visit P n ?s" using False 1(2) by (subst visit.simps) simp
      have page: "(?s div 128) mod P = (pos div 128) mod P"
      proof (cases "(pos + 1) mod 128 = 0")
        case True
        then show ?thesis by (simp add: step_position_def)
      next
        case no: False
        then have "(pos + 1) div 128 = pos div 128" by (metis Suc_eq_plus1 div_Suc)
        with no show ?thesis by (simp add: step_position_def)
      qed
      have step: "?s \<le> p" if "pos < p" "(p div 128) mod P = (pos div 128) mod P" for p
      proof (cases "(pos + 1) mod 128 = 0")
        case True
        then have "(pos + 1) div 128 = pos div 128 + 1" by (simp add: div_Suc)
        with True have "pos + 1 = (pos div 128 + 1) * 128" by (metis add_0_right div_mult_mod_eq)
        with that(1) have "(pos div 128 + 1) * 128 \<le> p" by linarith
        then have "pos div 128 + 1 \<le> p div 128" by (simp add: less_eq_div_iff_mult_less_eq)
        then have "pos div 128 + P \<le> p div 128" using that(2) by (intro congruent_apart) auto
        then have "(pos div 128 + P) * 128 \<le> p" by (simp add: less_eq_div_iff_mult_less_eq)
        with True show ?thesis by (simp add: step_position_def)
      next
        case no: False
        with that(1) show ?thesis by (simp add: step_position_def)
      qed
      have "pos < ?s" using 1(2) by (rule step_position_gt)
      with step False show ?thesis
        unfolding eq using IH page by (auto simp: order.order_iff_strict)
    qed
  qed
  then show "set (visit P n pos) = {p. pos \<le> p \<and> p < n * 128 \<and> (p div 128) mod P = (pos div 128) mod P}"
    "sorted_wrt (<) (visit P n pos)" by blast+
qed

lemma pages_of_partition:
  assumes "0 < P" and "t < P"
  shows "set (visit P n (t * 128)) = {p. p < n * 128 \<and> (p div 128) mod P = t}"
proof -
  have "t * 128 \<le> p" if "(p div 128) mod P = t" for p
  proof -
    have "t \<le> p div 128" using that mod_less_eq_dividend [of "p div 128" P] by simp
    then show ?thesis by (simp add: less_eq_div_iff_mult_less_eq)
  qed
  then show ?thesis
    unfolding visit_positions(1) [OF assms(1)] using assms(2) by auto
qed

subsection \<open>The iterator\<close>

lemma page_start: "(w AND NOT (mask 7) :: u64) = of_nat (unat w div 128 * 128)"
proof -
  have "w AND NOT (mask 7) = push_bit 7 (drop_bit 7 w)"
    by (rule bit_word_eqI) (auto simp: bit_simps)
  also have "\<dots> = drop_bit 7 w * 128" by (simp add: push_bit_eq_mult)
  also have "drop_bit 7 w = of_nat (unat (drop_bit 7 w))" by simp
  finally show ?thesis by (simp add: unat_drop_bit)
qed

lemma next_position_step:
  assumes "p < 2 ^ 60" and "P * 128 < 2 ^ 31"
  shows "next_position P (of_nat p) = Some (of_nat (step_position P p))"
proof -
  have "unat (of_nat p + 1 :: u64) = p + 1"
    using unat_word_small [of "p + 1"] assms(1) by (simp add: add.commute)
  then have "unat ((of_nat p + 1 :: u64) AND mask 7) = (p + 1) mod 128" by (simp add: unat_and_mask)
  then have "((of_nat p + 1 :: u64) AND mask 7 = 0) = ((p + 1) mod 128 = 0)"
    by (metis unsigned_eq_0_iff)
  moreover have "(of_nat p AND NOT (mask 7) :: u64) = of_nat (p div 128 * 128)"
    unfolding page_start using unat_word_small [of p] assms(1) by simp
  moreover have "int_product P ATOMIC_DICT_ENTRIES_IN_PAGE = Some (P * 128)"
    using assms(2) by (simp add: int_product_def layout_consts)
  ultimately show ?thesis
    unfolding next_position_def position_mask by (simp add: step_position_def algebra_simps del: mask_numeral)
qed

text \<open>The number of allocated pages of a table that is not too large.\<close>

definition iterable :: "meta \<Rightarrow> nat \<Rightarrow> nat \<Rightarrow> bool" where
  "iterable m P n \<longleftrightarrow> pages_ok m \<and> int n = greatest_allocated_page m + 1 \<and> n < 2 ^ 50 \<and> 0 < P \<and> P * 128 < 2 ^ 31"

lemma next_entry_visit:
  assumes "iterable m P n" and "pos < 2 ^ 58"
  shows "(case filter (has_value h m) (visit P n pos) of
            [] \<Rightarrow> \<exists>q. next_entry h m P (of_nat pos) = Some (None, of_nat q) \<and> n * 128 \<le> q \<and> q < 2 ^ 58
          | p # ps \<Rightarrow>
              next_entry h m P (of_nat pos) = Some (Some (entry_at h m p), of_nat (step_position P p)) \<and>
              ps = filter (has_value h m) (visit P n (step_position P p)) \<and> step_position P p < 2 ^ 58)"
  using assms
proof (induction P n pos rule: visit.induct)
  case (1 P n pos)
  note it = 1(2) [unfolded iterable_def]
  have pg: "unat (page_of (of_nat pos)) = pos div 128"
    using 1(3) unat_word_small [of pos] by (simp add: unat_page_of)
  show ?case
  proof (cases "n * 128 \<le> pos")
    case True
    then have "n \<le> pos div 128" by (simp add: less_eq_div_iff_mult_less_eq)
    then have "greatest_allocated_page m < int (unat (page_of (of_nat pos)))" using it by (simp add: pg)
    then have "next_entry h m P (of_nat pos) = Some (None, of_nat pos)" by (subst next_entry.simps) simp
    moreover have "visit P n pos = []" using True by (subst visit.simps) simp
    ultimately show ?thesis using True 1(3) by auto
  next
    case False
    then have lt: "pos div 128 < n" by (simp add: div_less_iff_less_mult)
    have small: "pos < 2 ^ 57" using False it by simp
    have step: "step_position P pos < 2 ^ 58"
    proof -
      have "(pos div 128 + P) * 128 \<le> pos + P * 128" by simp
      also have "\<dots> < 2 ^ 58" using small it by simp
      finally show ?thesis using small by (simp add: step_position_def)
    qed
    have nxt: "next_position P (of_nat pos) = Some (of_nat (step_position P pos))"
      using small it by (intro next_position_step) auto
    have eq: "visit P n pos = pos # visit P n (step_position P pos)" using False it by (subst visit.simps) simp
    have "allocated m (of_nat pos)" using lt it by (simp add: allocated_def pg nat_le_iff [symmetric]) linarith
    then obtain q where q: "get_entry_at (of_nat pos) m = Some q" using it by (metis get_entry_at_some)
    have ent: "entry_at h m pos = h q" by (simp add: entry_at_def q)
    have inside: "\<not> greatest_allocated_page m < int (unat (page_of (of_nat pos)))" using lt it by (simp add: pg)
    show ?thesis
    proof (cases "has_value h m pos")
      case True
      then have "e_value (h q) \<noteq> None" "read_entry h q = h q"
        by (auto simp: has_value_def ent read_entry_def)
      then have "next_entry h m P (of_nat pos) = Some (Some (h q), of_nat (step_position P pos))"
        using inside by (subst next_entry.simps) (auto simp: q nxt)
      with True step show ?thesis by (simp add: eq ent)
    next
      case no: False
      then have "e_value (read_entry h q) = None" by (simp add: has_value_def ent read_entry_def)
      then have skip: "next_entry h m P (of_nat pos) = next_entry h m P (of_nat (step_position P pos))"
        using inside by (subst next_entry.simps) (simp add: q nxt)
      have rest: "filter (has_value h m) (visit P n pos) = filter (has_value h m) (visit P n (step_position P pos))"
        using no by (simp add: eq)
      show ?thesis unfolding skip rest by (rule 1(1) [OF _ 1(2) step]) (use False it in simp)
    qed
  qed
qed

text \<open>Running an iterator to its end, when every reference can be taken.\<close>

partial_function (option) iterate :: "dict \<Rightarrow> fast_iterator \<Rightarrow> (pyobj \<times> pyobj) list option" where
  "iterate d it =
     (case AtomicDictFastIterator_Next d [] it of
        None \<Rightarrow> None
      | Some (Yield k v, it) \<Rightarrow> Option.bind (iterate d it) (\<lambda>kvs. Some ((k, v) # kvs))
      | Some (StopIteration, it) \<Rightarrow> Some []
      | Some (ConcurrentUsage, it) \<Rightarrow> None)"

definition item_at :: "heap \<Rightarrow> meta \<Rightarrow> nat \<Rightarrow> pyobj \<times> pyobj" where
  "item_at h m p = (the (e_key (entry_at h m p)), the (e_value (entry_at h m p)))"

definition values_have_keys :: "heap \<Rightarrow> meta \<Rightarrow> nat \<Rightarrow> bool" where
  "values_have_keys h m n \<longleftrightarrow> (\<forall>p < n * 128. has_value h m p \<longrightarrow> e_key (entry_at h m p) \<noteq> None)"

lemma iterate_visit:
  assumes "iterable (metas d mid) P n" and "values_have_keys (entries d) (metas d mid) n"
    and "pos < 2 ^ 58" and "ps = filter (has_value (entries d) (metas d mid)) (visit P n pos)"
  shows "iterate d \<lparr>it_meta = mid, it_position = of_nat pos, it_partitions = P\<rparr> =
    Some (map (item_at (entries d) (metas d mid)) ps)"
  using assms(3,4)
proof (induction ps arbitrary: pos)
  case Nil
  let ?m = "metas d mid"
  have g: "\<not> greatest_allocated_page ?m < 0" using assms(1) by (auto simp: iterable_def pages_ok_def)
  from Nil(2) next_entry_visit [OF assms(1) Nil(1), of "entries d"] obtain q where
    "next_entry (entries d) ?m P (of_nat pos) = Some (None, of_nat q)" by auto
  with g show ?case by (subst iterate.simps) (simp add: AtomicDictFastIterator_Next_def)
next
  case (Cons p ps)
  let ?m = "metas d mid"
  have g: "\<not> greatest_allocated_page ?m < 0" using assms(1) by (auto simp: iterable_def pages_ok_def)
  from Cons(3) next_entry_visit [OF assms(1) Cons(2), of "entries d"] have n:
    "next_entry (entries d) ?m P (of_nat pos) = Some (Some (entry_at (entries d) ?m p), of_nat (step_position P p))"
    "ps = filter (has_value (entries d) ?m) (visit P n (step_position P p))" "step_position P p < 2 ^ 58"
    by (auto split: list.splits)
  have "p \<in> set (filter (has_value (entries d) ?m) (visit P n pos))" using Cons(3) by (metis list.set_intros(1))
  then have "has_value (entries d) ?m p" "p < n * 128"
    using visit_positions(1) [of P n pos] assms(1) by (auto simp: iterable_def)
  with assms(2) obtain k v where "e_key (entry_at (entries d) ?m p) = Some k" "e_value (entry_at (entries d) ?m p) = Some v"
    by (auto simp: values_have_keys_def has_value_def)
  with g n(1) have "AtomicDictFastIterator_Next d [] \<lparr>it_meta = mid, it_position = of_nat pos, it_partitions = P\<rparr> =
      Some (Yield k v, \<lparr>it_meta = mid, it_position = of_nat (step_position P p), it_partitions = P\<rparr>)"
    "item_at (entries d) ?m p = (k, v)"
    by (simp_all add: AtomicDictFastIterator_Next_def item_at_def)
  with Cons.IH [OF n(3,2)] show ?case by (subst iterate.simps) simp
qed

text \<open>The items that the iterator over one partition yields, and those of all partitions.\<close>

definition partition_items :: "dict \<Rightarrow> nat \<Rightarrow> nat \<Rightarrow> (pyobj \<times> pyobj) list option" where
  "partition_items d P t =
     (case AtomicDict_FastIter d (int P) (int t) of Some (Inr it) \<Rightarrow> iterate d it | _ \<Rightarrow> None)"

definition all_items :: "dict \<Rightarrow> nat \<Rightarrow> (pyobj \<times> pyobj) list option" where
  "all_items d P = map_option concat (those (map (partition_items d P) [0..<P]))"

lemma partition_items_visit:
  assumes "metadata d = MetaAt mid" and "iterable (metas d mid) P n"
    and "values_have_keys (entries d) (metas d mid) n" and "t < P"
  shows "partition_items d P t =
      Some (map (item_at (entries d) (metas d mid))
        (sorted_list_of_set {p. p < n * 128 \<and> (p div 128) mod P = t \<and> has_value (entries d) (metas d mid) p}))"
proof -
  let ?m = "metas d mid"
  let ?ps = "filter (has_value (entries d) ?m) (visit P n (t * 128))"
  have P: "0 < P" "P * 128 < 2 ^ 31" using assms(2) by (auto simp: iterable_def)
  with assms(4) have t: "t * 128 < 2 ^ 31" by simp
  then have pos: "t * 128 < 2 ^ 58" by simp
  have start: "AtomicDict_FastIter d (int P) (int t) =
      Some (Inr \<lparr>it_meta = mid, it_position = of_nat (t * 128), it_partitions = P\<rparr>)"
    using assms(1,4) P t by (simp add: AtomicDict_FastIter_def int_product_def layout_consts)
  have "sorted_wrt (<) ?ps" using visit_positions(2) [OF P(1)] by (rule sorted_wrt_filter)
  moreover have "set ?ps = {p. p < n * 128 \<and> (p div 128) mod P = t \<and> has_value (entries d) ?m p}"
    using pages_of_partition [OF P(1) assms(4), of n] by auto
  ultimately have "?ps = sorted_list_of_set {p. p < n * 128 \<and> (p div 128) mod P = t \<and> has_value (entries d) ?m p}"
    by (metis sorted_list_of_set.idem_if_sorted_distinct strict_sorted_iff)
  with iterate_visit [OF assms(2,3) pos refl] start show ?thesis by (simp add: partition_items_def)
qed

text \<open>
  The iterators over the partitions divide the dictionary: the one over partition \<open>t\<close> of
  \<open>P\<close> ends, and yields the items of exactly the entries with a value in the pages congruent to
  \<open>t\<close>, in the order of their locations, each once.
\<close>

theorem fast_iter_partition:
  assumes "metadata d = MetaAt mid" and "iterable (metas d mid) P n"
    and "values_have_keys (entries d) (metas d mid) n" and "t < P"
  shows "(case AtomicDict_FastIter d (int P) (int t) of
      Some (Inr it) \<Rightarrow>
        iterate d it =
          Some (map (item_at (entries d) (metas d mid))
            (sorted_list_of_set {p. p < n * 128 \<and> (p div 128) mod P = t \<and> has_value (entries d) (metas d mid) p}))
    | _ \<Rightarrow> False)"
  using partition_items_visit [OF assms] by (simp add: partition_items_def split: option.splits sum.splits)

theorem fast_iter_partition_witness:
  "(case AtomicDict_FastIter (example_dict\<lparr>entries := example_heap\<rparr>) 1 0 of
      Some (Inr it) \<Rightarrow> iterate (example_dict\<lparr>entries := example_heap\<rparr>) it = Some [(Obj 1, Obj 2)]
    | _ \<Rightarrow> False)"
proof -
  let ?d = "example_dict\<lparr>entries := example_heap\<rparr>"
  have m: "metas ?d 0 = example_table" by (simp add: example_dict_def example_table_def)
  have at: "entry_at example_heap example_table p = (if p mod 128 = 3 then example_heap (0, 3) else zero_entry)"
    if "p < 128" for p
    using that by (auto simp: entry_at_def get_entry_at_def unat_position_in_page_of example_defs unat_of_nat take_bit_nat_eq_self)
  have hv: "has_value example_heap example_table p \<longleftrightarrow> p = 3" if "p < 128" for p
    using at [OF that] that by (auto simp: has_value_def example_heap_def zero_entry_def)
  have "iterable example_table 1 1"
    by (simp add: iterable_def pages_ok_def page_count_def layout_consts SIZE_OF_def example_defs)
  moreover have "values_have_keys example_heap example_table 1"
    using at hv by (auto simp: values_have_keys_def example_heap_def)
  moreover have "{p. p < 1 * 128 \<and> (p div 128) mod 1 = (0::nat) \<and> has_value example_heap example_table p} = {3}"
    using hv by auto
  moreover have "item_at example_heap example_table 3 = (Obj 1, Obj 2)"
    using at [of 3] by (simp add: item_at_def example_heap_def)
  moreover have "metadata ?d = MetaAt 0" "entries ?d = example_heap" by (simp_all add: example_dict_def)
  ultimately show ?thesis
    using fast_iter_partition [of ?d 0 1 1 0] unfolding m by (simp split: option.splits sum.splits)
qed

end
