(* ===== verification/DictMap.thy ===== *)
theory DictMap
  imports DictCorrect
begin

text \<open>
  The operations of a dictionary are those of a map: compare-and-set, deletion, assignment and lookup,
  with the growth of the table that an insertion may need.
\<close>

subsection \<open>Between the steps of an operation\<close>

definition settled :: "pyenv \<Rightarrow> nat \<Rightarrow> nat \<Rightarrow> nat \<Rightarrow> dict \<Rightarrow> bool" where
  "settled py tid i mid d \<longleftrightarrow>
     table_ok py mid d \<and> unlocked d \<and> allocations d = [] \<and> thread_storage d tid = Some i"

lemma settledD:
  assumes "settled py tid i mid d"
  shows "table_ok py mid d" and "unlocked d" and "allocations d = []" and "thread_storage d tid = Some i"
    and "i < length (accessors d)" and "dict_map py d = table_map py (entries d) (metas d mid)"
    and "metadata d = MetaAt mid"
  using assms table_okD(1,4) by (auto simp: settled_def dict_map_def)

lemma settled_storages:
  assumes "settled py tid i mid d" and "like_storages (accessors d) as" and "unlocked (d\<lparr>accessors := as\<rparr>)"
  shows "settled py tid i mid (d\<lparr>accessors := as\<rparr>)"
  using assms table_ok_storages by (simp add: settled_def)

lemma dict_map_storages [simp]: "dict_map py (d\<lparr>accessors := as\<rparr>) = dict_map py d"
  by (simp add: dict_map_def cong: metadata_ref.case_cong)

lemma settled_grow:
  assumes ok: "settled py tid i mid d" and wb: "well_behaved_keys py" and "log_size (metas d mid) \<le> 29"
  obtains d' mid' where "grow py tid d = Some (1, d')" and "settled py tid i mid' d'"
    and "dict_map py d' = dict_map py d" and "log_size (metas d' mid') = Suc (log_size (metas d mid))"
    and "page_limit (metas d' mid') < page_count (metas d' mid')"
proof (rule grow_ok [OF settledD(1) [OF ok] wb settledD(2-4) [OF ok] assms(3)])
  fix d' mid'
  assume g: "grow py tid d = Some (1, d')" "table_ok py mid' d'" "unlocked d'" "allocations d' = []"
    "thread_storage d' = thread_storage d" "log_size (metas d' mid') = Suc (log_size (metas d mid))"
    "page_limit (metas d' mid') < page_count (metas d' mid')"
    "table_map py (entries d') (metas d' mid') = table_map py (entries d) (metas d mid)"
  then have s: "settled py tid i mid' d'" using settledD(4) [OF ok] by (simp add: settled_def)
  show thesis
    using g s settledD(6) [OF s] settledD(6) [OF ok] by (intro that [OF g(1) s]) simp_all
qed

text \<open>An operation begins by refreshing its reference to the metadata and taking the accessor's mutex.\<close>

lemma settled_lock:
  assumes ok: "settled py tid i mid d"
  obtains as bs where "get_meta i d = Some (mid, d\<lparr>accessors := as\<rparr>)"
    and "lock_accessor_storage_or_help_resize py tid i mid (d\<lparr>accessors := as\<rparr>) = Some (False, d\<lparr>accessors := bs\<rparr>)"
    and "like_storages (accessors d) bs" and "locked_by i (d\<lparr>accessors := bs\<rparr>)"
    and "table_ok py mid (d\<lparr>accessors := bs\<rparr>)"
proof -
  note s = settledD [OF ok]
  from get_meta_ok [OF s(1,2,5)] obtain as where
    as: "get_meta i d = Some (mid, d\<lparr>accessors := as\<rparr>)" "like_storages (accessors d) as" "unlocked (d\<lparr>accessors := as\<rparr>)" .
  have "i < length (accessors (d\<lparr>accessors := as\<rparr>))" using s(5) like_storages_length [OF as(2)] by simp
  from lock_ok [OF table_ok_storages [OF s(1) as(2)] as(3) this, where tid = tid] obtain bs where
    bs: "lock_accessor_storage_or_help_resize py tid i mid (d\<lparr>accessors := as\<rparr>) = Some (False, d\<lparr>accessors := bs\<rparr>)"
    "like_storages as bs" "locked_by i (d\<lparr>accessors := bs\<rparr>)" by auto
  from like_storages_trans [OF as(2) bs(2)] have like: "like_storages (accessors d) bs" .
  show thesis by (rule that [OF as(1) bs(1) like bs(3) table_ok_storages [OF s(1) like]])
qed

subsection \<open>Compare and set\<close>

text \<open>The end of an attempt: the table grows when many entries have been inserted.\<close>

definition cas_finish :: "pyenv \<Rightarrow> nat \<Rightarrow> nat \<Rightarrow> pyobj \<Rightarrow> bool \<Rightarrow> dict \<Rightarrow> (pyobj outcome \<times> dict) option" where
  "cas_finish py tid mid result significantly d =
     (if significantly \<and> approx_inserted d \<ge> int (SIZE_OF (metas d mid) * 2 div 3) then
       (case grow py tid d of
          None \<Rightarrow> None
        | Some (resized, d) \<Rightarrow> if resized < 0 then Some (Inl GrowFailed, d) else Some (Inr result, d))
      else Some (Inr result, d))"

lemma cas_finish_ok:
  assumes ok: "settled py tid i mid d" and wb: "well_behaved_keys py" and "log_size (metas d mid) \<le> 29"
  obtains d' mid' where "cas_finish py tid mid result significantly d = Some (Inr result, d')"
    and "settled py tid i mid' d'" and "dict_map py d' = dict_map py d"
    and "log_size (metas d' mid') \<le> Suc (log_size (metas d mid))"
proof (cases "significantly \<and> approx_inserted d \<ge> int (SIZE_OF (metas d mid) * 2 div 3)")
  case True
  from settled_grow [OF assms] obtain d' mid' where "grow py tid d = Some (1, d')" "settled py tid i mid' d'"
    "dict_map py d' = dict_map py d" "log_size (metas d' mid') = Suc (log_size (metas d mid))" by blast
  with True show thesis by (intro that [of d' mid']) (simp_all add: cas_finish_def)
next
  case False
  with ok show thesis by (intro that [of d mid]) (auto simp: cas_finish_def)
qed

lemma cas_beginning_attempt:
  assumes "get_meta i d = Some (mid, da)"
    and "lock_accessor_storage_or_help_resize py tid i mid da = Some (False, db)"
    and "(if expected = NOT_FOUND \<or> expected = ANY
          then map_option (\<lambda>(r, d, b, loc). (r, upd_storage i (\<lambda>s. s\<lparr>rb := b\<rparr>) d, loc))
                 (get_empty_entry db mid (rb (accessors db ! i)) \<lparr>loc_entry = None, loc_location = 0\<rparr> hash)
          else Some (Reserved, db, \<lparr>loc_entry = None, loc_location = 0\<rparr>)) = Some (Reserved, dc, loc)"
    and "cas_attempt py i mid key hash expected desired loc
           (case loc_entry loc of None \<Rightarrow> dc | Some p \<Rightarrow> fill_entry p key hash desired dc) =
         Some (Some res, False, significantly, d')"
  shows "cas_beginning py tid i key hash expected desired d = cas_finish py tid mid res significantly d'"
  by (subst cas_beginning.simps) (simp add: assms cas_finish_def cong: if_cong option.case_cong prod.case_cong)

text \<open>One round: it is the last one, or the table has no entry left and is grown for the next round.\<close>

definition cas_done :: "pyenv \<Rightarrow> nat \<Rightarrow> nat \<Rightarrow> nat \<Rightarrow> pyobj \<Rightarrow> pyobj \<Rightarrow> pyobj \<Rightarrow> dict \<Rightarrow> (pyobj outcome \<times> dict) option \<Rightarrow> bool" where
  "cas_done py tid i n key expected desired d res \<longleftrightarrow>
     (\<exists>r d' mid'. res = Some (Inr r, d') \<and> settled py tid i mid' d' \<and> log_size (metas d' mid') \<le> n \<and>
        (r, dict_map py d') = cas_spec py key expected desired (dict_map py d))"

lemma cas_doneI:
  assumes "cas_attempt py i mid key hash expected desired loc dc = Some (Some r, False, significant, d1)"
    and "table_ok py mid d1" and "unlocked d1" and "allocations d1 = []" and "thread_storage d1 tid = Some i"
    and "log_size (metas d1 mid) \<le> 29" and wb: "well_behaved_keys py"
    and "(r, table_map py (entries d1) (metas d1 mid)) = cas_spec py key expected desired (dict_map py d)"
  shows "cas_done py tid i (Suc (log_size (metas d1 mid))) key expected desired d (cas_finish py tid mid r significant d1)"
proof -
  have s: "settled py tid i mid d1" using assms(2-5) by (simp add: settled_def)
  from cas_finish_ok [OF s wb assms(6), of r significant] obtain d' mid' where
    "cas_finish py tid mid r significant d1 = Some (Inr r, d')" "settled py tid i mid' d'"
    "dict_map py d' = dict_map py d1" "log_size (metas d' mid') \<le> Suc (log_size (metas d1 mid))" .
  with assms(8) settledD(6) [OF s] show ?thesis unfolding cas_done_def by auto
qed

lemma cas_round:
  assumes ok: "settled py tid i mid d" and wb: "well_behaved_keys py" and hash: "hash = PyObject_Hash py key"
    and desired: "\<not> is_sentinel desired" and ls: "log_size (metas d mid) \<le> 29"
  shows "cas_done py tid i (Suc (log_size (metas d mid))) key expected desired d
      (cas_beginning py tid i key hash expected desired d) \<or>
    (\<exists>d' mid'. cas_beginning py tid i key hash expected desired d = cas_beginning py tid i key hash expected desired d' \<and>
       settled py tid i mid' d' \<and> dict_map py d' = dict_map py d \<and>
       log_size (metas d' mid') = Suc (log_size (metas d mid)) \<and>
       page_limit (metas d mid) = page_count (metas d mid) \<and> page_limit (metas d' mid') < page_count (metas d' mid'))"
proof -
  note s = settledD [OF ok]
  from settled_lock [OF ok] obtain as bs where
    gm: "get_meta i d = Some (mid, d\<lparr>accessors := as\<rparr>)"
    and lock: "lock_accessor_storage_or_help_resize py tid i mid (d\<lparr>accessors := as\<rparr>) = Some (False, d\<lparr>accessors := bs\<rparr>)"
    and like: "like_storages (accessors d) bs" and lk: "locked_by i (d\<lparr>accessors := bs\<rparr>)"
    and t: "table_ok py mid (d\<lparr>accessors := bs\<rparr>)" .
  let ?db = "d\<lparr>accessors := bs\<rparr>" and ?no = "\<lparr>loc_entry = None, loc_location = 0\<rparr>"
  have ldb: "log_size (metas ?db mid) = log_size (metas d mid)" "allocations ?db = []" "thread_storage ?db tid = Some i"
    "table_map py (entries ?db) (metas ?db mid) = dict_map py d" using s by simp_all
  show ?thesis
  proof (cases "expected = NOT_FOUND \<or> expected = ANY")
    case False
    from attempt_plain [OF t lk wb hash desired _ _ refl, of expected] False obtain r d1 where
      a: "cas_attempt py i mid key hash expected desired ?no ?db = Some (Some r, False, False, d1)"
      "table_ok py mid d1" "unlocked d1" "allocations d1 = allocations ?db" "thread_storage d1 = thread_storage ?db"
      "log_size (metas d1 mid) = log_size (metas ?db mid)"
      "(r, table_map py (entries d1) (metas d1 mid)) = cas_spec py key expected desired (table_map py (entries ?db) (metas ?db mid))"
      by blast
    have "cas_beginning py tid i key hash expected desired d = cas_finish py tid mid r False d1"
      using False a(1) by (intro cas_beginning_attempt [OF gm lock, where dc = ?db and loc = ?no]) simp_all
    moreover have "cas_done py tid i (Suc (log_size (metas d1 mid))) key expected desired d (cas_finish py tid mid r False d1)"
      using a ldb ls wb by (intro cas_doneI [OF a(1)]) simp_all
    ultimately show ?thesis using a(6) ldb(1) by simp
  next
    case True
    have i: "i < length (accessors ?db)" using lk by (simp add: locked_by_def)
    show ?thesis
    proof (rule get_empty_entry_correct [OF table_okD(6) [OF t] i ldb(2), of ?no hash], goal_cases reserved full)
      case (reserved d1 b loc)
      from attempt_reserved [OF t lk reserved(2) wb hash desired True] obtain r significant d2 where
        a: "cas_attempt py i mid key hash expected desired loc (reserving i b key hash desired loc d1) =
            Some (Some r, False, significant, d2)"
        "table_ok py mid d2" "unlocked d2" "allocations d2 = allocations ?db" "thread_storage d2 = thread_storage ?db"
        "log_size (metas d2 mid) = log_size (metas ?db mid)"
        "(r, table_map py (entries d2) (metas d2 mid)) = cas_spec py key expected desired (table_map py (entries ?db) (metas ?db mid))" .
      have "cas_beginning py tid i key hash expected desired d = cas_finish py tid mid r significant d2"
        using True reserved(1) a(1) by (intro cas_beginning_attempt [OF gm lock]) simp_all
      moreover have "cas_done py tid i (Suc (log_size (metas d2 mid))) key expected desired d (cas_finish py tid mid r significant d2)"
        using a ldb ls wb by (intro cas_doneI [OF a(1)]) simp_all
      ultimately show ?thesis using a(6) ldb(1) by simp
    next
      case (full loc)
      let ?du = "unlock_storage i (upd_storage i (\<lambda>s. s\<lparr>rb := rb (accessors ?db ! i)\<rparr>) ?db)"
      have same: "upd_storage i (\<lambda>s. s\<lparr>rb := rb (accessors ?db ! i)\<rparr>) ?db = ?db"
        by (simp add: upd_storage_def)
      from unlock_like [of i ?db] obtain cs where
        cs: "unlock_storage i ?db = d\<lparr>accessors := cs\<rparr>" "like_storages bs cs" by auto
      have "settled py tid i mid (d\<lparr>accessors := cs\<rparr>)"
        using ok like cs unlock_locked [OF lk] by (intro settled_storages) (auto intro: like_storages_trans)
      from settled_grow [OF this wb] ls obtain d' mid' where
        g: "grow py tid (d\<lparr>accessors := cs\<rparr>) = Some (1, d')" "settled py tid i mid' d'" "dict_map py d' = dict_map py d"
        "log_size (metas d' mid') = Suc (log_size (metas d mid))" "page_limit (metas d' mid') < page_count (metas d' mid')"
        by auto
      have "cas_beginning py tid i key hash expected desired d = cas_beginning py tid i key hash expected desired d'"
        using True full(1) g(1) cs(1) same
        by (subst cas_beginning.simps) (simp add: gm lock)
      with g full(2) show ?thesis by auto
    qed
  qed
qed

lemma cas_beginning_ok:
  assumes ok: "settled py tid i mid d" and wb: "well_behaved_keys py" and hash: "hash = PyObject_Hash py key"
    and desired: "\<not> is_sentinel desired" and ls: "log_size (metas d mid) \<le> 28"
  shows "cas_done py tid i (log_size (metas d mid) + 2) key expected desired d
    (cas_beginning py tid i key hash expected desired d)"
proof -
  have mono: "cas_done py tid i n key expected desired d res \<Longrightarrow> n \<le> n' \<Longrightarrow> cas_done py tid i n' key expected desired d res" for n n' res
    unfolding cas_done_def by (elim exE conjE, intro exI conjI) (assumption | erule (1) le_trans)+
  have "log_size (metas d mid) \<le> 29" using ls by simp
  from cas_round [OF ok wb hash desired this, of expected] show ?thesis
  proof (elim disjE exE conjE)
    fix d' mid'
    assume g: "cas_beginning py tid i key hash expected desired d = cas_beginning py tid i key hash expected desired d'"
      "settled py tid i mid' d'" "dict_map py d' = dict_map py d" "log_size (metas d' mid') = Suc (log_size (metas d mid))"
      "page_limit (metas d' mid') < page_count (metas d' mid')"
    then have "cas_done py tid i (Suc (log_size (metas d' mid'))) key expected desired d'
        (cas_beginning py tid i key hash expected desired d')"
      using cas_round [OF g(2) wb hash desired, of expected] ls by auto
    with g show ?thesis by (simp add: cas_done_def)
  qed (auto intro: mono)
qed

subsection \<open>Deletion\<close>

text \<open>The contract of deletion: the value that was there, if any, and the map without the key.\<close>

definition del_spec :: "pyenv \<Rightarrow> pyobj \<Rightarrow> (pyobj \<Rightarrow> pyobj option) \<Rightarrow> unit outcome \<times> (pyobj \<Rightarrow> pyobj option)" where
  "del_spec py key M =
     (case M key of None \<Rightarrow> (Inl (KeyError key), M) | Some v \<Rightarrow> (Inr (), map_put py key None M))"

definition deleting_storage :: "storage \<Rightarrow> storage" where
  "deleting_storage s = s\<lparr>local_len := local_len s - 1, local_tombstones := local_tombstones s + 1, self_mutex := False\<rparr>"

lemma proper_delete:
  assumes "proper_values py h m" and "table_map py h' m' = map_put py key None (table_map py h m)"
  shows "proper_values py h' m'"
  using assms by (auto simp: proper_values_def map_put_def split: if_splits)

lemma delete_table_ok:
  assumes ok: "table_ok py mid d" and i: "i < length (accessors d)" and wb: "well_behaved_keys py"
    and p: "p < SIZE_OF (metas d mid)" "holds py (entries d) (metas d mid) key p"
    and ptr: "get_entry_at (n_index (slot (metas d mid) p)) (metas d mid) = Some ptr"
    and wf: "wf_index py (set_value ptr None (entries d)) (put_node p (tombstone_node (metas d mid)) (metas d mid))"
    and map: "table_map py (set_value ptr None (entries d)) (put_node p (tombstone_node (metas d mid)) (metas d mid)) =
      map_put py key None (table_map py (entries d) (metas d mid))"
  shows "table_ok py mid (after_operation d mid (set_value ptr None (entries d))
    (put_node p (tombstone_node (metas d mid)) (metas d mid)) (next_page d) i (deleting_storage (accessors d ! i)) True)"
proof -
  let ?h = "entries d" and ?m = "metas d mid" and ?l = "unat (n_index (slot (metas d mid) p))"
  let ?h' = "set_value ptr None (entries d)" and ?m' = "put_node p (tombstone_node (metas d mid)) (metas d mid)"
  let ?s = "deleting_storage (accessors d ! i)"
  note t = table_okD [OF ok]
  have lp: "live ?m p" using p(2) by (blast elim: holdsD)
  note al = alloc_set_value [OF t(6,5) p(1) lp ptr, where v = None] and vl = value_locations_set(1) [OF t(6,5) p ptr, where v = None] value_locations_set(2) [OF t(6,5) p ptr]
  have "?l \<notin> value_locations ?h' ?m" "?l < page_limit ?m * 128" using vl by (auto simp: value_locations_def)
  then have none: "\<not> has_value ?h' ?m ?l" by (simp add: value_locations_def)
  have "alloc_ok (rbs d) ?h' (next_page d) ?m' (buffers d)"
    using al(1) set_value_wf [OF t(5) wb p ptr, where v = None] p(1) lp none by (rule alloc_tombstone)
  moreover have "(buffers d)[i := rb ?s] = buffers d" by (simp add: list_update_same_conv i deleting_storage_def)
  moreover have "card (value_locations ?h' ?m) = card (value_locations ?h ?m) - 1" "0 < card (value_locations ?h ?m)"
    using vl card_gt_0_iff [of "value_locations ?h ?m"] by auto
  then have "int (card (value_locations ?h' ?m')) = approx_len d + local_len ?s - local_len (accessors d ! i)"
    using t(9) by (simp add: deleting_storage_def)
  moreover have "quiet_meta ?m'" using t(3) by (simp add: put_node_def quiet_meta_def)
  ultimately show ?thesis
    using wf proper_delete [OF t(7) map] by (intro after_operation_ok [OF ok i]) auto
qed

lemma del_beginning_ok:
  assumes ok: "settled py tid i mid d" and wb: "well_behaved_keys py" and hash: "hash = PyObject_Hash py key"
  shows "\<exists>r d'. del_beginning py tid i key hash d = Some (r, d') \<and> settled py tid i mid d' \<and>
    log_size (metas d' mid) = log_size (metas d mid) \<and> (r, dict_map py d') = del_spec py key (dict_map py d)"
proof -
  note s = settledD [OF ok]
  from settled_lock [OF ok] obtain as bs where
    gm: "get_meta i d = Some (mid, d\<lparr>accessors := as\<rparr>)"
    and lock: "lock_accessor_storage_or_help_resize py tid i mid (d\<lparr>accessors := as\<rparr>) = Some (False, d\<lparr>accessors := bs\<rparr>)"
    and like: "like_storages (accessors d) bs" and lk: "locked_by i (d\<lparr>accessors := bs\<rparr>)"
    and t: "table_ok py mid (d\<lparr>accessors := bs\<rparr>)" .
  let ?db = "d\<lparr>accessors := bs\<rparr>" and ?h = "entries d" and ?m = "metas d mid"
  have i: "i < length bs" using lk by (simp add: locked_by_def)
  from delete_correct [OF table_okD(5) [OF s(1)] wb, of key no_result] obtain r where
    r: "delete py key hash no_result [] (?h, ?m) = Some r" "implements_delete py key ?h ?m r"
    "delete_effect py key ?h ?m r" unfolding hash by blast
  have run: "del_beginning py tid i key hash d =
      (let d = ?db\<lparr>entries := fst (dr_world r), metas := (metas d)(mid := snd (dr_world r))\<rparr> in
           if sr_error (dr_search r) then Some (Inl RaisedByObject, unlock_storage i d)
           else if \<not> sr_found (dr_search r) then Some (Inl (KeyError key), unlock_storage i d)
           else Some (Inr (), unlock_storage i (accessor_tombstones_inc i 1 (accessor_len_inc i (-1) d))))"
    using r(1) by (subst del_beginning.simps) (simp add: gm lock)
  from r(3) show ?thesis
    unfolding delete_effect_def
  proof (elim disjE exE conjE)
    assume nf: "\<not> sr_found (dr_search r)" "dr_world r = (?h, ?m)"
    from unlock_like [of i ?db] obtain cs where cs: "unlock_storage i ?db = d\<lparr>accessors := cs\<rparr>" "like_storages bs cs" by auto
    have "settled py tid i mid (d\<lparr>accessors := cs\<rparr>)"
      using ok like cs unlock_locked [OF lk] by (intro settled_storages) (auto intro: like_storages_trans)
    moreover have "dict_map py d key = None" using r(2) nf s(6) by (auto simp: implements_delete_def)
    moreover have "del_beginning py tid i key hash d = Some (Inl (KeyError key), d\<lparr>accessors := cs\<rparr>)"
      using run nf r(2) cs(1) by (cases d) (simp add: implements_delete_def)
    ultimately show ?thesis by (auto simp: del_spec_def)
  next
    fix p ptr
    let ?h' = "set_value ptr None ?h" and ?m' = "put_node p (tombstone_node ?m) ?m"
    assume p: "p < SIZE_OF ?m" "holds py ?h ?m key p" "get_entry_at (n_index (slot ?m p)) ?m = Some ptr"
      and found: "sr_found (dr_search r)" "dr_world r = (?h', ?m')"
    let ?d' = "after_operation ?db mid ?h' ?m' (next_page d) i (deleting_storage (bs ! i)) True"
    have w: "wf_index py ?h' ?m'" "table_map py ?h' ?m' = map_put py key None (table_map py ?h ?m)"
      "\<not> sr_error (dr_search r)" "table_map py ?h ?m key \<noteq> None"
      using r(2) found by (simp_all add: implements_delete_def)
    have ok': "table_ok py mid ?d'"
      using delete_table_ok [OF t _ wb, of i p key ptr] p w i by simp
    moreover have "unlocked ?d'" using lk by (rule after_operation_unlocked) (simp add: deleting_storage_def)
    ultimately have st: "settled py tid i mid ?d'" using s(3,4) by (simp add: settled_def)
    have "del_beginning py tid i key hash d = Some (Inr (), ?d')"
      using run found w(3) i
      by (simp add: Let_def after_operation_def deleting_storage_def unlock_storage_def upd_storage_def
          accessor_tombstones_inc_def accessor_len_inc_def)
    then show ?thesis
      using st w(2,4) settledD(6) [OF st] s(6) by (auto simp: del_spec_def)
  qed
qed

subsection \<open>Lookups\<close>

lemma search_value:
  assumes "wf_index py h m" and "search_ok py h m key r"
  shows "(if sr_entry_p r = None then default_value else e_value (sr_entry r)) =
    (case table_map py h m key of None \<Rightarrow> default_value | Some v \<Rightarrow> Some v)"
proof (cases "sr_found r")
  case True
  with assms(2) obtain p ptr where p: "p < SIZE_OF m" "holds py h m key p"
    "get_entry_at (n_index (slot m p)) m = Some ptr" "sr_entry_p r = Some ptr" "sr_entry r = h ptr"
    unfolding search_ok_def by auto
  then have "entry_of h m p = Some (h ptr)" by (simp add: entry_of_def)
  from table_map_holds [OF assms(1) p(1,2) this] p have "table_map py h m key = e_value (sr_entry r)" "sr_entry_p r \<noteq> None"
    by simp_all
  moreover have "table_map py h m key \<noteq> None" using p(1,2) by (auto simp: table_map_None)
  ultimately show ?thesis by auto
next
  case False
  with assms(2) have "sr_entry_p r = None" "table_map py h m key = None"
    by (auto simp: search_ok_def table_map_None)
  then show ?thesis by simp
qed

text \<open>One search reads the map; it is repeated while the value that it found is being deallocated.\<close>

lemma get_retry_step:
  assumes ok: "settled py tid i mid d" and wb: "well_behaved_keys py" and hash: "hash = PyObject_Hash py key"
  obtains as where "settled py tid i mid (d\<lparr>accessors := as\<rparr>)"
    and "get_retry py key hash default_value i tries d =
      (case (case dict_map py d key of None \<Rightarrow> default_value | Some v \<Rightarrow> Some v) of
         None \<Rightarrow> Some (Inr None, d\<lparr>accessors := as\<rparr>)
       | Some v \<Rightarrow>
           (case tries of
              [] \<Rightarrow> Some (Inr (Some v), d\<lparr>accessors := as\<rparr>)
            | ok # tries \<Rightarrow>
                if ok then Some (Inr (Some v), d\<lparr>accessors := as\<rparr>)
                else get_retry py key hash default_value i tries (d\<lparr>accessors := as\<rparr>)))"
proof -
  note s = settledD [OF ok]
  from get_meta_ok [OF s(1,2,5)] obtain as where
    as: "get_meta i d = Some (mid, d\<lparr>accessors := as\<rparr>)" "like_storages (accessors d) as" "unlocked (d\<lparr>accessors := as\<rparr>)" .
  from lookup_correct [OF table_okD(5) [OF s(1)] wb] obtain r where
    r: "lookup py (entries d) (metas d mid) key hash (no_result\<lparr>sr_entry := (sr_entry no_result)\<lparr>e_value := None\<rparr>\<rparr>) = Some r"
    "search_ok py (entries d) (metas d mid) key r" unfolding hash by blast
  then have ne: "\<not> sr_error r" by (simp add: search_ok_def)
  note v = search_value [OF table_okD(5) [OF s(1)] r(2), of default_value, folded s(6)]
  show thesis
    by (rule that [OF settled_storages [OF ok as(2,3)]], subst get_retry.simps)
      (simp add: as(1) r(1) ne v cong: option.case_cong list.case_cong)
qed

lemma get_retry_ok:
  assumes "settled py tid i mid d" and wb: "well_behaved_keys py" and hash: "hash = PyObject_Hash py key"
  shows "\<exists>as. get_retry py key hash default_value i tries d =
      Some (Inr (case dict_map py d key of None \<Rightarrow> default_value | Some v \<Rightarrow> Some v), d\<lparr>accessors := as\<rparr>) \<and>
    settled py tid i mid (d\<lparr>accessors := as\<rparr>)"
  using assms(1)
proof (induction tries arbitrary: d)
  case Nil
  show ?case by (rule get_retry_step [OF Nil wb hash, of default_value "[]"]) (auto split: option.split)
next
  case (Cons ok tries)
  show ?case
  proof (rule get_retry_step [OF Cons.prems wb hash, of default_value "ok # tries"])
    fix as assume s: "settled py tid i mid (d\<lparr>accessors := as\<rparr>)"
      and run: "get_retry py key hash default_value i (ok # tries) d =
      (case (case dict_map py d key of None \<Rightarrow> default_value | Some v \<Rightarrow> Some v) of
         None \<Rightarrow> Some (Inr None, d\<lparr>accessors := as\<rparr>)
       | Some v \<Rightarrow>
           (case ok # tries of
              [] \<Rightarrow> Some (Inr (Some v), d\<lparr>accessors := as\<rparr>)
            | ok # tries \<Rightarrow>
                if ok then Some (Inr (Some v), d\<lparr>accessors := as\<rparr>)
                else get_retry py key hash default_value i tries (d\<lparr>accessors := as\<rparr>)))"
    from Cons.IH [OF s] obtain bs where bs:
      "get_retry py key hash default_value i tries (d\<lparr>accessors := as\<rparr>) =
        Some (Inr (case dict_map py d key of None \<Rightarrow> default_value | Some v \<Rightarrow> Some v), d\<lparr>accessors := bs\<rparr>)"
      "settled py tid i mid (d\<lparr>accessors := bs\<rparr>)" by auto
    obtain w where w: "(case dict_map py d key of None \<Rightarrow> default_value | Some v \<Rightarrow> Some v) = w" by blast
    show ?thesis
    proof (cases "w = None \<or> ok")
      case True
      then have "get_retry py key hash default_value i (ok # tries) d = Some (Inr w, d\<lparr>accessors := as\<rparr>)"
        using run unfolding w by (cases w) simp_all
      with s w show ?thesis by blast
    next
      case False
      then have "get_retry py key hash default_value i (ok # tries) d = Some (Inr w, d\<lparr>accessors := bs\<rparr>)"
        using run bs(1) unfolding w by (cases w) simp_all
      with bs(2) w show ?thesis by blast
    qed
  qed
qed

end
