(* ===== verification/DictRefinement.thy ===== *)
theory DictRefinement
  imports DictMap DictInit
begin

text \<open>
  The dictionary refines a map: every operation that returns, returns what the specification of the
  operation on maps returns, errors included, and leaves the map that it leaves.  Programs are
  sequences of operations issued by any threads.  The interface between a store and the programs that
  use it is a locale, and the dictionary an interpretation of it.
\<close>

subsection \<open>Programs on a store\<close>

fun run_commands :: "('c \<Rightarrow> 's \<Rightarrow> ('r \<times> 's) option) \<Rightarrow> 'c list \<Rightarrow> 's \<Rightarrow> ('r list \<times> 's) option" where
  "run_commands step [] s = Some ([], s)"
| "run_commands step (c # cs) s =
     (case step c s of
        None \<Rightarrow> None
      | Some (r, s) \<Rightarrow> map_option (\<lambda>(rs, s). (r # rs, s)) (run_commands step cs s))"

fun run_specs :: "('c \<Rightarrow> 'a \<Rightarrow> 'r \<times> 'a) \<Rightarrow> 'c list \<Rightarrow> 'a \<Rightarrow> 'r list \<times> 'a" where
  "run_specs spec [] a = ([], a)"
| "run_specs spec (c # cs) a =
     (let (r, a) = spec c a; (rs, a) = run_specs spec cs a in (r # rs, a))"

text \<open>
  A store whose states are known to be good for a number of operations, each of which returns, and
  does to the abstraction what its specification says.
\<close>

locale store =
  fixes good :: "nat \<Rightarrow> 's \<Rightarrow> bool" and abs :: "'s \<Rightarrow> 'a"
    and step :: "'c \<Rightarrow> 's \<Rightarrow> ('r \<times> 's) option" and spec :: "'c \<Rightarrow> 'a \<Rightarrow> 'r \<times> 'a"
  assumes simulates: "good (Suc n) s \<Longrightarrow> \<exists>r s'. step c s = Some (r, s') \<and> good n s' \<and> (r, abs s') = spec c (abs s)"
begin

lemma run_simulates:
  assumes "good (length cs + n) s"
  shows "\<exists>rs s'. run_commands step cs s = Some (rs, s') \<and> good n s' \<and> (rs, abs s') = run_specs spec cs (abs s)"
  using assms
proof (induction cs arbitrary: s)
  case Nil
  then show ?case by simp
next
  case (Cons c cs)
  then have "good (Suc (length cs + n)) s" by simp
  from simulates [OF this] obtain r s1 where
    1: "step c s = Some (r, s1)" "good (length cs + n) s1" "(r, abs s1) = spec c (abs s)" by blast
  from Cons.IH [OF 1(2)] obtain rs s' where
    2: "run_commands step cs s1 = Some (rs, s')" "good n s'" "(rs, abs s') = run_specs spec cs (abs s1)" by blast
  have "run_specs spec (c # cs) (abs s) = (r # rs, abs s')"
    by (simp add: 1(3) [symmetric] 2(3) [symmetric])
  with 1(1) 2(1,2) show ?case by simp
qed

text \<open>What two programs one after the other return is what their concatenation returns.\<close>

lemma run_append:
  assumes "good (length cs + length ds + n) s"
  shows "\<exists>rs s1 rs' s2. run_commands step cs s = Some (rs, s1) \<and> run_commands step ds s1 = Some (rs', s2) \<and>
    run_commands step (cs @ ds) s = Some (rs @ rs', s2)"
  using assms
proof (induction cs arbitrary: s)
  case Nil
  with run_simulates [of ds n s] show ?case by (auto simp: add.commute)
next
  case (Cons c cs)
  then have "good (Suc (length cs + length ds + n)) s" by simp
  from simulates [OF this] obtain r s1 where
    "step c s = Some (r, s1)" "good (length cs + length ds + n) s1" by blast
  with Cons.IH [of s1] show ?case by fastforce
qed

end

subsection \<open>The operations as specified\<close>

datatype command =
    GetItem pyobj "bool list"
  | GetItemOrDefault pyobj pyobj "bool list"
  | CompareAndSet pyobj pyobj pyobj
  | SetItem pyobj pyobj
  | DelItem pyobj
  | Len

datatype reply =
    Item "pyobj outcome"
  | ItemOr "pyobj option outcome"
  | Unit "unit outcome"
  | Length "int option"

type_synonym pymap = "pyobj \<Rightarrow> pyobj option"

text \<open>The number of keys, counted up to equality of the interpreter.\<close>

definition key_class :: "pyenv \<Rightarrow> pyobj \<Rightarrow> pyobj set" where
  "key_class py k = {k'. same_key py k k'}"

definition map_length :: "pyenv \<Rightarrow> pymap \<Rightarrow> nat" where
  "map_length py M = card (key_class py ` dom M)"

definition hashable :: "pyenv \<Rightarrow> pyobj \<Rightarrow> (pymap \<Rightarrow> 'r outcome \<times> pymap) \<Rightarrow> pymap \<Rightarrow> 'r outcome \<times> pymap" where
  "hashable py key f M = (if PyObject_Hash py key = -1 then (Inl RaisedByObject, M) else f M)"

definition get_spec :: "pyenv \<Rightarrow> pyobj \<Rightarrow> pymap \<Rightarrow> pyobj outcome \<times> pymap" where
  "get_spec py key = hashable py key (\<lambda>M. (case M key of None \<Rightarrow> Inl (KeyError key) | Some v \<Rightarrow> Inr v, M))"

definition get_default_spec :: "pyenv \<Rightarrow> pyobj \<Rightarrow> pyobj \<Rightarrow> pymap \<Rightarrow> pyobj option outcome \<times> pymap" where
  "get_default_spec py key def =
     hashable py key (\<lambda>M. (Inr (Some (case M key of None \<Rightarrow> def | Some v \<Rightarrow> v)), M))"

definition compare_and_set_spec :: "pyenv \<Rightarrow> pyobj \<Rightarrow> pyobj \<Rightarrow> pyobj \<Rightarrow> pymap \<Rightarrow> pyobj outcome \<times> pymap" where
  "compare_and_set_spec py key expected desired M =
     (if is_sentinel key \<or> expected = EXPECTATION_FAILED \<or> is_sentinel desired then (Inl ValueError, M)
      else hashable py key (\<lambda>M. apfst Inr (cas_spec py key expected desired M)) M)"

definition set_spec :: "pyenv \<Rightarrow> pyobj \<Rightarrow> pyobj \<Rightarrow> pymap \<Rightarrow> unit outcome \<times> pymap" where
  "set_spec py key v M =
     (if is_sentinel key \<or> is_sentinel v then (Inl ValueError, M)
      else hashable py key (\<lambda>M. (Inr (), map_put py key (Some v) M)) M)"

fun spec_command :: "pyenv \<Rightarrow> nat \<times> command \<Rightarrow> pymap \<Rightarrow> reply \<times> pymap" where
  "spec_command py (tid, GetItem key tries) M = apfst Item (get_spec py key M)"
| "spec_command py (tid, GetItemOrDefault key def tries) M = apfst ItemOr (get_default_spec py key def M)"
| "spec_command py (tid, CompareAndSet key expected desired) M = apfst Item (compare_and_set_spec py key expected desired M)"
| "spec_command py (tid, SetItem key v) M = apfst Unit (set_spec py key v M)"
| "spec_command py (tid, DelItem key) M = apfst Unit (hashable py key (del_spec py key) M)"
| "spec_command py (tid, Len) M = (Length (Some (int (map_length py M))), M)"

text \<open>The operations of the code, with the thread that issues them.\<close>

fun exec_command :: "pyenv \<Rightarrow> nat \<times> command \<Rightarrow> dict \<Rightarrow> (reply \<times> dict) option" where
  "exec_command py (tid, GetItem key tries) d = map_option (apfst Item) (AtomicDict_GetItem py tid key tries d)"
| "exec_command py (tid, GetItemOrDefault key def tries) d =
     map_option (apfst ItemOr) (AtomicDict_GetItemOrDefaultVarargs py tid key (Some def) tries d)"
| "exec_command py (tid, CompareAndSet key expected desired) d =
     map_option (apfst Item) (AtomicDict_CompareAndSet py tid key expected desired d)"
| "exec_command py (tid, SetItem key v) d = map_option (apfst Unit) (AtomicDict_SetItem py tid key (Some v) d)"
| "exec_command py (tid, DelItem key) d = map_option (apfst Unit) (AtomicDict_DelItem py tid key d)"
| "exec_command py (tid, Len) d = map_option (apfst Length) (AtomicDict_Len d)"

subsection \<open>Each operation\<close>

lemma dict_ok_mono: "dict_ok py n d \<Longrightarrow> k \<le> n \<Longrightarrow> dict_ok py k d"
  unfolding dict_ok_def by (elim conjE exE, intro conjI exI) (assumption | linarith)+

lemma settled_dict_ok: "settled py tid i mid d \<Longrightarrow> log_size (metas d mid) + n \<le> 30 \<Longrightarrow> dict_ok py n d"
  by (auto simp: settled_def dict_ok_def)

lemma dict_ok_storage:
  assumes "dict_ok py n d"
  obtains i mid d' where "get_or_create_accessor_storage tid d = Some (Some i, d')" and "settled py tid i mid d'"
    and "dict_map py d' = dict_map py d" and "log_size (metas d' mid) + n \<le> 30"
proof -
  from assms obtain mid where d: "unlocked d" "allocations d = []" "table_ok py mid d" "log_size (metas d mid) + n \<le> 30"
    by (auto simp: dict_ok_def)
  from get_storage_ok [OF d(3,1,2), of tid] obtain i d' where
    g: "get_or_create_accessor_storage tid d = Some (Some i, d')" "table_ok py mid d'" "unlocked d'" "allocations d' = []"
    "thread_storage d' tid = Some i" "entries d' = entries d" "metas d' = metas d" by metis
  then have s: "settled py tid i mid d'" by (simp add: settled_def)
  moreover have "dict_map py d' = dict_map py d"
    using settledD(6) [OF s] table_okD(1) [OF d(3)] g(6,7) by (simp add: dict_map_def)
  ultimately show thesis using g(7) d(4) by (intro that [OF g(1)]) simp_all
qed

text \<open>An operation of the code agrees with its specification and keeps the invariant.\<close>

definition agrees :: "pyenv \<Rightarrow> nat \<Rightarrow> dict \<Rightarrow> ('r \<times> dict) option \<Rightarrow> (pymap \<Rightarrow> 'r \<times> pymap) \<Rightarrow> bool" where
  "agrees py n d res spec \<longleftrightarrow>
     (\<exists>r d'. res = Some (r, d') \<and> dict_ok py n d' \<and> (r, dict_map py d') = spec (dict_map py d))"

lemma agreesI: "res = Some (r, d') \<Longrightarrow> dict_ok py n d' \<Longrightarrow> (r, dict_map py d') = spec (dict_map py d) \<Longrightarrow> agrees py n d res spec"
  by (auto simp: agrees_def)

lemma agrees_default:
  assumes ok: "dict_ok py n d" and wb: "well_behaved_keys py"
  shows "agrees py n d (AtomicDict_GetItemOrDefault py tid key def tries d)
    (hashable py key (\<lambda>M. (Inr (case M key of None \<Rightarrow> def | Some v \<Rightarrow> Some v), M)))"
proof (cases "PyObject_Hash py key = -1")
  case True
  with ok show ?thesis
    by (intro agreesI [of _ "Inl RaisedByObject" d]) (simp_all add: AtomicDict_GetItemOrDefault_def hashable_def)
next
  case False
  show ?thesis
  proof (rule dict_ok_storage [OF ok, of tid])
    fix i mid d1
    assume d1: "get_or_create_accessor_storage tid d = Some (Some i, d1)" "settled py tid i mid d1"
      "dict_map py d1 = dict_map py d" "log_size (metas d1 mid) + n \<le> 30"
    from get_retry_ok [OF d1(2) wb refl, of key def tries] obtain as where
      g: "get_retry py key (PyObject_Hash py key) def i tries d1 =
        Some (Inr (case dict_map py d1 key of None \<Rightarrow> def | Some v \<Rightarrow> Some v), d1\<lparr>accessors := as\<rparr>)"
      "settled py tid i mid (d1\<lparr>accessors := as\<rparr>)" by blast
    show ?thesis
    proof (rule agreesI)
      show "AtomicDict_GetItemOrDefault py tid key def tries d =
          Some (Inr (case dict_map py d1 key of None \<Rightarrow> def | Some v \<Rightarrow> Some v), d1\<lparr>accessors := as\<rparr>)"
        using False d1(1) g(1) by (simp add: AtomicDict_GetItemOrDefault_def Let_def)
      show "dict_ok py n (d1\<lparr>accessors := as\<rparr>)" using settled_dict_ok [OF g(2)] d1(4) by simp
    qed (simp add: hashable_def False d1(3))
  qed
qed

lemma agrees_get:
  assumes "dict_ok py n d" and "well_behaved_keys py"
  shows "agrees py n d (AtomicDict_GetItem py tid key tries d) (get_spec py key)"
  using agrees_default [OF assms, of tid key None tries]
  unfolding agrees_def AtomicDict_GetItem_def get_spec_def hashable_def
  by (auto split: option.splits sum.splits if_splits)

lemma agrees_get_default:
  assumes "dict_ok py n d" and "well_behaved_keys py"
  shows "agrees py n d (AtomicDict_GetItemOrDefaultVarargs py tid key (Some def) tries d) (get_default_spec py key def)"
  using agrees_default [OF assms, of tid key "Some def" tries]
  unfolding agrees_def AtomicDict_GetItemOrDefaultVarargs_def get_default_spec_def hashable_def
  by (auto split: option.splits if_splits)

lemma agrees_cas:
  assumes ok: "dict_ok py (n + 2) d" and wb: "well_behaved_keys py"
  shows "agrees py n d (AtomicDict_CompareAndSet py tid key expected desired d) (compare_and_set_spec py key expected desired)"
proof (cases "is_sentinel key \<or> expected = EXPECTATION_FAILED \<or> is_sentinel desired")
  case True
  with dict_ok_mono [OF ok] show ?thesis
    by (intro agreesI [of _ "Inl ValueError" d]) (auto simp: AtomicDict_CompareAndSet_def compare_and_set_spec_def)
next
  case proper: False
  show ?thesis
  proof (cases "PyObject_Hash py key = -1")
    case True
    with proper dict_ok_mono [OF ok] show ?thesis
      by (intro agreesI [of _ "Inl RaisedByObject" d]) (auto simp: AtomicDict_CompareAndSet_def compare_and_set_spec_def hashable_def)
  next
    case False
    show ?thesis
    proof (rule dict_ok_storage [OF ok, of tid])
      fix i mid d1
      assume d1: "get_or_create_accessor_storage tid d = Some (Some i, d1)" "settled py tid i mid d1"
        "dict_map py d1 = dict_map py d" "log_size (metas d1 mid) + (n + 2) \<le> 30"
      have "log_size (metas d1 mid) \<le> 28" using d1(4) by simp
      from cas_beginning_ok [OF d1(2) wb refl _ this, of desired key expected] proper obtain r d' mid' where
        c: "cas_beginning py tid i key (PyObject_Hash py key) expected desired d1 = Some (Inr r, d')"
        "settled py tid i mid' d'" "log_size (metas d' mid') \<le> log_size (metas d1 mid) + 2"
        "(r, dict_map py d') = cas_spec py key expected desired (dict_map py d1)"
        unfolding cas_done_def by blast
      show ?thesis
      proof (rule agreesI)
        show "AtomicDict_CompareAndSet py tid key expected desired d = Some (Inr r, d')"
          using proper False d1(1) c(1) by (simp add: AtomicDict_CompareAndSet_def Let_def)
        show "dict_ok py n d'" using settled_dict_ok [OF c(2)] c(3) d1(4) by simp
        show "(Inr r, dict_map py d') = compare_and_set_spec py key expected desired (dict_map py d)"
          using c(4) [symmetric] d1(3) proper False by (simp add: compare_and_set_spec_def hashable_def)
      qed
    qed
  qed
qed

lemma agrees_set:
  assumes ok: "dict_ok py (n + 2) d" and wb: "well_behaved_keys py"
  shows "agrees py n d (AtomicDict_SetItem py tid key (Some v) d) (set_spec py key v)"
proof (cases "is_sentinel key \<or> is_sentinel v")
  case True
  with dict_ok_mono [OF ok] show ?thesis
    by (intro agreesI [of _ "Inl ValueError" d]) (auto simp: AtomicDict_SetItem_def set_spec_def)
next
  case proper: False
  from agrees_cas [OF ok wb, of tid key ANY v] obtain r d' where
    r: "AtomicDict_CompareAndSet py tid key ANY v d = Some (r, d')" "dict_ok py n d'"
    "(r, dict_map py d') = compare_and_set_spec py key ANY v (dict_map py d)" unfolding agrees_def by blast
  with r proper show ?thesis
    by (cases r)
      (auto simp: agrees_def AtomicDict_SetItem_def set_spec_def compare_and_set_spec_def hashable_def cas_spec_def
        split: if_splits option.splits)
qed

lemma agrees_del:
  assumes ok: "dict_ok py n d" and wb: "well_behaved_keys py"
  shows "agrees py n d (AtomicDict_DelItem py tid key d) (hashable py key (del_spec py key))"
proof (cases "PyObject_Hash py key = -1")
  case True
  with ok show ?thesis
    by (intro agreesI [of _ "Inl RaisedByObject" d]) (simp_all add: AtomicDict_DelItem_def hashable_def)
next
  case False
  show ?thesis
  proof (rule dict_ok_storage [OF ok, of tid])
    fix i mid d1
    assume d1: "get_or_create_accessor_storage tid d = Some (Some i, d1)" "settled py tid i mid d1"
      "dict_map py d1 = dict_map py d" "log_size (metas d1 mid) + n \<le> 30"
    from del_beginning_ok [OF d1(2) wb refl, of key] obtain r d' where
      c: "del_beginning py tid i key (PyObject_Hash py key) d1 = Some (r, d')" "settled py tid i mid d'"
      "log_size (metas d' mid) = log_size (metas d1 mid)" "(r, dict_map py d') = del_spec py key (dict_map py d1)" by blast
    show ?thesis
    proof (rule agreesI)
      show "AtomicDict_DelItem py tid key d = Some (r, d')"
        using False d1(1) c(1) by (simp add: AtomicDict_DelItem_def Let_def)
      show "dict_ok py n d'" using settled_dict_ok [OF c(2)] c(3) d1(4) by simp
    qed (use c(4) d1(3) False in \<open>simp add: hashable_def\<close>)
  qed
qed

subsection \<open>The length\<close>

text \<open>Every location with a value holds one key, and every key is at one location.\<close>

lemma live_of_value:
  assumes ok: "alloc_ok bs h e m bufs" and wf: "wf_index py h m" and l: "l \<in> value_locations h m"
  obtains p key where "p < SIZE_OF m" and "unat (n_index (slot m p)) = l" and "e_key (entry_at h m l) = Some key"
    and "entry_of h m p = Some (entry_at h m l)" and "\<And>k. holds py h m k p \<longleftrightarrow> same_key py key k"
proof -
  from l have l: "l < page_limit m * 128" "has_value h m l" by (simp_all add: value_locations_def)
  from alloc_okD(10) [OF ok l] obtain p where p: "p < SIZE_OF m" "live m p" "n_index (slot m p) = of_nat l" by blast
  have u: "unat (n_index (slot m p)) = l" by (simp add: p(3) location_index(1) [OF ok l(1)])
  from wf_node [OF wf p(1,2)] obtain x key where x: "entry_of h m p = Some x" "e_key x = Some key"
    unfolding node_ok_def by blast
  then have "x = entry_at h m l" by (auto simp: entry_of_def entry_at_def p(3))
  with x p u l(2) show thesis by (intro that [of p key]) (auto simp: holds_def has_value_def)
qed

lemma key_class_same:
  assumes "well_behaved_keys py" and "same_key py a b"
  shows "key_class py a = key_class py b"
proof -
  have "same_key py a x \<longleftrightarrow> same_key py b x" for x
    using same_key_trans [OF assms(1) assms(2), of x] same_key_trans [OF assms(1) same_key_sym [OF assms], of x] by blast
  then show ?thesis by (simp add: key_class_def)
qed

lemma length_is_map_length:
  assumes ok: "alloc_ok bs h e m bufs" and wf: "wf_index py h m" and wb: "well_behaved_keys py"
  shows "card (value_locations h m) = map_length py (table_map py h m)"
proof -
  let ?f = "\<lambda>l. key_class py (the (e_key (entry_at h m l)))"
  have class_eq: "same_key py a b" if "key_class py a = key_class py b" for a b
    using that same_key_refl [OF wb, of b] by (auto simp: key_class_def)
  have "inj_on ?f (value_locations h m)"
  proof (rule inj_onI)
    fix a b assume ab: "a \<in> value_locations h m" "b \<in> value_locations h m" and eq: "?f a = ?f b"
    obtain p j where p: "p < SIZE_OF m" "unat (n_index (slot m p)) = a" "e_key (entry_at h m a) = Some j"
        "\<And>x. holds py h m x p \<longleftrightarrow> same_key py j x"
      by (rule live_of_value [OF ok wf ab(1)], rule that)
    obtain q k where q: "q < SIZE_OF m" "unat (n_index (slot m q)) = b" "e_key (entry_at h m b) = Some k"
        "\<And>x. holds py h m x q \<longleftrightarrow> same_key py k x"
      by (rule live_of_value [OF ok wf ab(2)], rule that)
    from eq p(3) q(3) have "same_key py j k" by (simp add: class_eq)
    then have "holds py h m k p" "holds py h m k q" using p(4) q(4) same_key_refl [OF wb] by simp_all
    with wf_unique [OF wf p(1) q(1)] have "p = q" by blast
    with p(2) q(2) show "a = b" by simp
  qed
  moreover have "?f ` value_locations h m = key_class py ` dom (table_map py h m)"
  proof (intro equalityI subsetI)
    fix c assume "c \<in> ?f ` value_locations h m"
    then obtain l where l: "l \<in> value_locations h m" "c = ?f l" by blast
    obtain p key where
      p: "p < SIZE_OF m" "e_key (entry_at h m l) = Some key" "\<And>k. holds py h m k p \<longleftrightarrow> same_key py key k"
      by (rule live_of_value [OF ok wf l(1)], rule that)
    with same_key_refl [OF wb] have "table_map py h m key \<noteq> None" by (auto simp: table_map_None)
    with p(2) l(2) show "c \<in> key_class py ` dom (table_map py h m)" by auto
  next
    fix c assume "c \<in> key_class py ` dom (table_map py h m)"
    then obtain key where key: "table_map py h m key \<noteq> None" "c = key_class py key" by blast
    then obtain p where p: "p < SIZE_OF m" "holds py h m key p" unfolding table_map_None by blast
    from p(2) obtain x k v where x: "live m p" "entry_of h m p = Some x" "e_key x = Some k" "e_value x = Some v" "same_key py k key"
      by (rule holdsD)
    then obtain ptr where ptr: "get_entry_at (n_index (slot m p)) m = Some ptr" "h ptr = x" by (auto simp: entry_of_def)
    let ?l = "unat (n_index (slot m p))"
    have "?l \<in> value_locations h m" by (rule value_locations_set(2) [OF ok wf p ptr(1)])
    moreover have "entry_at h m ?l = x" using ptr by (simp add: entry_at_def)
    moreover have "key_class py k = key_class py key" using wb x(5) by (rule key_class_same)
    ultimately show "c \<in> ?f ` value_locations h m" using key(2) x(3) by force
  qed
  ultimately show ?thesis unfolding map_length_def by (metis card_image)
qed

text \<open>What asking for the length leaves.\<close>

definition settle_len :: "dict \<Rightarrow> dict" where
  "settle_len d =
     (if len_dirty d
      then d\<lparr>dict_len := approx_len d, len_dirty := False, accessors := map (\<lambda>s. s\<lparr>local_len := 0\<rparr>) (accessors d)\<rparr>
      else d)"

lemma unlock_all:
  assumes "\<forall>s\<in>set as. \<not> self_mutex s"
  shows "map (\<lambda>s. s\<lparr>self_mutex := False\<rparr>) (map (\<lambda>s. s\<lparr>self_mutex := True\<rparr>) as) = as"
    and "map (\<lambda>s. s\<lparr>self_mutex := False\<rparr>) (map (\<lambda>s. s\<lparr>local_len := 0\<rparr>) (map (\<lambda>s. s\<lparr>self_mutex := True\<rparr>) as)) =
      map (\<lambda>s. s\<lparr>local_len := 0\<rparr>) as"
  using assms by (induction as) simp_all

lemma sum_of_locked: "sum_of_accessors_len (d\<lparr>sync_op := a, accessors_lock := b, accessors := map (\<lambda>s. s\<lparr>self_mutex := c\<rparr>) (accessors d)\<rparr>) = sum_of_accessors_len d"
  by (simp add: sum_of_accessors_len_sum comp_def)

lemma Len_run:
  assumes un: "unlocked d" and len: "len_ok d" and fits: "fits_ssize_t (approx_len d)"
  shows "AtomicDict_Len d = Some (Some (approx_len d), settle_len d)"
proof -
  have s: "\<not> sync_op d" "\<not> accessors_lock d" "\<forall>s\<in>set (accessors d). \<not> self_mutex s"
    using un by (simp_all add: unlocked_def)
  let ?d = "d\<lparr>sync_op := True, accessors_lock := True, accessors := map (\<lambda>s. s\<lparr>self_mutex := True\<rparr>) (accessors d)\<rparr>"
  have b: "begin_synchronous_operation d = Some ?d" using s by (simp add: begin_synchronous_operation_def)
  have e: "dict_len ?d + sum_of_accessors_len ?d = approx_len d" by (simp add: approx_len_def sum_of_locked)
  show ?thesis
  proof (cases "len_dirty d")
    case True
    have "AtomicDict_Len_impl ?d = (Some (approx_len d),
        ?d\<lparr>dict_len := approx_len d, len_dirty := False, accessors := map (\<lambda>s. s\<lparr>local_len := 0\<rparr>) (accessors ?d)\<rparr>)"
      using True fits unfolding AtomicDict_Len_impl_def e by (simp add: Let_def)
    with True b s unlock_all(2) [OF s(3)] show ?thesis
      by (cases d) (simp add: AtomicDict_Len_def end_synchronous_operation_def settle_len_def)
  next
    case False
    then have "AtomicDict_Len_impl ?d = (Some (approx_len d), ?d)"
      using len by (simp add: AtomicDict_Len_impl_def len_ok_def approx_len_def)
    with False b s unlock_all(1) [OF s(3)] show ?thesis
      by (cases d) (simp add: AtomicDict_Len_def end_synchronous_operation_def settle_len_def)
  qed
qed

lemma agrees_len:
  assumes ok: "dict_ok py n d" and wb: "well_behaved_keys py"
  shows "agrees py n d (AtomicDict_Len d) (\<lambda>M. (Some (int (map_length py M)), M))"
proof -
  from ok obtain mid where d: "unlocked d" "allocations d = []" "table_ok py mid d" "log_size (metas d mid) + n \<le> 30"
    by (auto simp: dict_ok_def)
  note t = table_okD [OF d(3)]
  note a = alloc_okD [OF t(6)]
  have map: "dict_map py d = table_map py (entries d) (metas d mid)" using t(1) by (simp add: dict_map_def)
  have len: "approx_len d = int (map_length py (dict_map py d))"
    using t(9) length_is_map_length [OF t(6,5) wb] by (simp add: map)
  have "value_locations (entries d) (metas d mid) \<subseteq> {..<page_limit (metas d mid) * 128}"
    by (auto simp: value_locations_def)
  then have "card (value_locations (entries d) (metas d mid)) \<le> page_limit (metas d mid) * 128"
    using card_mono [OF finite_lessThan] by fastforce
  also have "\<dots> \<le> 2 ^ 30" using page_limit_le [OF a(2)] SIZE_small [OF a(3)] by (rule order_trans)
  finally have "int (card (value_locations (entries d) (metas d mid))) \<le> int (2 ^ 30)" by (rule of_nat_mono)
  then have "fits_ssize_t (approx_len d)" unfolding fits_ssize_t_def t(9) by simp
  note run = Len_run [OF d(1) t(8) this]
  have zero: "sum_of_accessors_len (d\<lparr>dict_len := x, len_dirty := False, accessors := map (\<lambda>s. s\<lparr>local_len := 0\<rparr>) (accessors d)\<rparr>) = 0" for x
  proof -
    have "(\<Sum>s\<leftarrow>as. local_len (s\<lparr>local_len := 0\<rparr>)) = 0" for as :: "storage list" by (induction as) simp_all
    then show ?thesis by (simp add: sum_of_accessors_len_sum comp_def)
  qed
  have "table_ok py mid (settle_len d)"
    using d(3) zero by (auto simp: settle_len_def table_ok_def len_ok_def approx_len_def comp_def)
  moreover have "unlocked (settle_len d)" "allocations (settle_len d) = []" "metas (settle_len d) = metas d"
    "dict_map py (settle_len d) = dict_map py d"
    using d(1,2) by (auto simp: settle_len_def unlocked_def dict_map_def cong: metadata_ref.case_cong)
  ultimately show ?thesis
    using run len d(4) by (intro agreesI [of _ "Some (approx_len d)" "settle_len d"]) (auto simp: dict_ok_def)
qed

subsection \<open>The dictionary as a store\<close>

text \<open>An operation can double the table twice: to get an entry, and because many have been inserted.\<close>

definition store_ok :: "pyenv \<Rightarrow> nat \<Rightarrow> dict \<Rightarrow> bool" where
  "store_ok py n d \<longleftrightarrow> well_behaved_keys py \<and> dict_ok py (2 * n) d"

lemma agrees_command:
  assumes ok: "dict_ok py (n + 2) d" and wb: "well_behaved_keys py"
  shows "agrees py n d (exec_command py c d) (spec_command py c)"
proof -
  have ok': "dict_ok py n d" using dict_ok_mono [OF ok] by simp
  have lift: "agrees py n d (map_option (apfst f) res) (\<lambda>M. apfst f (g M))" if "agrees py n d res g" for f :: "'a \<Rightarrow> reply" and res g
    using that unfolding agrees_def by (auto simp: apfst_def map_prod_def split: prod.splits)
  obtain tid cmd where c: "c = (tid, cmd)" by (cases c)
  show ?thesis
  proof (cases cmd)
    case (GetItem key tries)
    then show ?thesis using lift [OF agrees_get [OF ok' wb]] by (simp add: c fun_eq_iff agrees_def)
  next
    case (GetItemOrDefault key def tries)
    then show ?thesis using lift [OF agrees_get_default [OF ok' wb]] by (simp add: c agrees_def)
  next
    case (CompareAndSet key expected desired)
    then show ?thesis using lift [OF agrees_cas [OF ok wb]] by (simp add: c agrees_def)
  next
    case (SetItem key v)
    then show ?thesis using lift [OF agrees_set [OF ok wb]] by (simp add: c agrees_def)
  next
    case (DelItem key)
    then show ?thesis using lift [OF agrees_del [OF ok' wb]] by (simp add: c agrees_def)
  next
    case Len
    then show ?thesis using lift [OF agrees_len [OF ok' wb], of Length] by (simp add: c agrees_def)
  qed
qed

interpretation dict_store: store "store_ok py" "dict_map py" "exec_command py" "spec_command py" for py
proof
  fix n s c assume "store_ok py (Suc n) s"
  then have "well_behaved_keys py" "dict_ok py (2 * n + 2) s" by (simp_all add: store_ok_def)
  with agrees_command [of py "2 * n" s c]
  show "\<exists>r s'. exec_command py c s = Some (r, s') \<and> store_ok py n s' \<and> (r, dict_map py s') = spec_command py c (dict_map py s)"
    by (simp add: agrees_def store_ok_def)
qed

subsection \<open>Properties\<close>

lemma fresh_dict_ok: "dict_ok example_env 23 fresh_dict"
proof -
  have "quiet_meta example_table" by (simp add: quiet_meta_def example_defs)
  moreover have "value_locations (entries fresh_dict) example_table = {}"
    using fresh_entry_at by (auto simp: value_locations_def has_value_def example_table_sizes zero_entry_def)
  moreover have "metadata fresh_dict = MetaAt 0" "next_meta fresh_dict = 1" "thread_storage fresh_dict = (\<lambda>_. None)"
    "dict_len fresh_dict = 0" by (simp_all add: fresh_dict_def example_dict_def)
  ultimately have "table_ok example_env 0 fresh_dict"
    unfolding table_ok_def using fresh_alloc_ok example_table_wf
    by (simp add: fresh_dict_simps proper_values_def example_table_map len_ok_def approx_len_def sum_of_accessors_len_def)
  moreover have "unlocked fresh_dict" "allocations fresh_dict = []"
    by (simp_all add: unlocked_def fresh_dict_def example_dict_def)
  ultimately show ?thesis by (auto simp: dict_ok_def fresh_dict_simps example_table_sizes)
qed

lemma fresh_dict_map: "dict_map py fresh_dict = Map.empty"
  by (simp add: dict_map_def fresh_dict_def example_dict_def example_table_map [unfolded example_table_def] fun_eq_iff)



end
