(* ===== verification/DictIter.thy ===== *)
theory DictIter
  imports DictRefinement Iter
begin

text \<open>
  Iterating over all partitions of a dictionary that nobody changes yields the items of its map.
\<close>

text \<open>A list of items for a map: each key once, up to equality of the interpreter.\<close>

definition items_of_map :: "pyenv \<Rightarrow> (pyobj \<times> pyobj) list \<Rightarrow> pymap \<Rightarrow> bool" where
  "items_of_map py kvs M \<longleftrightarrow>
     distinct (map (\<lambda>kv. key_class py (fst kv)) kvs) \<and>
     (\<forall>key v. M key = Some v \<longleftrightarrow> (\<exists>k. (k, v) \<in> set kvs \<and> same_key py k key))"

lemma those_map_Some: "(\<And>x. x \<in> set xs \<Longrightarrow> f x = Some (g x)) \<Longrightarrow> those (map f xs) = Some (map g xs)"
  by (induction xs) simp_all

text \<open>The items at the locations with a value are those of the table.\<close>

lemma item_at_value:
  assumes ok: "alloc_ok bs h e m bufs" and wf: "wf_index py h m" and l: "l \<in> value_locations h m"
  obtains p where "p < SIZE_OF m" and "unat (n_index (slot m p)) = l" and "entry_of h m p = Some (entry_at h m l)"
    and "\<And>k. holds py h m k p \<longleftrightarrow> same_key py (fst (item_at h m l)) k"
    and "e_value (entry_at h m l) = Some (snd (item_at h m l))"
proof (rule live_of_value [OF assms])
  fix p key
  assume "p < SIZE_OF m" "unat (n_index (slot m p)) = l" "e_key (entry_at h m l) = Some key"
    "entry_of h m p = Some (entry_at h m l)" "\<And>k. holds py h m k p \<longleftrightarrow> same_key py key k"
  moreover have "e_value (entry_at h m l) \<noteq> None" using l by (simp add: value_locations_def has_value_def)
  ultimately show thesis by (intro that [of p]) (auto simp: item_at_def)
qed

lemma items_of_locations:
  assumes ok: "alloc_ok bs h e m bufs" and wf: "wf_index py h m" and wb: "well_behaved_keys py"
    and ls: "distinct ls" "set ls = value_locations h m"
  shows "items_of_map py (map (item_at h m) ls) (table_map py h m)"
  unfolding items_of_map_def
proof (intro conjI allI)
  have "inj_on (\<lambda>l. key_class py (fst (item_at h m l))) (value_locations h m)"
  proof (rule inj_onI)
    fix a b assume ab: "a \<in> value_locations h m" "b \<in> value_locations h m"
      and eq: "key_class py (fst (item_at h m a)) = key_class py (fst (item_at h m b))"
    obtain p where p: "p < SIZE_OF m" "unat (n_index (slot m p)) = a" "\<And>k. holds py h m k p \<longleftrightarrow> same_key py (fst (item_at h m a)) k"
      by (rule item_at_value [OF ok wf ab(1)], rule that)
    obtain q where q: "q < SIZE_OF m" "unat (n_index (slot m q)) = b" "\<And>k. holds py h m k q \<longleftrightarrow> same_key py (fst (item_at h m b)) k"
      by (rule item_at_value [OF ok wf ab(2)], rule that)
    have "same_key py (fst (item_at h m a)) (fst (item_at h m b))"
      using eq same_key_refl [OF wb, of "fst (item_at h m b)"] by (auto simp: key_class_def)
    with p(3) q(3) same_key_refl [OF wb] have "holds py h m (fst (item_at h m b)) p" "holds py h m (fst (item_at h m b)) q" by simp_all
    with wf_unique [OF wf p(1) q(1)] have "p = q" by blast
    with p(2) q(2) show "a = b" by simp
  qed
  with ls show "distinct (map (\<lambda>kv. key_class py (fst kv)) (map (item_at h m) ls))"
    by (simp add: distinct_map comp_def)
next
  fix key v
  show "table_map py h m key = Some v \<longleftrightarrow> (\<exists>k. (k, v) \<in> set (map (item_at h m) ls) \<and> same_key py k key)"
  proof
    assume "table_map py h m key = Some v"
    then obtain p x where p: "p < SIZE_OF m" "holds py h m key p" "entry_of h m p = Some x" "e_value x = Some v"
      unfolding table_map_Some [OF wf] by blast
    then obtain ptr where ptr: "get_entry_at (n_index (slot m p)) m = Some ptr" "h ptr = x" by (auto simp: entry_of_def)
    let ?l = "unat (n_index (slot m p))"
    have mem: "?l \<in> value_locations h m" by (rule value_locations_set(2) [OF ok wf p(1,2) ptr(1)])
    have "entry_at h m ?l = x" using ptr by (simp add: entry_at_def)
    with p have "item_at h m ?l = (the (e_key x), v)" by (simp add: item_at_def)
    moreover have "same_key py (the (e_key x)) key" using p(2,3) by (auto elim!: holdsD)
    ultimately show "\<exists>k. (k, v) \<in> set (map (item_at h m) ls) \<and> same_key py k key"
      using mem ls(2) by (metis image_eqI list.set_map)
  next
    assume "\<exists>k. (k, v) \<in> set (map (item_at h m) ls) \<and> same_key py k key"
    then obtain k l where l: "l \<in> value_locations h m" "item_at h m l = (k, v)" "same_key py k key" using ls(2) by force
    show "table_map py h m key = Some v"
    proof (rule item_at_value [OF ok wf l(1)])
      fix p assume "p < SIZE_OF m" "entry_of h m p = Some (entry_at h m l)"
        "\<And>k. holds py h m k p \<longleftrightarrow> same_key py (fst (item_at h m l)) k" "e_value (entry_at h m l) = Some (snd (item_at h m l))"
      with l(2,3) show ?thesis unfolding table_map_Some [OF wf] by auto
    qed
  qed
qed

lemma all_items_of_map:
  assumes ok: "dict_ok py n d" and wb: "well_behaved_keys py" and P: "0 < P" "P * 128 < 2 ^ 31"
  shows "\<exists>kvs. all_items d P = Some kvs \<and> items_of_map py kvs (dict_map py d)"
proof -
  from ok obtain mid where t: "table_ok py mid d" by (auto simp: dict_ok_def)
  let ?h = "entries d" and ?m = "metas d mid"
  note t' = table_okD [OF t]
  note a = alloc_okD [OF t'(6)]
  define A where "A t = {p. p < page_limit ?m * 128 \<and> (p div 128) mod P = t \<and> has_value ?h ?m p}" for t
  have lim: "page_limit ?m * 128 \<le> 2 ^ 30" using page_limit_small [OF a(2) a(3)] by simp
  have "iterable ?m P (page_limit ?m)"
    using P a(2) lim by (auto simp: iterable_def page_limit_def pages_ok_def)
  moreover have "values_have_keys ?h ?m (page_limit ?m)"
    unfolding values_have_keys_def
  proof (intro allI impI)
    fix l assume "l < page_limit ?m * 128" "has_value ?h ?m l"
    then have "l \<in> value_locations ?h ?m" by (simp add: value_locations_def)
    then show "e_key (entry_at ?h ?m l) \<noteq> None" by (rule live_of_value [OF t'(6,5)]) simp
  qed
  ultimately have "partition_items d P t = Some (map (item_at ?h ?m) (sorted_list_of_set (A t)))" if "t < P" for t
    using partition_items_visit [OF t'(1) _ _ that] by (simp add: A_def)
  then have "all_items d P = Some (concat (map (\<lambda>t. map (item_at ?h ?m) (sorted_list_of_set (A t))) [0..<P]))"
    unfolding all_items_def by (subst those_map_Some) auto
  moreover have "concat (map (\<lambda>t. map (item_at ?h ?m) (sorted_list_of_set (A t))) [0..<P]) =
      map (item_at ?h ?m) (concat (map (\<lambda>t. sorted_list_of_set (A t)) [0..<P]))"
    by (simp add: map_concat comp_def)
  moreover have "items_of_map py (map (item_at ?h ?m) (concat (map (\<lambda>t. sorted_list_of_set (A t)) [0..<P]))) (dict_map py d)"
  proof -
    have fin: "finite (A t)" for t by (simp add: A_def)
    have "distinct (concat (map (\<lambda>t. sorted_list_of_set (A t)) xs))" if "distinct xs" for xs
      using that fin by (induction xs) (auto simp: A_def)
    moreover have "set (concat (map (\<lambda>t. sorted_list_of_set (A t)) [0..<P])) = value_locations ?h ?m"
      using fin P(1) by (auto simp: A_def value_locations_def)
    ultimately show ?thesis
      using items_of_locations [OF t'(6,5) wb] t'(1) by (simp add: dict_map_def)
  qed
  ultimately show ?thesis by simp
qed

text \<open>
  C3: The iterators over the partitions of a dictionary together yield exactly the items of its map,
  each key once, however many partitions there are.
\<close>

theorem fast_iter_yields_the_map:
  assumes "dict_ok py n d" and "well_behaved_keys py" and "0 < P" and "P * 128 < 2 ^ 31"
  shows "(case all_items d P of None \<Rightarrow> False | Some kvs \<Rightarrow> items_of_map py kvs (dict_map py d))"
  using all_items_of_map [OF assms] by auto

theorem fast_iter_yields_the_map_witness:
  "(case run_commands (exec_command example_env) [(1, SetItem (Obj 1) (Obj 2))] fresh_dict of
      None \<Rightarrow> False
    | Some (rs, d) \<Rightarrow>
        (case all_items d 3 of None \<Rightarrow> False | Some kvs \<Rightarrow> items_of_map example_env kvs [Obj 1 \<mapsto> Obj 2]))"
proof -
  let ?cs = "[(1, SetItem (Obj 1) (Obj 2))] :: (nat \<times> command) list"
  have "store_ok example_env (length ?cs + 1) fresh_dict"
    using dict_ok_mono [OF fresh_dict_ok] example_env_ok by (simp add: store_ok_def)
  from dict_store.run_simulates [OF this] obtain rs d where
    r: "run_commands (exec_command example_env) ?cs fresh_dict = Some (rs, d)" "dict_ok example_env 2 d"
    "(rs, dict_map example_env d) = run_specs (spec_command example_env) ?cs (dict_map example_env fresh_dict)"
    by (auto simp: store_ok_def)
  have "dict_map example_env d = [Obj 1 \<mapsto> Obj 2]"
    using r(3) by (auto simp: set_spec_def hashable_def is_sentinel_def map_put_def same_key_example fun_eq_iff fresh_dict_map)
  with fast_iter_yields_the_map [OF r(2) example_env_ok, of 3] r(1) show ?thesis by (simp split: option.splits)
qed

end
