(* ===== verification/Batch.thy ===== *)
theory Batch
  imports DictRefinement
begin

text \<open>
  The batch lookup \<^verbatim>\<open>AtomicDict_BatchGetItem\<close> of \<^verbatim>\<open>src/src/cereggii/atomic_dict/lookup.c\<close>: the keys
  of a Python dict are searched in chunks, and their values are stored in that dict.  The dict is the
  list of its items in the order of \<^verbatim>\<open>PyDict_Next\<close>.  The two arrays of a chunk are lists of the
  length that was allocated, with \<open>None\<close> in the elements that were not written; an access outside of
  them has no defined result.  The search ends with the metadata that it began with, or is repeated.
\<close>

subsection \<open>The arrays of a chunk and the dict\<close>

type_synonym batch = "(pyobj \<times> pyobj) list"
type_synonym 'a array = "'a option list"

definition PY_SSIZE_T_MAX :: nat where
  "PY_SSIZE_T_MAX = 2 ^ 63 - 1"

text \<open>An array of \<open>n\<close> elements of 8 bytes: the product of the sizes is one of \<^verbatim>\<open>size_t\<close>.\<close>

definition array_bytes :: "nat \<Rightarrow> u64" where
  "array_bytes n = of_nat n * 8"

definition PyMem_RawMalloc_array :: "nat \<Rightarrow> dict \<Rightarrow> 'a array option \<times> dict" where
  "PyMem_RawMalloc_array n d =
     (let bytes = unat (array_bytes n) in
      if PY_SSIZE_T_MAX < bytes then (None, d)
      else
        (case allocate d of
           (False, d) \<Rightarrow> (None, d)
         | (True, d) \<Rightarrow> (Some (replicate (bytes div 8) None), d)))"

definition store_at :: "nat \<Rightarrow> 'a \<Rightarrow> 'a array \<Rightarrow> 'a array option" where
  "store_at i x a = (if i < length a then Some (a[i := Some x]) else None)"

definition load_at :: "nat \<Rightarrow> 'a array \<Rightarrow> 'a option" where
  "load_at i a = (if i < length a then a ! i else None)"

text \<open>\<^verbatim>\<open>PyDict_SetItem\<close> with a key of the dict.\<close>

definition batch_set :: "pyobj \<Rightarrow> pyobj \<Rightarrow> batch \<Rightarrow> batch" where
  "batch_set key value batch = map (\<lambda>(k, v). (k, if k = key then value else v)) batch"

subsection \<open>One chunk\<close>

text \<open>The loop that reads the keys of a chunk: the items that are left are those after the cursor.\<close>

fun fill_chunk ::
  "pyenv \<Rightarrow> nat \<Rightarrow> batch \<Rightarrow> nat \<Rightarrow> i64 array \<Rightarrow> pyobj array \<Rightarrow>
   (nat \<times> i64 array \<times> pyobj array \<times> batch) outcome option" where
  "fill_chunk py chunk_length [] chunk_end hashes keys = Some (Inr (chunk_end, hashes, keys, []))"
| "fill_chunk py chunk_length ((key, value) # items) chunk_end hashes keys =
     (let chunk_end = chunk_end + 1;
          hash = PyObject_Hash py key;
          i = (chunk_end - 1) mod chunk_length in
      if hash = -1 then Some (Inl RaisedByObject)
      else
        (case (store_at i hash hashes, store_at i key keys) of
           (Some hashes, Some keys) \<Rightarrow>
             if chunk_end mod chunk_length = 0 then Some (Inr (chunk_end, hashes, keys, items))
             else fill_chunk py chunk_length items chunk_end hashes keys
         | _ \<Rightarrow> None))"

text \<open>The loop that prefetches the entries: it reads the index and the pages and changes nothing.\<close>

fun prefetch_chunk :: "pyenv \<Rightarrow> meta \<Rightarrow> nat \<Rightarrow> i64 array \<Rightarrow> nat list \<Rightarrow> bool" where
  "prefetch_chunk py m chunk_length hashes [] = True"
| "prefetch_chunk py m chunk_length hashes (i # is) =
     (case load_at (i mod chunk_length) hashes of
        None \<Rightarrow> False
      | Some hash \<Rightarrow>
          (let nd = read_node_at (distance0_of py hash m) m in
           if \<not> is_empty nd \<and> \<not> is_tombstone nd \<and> check_tag py hash nd m \<and> get_entry_at (n_index nd) m = None
           then False
           else prefetch_chunk py m chunk_length hashes is))"

text \<open>The loop that searches the keys.  The structure of the result is not initialised.\<close>

fun lookup_chunk ::
  "pyenv \<Rightarrow> heap \<Rightarrow> meta \<Rightarrow> nat \<Rightarrow> i64 array \<Rightarrow> pyobj array \<Rightarrow> nat list \<Rightarrow> search_result \<Rightarrow> batch \<Rightarrow>
   (search_result outcome \<times> batch) option" where
  "lookup_chunk py h m chunk_length hashes keys [] r batch = Some (Inr r, batch)"
| "lookup_chunk py h m chunk_length hashes keys (i # is) r batch =
     (case (load_at (i mod chunk_length) hashes, load_at (i mod chunk_length) keys) of
        (Some hash, Some key) \<Rightarrow>
          (case lookup py h m key hash (r\<lparr>sr_found := False\<rparr>) of
             None \<Rightarrow> None
           | Some r \<Rightarrow>
               if sr_error r then Some (Inl RaisedByObject, batch)
               else if key \<notin> fst ` set batch then None
               else
                 (case if sr_found r then e_value (sr_entry r) else Some NOT_FOUND of
                    None \<Rightarrow> None
                  | Some value \<Rightarrow>
                      lookup_chunk py h m chunk_length hashes keys is r (batch_set key value batch)))
      | _ \<Rightarrow> None)"

subsection \<open>The chunks of a batch\<close>

partial_function (option) batch_chunks ::
  "pyenv \<Rightarrow> heap \<Rightarrow> meta \<Rightarrow> nat \<Rightarrow> batch \<Rightarrow> nat \<Rightarrow> i64 array \<Rightarrow> pyobj array \<Rightarrow> search_result \<Rightarrow> batch \<Rightarrow>
   ((i64 array \<times> pyobj array \<times> search_result) outcome \<times> batch) option" where
  "batch_chunks py h m chunk_length items chunk_start hashes keys r batch =
     (case fill_chunk py chunk_length items chunk_start hashes keys of
        None \<Rightarrow> None
      | Some (Inl e) \<Rightarrow> Some (Inl e, batch)
      | Some (Inr (chunk_end, hashes, keys, items)) \<Rightarrow>
          if \<not> prefetch_chunk py m chunk_length hashes [chunk_start..<chunk_end] then None
          else
            (case lookup_chunk py h m chunk_length hashes keys [chunk_start..<chunk_end] r batch of
               None \<Rightarrow> None
             | Some (Inl e, batch) \<Rightarrow> Some (Inl e, batch)
             | Some (Inr r, batch) \<Rightarrow>
                 if length batch \<noteq> chunk_end
                 then batch_chunks py h m chunk_length items chunk_end hashes keys r batch
                 else Some (Inr (hashes, keys, r), batch)))"

partial_function (option) batch_retry ::
  "pyenv \<Rightarrow> nat \<Rightarrow> nat \<Rightarrow> i64 array \<Rightarrow> pyobj array \<Rightarrow> search_result \<Rightarrow> batch \<Rightarrow> dict \<Rightarrow>
   (unit outcome \<times> batch \<times> dict) option" where
  "batch_retry py i chunk_length hashes keys r batch d =
     (case get_meta i d of
        None \<Rightarrow> None
      | Some (mid, d) \<Rightarrow>
          (case batch_chunks py (entries d) (metas d mid) chunk_length batch 0 hashes keys r batch of
             None \<Rightarrow> None
           | Some (Inl e, batch) \<Rightarrow> Some (Inl e, batch, d)
           | Some (Inr (hashes, keys, r), batch) \<Rightarrow>
               (case get_meta i d of
                  None \<Rightarrow> None
                | Some (mid', d) \<Rightarrow>
                    if mid' \<noteq> mid then batch_retry py i chunk_length hashes keys r batch d
                    else Some (Inr (), batch, d))))"

text \<open>The two arguments: an exact dict or another object, and the size of the chunks.\<close>

definition AtomicDict_BatchGetItem ::
  "pyenv \<Rightarrow> nat \<Rightarrow> bool \<Rightarrow> batch \<Rightarrow> int option \<Rightarrow> dict \<Rightarrow> (unit outcome \<times> batch \<times> dict) option" where
  "AtomicDict_BatchGetItem py tid is_dict batch chunk_size_arg d =
     (let chunk_length = (case chunk_size_arg of None \<Rightarrow> 128 | Some n \<Rightarrow> n) in
      if \<not> is_dict then Some (Inl TypeError, batch, d)
      else if chunk_length \<le> 0 then Some (Inl ValueError, batch, d)
      else
        (case PyMem_RawMalloc_array (nat chunk_length) d of
           (None, d) \<Rightarrow> Some (Inl SystemError, batch, d)
         | (Some hashes, d) \<Rightarrow>
             (case PyMem_RawMalloc_array (nat chunk_length) d of
                (None, d) \<Rightarrow> Some (Inl SystemError, batch, d)
              | (Some keys, d) \<Rightarrow>
                  (case get_or_create_accessor_storage tid d of
                     None \<Rightarrow> None
                   | Some (None, d) \<Rightarrow> Some (Inl MemoryError, batch, d)
                   | Some (Some i, d) \<Rightarrow>
                       batch_retry py i (nat chunk_length) hashes keys no_result batch d))))"

subsection \<open>The arrays\<close>

text \<open>The elements of a chunk from \<open>s\<close> to \<open>c\<close> are in the array, at their positions modulo its size.\<close>

definition holds_chunk :: "nat \<Rightarrow> nat \<Rightarrow> nat \<Rightarrow> (nat \<Rightarrow> 'a) \<Rightarrow> 'a array \<Rightarrow> bool" where
  "holds_chunk n s c f a \<longleftrightarrow> length a = n \<and> (\<forall>j. s \<le> j \<longrightarrow> j < c \<longrightarrow> load_at (j mod n) a = Some (f j))"

lemma holds_chunk_empty: "length a = n \<Longrightarrow> holds_chunk n s s f a"
  by (simp add: holds_chunk_def)

lemma mod_in_chunk:
  assumes "s mod n = 0" and "s \<le> j" and "j < s + (n :: nat)"
  shows "j mod n = j - s"
proof -
  from assms(1) obtain q where "s = n * q" by (auto simp: mod_eq_0_iff_dvd elim: dvdE)
  with assms(2,3) have "j = (j - s) + n * q" and "j - s < n" by auto
  then show ?thesis by (metis mod_less mod_mult_self2)
qed

lemma holds_chunk_store:
  assumes "holds_chunk n s c f a" and "s mod n = 0" and "s \<le> c" and "c < s + n"
  shows "\<exists>a'. store_at (c mod n) (f c) a = Some a' \<and> holds_chunk n s (Suc c) f a'"
proof -
  have "c mod n < n" using assms(3,4) by (simp add: mod_in_chunk [OF assms(2)])
  then have st: "store_at (c mod n) (f c) a = Some (a[c mod n := Some (f c)])"
    using assms(1) by (simp add: store_at_def holds_chunk_def)
  have "load_at (j mod n) (a[c mod n := Some (f c)]) = Some (f j)" if j: "s \<le> j" "j < Suc c" for j
  proof (cases "j = c")
    case True
    with \<open>c mod n < n\<close> assms(1) show ?thesis by (simp add: load_at_def holds_chunk_def)
  next
    case False
    with j have "j < c" by simp
    moreover from this j assms have "j mod n \<noteq> c mod n" by (simp add: mod_in_chunk [OF assms(2)])
    moreover have "j mod n < n" using assms(3,4) by (intro mod_less_divisor) linarith
    moreover from assms(1) j(1) \<open>j < c\<close> have "load_at (j mod n) a = Some (f j)" by (simp add: holds_chunk_def)
    ultimately show ?thesis using assms(1) by (simp add: load_at_def holds_chunk_def)
  qed
  with st assms(1) show ?thesis by (auto simp: holds_chunk_def)
qed

lemma PyMem_RawMalloc_array_ok:
  assumes "n \<le> 2 ^ 60 - 1" and "allocations d = []"
  shows "PyMem_RawMalloc_array n d = (Some (replicate n None), d)"
proof -
  from assms(1) have n: "n * 8 < 2 ^ 63" by simp
  have "unat (of_nat (n * 8) :: u64) = n * 8"
    using n by (simp add: unat_of_nat take_bit_nat_eq_self del: of_nat_mult)
  then have "unat (of_nat n * 8 :: u64) = n * 8" by simp
  then show ?thesis
    using n assms(2) by (simp add: PyMem_RawMalloc_array_def array_bytes_def allocate_def PY_SSIZE_T_MAX_def)
qed

subsection \<open>A chunk is filled, searched and answered\<close>

lemma fill_chunk_correct:
  assumes "\<forall>k\<in>fst ` set batch. PyObject_Hash py k \<noteq> -1" and "s mod n = 0" and "s \<le> c" and "c < s + n"
    and "items = drop c batch" and "c \<le> length batch"
    and "holds_chunk n s c (\<lambda>j. PyObject_Hash py (fst (batch ! j))) hs"
    and "holds_chunk n s c (\<lambda>j. fst (batch ! j)) ks"
  shows "\<exists>hs' ks'. fill_chunk py n items c hs ks =
      Some (Inr (min (s + n) (length batch), hs', ks', drop (min (s + n) (length batch)) batch)) \<and>
    holds_chunk n s (min (s + n) (length batch)) (\<lambda>j. PyObject_Hash py (fst (batch ! j))) hs' \<and>
    holds_chunk n s (min (s + n) (length batch)) (\<lambda>j. fst (batch ! j)) ks'"
  using assms
proof (induction items arbitrary: c hs ks)
  case Nil
  then have "c = length batch" by simp
  with Nil show ?case by (simp add: min_absorb2)
next
  case (Cons item items)
  then have c: "c < length batch" by (metis drop_all list.distinct(1) not_le)
  with Cons.prems(5) have it: "item = batch ! c" "items = drop (Suc c) batch"
    by (simp_all add: Cons_nth_drop_Suc [symmetric])
  from c Cons.prems(1) have nh: "PyObject_Hash py (fst (batch ! c)) \<noteq> -1" by simp
  from holds_chunk_store [OF Cons.prems(7,2-4)] obtain hs' where
    hs': "store_at (c mod n) (PyObject_Hash py (fst (batch ! c))) hs = Some hs'"
    "holds_chunk n s (Suc c) (\<lambda>j. PyObject_Hash py (fst (batch ! j))) hs'" by auto
  from holds_chunk_store [OF Cons.prems(8,2-4)] obtain ks' where
    ks': "store_at (c mod n) (fst (batch ! c)) ks = Some ks'"
    "holds_chunk n s (Suc c) (\<lambda>j. fst (batch ! j)) ks'" by auto
  have step: "fill_chunk py n (item # items) c hs ks =
      (if Suc c mod n = 0 then Some (Inr (Suc c, hs', ks', items)) else fill_chunk py n items (Suc c) hs' ks')"
    using nh hs'(1) ks'(1) by (cases item) (simp add: it(1) [symmetric])
  have last: "Suc c mod n = 0 \<longleftrightarrow> Suc c = s + n"
  proof (cases "Suc c = s + n")
    case True
    with Cons.prems(2) show ?thesis by (simp only: mod_add_self2 simp_thms)
  next
    case False
    with Cons.prems(2-4) show ?thesis by (simp add: mod_in_chunk [of s n "Suc c"])
  qed
  show ?case
  proof (cases "Suc c = s + n")
    case True
    with c have "min (s + n) (length batch) = Suc c" by simp
    with True step last it(2) hs'(2) ks'(2) show ?thesis by simp
  next
    case False
    with Cons.IH [OF Cons.prems(1,2) _ _ it(2) _ hs'(2) ks'(2)] Cons.prems(3,4) c step last
    show ?thesis by simp
  qed
qed

lemma prefetch_chunk_ok:
  assumes wf: "wf_index py h m" and "holds_chunk n s c f hs" and "set is \<subseteq> {s..<c}"
  shows "prefetch_chunk py m n hs is"
  using assms(3)
proof (induction "is")
  case (Cons i "is")
  then have ld: "load_at (i mod n) hs = Some (f i)" using assms(2) by (simp add: holds_chunk_def)
  let ?p = "home py m (f i) mod SIZE_OF m"
  have rd: "read_node_at (distance0_of py (f i) m) m = slot m ?p"
    using read_node_at_slot [of m "distance0_of py (f i) m" 0] wf_log_size_le [OF wf] by (simp add: home_def)
  have "get_entry_at (n_index (slot m ?p)) m \<noteq> None" if "live m ?p"
    using wf_node [OF wf _ that] unfolding node_ok_def by (auto simp: entry_of_def)
  with Cons ld rd show ?case by (auto simp: Let_def live_def)
qed simp

text \<open>The answer to a key, and a batch whose first \<open>a\<close> keys are answered.\<close>

definition looked_up :: "pymap \<Rightarrow> pyobj \<Rightarrow> pyobj" where
  "looked_up M key = (case M key of None \<Rightarrow> NOT_FOUND | Some v \<Rightarrow> v)"

definition answered :: "pymap \<Rightarrow> nat \<Rightarrow> batch \<Rightarrow> batch" where
  "answered M a batch = map (\<lambda>(k, v). (k, looked_up M k)) (take a batch) @ drop a batch"

lemma answered_0 [simp]: "answered M 0 batch = batch"
  by (simp add: answered_def)

lemma length_answered [simp]: "length (answered M a batch) = length batch"
  by (simp add: answered_def)

lemma fst_answered [simp]: "map fst (answered M a batch) = map fst batch"
proof -
  have "map fst (answered M a batch) = map fst (take a batch @ drop a batch)"
    unfolding answered_def map_append by (auto simp: split_beta)
  then show ?thesis by simp
qed

lemma nth_answered:
  "j < length batch \<Longrightarrow>
    answered M a batch ! j = (fst (batch ! j), if j < a then looked_up M (fst (batch ! j)) else snd (batch ! j))"
  by (auto simp: answered_def nth_append split_beta min_def)

lemma batch_set_answered:
  assumes "a < length batch" and "distinct (map fst batch)"
  shows "batch_set (fst (batch ! a)) (looked_up M (fst (batch ! a))) (answered M a batch) = answered M (Suc a) batch"
proof (rule nth_equalityI)
  fix j assume j: "j < length (batch_set (fst (batch ! a)) (looked_up M (fst (batch ! a))) (answered M a batch))"
  then have j: "j < length batch" by (simp add: batch_set_def)
  with assms have "fst (batch ! j) = fst (batch ! a) \<longleftrightarrow> j = a"
    by (metis length_map nth_eq_iff_index_eq nth_map)
  with j show "batch_set (fst (batch ! a)) (looked_up M (fst (batch ! a))) (answered M a batch) ! j =
      answered M (Suc a) batch ! j"
    by (auto simp: batch_set_def nth_answered)
qed (simp add: batch_set_def)

lemma lookup_chunk_correct:
  assumes wf: "wf_index py h m" and wb: "well_behaved_keys py" and dist: "distinct (map fst batch)"
    and hs: "holds_chunk n s c (\<lambda>j. PyObject_Hash py (fst (batch ! j))) hs"
    and ks: "holds_chunk n s c (\<lambda>j. fst (batch ! j)) ks" and c: "c \<le> length batch"
    and "s \<le> a" and "a \<le> c"
  shows "\<exists>r'. lookup_chunk py h m n hs ks [a..<c] r (answered (table_map py h m) a batch) =
    Some (Inr r', answered (table_map py h m) c batch)"
  using assms(7,8)
proof (induction "c - a" arbitrary: a r)
  case 0
  then show ?case by simp
next
  case (Suc k)
  then have a: "a < c" by simp
  then have cons: "[a..<c] = a # [Suc a..<c]" by (simp add: upt_conv_Cons)
  let ?M = "table_map py h m" and ?key = "fst (batch ! a)"
  have ld: "load_at (a mod n) hs = Some (PyObject_Hash py ?key)" "load_at (a mod n) ks = Some ?key"
    using hs ks a Suc.prems(1) by (auto simp: holds_chunk_def)
  have "?key \<in> set (map fst (answered ?M a batch))" using a c by simp
  then have mem: "?key \<in> fst ` set (answered ?M a batch)" by (simp only: set_map)
  from lookup_correct [OF wf wb] obtain r1 where
    r1: "lookup py h m ?key (PyObject_Hash py ?key) (r\<lparr>sr_found := False\<rparr>) = Some r1" "search_ok py h m ?key r1"
    by blast
  then have fnd: "sr_found r1 \<longleftrightarrow> sr_entry_p r1 \<noteq> None" and ne: "\<not> sr_error r1"
    by (auto simp: search_ok_def split: if_splits)
  have "(if sr_found r1 then e_value (sr_entry r1) else Some NOT_FOUND) = Some (looked_up ?M ?key)"
    using search_value [OF wf r1(2), of "Some NOT_FOUND"] fnd
    by (auto simp: looked_up_def split: option.splits if_splits)
  with ld mem r1(1) ne
  have "lookup_chunk py h m n hs ks [a..<c] r (answered ?M a batch) =
      lookup_chunk py h m n hs ks [Suc a..<c] r1 (answered ?M (Suc a) batch)"
    using batch_set_answered [of a batch ?M] a c dist by (simp add: cons)
  with Suc.hyps(1) [of "Suc a" r1] Suc.hyps(2) Suc.prems a show ?case by simp
qed

subsection \<open>The whole batch\<close>

lemma batch_chunks_correct:
  assumes wf: "wf_index py h m" and wb: "well_behaved_keys py" and dist: "distinct (map fst batch)"
    and hash: "\<forall>k\<in>fst ` set batch. PyObject_Hash py k \<noteq> -1" and n: "0 < n"
  shows "s mod n = 0 \<Longrightarrow> s \<le> length batch \<Longrightarrow> length hs = n \<Longrightarrow> length ks = n \<Longrightarrow>
    \<exists>x. batch_chunks py h m n (drop s batch) s hs ks r (answered (table_map py h m) s batch) =
      Some (Inr x, answered (table_map py h m) (length batch) batch)"
proof (induction "length batch - s" arbitrary: s hs ks r rule: less_induct)
  case less
  let ?c = "min (s + n) (length batch)" and ?M = "table_map py h m"
  have lt: "s < s + n" using n by simp
  from fill_chunk_correct [OF hash less.prems(1) order_refl lt refl less.prems(2)
      holds_chunk_empty [OF less.prems(3)] holds_chunk_empty [OF less.prems(4)]]
  obtain hs' ks' where
    fill: "fill_chunk py n (drop s batch) s hs ks = Some (Inr (?c, hs', ks', drop ?c batch))"
    and hs': "holds_chunk n s ?c (\<lambda>j. PyObject_Hash py (fst (batch ! j))) hs'"
    and ks': "holds_chunk n s ?c (\<lambda>j. fst (batch ! j)) ks'" by blast
  have pre: "prefetch_chunk py m n hs' [s..<?c]" by (rule prefetch_chunk_ok [OF wf hs']) simp
  have "?c \<le> length batch" and "s \<le> ?c" using less.prems(2) by simp_all
  from lookup_chunk_correct [OF wf wb dist hs' ks' this(1) order_refl this(2), of r] obtain r' where
    look: "lookup_chunk py h m n hs' ks' [s..<?c] r (answered ?M s batch) = Some (Inr r', answered ?M ?c batch)"
    by blast
  have run: "batch_chunks py h m n (drop s batch) s hs ks r (answered ?M s batch) =
      (if length batch \<noteq> ?c then batch_chunks py h m n (drop ?c batch) ?c hs' ks' r' (answered ?M ?c batch)
       else Some (Inr (hs', ks', r'), answered ?M ?c batch))"
    by (subst batch_chunks.simps) (simp add: fill pre look del: upt_Suc)
  show ?case
  proof (cases "length batch = ?c")
    case True
    with run show ?thesis by simp
  next
    case False
    then have c: "?c = s + n" "s + n < length batch" by simp_all
    have "length hs' = n" "length ks' = n" using hs' ks' by (simp_all add: holds_chunk_def)
    with less.hyps [of "s + n" hs' ks' r'] less.prems(1) c n run False show ?thesis by simp
  qed
qed

lemma batch_retry_correct:
  assumes ok: "settled py tid i mid d" and wb: "well_behaved_keys py" and dist: "distinct (map fst batch)"
    and hash: "\<forall>k\<in>fst ` set batch. PyObject_Hash py k \<noteq> -1" and n: "0 < n"
    and arrays: "length hs = n" "length ks = n"
  shows "\<exists>as. batch_retry py i n hs ks r batch d =
      Some (Inr (), answered (dict_map py d) (length batch) batch, d\<lparr>accessors := as\<rparr>) \<and>
    settled py tid i mid (d\<lparr>accessors := as\<rparr>)"
proof -
  note s = settledD [OF ok]
  from get_meta_ok [OF s(1,2,5)] obtain as where
    as: "get_meta i d = Some (mid, d\<lparr>accessors := as\<rparr>)" "like_storages (accessors d) as" "unlocked (d\<lparr>accessors := as\<rparr>)" .
  note ok' = settled_storages [OF ok as(2,3)]
  note s' = settledD [OF ok']
  from get_meta_ok [OF s'(1,2,5)] obtain bs where
    bs: "get_meta i (d\<lparr>accessors := as\<rparr>) = Some (mid, d\<lparr>accessors := bs\<rparr>)" "like_storages as bs" "unlocked (d\<lparr>accessors := bs\<rparr>)"
    by auto
  have "settled py tid i mid (d\<lparr>accessors := bs\<rparr>)" using settled_storages [OF ok', of bs] bs(2,3) by simp
  moreover from batch_chunks_correct [OF table_okD(5) [OF s(1)] wb dist hash n, of 0 hs ks r] arrays
  obtain x where "batch_chunks py (entries d) (metas d mid) n batch 0 hs ks r batch =
      Some (Inr x, answered (dict_map py d) (length batch) batch)" by (auto simp: s(6))
  then have "batch_retry py i n hs ks r batch d =
      Some (Inr (), answered (dict_map py d) (length batch) batch, d\<lparr>accessors := bs\<rparr>)"
    by (cases x) (subst batch_retry.simps, simp add: as(1) bs(1))
  ultimately show ?thesis by blast
qed

lemma answered_all: "answered M (length batch) batch = map (\<lambda>(k, v). (k, looked_up M k)) batch"
  by (simp add: answered_def)

text \<open>
  C17: A batch lookup, in chunks of any size below \<open>2 ^ 60\<close>, replaces the value of every key of the
  batch by the value that the map of the dictionary has for it, or by \<open>NOT_FOUND\<close>, keeps the keys and
  their order, and leaves the map of the dictionary as it was.
\<close>

theorem batch_lookup_answers_every_key:
  assumes "dict_ok py n d" and "well_behaved_keys py" and "distinct (map fst batch)"
    and "\<forall>k\<in>fst ` set batch. PyObject_Hash py k \<noteq> -1"
    and "case chunks of None \<Rightarrow> True | Some s \<Rightarrow> 0 < s \<and> s < 2 ^ 60"
  shows "(case AtomicDict_BatchGetItem py tid True batch chunks d of
            None \<Rightarrow> False
          | Some (r, batch', d') \<Rightarrow> r = Inr () \<and> dict_ok py n d' \<and> dict_map py d' = dict_map py d \<and>
              batch' = map (\<lambda>(k, v). (k, looked_up (dict_map py d) k)) batch)"
proof (rule dict_ok_storage [OF assms(1), of tid])
  fix i mid d1
  assume d1: "get_or_create_accessor_storage tid d = Some (Some i, d1)" "settled py tid i mid d1"
    "dict_map py d1 = dict_map py d" "log_size (metas d1 mid) + n \<le> 30"
  define s where "s = (case chunks of None \<Rightarrow> 128 | Some s \<Rightarrow> s)"
  have s: "0 < s" "nat s \<le> 2 ^ 60 - 1" using assms(5) by (auto simp: s_def split: option.splits)
  have mem: "allocations d = []" using assms(1) by (simp add: dict_ok_def)
  have "length (replicate (nat s) None) = nat s" by simp
  from batch_retry_correct [OF d1(2) assms(2-4) _ this this, of no_result] s(1)
  obtain as where b: "batch_retry py i (nat s) (replicate (nat s) None) (replicate (nat s) None) no_result batch d1 =
      Some (Inr (), answered (dict_map py d1) (length batch) batch, d1\<lparr>accessors := as\<rparr>)"
    "settled py tid i mid (d1\<lparr>accessors := as\<rparr>)" by auto
  have "AtomicDict_BatchGetItem py tid True batch chunks d =
      Some (Inr (), answered (dict_map py d1) (length batch) batch, d1\<lparr>accessors := as\<rparr>)"
    using s(1) b(1) by (simp add: AtomicDict_BatchGetItem_def s_def [symmetric]
        PyMem_RawMalloc_array_ok [OF s(2) mem] d1(1) Let_def)
  moreover have "dict_ok py n (d1\<lparr>accessors := as\<rparr>)" using settled_dict_ok [OF b(2)] d1(4) by simp
  ultimately show ?thesis by (simp add: d1(3) answered_all)
qed

theorem batch_lookup_answers_every_key_witness:
  "(case AtomicDict_BatchGetItem example_env 7 True [(Obj 1, Obj 9), (Obj 2, Obj 9)] (Some 1) fresh_dict of
      None \<Rightarrow> False
    | Some (r, batch', d') \<Rightarrow> r = Inr () \<and> batch' = [(Obj 1, NOT_FOUND), (Obj 2, NOT_FOUND)])"
  using batch_lookup_answers_every_key [OF fresh_dict_ok example_env_ok, of "[(Obj 1, Obj 9), (Obj 2, Obj 9)]" "Some 1" 7]
  by (simp add: fresh_dict_map looked_up_def example_env_def split: option.splits prod.splits)

text \<open>
  C18: The sizes of the arrays are computed modulo \<open>2 ^ 64\<close>: a batch of two keys in chunks of
  \<open>2 ^ 61 + 1\<close> is written to arrays of one element, outside of their bounds.
\<close>

theorem batch_chunk_overflows:
  assumes "dict_ok py n d" and "PyObject_Hash py k1 \<noteq> -1" and "PyObject_Hash py k2 \<noteq> -1"
  shows "AtomicDict_BatchGetItem py tid True [(k1, v1), (k2, v2)] (Some (2 ^ 61 + 1)) d = None"
proof (rule dict_ok_storage [OF assms(1), of tid])
  fix i mid d1
  assume d1: "get_or_create_accessor_storage tid d = Some (Some i, d1)" "settled py tid i mid d1"
  have mem: "allocations d = []" using assms(1) by (simp add: dict_ok_def)
  have "unat (array_bytes (2 ^ 61 + 1)) = 8" by (simp add: array_bytes_def)
  then have array: "PyMem_RawMalloc_array (2 ^ 61 + 1) d = (Some [None], d)"
    by (simp add: PyMem_RawMalloc_array_def PY_SSIZE_T_MAX_def allocate_Nil [OF mem])
  note s = settledD [OF d1(2)]
  from get_meta_ok [OF s(1,2,5)] obtain as where as: "get_meta i d1 = Some (mid, d1\<lparr>accessors := as\<rparr>)" .
  have "fill_chunk py (2 ^ 61 + 1) [(k1, v1), (k2, v2)] 0 [None] [None] = None"
    using assms(2,3) by (simp add: store_at_def)
  then have "batch_retry py i (2 ^ 61 + 1) [None] [None] no_result [(k1, v1), (k2, v2)] d1 = None"
    by (subst batch_retry.simps, subst batch_chunks.simps) (simp only: as option.case prod.case)
  moreover have "nat (2 ^ 61 + 1) = 2 ^ 61 + 1" by simp
  ultimately show ?thesis
    by (simp only: AtomicDict_BatchGetItem_def array d1(1) Let_def option.case prod.case) simp
qed

theorem batch_chunk_overflows_witness:
  "AtomicDict_BatchGetItem example_env 7 True [(Obj 1, Obj 9), (Obj 2, Obj 9)] (Some (2 ^ 61 + 1)) fresh_dict = None"
  by (rule batch_chunk_overflows [OF fresh_dict_ok]) (simp_all add: example_env_def)

end
