(* ===== verification/ReduceTable.thy ===== *)
theory ReduceTable
  imports Index
begin

text \<open>
  The table in which one thread aggregates before it flushes, from
  \<^verbatim>\<open>src/src/include/cereggii/internal/reduce_table.h\<close>: an array of entries in the order of
  insertion and an index of positions in that array with linear probing.  Both arrays have
  \<open>REDUCE_TABLE_SIZE\<close> elements: a store outside of them has no defined result.  Entries that were not
  written are blank here; their contents are never read.  The outcomes of the allocations are a list,
  like those of the dictionary; reference counts are left out.
\<close>

subsection \<open>The code\<close>

record reduce_entry =
  re_hash :: i64
  re_key :: pyobj
  re_expected :: pyobj
  re_desired :: pyobj

record reduce_table =
  rt_log_size :: nat
  rt_used :: nat
  rt_index :: "nat \<Rightarrow> u64"
  rt_entries :: "nat \<Rightarrow> reduce_entry"

definition REDUCE_TABLE_MIN_LOG_SIZE :: nat where
  "REDUCE_TABLE_MIN_LOG_SIZE = 7"

definition REDUCE_TABLE_INITIAL_LOG_SIZE :: nat where
  "REDUCE_TABLE_INITIAL_LOG_SIZE = 7"

definition REDUCE_TABLE_SIZE :: "reduce_table \<Rightarrow> nat" where
  "REDUCE_TABLE_SIZE t = 2 ^ rt_log_size t"

definition REDUCE_TABLE_MASK :: "reduce_table \<Rightarrow> u64" where
  "REDUCE_TABLE_MASK t = push_bit (rt_log_size t) 1 - 1"

definition REDUCE_TABLE_EMPTY_ENTRY :: u64 where
  "REDUCE_TABLE_EMPTY_ENTRY = - 1"

definition blank_entry :: reduce_entry where
  "blank_entry = \<lparr>re_hash = 0, re_key = NOT_FOUND, re_expected = NOT_FOUND, re_desired = NOT_FOUND\<rparr>"

definition reduce_table_hash_to_index :: "i64 \<Rightarrow> reduce_table \<Rightarrow> u64" where
  "reduce_table_hash_to_index hash t = hash AND REDUCE_TABLE_MASK t"

type_synonym mem = "bool list"

fun next_allocation :: "mem \<Rightarrow> bool \<times> mem" where
  "next_allocation [] = (True, [])"
| "next_allocation (a # mem) = (a, mem)"

text \<open>Three allocations for a new table, two for a larger one.\<close>

definition reduce_table_new :: "nat \<Rightarrow> mem \<Rightarrow> reduce_table outcome \<times> mem" where
  "reduce_table_new ls mem =
     (let ls = (if ls < REDUCE_TABLE_MIN_LOG_SIZE then REDUCE_TABLE_MIN_LOG_SIZE else ls) in
      case next_allocation mem of
        (False, mem) \<Rightarrow> (Inl MemoryError, mem)
      | (True, mem) \<Rightarrow>
          (case next_allocation mem of
             (False, mem) \<Rightarrow> (Inl MemoryError, mem)
           | (True, mem) \<Rightarrow>
               (case next_allocation mem of
                  (False, mem) \<Rightarrow> (Inl MemoryError, mem)
                | (True, mem) \<Rightarrow>
                    (Inr \<lparr>rt_log_size = ls, rt_used = 0, rt_index = (\<lambda>_. REDUCE_TABLE_EMPTY_ENTRY),
                          rt_entries = (\<lambda>_. blank_entry)\<rparr>, mem))))"

text \<open>The linear probe for an empty slot.\<close>

partial_function (option) empty_slot :: "(nat \<Rightarrow> u64) \<Rightarrow> u64 \<Rightarrow> u64 \<Rightarrow> u64 option" where
  "empty_slot ixs msk ix =
     (if ixs (unat ix) = REDUCE_TABLE_EMPTY_ENTRY then Some ix else empty_slot ixs msk ((ix + 1) AND msk))"

definition append_entry :: "reduce_entry \<Rightarrow> reduce_table \<Rightarrow> reduce_table option" where
  "append_entry e t =
     (case empty_slot (rt_index t) (REDUCE_TABLE_MASK t) (reduce_table_hash_to_index (re_hash e) t) of
        None \<Rightarrow> None
      | Some ix \<Rightarrow>
          if rt_used t < REDUCE_TABLE_SIZE t
          then Some (t\<lparr>rt_used := rt_used t + 1, rt_index := (rt_index t)(unat ix := of_nat (rt_used t)),
                       rt_entries := (rt_entries t)(rt_used t := e)\<rparr>)
          else None)"

function rehash_from :: "reduce_table \<Rightarrow> nat \<Rightarrow> reduce_table \<Rightarrow> reduce_table option" where
  "rehash_from old i new =
     (if i < rt_used old
      then (case append_entry (rt_entries old i) new of None \<Rightarrow> None | Some new \<Rightarrow> rehash_from old (i + 1) new)
      else Some new)"
  by pat_completeness auto
termination
  by (relation "measure (\<lambda>(old, i, new). rt_used old - i)") auto

declare rehash_from.simps [simp del]

definition reduce_table_resize :: "reduce_table \<Rightarrow> mem \<Rightarrow> (reduce_table outcome \<times> mem) option" where
  "reduce_table_resize t mem =
     (case next_allocation mem of
        (False, mem) \<Rightarrow> Some (Inl MemoryError, mem)
      | (True, mem) \<Rightarrow>
          (case next_allocation mem of
             (False, mem) \<Rightarrow> Some (Inl MemoryError, mem)
           | (True, mem) \<Rightarrow>
               map_option (\<lambda>new. (Inr new, mem))
                 (rehash_from t 0
                    \<lparr>rt_log_size = rt_log_size t + 1, rt_used = 0, rt_index = (\<lambda>_. REDUCE_TABLE_EMPTY_ENTRY),
                     rt_entries = (\<lambda>_. blank_entry)\<rparr>)))"

text \<open>The position of the entry that a search finds, and whether a comparison raised.\<close>

partial_function (option) lookup_slot ::
  "pyenv \<Rightarrow> reduce_table \<Rightarrow> pyobj \<Rightarrow> i64 \<Rightarrow> u64 \<Rightarrow> u64 \<Rightarrow> (nat option \<times> bool) option" where
  "lookup_slot py t key hash start_ix ix =
     (let entry_index = rt_index t (unat ix) in
      if entry_index = REDUCE_TABLE_EMPTY_ENTRY then Some (None, False)
      else
        (let e = rt_entries t (unat entry_index);
             ix = (ix + 1) AND REDUCE_TABLE_MASK t in
         if re_hash e = hash \<and> re_key e = key then Some (Some (unat entry_index), False)
         else if re_hash e = hash \<and> RichCompareEq py (re_key e) key = CmpError then Some (None, True)
         else if re_hash e = hash \<and> RichCompareEq py (re_key e) key = CmpTrue then Some (Some (unat entry_index), False)
         else if ix = start_ix then Some (None, False)
         else lookup_slot py t key hash start_ix ix))"

definition reduce_table_lookup :: "pyenv \<Rightarrow> reduce_table \<Rightarrow> pyobj \<Rightarrow> i64 \<Rightarrow> (nat option \<times> bool) option" where
  "reduce_table_lookup py t key hash =
     (let ix = reduce_table_hash_to_index hash t in lookup_slot py t key hash ix ix)"

text \<open>
  The result of \<open>reduce_table_set\<close>: an error, or the table and whether a comparison raised, which the
  code does not look at: the key is then inserted a second time.
\<close>

definition reduce_table_set ::
  "pyenv \<Rightarrow> reduce_table \<Rightarrow> pyobj \<Rightarrow> i64 \<Rightarrow> pyobj \<Rightarrow> pyobj \<Rightarrow> mem \<Rightarrow>
   ((reduce_table \<times> bool) outcome \<times> mem) option" where
  "reduce_table_set py t key hash expected desired mem =
     (case (if rt_used t > REDUCE_TABLE_SIZE t * 2 div 3 then reduce_table_resize t mem else Some (Inr t, mem)) of
        None \<Rightarrow> None
      | Some (Inl e, mem) \<Rightarrow> Some (Inl e, mem)
      | Some (Inr t, mem) \<Rightarrow>
          (case reduce_table_lookup py t key hash of
             None \<Rightarrow> None
           | Some (Some existing, err) \<Rightarrow>
               Some (Inr (t\<lparr>rt_entries := (rt_entries t)(existing :=
                       (rt_entries t existing)\<lparr>re_expected := expected, re_desired := desired\<rparr>)\<rparr>, err), mem)
           | Some (None, err) \<Rightarrow>
               map_option (\<lambda>t. (Inr (t, err), mem))
                 (append_entry \<lparr>re_hash = hash, re_key = key, re_expected = expected, re_desired = desired\<rparr> t)))"

text \<open>The pair of an entry; an exception that was raised before the call counts as one of the search.\<close>

definition reduce_table_get ::
  "pyenv \<Rightarrow> reduce_table \<Rightarrow> pyobj \<Rightarrow> i64 \<Rightarrow> bool \<Rightarrow> (pyobj \<times> pyobj) option outcome option" where
  "reduce_table_get py t key hash pending =
     (case reduce_table_lookup py t key hash of
        None \<Rightarrow> None
      | Some (None, err) \<Rightarrow> Some (if err \<or> pending then Inl RaisedByObject else Inr None)
      | Some (Some j, _) \<Rightarrow> Some (Inr (Some (re_expected (rt_entries t j), re_desired (rt_entries t j)))))"

subsection \<open>The index\<close>

text \<open>
  An index of \<open>2 ^ l\<close> slots over \<open>n\<close> entries: a slot is empty or has the position of an entry, no two
  slots have the same, and the slot of an entry is reached from the home slot of its hash without
  passing an empty slot.
\<close>

definition probe :: "nat \<Rightarrow> i64 \<Rightarrow> nat \<Rightarrow> nat" where
  "probe l hash k = (unat hash + k) mod 2 ^ l"

definition reached :: "nat \<Rightarrow> (nat \<Rightarrow> u64) \<Rightarrow> i64 \<Rightarrow> nat \<Rightarrow> bool" where
  "reached l ixs hash j \<longleftrightarrow>
     (\<exists>k<2 ^ l. ixs (probe l hash k) = of_nat j \<and> (\<forall>i<k. ixs (probe l hash i) \<noteq> REDUCE_TABLE_EMPTY_ENTRY))"

definition index_ok :: "nat \<Rightarrow> (nat \<Rightarrow> u64) \<Rightarrow> nat \<Rightarrow> (nat \<Rightarrow> i64) \<Rightarrow> bool" where
  "index_ok l ixs n hash_of \<longleftrightarrow>
     l \<le> 62 \<and> n < 2 ^ l \<and>
     (\<forall>p<2 ^ l. ixs p \<noteq> REDUCE_TABLE_EMPTY_ENTRY \<longrightarrow> unat (ixs p) < n) \<and>
     (\<forall>p<2 ^ l. \<forall>q<2 ^ l. ixs p \<noteq> REDUCE_TABLE_EMPTY_ENTRY \<longrightarrow> ixs p = ixs q \<longrightarrow> p = q) \<and>
     (\<forall>j<n. reached l ixs (hash_of j) j)"

lemma probe_lt [simp]: "probe l hash k < 2 ^ l"
  by (simp add: probe_def)

lemma unat_position_not_empty:
  assumes "j < 2 ^ 62"
  shows "of_nat j \<noteq> REDUCE_TABLE_EMPTY_ENTRY" and "unat (of_nat j :: u64) = j"
proof -
  show u: "unat (of_nat j :: u64) = j" by (rule unat_word_small [OF assms])
  have "unat (- 1 :: u64) = 2 ^ 64 - 1" by (simp add: unsigned_minus_1_eq_mask mask_eq_exp_minus_1)
  with u assms show "of_nat j \<noteq> REDUCE_TABLE_EMPTY_ENTRY" by (auto simp: REDUCE_TABLE_EMPTY_ENTRY_def)
qed

lemma unat_mask_probe:
  assumes "l \<le> 62"
  shows "unat (hash AND (push_bit l 1 - 1) :: u64) = probe l hash 0"
    and "unat ((w + 1) AND (push_bit l 1 - 1) :: u64) = (unat w + 1) mod 2 ^ l"
  using assms mod_add_word [of l w 1] by (simp_all only: mask_word_eq unat_and_mask probe_def) simp_all

lemma probe_Suc: "(probe l hash k + 1) mod 2 ^ l = probe l hash (Suc k)"
  by (simp add: probe_def mod_Suc_eq)

text \<open>A slot is empty, because there are fewer entries than slots.\<close>

lemma empty_slot_exists:
  assumes "index_ok l ixs n hash_of"
  obtains k where "k < 2 ^ l" and "ixs (probe l hash k) = REDUCE_TABLE_EMPTY_ENTRY"
    and "\<forall>i<k. ixs (probe l hash i) \<noteq> REDUCE_TABLE_EMPTY_ENTRY"
proof -
  have "\<exists>p<2 ^ l. ixs p = REDUCE_TABLE_EMPTY_ENTRY"
  proof (rule ccontr)
    assume "\<not> ?thesis"
    with assms have "inj_on (\<lambda>p. unat (ixs p)) {..<2 ^ l}" "(\<lambda>p. unat (ixs p)) ` {..<2 ^ l} \<subseteq> {..<n}"
      by (auto simp: index_ok_def inj_on_def dest: unsigned_word_eqI)
    then have "card {..<(2 :: nat) ^ l} \<le> card {..<n}" by (intro card_inj_on_le) auto
    with assms show False by (simp add: index_ok_def)
  qed
  then obtain p where p: "p < 2 ^ l" "ixs p = REDUCE_TABLE_EMPTY_ENTRY" by blast
  from ring_surj [of "2 ^ l" p "unat hash mod 2 ^ l"] p(1) obtain k where
    k: "k < 2 ^ l" "p = (unat hash mod 2 ^ l + k) mod 2 ^ l" by auto
  then have "ixs (probe l hash k) = REDUCE_TABLE_EMPTY_ENTRY" using p(2) by (simp add: probe_def mod_add_left_eq)
  with k(1) have ex: "\<exists>k. k < 2 ^ l \<and> ixs (probe l hash k) = REDUCE_TABLE_EMPTY_ENTRY" by blast
  let ?k = "LEAST k. k < 2 ^ l \<and> ixs (probe l hash k) = REDUCE_TABLE_EMPTY_ENTRY"
  from LeastI_ex [OF ex] have least: "?k < 2 ^ l" "ixs (probe l hash ?k) = REDUCE_TABLE_EMPTY_ENTRY" by simp_all
  have "\<forall>i<?k. ixs (probe l hash i) \<noteq> REDUCE_TABLE_EMPTY_ENTRY"
    using not_less_Least [where P = "\<lambda>k. k < 2 ^ l \<and> ixs (probe l hash k) = REDUCE_TABLE_EMPTY_ENTRY"] least(1)
    by (meson less_trans)
  with least show thesis by (rule that)
qed

lemma empty_slot_run:
  assumes "l \<le> 62" and "ixs (probe l hash k) = REDUCE_TABLE_EMPTY_ENTRY"
    and "\<forall>i<k. ixs (probe l hash i) \<noteq> REDUCE_TABLE_EMPTY_ENTRY" and "j \<le> k" and "unat ix = probe l hash j"
  shows "\<exists>ix'. empty_slot ixs (push_bit l 1 - 1) ix = Some ix' \<and> unat ix' = probe l hash k"
  using assms(4,5)
proof (induction "k - j" arbitrary: j ix)
  case 0
  with assms(2) show ?case by (subst empty_slot.simps) simp
next
  case (Suc d)
  then have "j < k" by simp
  with assms(3) Suc.prems have "empty_slot ixs (push_bit l 1 - 1) ix = empty_slot ixs (push_bit l 1 - 1) ((ix + 1) AND (push_bit l 1 - 1))"
    by (subst empty_slot.simps) simp
  moreover have "unat ((ix + 1) AND (push_bit l 1 - 1)) = probe l hash (Suc j)"
    using unat_mask_probe(2) [OF assms(1), of ix] Suc.prems(2) probe_Suc by simp
  ultimately show ?case using Suc.hyps(1) [of "Suc j"] Suc.hyps(2) \<open>j < k\<close> by simp
qed

text \<open>An entry that is appended takes the first empty slot of its probe path.\<close>

lemma index_ok_append:
  assumes ok: "index_ok l ixs n hash_of" and k: "k < 2 ^ l" "ixs (probe l hash k) = REDUCE_TABLE_EMPTY_ENTRY"
    and path: "\<forall>i<k. ixs (probe l hash i) \<noteq> REDUCE_TABLE_EMPTY_ENTRY" and n: "Suc n < 2 ^ l"
  shows "index_ok l (ixs(probe l hash k := of_nat n)) (Suc n) (hash_of(n := hash))"
proof -
  let ?p = "probe l hash k" and ?ixs = "ixs(probe l hash k := of_nat n)"
  have l: "l \<le> 62" and len: "\<forall>p<2 ^ l. ixs p \<noteq> REDUCE_TABLE_EMPTY_ENTRY \<longrightarrow> unat (ixs p) < n"
    and inj: "\<forall>p<2 ^ l. \<forall>q<2 ^ l. ixs p \<noteq> REDUCE_TABLE_EMPTY_ENTRY \<longrightarrow> ixs p = ixs q \<longrightarrow> p = q"
    and reach: "\<forall>j<n. reached l ixs (hash_of j) j"
    using ok by (simp_all add: index_ok_def)
  from l have "(2 :: nat) ^ l \<le> 2 ^ 62" by (intro power_increasing) simp_all
  with n have small: "j \<le> n \<Longrightarrow> j < 2 ^ 62" for j by linarith
  note pos = unat_position_not_empty [OF small]
  have keep: "reached l ?ixs h j" if "reached l ixs h j" "j < n" for h j
  proof -
    from that(1) obtain i where i: "i < 2 ^ l" "ixs (probe l h i) = of_nat j"
      "\<forall>q<i. ixs (probe l h q) \<noteq> REDUCE_TABLE_EMPTY_ENTRY" by (auto simp: reached_def)
    with k(2) that(2) pos(1) [of j] pos(1) [of n] show ?thesis
      unfolding reached_def by (intro exI [of _ i]) auto
  qed
  have "reached l ?ixs hash n"
    using k(1) path pos(1) [of n] unfolding reached_def by (intro exI [of _ k]) auto
  moreover have "\<forall>p<2 ^ l. ?ixs p \<noteq> REDUCE_TABLE_EMPTY_ENTRY \<longrightarrow> unat (?ixs p) < Suc n"
    using len pos(2) [of n] by (auto simp: less_Suc_eq)
  moreover have other: "ixs q \<noteq> of_nat n" if "q < 2 ^ l" for q
    using len [rule_format, OF that] pos [of n] by auto
  have "\<forall>p<2 ^ l. \<forall>q<2 ^ l. ?ixs p \<noteq> REDUCE_TABLE_EMPTY_ENTRY \<longrightarrow> ?ixs p = ?ixs q \<longrightarrow> p = q"
  proof (intro allI impI)
    fix p q assume "p < 2 ^ l" "q < 2 ^ l" "?ixs p \<noteq> REDUCE_TABLE_EMPTY_ENTRY" "?ixs p = ?ixs q"
    with inj other [of p] other [of q] show "p = q" by (metis fun_upd_apply)
  qed
  moreover have "\<forall>j<Suc n. reached l ?ixs ((hash_of(n := hash)) j) j"
    using reach keep \<open>reached l ?ixs hash n\<close> by (simp add: less_Suc_eq)
  ultimately show ?thesis
    using l n unfolding index_ok_def by blast
qed

lemma index_ok_empty: "l \<le> 62 \<Longrightarrow> index_ok l (\<lambda>_. REDUCE_TABLE_EMPTY_ENTRY) 0 hash_of"
  by (simp add: index_ok_def)

definition table_index_ok :: "reduce_table \<Rightarrow> bool" where
  "table_index_ok t \<longleftrightarrow> index_ok (rt_log_size t) (rt_index t) (rt_used t) (\<lambda>j. re_hash (rt_entries t j))"

lemma append_entry_run:
  assumes ok: "table_index_ok t" and n: "Suc (rt_used t) < REDUCE_TABLE_SIZE t"
  obtains ixs where "append_entry e t =
      Some (t\<lparr>rt_used := Suc (rt_used t), rt_index := ixs, rt_entries := (rt_entries t)(rt_used t := e)\<rparr>)"
    and "table_index_ok (t\<lparr>rt_used := Suc (rt_used t), rt_index := ixs, rt_entries := (rt_entries t)(rt_used t := e)\<rparr>)"
proof -
  let ?l = "rt_log_size t" and ?h = "re_hash e"
  have l: "?l \<le> 62" using ok by (simp add: table_index_ok_def index_ok_def)
  from empty_slot_exists [OF ok [unfolded table_index_ok_def], of ?h] obtain k where
    k: "k < 2 ^ ?l" "rt_index t (probe ?l ?h k) = REDUCE_TABLE_EMPTY_ENTRY"
    "\<forall>i<k. rt_index t (probe ?l ?h i) \<noteq> REDUCE_TABLE_EMPTY_ENTRY" .
  from empty_slot_run [OF l k(2,3) le0 unat_mask_probe(1) [OF l]] obtain ix where
    ix: "empty_slot (rt_index t) (push_bit ?l 1 - 1) (?h AND (push_bit ?l 1 - 1)) = Some ix" "unat ix = probe ?l ?h k"
    by blast
  have hashes: "(\<lambda>j. re_hash (if j = rt_used t then e else rt_entries t j)) = (\<lambda>j. re_hash (rt_entries t j))(rt_used t := ?h)" by auto
  have "append_entry e t =
      Some (t\<lparr>rt_used := Suc (rt_used t), rt_index := (rt_index t)(probe ?l ?h k := of_nat (rt_used t)),
        rt_entries := (rt_entries t)(rt_used t := e)\<rparr>)"
    using ix n by (simp add: append_entry_def REDUCE_TABLE_MASK_def reduce_table_hash_to_index_def)
  moreover have "table_index_ok (t\<lparr>rt_used := Suc (rt_used t), rt_index := (rt_index t)(probe ?l ?h k := of_nat (rt_used t)),
        rt_entries := (rt_entries t)(rt_used t := e)\<rparr>)"
    using index_ok_append [OF ok [unfolded table_index_ok_def] k] n
    by (simp add: table_index_ok_def hashes REDUCE_TABLE_SIZE_def)
  ultimately show thesis by (rule that)
qed

subsection \<open>Rehashing\<close>

lemma rehash_from_run:
  assumes "table_index_ok new" and "rt_used new = i" and "i \<le> rt_used old"
    and "\<forall>j<i. rt_entries new j = rt_entries old j" and "rt_used old < REDUCE_TABLE_SIZE new"
  shows "\<exists>new'. rehash_from old i new = Some new' \<and> table_index_ok new' \<and> rt_used new' = rt_used old \<and>
    rt_log_size new' = rt_log_size new \<and> (\<forall>j<rt_used old. rt_entries new' j = rt_entries old j)"
  using assms
proof (induction "rt_used old - i" arbitrary: i new)
  case 0
  then show ?case by (subst rehash_from.simps) simp
next
  case (Suc d)
  then have i: "i < rt_used old" by simp
  with Suc.prems have "Suc (rt_used new) < REDUCE_TABLE_SIZE new \<or> Suc (rt_used new) = rt_used old" by linarith
  with Suc.prems i have n: "Suc (rt_used new) < REDUCE_TABLE_SIZE new" by linarith
  let ?with = "\<lambda>ixs. new\<lparr>rt_used := Suc (rt_used new), rt_index := ixs,
      rt_entries := (rt_entries new)(rt_used new := rt_entries old i)\<rparr>"
  from append_entry_run [OF Suc.prems(1) n, of "rt_entries old i"] obtain ixs where
    new: "append_entry (rt_entries old i) new = Some (?with ixs)" "table_index_ok (?with ixs)" .
  let ?new = "?with ixs"
  have "\<exists>new'. rehash_from old (Suc i) ?new = Some new' \<and> table_index_ok new' \<and> rt_used new' = rt_used old \<and>
      rt_log_size new' = rt_log_size ?new \<and> (\<forall>j<rt_used old. rt_entries new' j = rt_entries old j)"
    using Suc.hyps(2) Suc.prems i
    by (intro Suc.hyps(1) new(2)) (auto simp: less_Suc_eq REDUCE_TABLE_SIZE_def)
  then show ?case using i new(1) by (subst rehash_from.simps) simp
qed

subsection \<open>The table as a map\<close>

definition rt_map :: "pyenv \<Rightarrow> reduce_table \<Rightarrow> pyobj \<Rightarrow> (pyobj \<times> pyobj) option" where
  "rt_map py t key =
     (case find (\<lambda>j. same_key py (re_key (rt_entries t j)) key) [0..<rt_used t] of
        None \<Rightarrow> None
      | Some j \<Rightarrow> Some (re_expected (rt_entries t j), re_desired (rt_entries t j)))"

definition rt_ok :: "pyenv \<Rightarrow> reduce_table \<Rightarrow> bool" where
  "rt_ok py t \<longleftrightarrow>
     7 \<le> rt_log_size t \<and> table_index_ok t \<and> rt_used t \<le> REDUCE_TABLE_SIZE t * 2 div 3 + 1 \<and>
     (REDUCE_TABLE_SIZE t \<le> 128 \<or> REDUCE_TABLE_SIZE t \<le> 3 * rt_used t) \<and>
     (\<forall>j<rt_used t. re_hash (rt_entries t j) = PyObject_Hash py (re_key (rt_entries t j))) \<and>
     (\<forall>i<rt_used t. \<forall>j<rt_used t. same_key py (re_key (rt_entries t i)) (re_key (rt_entries t j)) \<longrightarrow> i = j)"

lemma rt_okD:
  assumes "rt_ok py t"
  shows "7 \<le> rt_log_size t" and "table_index_ok t" and "rt_used t \<le> REDUCE_TABLE_SIZE t * 2 div 3 + 1"
    and "REDUCE_TABLE_SIZE t \<le> 128 \<or> REDUCE_TABLE_SIZE t \<le> 3 * rt_used t"
    and "\<And>j. j < rt_used t \<Longrightarrow> re_hash (rt_entries t j) = PyObject_Hash py (re_key (rt_entries t j))"
    and "\<And>i j. i < rt_used t \<Longrightarrow> j < rt_used t \<Longrightarrow>
      same_key py (re_key (rt_entries t i)) (re_key (rt_entries t j)) \<Longrightarrow> i = j"
    and "128 \<le> REDUCE_TABLE_SIZE t" and "rt_log_size t \<le> 62"
proof -
  show "7 \<le> rt_log_size t" using assms by (simp add: rt_ok_def)
  then have "(2 :: nat) ^ 7 \<le> 2 ^ rt_log_size t" by (intro power_increasing) simp_all
  then show "128 \<le> REDUCE_TABLE_SIZE t" by (simp add: REDUCE_TABLE_SIZE_def)
qed (use assms in \<open>auto simp: rt_ok_def table_index_ok_def index_ok_def\<close>)

lemma rt_map_eqI:
  assumes "j < rt_used t" and "same_key py (re_key (rt_entries t j)) key"
    and "\<And>i. i < rt_used t \<Longrightarrow> same_key py (re_key (rt_entries t i)) key \<Longrightarrow> i = j"
  shows "rt_map py t key = Some (re_expected (rt_entries t j), re_desired (rt_entries t j))"
proof (cases "find (\<lambda>j. same_key py (re_key (rt_entries t j)) key) [0..<rt_used t]")
  case None
  with assms(1,2) show ?thesis by (auto simp: find_None_iff)
next
  case (Some i)
  then have "i < rt_used t" "same_key py (re_key (rt_entries t i)) key" by (auto simp: find_Some_iff)
  with assms(3) have "i = j" by blast
  with Some show ?thesis by (simp add: rt_map_def)
qed

lemma rt_map_same:
  assumes "find (\<lambda>j. same_key py (re_key (rt_entries t' j)) key) [0..<rt_used t'] =
      find (\<lambda>j. same_key py (re_key (rt_entries t j)) key) [0..<rt_used t]"
    and "\<And>j. j < rt_used t \<Longrightarrow> rt_entries t' j = rt_entries t j"
  shows "rt_map py t' key = rt_map py t key"
proof (cases "find (\<lambda>j. same_key py (re_key (rt_entries t j)) key) [0..<rt_used t]")
  case None
  with assms(1) show ?thesis by (simp add: rt_map_def)
next
  case (Some i)
  then have "i < rt_used t" by (auto simp: find_Some_iff)
  with assms Some show ?thesis by (simp add: rt_map_def)
qed

lemma rt_map_None:
  "rt_map py t key = None \<longleftrightarrow> (\<forall>j<rt_used t. \<not> same_key py (re_key (rt_entries t j)) key)"
  by (auto simp: rt_map_def find_None_iff find_Some_iff split: option.splits)

lemma rt_map_Some:
  assumes ok: "rt_ok py t" and wb: "well_behaved_keys py"
    and j: "j < rt_used t" "same_key py (re_key (rt_entries t j)) key"
  shows "rt_map py t key = Some (re_expected (rt_entries t j), re_desired (rt_entries t j))"
proof (rule rt_map_eqI [OF j])
  fix i assume i: "i < rt_used t" "same_key py (re_key (rt_entries t i)) key"
  with j(2) have "same_key py (re_key (rt_entries t i)) (re_key (rt_entries t j))"
    using same_key_trans [OF wb] same_key_sym [OF wb] by blast
  with rt_okD(6) [OF ok i(1) j(1)] show "i = j" .
qed

subsection \<open>The search\<close>

text \<open>A search that passes \<open>k\<close> slots of other keys ends in the slot after them.\<close>

lemma lookup_slot_run:
  assumes l: "rt_log_size t \<le> 62" and wb: "well_behaved_keys py"
    and k: "k < 2 ^ rt_log_size t" and start: "unat start_ix = probe (rt_log_size t) hash 0"
    and path: "\<forall>i<k. rt_index t (probe (rt_log_size t) hash i) \<noteq> REDUCE_TABLE_EMPTY_ENTRY \<and>
      \<not> same_key py (re_key (rt_entries t (unat (rt_index t (probe (rt_log_size t) hash i))))) key"
    and j: "j \<le> k" "unat ix = probe (rt_log_size t) hash j"
  shows "\<exists>ix'. lookup_slot py t key hash start_ix ix = lookup_slot py t key hash start_ix ix' \<and>
    unat ix' = probe (rt_log_size t) hash k"
  using j
proof (induction "k - j" arbitrary: j ix)
  case 0
  then show ?case by auto
next
  case (Suc d)
  then have "j < k" by simp
  let ?next = "(ix + 1) AND REDUCE_TABLE_MASK t"
  have nx: "unat ?next = probe (rt_log_size t) hash (Suc j)"
    using unat_mask_probe(2) [OF l, of ix] Suc.prems(2) probe_Suc by (simp add: REDUCE_TABLE_MASK_def)
  have "?next \<noteq> start_ix"
  proof
    assume "?next = start_ix"
    with nx start have "(unat hash + Suc j) mod 2 ^ rt_log_size t = (unat hash + 0) mod 2 ^ rt_log_size t"
      by (simp add: probe_def)
    from ring_inj [OF this] \<open>j < k\<close> k show False by simp
  qed
  then have "lookup_slot py t key hash start_ix ix = lookup_slot py t key hash start_ix ?next"
    using path \<open>j < k\<close> Suc.prems(2) same_key_refl [OF wb] compare_cases [OF wb]
    by (subst lookup_slot.simps) (auto simp: Let_def)
  with Suc.hyps(1) [OF _ _ nx] Suc.hyps(2) \<open>j < k\<close> show ?case by simp
qed

lemma reduce_table_lookup_run:
  assumes ok: "rt_ok py t" and wb: "well_behaved_keys py" and hash: "hash = PyObject_Hash py key"
  shows "(\<exists>j<rt_used t. reduce_table_lookup py t key hash = Some (Some j, False) \<and>
        same_key py (re_key (rt_entries t j)) key) \<or>
    reduce_table_lookup py t key hash = Some (None, False) \<and>
      (\<forall>j<rt_used t. \<not> same_key py (re_key (rt_entries t j)) key)"
proof -
  let ?l = "rt_log_size t" and ?ix = "reduce_table_hash_to_index hash t"
  let ?at = "\<lambda>k. rt_index t (probe ?l hash k)"
  let ?match = "\<lambda>k. same_key py (re_key (rt_entries t (unat (?at k)))) key"
  note l = rt_okD(8) [OF ok]
  note ixok = rt_okD(2) [OF ok, unfolded table_index_ok_def]
  have start: "unat ?ix = probe ?l hash 0"
    unfolding reduce_table_hash_to_index_def REDUCE_TABLE_MASK_def by (rule unat_mask_probe(1) [OF l])
  from empty_slot_exists [OF ixok, of hash] obtain e where e: "e < 2 ^ ?l" "?at e = REDUCE_TABLE_EMPTY_ENTRY" .
  define k where "k = (LEAST k. ?at k = REDUCE_TABLE_EMPTY_ENTRY \<or> ?match k)"
  have stop: "?at k = REDUCE_TABLE_EMPTY_ENTRY \<or> ?match k" unfolding k_def by (rule LeastI [of _ e]) (simp add: e)
  have "k \<le> e" unfolding k_def by (rule Least_le) (simp add: e)
  with e have k: "k < 2 ^ ?l" by simp
  have path: "\<forall>i<k. ?at i \<noteq> REDUCE_TABLE_EMPTY_ENTRY \<and> \<not> ?match i"
    unfolding k_def using not_less_Least by blast
  from lookup_slot_run [OF l wb k start path le0 start] obtain ix where
    run: "reduce_table_lookup py t key hash = lookup_slot py t key hash ?ix ix" "unat ix = probe ?l hash k"
    unfolding reduce_table_lookup_def Let_def by blast
  show ?thesis
  proof (cases "?at k = REDUCE_TABLE_EMPTY_ENTRY")
    case True
    have "\<not> same_key py (re_key (rt_entries t j)) key" if j: "j < rt_used t" for j
    proof
      assume same: "same_key py (re_key (rt_entries t j)) key"
      then have h: "re_hash (rt_entries t j) = hash"
        using rt_okD(5) [OF ok j] same_key_hash [OF wb] hash by simp
      from ixok j have "reached ?l (rt_index t) (re_hash (rt_entries t j)) j" by (simp add: index_ok_def)
      then obtain i where i: "?at i = of_nat j" "\<forall>q<i. ?at q \<noteq> REDUCE_TABLE_EMPTY_ENTRY"
        unfolding h by (auto simp: reached_def)
      from l have "(2 :: nat) ^ ?l \<le> 2 ^ 62" by (intro power_increasing) simp_all
      with ixok j have "j < 2 ^ 62" unfolding index_ok_def by linarith
      note pos = unat_position_not_empty [OF this]
      from i(1) pos True have "i \<noteq> k" by auto
      moreover from i(2) True have "\<not> k < i" by blast
      ultimately have "i < k" by simp
      with path i(1) pos(2) same show False by auto
    qed
    with run True show ?thesis by (subst (asm) lookup_slot.simps) simp
  next
    case False
    with stop have m: "?match k" by blast
    from ixok False have j: "unat (?at k) < rt_used t" by (simp add: index_ok_def)
    then have "re_hash (rt_entries t (unat (?at k))) = hash"
      using rt_okD(5) [OF ok] m same_key_hash [OF wb] hash by simp
    then have "lookup_slot py t key hash ?ix ix = Some (Some (unat (?at k)), False)"
      using False m run(2) compare_cases [OF wb] by (subst lookup_slot.simps) (simp add: Let_def)
    with run(1) m j show ?thesis by auto
  qed
qed

subsection \<open>The operations\<close>

lemma reduce_table_new_ok:
  "\<exists>t. reduce_table_new REDUCE_TABLE_INITIAL_LOG_SIZE [] = (Inr t, []) \<and> rt_ok py t \<and>
     rt_map py t = Map.empty \<and> rt_used t = 0"
proof -
  let ?t = "\<lparr>rt_log_size = 7, rt_used = 0, rt_index = (\<lambda>_. REDUCE_TABLE_EMPTY_ENTRY), rt_entries = (\<lambda>_. blank_entry)\<rparr>"
  have "reduce_table_new REDUCE_TABLE_INITIAL_LOG_SIZE [] = (Inr ?t, [])"
    by (simp add: reduce_table_new_def REDUCE_TABLE_INITIAL_LOG_SIZE_def REDUCE_TABLE_MIN_LOG_SIZE_def)
  moreover have "rt_ok py ?t" by (simp add: rt_ok_def table_index_ok_def index_ok_empty REDUCE_TABLE_SIZE_def)
  moreover have "rt_map py ?t = Map.empty" by (simp add: rt_map_def fun_eq_iff)
  ultimately show ?thesis by simp
qed

lemma reduce_table_resize_ok:
  assumes ok: "rt_ok py t" and full: "REDUCE_TABLE_SIZE t * 2 div 3 < rt_used t" and small: "rt_used t < 2 ^ 60"
  obtains t' where "reduce_table_resize t [] = Some (Inr t', [])" and "rt_ok py t'" and "rt_map py t' = rt_map py t"
    and "rt_used t' = rt_used t" and "rt_used t' \<le> REDUCE_TABLE_SIZE t' * 2 div 3"
proof -
  let ?new = "\<lparr>rt_log_size = rt_log_size t + 1, rt_used = 0, rt_index = (\<lambda>_. REDUCE_TABLE_EMPTY_ENTRY),
      rt_entries = (\<lambda>_. blank_entry)\<rparr>"
  note s = rt_okD [OF ok]
  have "REDUCE_TABLE_SIZE t * 2 < rt_used t * 3" using full by linarith
  with small have "(2 :: nat) ^ rt_log_size t < 2 ^ 61" by (simp add: REDUCE_TABLE_SIZE_def)
  then have l: "rt_log_size t \<le> 60" by (simp only: power_strict_increasing_iff)
  have size: "REDUCE_TABLE_SIZE ?new = 2 * REDUCE_TABLE_SIZE t" by (simp add: REDUCE_TABLE_SIZE_def)
  have new: "table_index_ok ?new" using l by (simp add: table_index_ok_def index_ok_empty)
  have room: "rt_used t < REDUCE_TABLE_SIZE ?new" using s(3,7) size by linarith
  from rehash_from_run [OF new, of 0 t] room obtain t' where
    t': "rehash_from t 0 ?new = Some t'" "table_index_ok t'" "rt_used t' = rt_used t"
    "rt_log_size t' = rt_log_size t + 1" "\<forall>j<rt_used t. rt_entries t' j = rt_entries t j" by auto
  have size': "REDUCE_TABLE_SIZE t' = 2 * REDUCE_TABLE_SIZE t" using t'(4) by (simp add: REDUCE_TABLE_SIZE_def)
  show thesis
  proof (rule that)
    show "reduce_table_resize t [] = Some (Inr t', [])" using t'(1) by (simp add: reduce_table_resize_def)
    show "rt_used t' \<le> REDUCE_TABLE_SIZE t' * 2 div 3" using s(3,7) by (simp add: size' t'(3))
    show "rt_map py t' = rt_map py t"
    proof
      fix key
      have "find (\<lambda>j. same_key py (re_key (rt_entries t' j)) key) [0..<rt_used t] =
          find (\<lambda>j. same_key py (re_key (rt_entries t j)) key) [0..<rt_used t]"
        using t'(5) by (intro find_cong) auto
      then show "rt_map py t' key = rt_map py t key"
        using t'(5) by (intro rt_map_same) (simp_all add: t'(3))
    qed
    show "rt_ok py t'"
      using s(1,5,6) t'(5) \<open>rt_used t' \<le> REDUCE_TABLE_SIZE t' * 2 div 3\<close> \<open>REDUCE_TABLE_SIZE t * 2 < rt_used t * 3\<close>
      by (simp add: rt_ok_def t'(2-4) size')
  qed (rule t'(3))
qed

lemma rt_map_update:
  assumes ok: "rt_ok py t" and wb: "well_behaved_keys py"
    and j: "j < rt_used t" "same_key py (re_key (rt_entries t j)) key"
    and t': "t' = t\<lparr>rt_entries := (rt_entries t)(j := (rt_entries t j)\<lparr>re_expected := expected, re_desired := desired\<rparr>)\<rparr>"
  shows "rt_ok py t'" and "rt_map py t' k = (if same_key py key k then Some (expected, desired) else rt_map py t k)"
proof -
  have same: "rt_used t' = rt_used t" "rt_log_size t' = rt_log_size t" "rt_index t' = rt_index t"
    "re_key (rt_entries t' i) = re_key (rt_entries t i)" "re_hash (rt_entries t' i) = re_hash (rt_entries t i)"
    "REDUCE_TABLE_SIZE t' = REDUCE_TABLE_SIZE t" for i
    by (simp_all add: t' REDUCE_TABLE_SIZE_def)
  show "rt_ok py t'" using ok by (simp add: rt_ok_def table_index_ok_def same)
  show "rt_map py t' k = (if same_key py key k then Some (expected, desired) else rt_map py t k)"
  proof (cases "same_key py key k")
    case True
    with j(2) have "same_key py (re_key (rt_entries t' j)) k" using same_key_trans [OF wb] by (auto simp: same)
    from rt_map_Some [OF \<open>rt_ok py t'\<close> wb _ this] j(1) True show ?thesis by (simp add: t')
  next
    case False
    have "\<not> same_key py (re_key (rt_entries t j)) k"
      using False j(2) same_key_trans [OF wb] same_key_sym [OF wb] by blast
    then have "i \<noteq> j" if "find (\<lambda>i. same_key py (re_key (rt_entries t i)) k) [0..<rt_used t] = Some i" for i
      using that by (auto simp: find_Some_iff)
    then show ?thesis using False
      unfolding rt_map_def same(1,4) by (auto simp: t' split: option.split)
  qed
qed

lemma rt_map_append:
  assumes ok: "rt_ok py t" and wb: "well_behaved_keys py" and used: "rt_used t \<le> REDUCE_TABLE_SIZE t * 2 div 3"
    and absent: "\<forall>j<rt_used t. \<not> same_key py (re_key (rt_entries t j)) key"
    and e: "e = \<lparr>re_hash = PyObject_Hash py key, re_key = key, re_expected = expected, re_desired = desired\<rparr>"
  obtains t' where "append_entry e t = Some t'" and "rt_ok py t'" and "rt_used t' = Suc (rt_used t)"
    and "\<And>k. rt_map py t' k = (if same_key py key k then Some (expected, desired) else rt_map py t k)"
proof -
  note s = rt_okD [OF ok]
  have n: "Suc (rt_used t) < REDUCE_TABLE_SIZE t" using used s(7) by linarith
  let ?with = "\<lambda>ixs. t\<lparr>rt_used := Suc (rt_used t), rt_index := ixs, rt_entries := (rt_entries t)(rt_used t := e)\<rparr>"
  from append_entry_run [OF s(2) n, of e] obtain ixs where
    app: "append_entry e t = Some (?with ixs)" "table_index_ok (?with ixs)" .
  let ?t = "?with ixs"
  have same: "rt_used ?t = Suc (rt_used t)" "REDUCE_TABLE_SIZE ?t = REDUCE_TABLE_SIZE t"
    "rt_log_size ?t = rt_log_size t" by (simp_all add: REDUCE_TABLE_SIZE_def)
  have "same_key py key (re_key (rt_entries t j)) = same_key py (re_key (rt_entries t j)) key" for j
    using same_key_sym [OF wb] by blast
  with absent have t': "rt_ok py ?t"
    using s(1,4-6) used app(2) unfolding rt_ok_def same by (auto simp: e less_Suc_eq)
  moreover have "rt_map py ?t k = (if same_key py key k then Some (expected, desired) else rt_map py t k)" for k
  proof (cases "same_key py key k")
    case True
    then show ?thesis using rt_map_Some [OF t' wb, of "rt_used t" k] by (simp add: e)
  next
    case False
    let ?P = "\<lambda>j. same_key py (re_key (rt_entries ?t j)) k"
    have "find P (xs @ [x]) = find P xs" if "\<not> P x" for P and x :: nat and xs
      using that by (induction xs) simp_all
    from this [of ?P "rt_used t" "[0..<rt_used t]"] False
    have "find ?P [0..<rt_used ?t] = find ?P [0..<rt_used t]" by (simp add: e)
    also have "\<dots> = find (\<lambda>j. same_key py (re_key (rt_entries t j)) k) [0..<rt_used t]"
      by (intro find_cong) auto
    finally have "rt_map py ?t k = rt_map py t k" by (rule rt_map_same) simp
    with False show ?thesis by simp
  qed
  ultimately show thesis using app(1) same(1) by (intro that) auto
qed

lemma reduce_table_set_ok:
  assumes ok: "rt_ok py t" and wb: "well_behaved_keys py" and small: "rt_used t < 2 ^ 60"
  obtains t' where "reduce_table_set py t key (PyObject_Hash py key) expected desired [] = Some (Inr (t', False), [])"
    and "rt_ok py t'" and "rt_used t' \<le> Suc (rt_used t)"
    and "\<And>k. rt_map py t' k = (if same_key py key k then Some (expected, desired) else rt_map py t k)"
proof -
  obtain t1 where t1: "(if rt_used t > REDUCE_TABLE_SIZE t * 2 div 3 then reduce_table_resize t [] else Some (Inr t, [])) =
      Some (Inr t1, [])" "rt_ok py t1" "rt_map py t1 = rt_map py t" "rt_used t1 = rt_used t"
    "rt_used t1 \<le> REDUCE_TABLE_SIZE t1 * 2 div 3"
  proof (cases "rt_used t > REDUCE_TABLE_SIZE t * 2 div 3")
    case True
    show thesis
    proof (rule reduce_table_resize_ok [OF ok True small])
      fix t'
      assume "reduce_table_resize t [] = Some (Inr t', [])" "rt_ok py t'" "rt_map py t' = rt_map py t"
        "rt_used t' = rt_used t" "rt_used t' \<le> REDUCE_TABLE_SIZE t' * 2 div 3"
      with True show thesis by (intro that [of t']) simp_all
    qed
  next
    case False
    show thesis by (rule that [of t]) (use ok False in simp_all)
  qed
  let ?h = "PyObject_Hash py key"
  from reduce_table_lookup_run [OF t1(2) wb refl, of key] show thesis
  proof (elim disjE exE conjE)
    fix j assume j: "j < rt_used t1" "reduce_table_lookup py t1 key ?h = Some (Some j, False)"
      "same_key py (re_key (rt_entries t1 j)) key"
    note up = rt_map_update [OF t1(2) wb j(1,3) refl, where expected = expected and desired = desired]
    show thesis
      by (rule that [OF _ up(1)]) (simp_all add: reduce_table_set_def t1(1,3,4) j(2) up(2) del: if_split)
  next
    assume none: "reduce_table_lookup py t1 key ?h = Some (None, False)"
      "\<forall>j<rt_used t1. \<not> same_key py (re_key (rt_entries t1 j)) key"
    show thesis
    proof (rule rt_map_append [OF t1(2) wb t1(5) none(2) refl, where expected = expected and desired = desired])
      fix t'
      assume t': "append_entry \<lparr>re_hash = ?h, re_key = key, re_expected = expected, re_desired = desired\<rparr> t1 = Some t'"
        "rt_ok py t'" "rt_used t' = Suc (rt_used t1)"
        "\<And>k. rt_map py t' k = (if same_key py key k then Some (expected, desired) else rt_map py t1 k)"
      show thesis
        by (rule that [OF _ t'(2)]) (simp_all add: reduce_table_set_def t1(1,3,4) none(1) t'(1,3,4) del: if_split)
    qed
  qed
qed

lemma reduce_table_get_ok:
  assumes ok: "rt_ok py t" and wb: "well_behaved_keys py"
  shows "reduce_table_get py t key (PyObject_Hash py key) False = Some (Inr (rt_map py t key))"
  using reduce_table_lookup_run [OF ok wb refl, of key]
proof (elim disjE exE conjE)
  fix j assume "j < rt_used t" "reduce_table_lookup py t key (PyObject_Hash py key) = Some (Some j, False)"
    "same_key py (re_key (rt_entries t j)) key"
  with rt_map_Some [OF ok wb this(1,3)] show ?thesis by (simp add: reduce_table_get_def)
next
  assume "reduce_table_lookup py t key (PyObject_Hash py key) = Some (None, False)"
    "\<forall>j<rt_used t. \<not> same_key py (re_key (rt_entries t j)) key"
  moreover from this(2) have "rt_map py t key = None" by (simp add: rt_map_None)
  ultimately show ?thesis by (simp add: reduce_table_get_def)
qed

subsection \<open>The keys of the table\<close>

definition rt_keys :: "reduce_table \<Rightarrow> pyobj set" where
  "rt_keys t = (\<lambda>j. re_key (rt_entries t j)) ` {..<rt_used t}"

lemma rt_keys_empty: "rt_used t = 0 \<Longrightarrow> rt_keys t = {}"
  by (simp add: rt_keys_def)

lemma append_entry_keys: "append_entry e t = Some t' \<Longrightarrow> rt_keys t' \<subseteq> insert (re_key e) (rt_keys t)"
  by (auto simp: append_entry_def rt_keys_def less_Suc_eq split: option.splits if_splits)

lemma rehash_from_keys: "rehash_from old i new = Some new' \<Longrightarrow> rt_keys new' \<subseteq> rt_keys new \<union> rt_keys old"
proof (induction old i new rule: rehash_from.induct)
  case (1 old i new)
  show ?case
  proof (cases "i < rt_used old")
    case True
    with "1.prems" obtain new1 where new1: "append_entry (rt_entries old i) new = Some new1" "rehash_from old (i + 1) new1 = Some new'"
      by (subst (asm) rehash_from.simps) (auto split: option.splits)
    from True have "re_key (rt_entries old i) \<in> rt_keys old" by (auto simp: rt_keys_def)
    with "1.IH" [OF True new1(1,2)] append_entry_keys [OF new1(1)] show ?thesis by blast
  next
    case False
    with "1.prems" show ?thesis by (subst (asm) rehash_from.simps) auto
  qed
qed

lemma reduce_table_resize_keys: "reduce_table_resize t mem = Some (Inr t', mem') \<Longrightarrow> rt_keys t' \<subseteq> rt_keys t"
  by (auto simp: reduce_table_resize_def rt_keys_empty dest!: rehash_from_keys dest: subsetD split: prod.splits bool.splits)

lemma reduce_table_set_keys:
  assumes "reduce_table_set py t key hash expected desired mem = Some (Inr (t', err), mem')"
  shows "rt_keys t' \<subseteq> insert key (rt_keys t)"
proof -
  from assms obtain t1 mem1 where
    t1: "(if rt_used t > REDUCE_TABLE_SIZE t * 2 div 3 then reduce_table_resize t mem else Some (Inr t, mem)) = Some (Inr t1, mem1)"
    unfolding reduce_table_set_def by (auto split: option.splits sum.splits prod.splits)
  then have keys: "rt_keys t1 \<subseteq> rt_keys t" using reduce_table_resize_keys by (auto split: if_splits)
  from assms t1 obtain found err1 where look: "reduce_table_lookup py t1 key hash = Some (found, err1)"
    unfolding reduce_table_set_def by (auto split: option.splits)
  show ?thesis
  proof (cases found)
    case None
    with assms t1 look have "append_entry \<lparr>re_hash = hash, re_key = key, re_expected = expected, re_desired = desired\<rparr> t1 = Some t'"
      unfolding reduce_table_set_def by auto
    from append_entry_keys [OF this] keys show ?thesis by auto
  next
    case (Some j)
    with assms t1 look have "t' = t1\<lparr>rt_entries := (rt_entries t1)(j :=
        (rt_entries t1 j)\<lparr>re_expected := expected, re_desired := desired\<rparr>)\<rparr>"
      unfolding reduce_table_set_def by auto
    then have "rt_used t' = rt_used t1" "(\<lambda>j. re_key (rt_entries t' j)) = (\<lambda>j. re_key (rt_entries t1 j))" by auto
    then have "rt_keys t' = rt_keys t1" by (simp only: rt_keys_def)
    with keys show ?thesis by auto
  qed
qed

subsection \<open>Properties\<close>

text \<open>
  C22: The local table refines a map: on a table that satisfies its invariant and has room to count,
  \<open>reduce_table_set\<close> returns, stays inside the arrays, whether or not the table grows, keeps the
  invariant and updates the map of the table at the key; \<open>reduce_table_get\<close> then returns the new pair
  for every equal key and the old one for every other.
\<close>

theorem reduce_table_refines_a_map:
  assumes "rt_ok py t" and "well_behaved_keys py" and "rt_used t < 2 ^ 60"
  shows "(case reduce_table_set py t key (PyObject_Hash py key) expected desired [] of
            None \<Rightarrow> False
          | Some (Inl _, _) \<Rightarrow> False
          | Some (Inr (t', err), _) \<Rightarrow> \<not> err \<and> rt_ok py t' \<and> rt_used t' \<le> rt_used t + 1 \<and>
              reduce_table_get py t' k (PyObject_Hash py k) False =
                Some (Inr (if same_key py key k then Some (expected, desired) else rt_map py t k)))"
proof (rule reduce_table_set_ok [OF assms, of key expected desired])
  fix t' assume t': "reduce_table_set py t key (PyObject_Hash py key) expected desired [] = Some (Inr (t', False), [])"
    "rt_ok py t'" "rt_used t' \<le> Suc (rt_used t)"
    "\<And>k. rt_map py t' k = (if same_key py key k then Some (expected, desired) else rt_map py t k)"
  with reduce_table_get_ok [OF t'(2) assms(2), of k] show ?thesis by simp
qed

definition example_reduce_table :: reduce_table where
  "example_reduce_table = (case reduce_table_new REDUCE_TABLE_INITIAL_LOG_SIZE [] of (Inr t, _) \<Rightarrow> t)"

lemma example_reduce_table_ok: "rt_ok py example_reduce_table" "rt_map py example_reduce_table = Map.empty"
    "rt_used example_reduce_table = 0"
  using reduce_table_new_ok [of py] by (auto simp: example_reduce_table_def)

theorem reduce_table_refines_a_map_witness:
  "(case reduce_table_set example_env example_reduce_table (Obj 1) 5 NOT_FOUND (Obj 7) [] of
      None \<Rightarrow> False
    | Some (Inl _, _) \<Rightarrow> False
    | Some (Inr (t', err), _) \<Rightarrow>
        reduce_table_get example_env t' (Obj 1) 5 False = Some (Inr (Some (NOT_FOUND, Obj 7))))"
  using reduce_table_refines_a_map [OF example_reduce_table_ok(1) example_env_ok, where key = "Obj 1" and expected = NOT_FOUND and desired = "Obj 7" and k = "Obj 1"]
  by (simp add: example_reduce_table_ok(3) same_key_example split: option.splits sum.splits prod.splits)

end
