(* ===== verification/Reduce.thy ===== *)
theory Reduce
  imports Batch ReduceTable
begin

text \<open>
  The reductions of \<^verbatim>\<open>src/src/cereggii/atomic_dict/insert.c\<close>: \<open>AtomicDict_Reduce_impl\<close> aggregates
  the values of an iterable in a local table, key by key, and \<open>reduce_flush\<close> then joins every local
  result with the value that the dictionary has, with a loop of lookups and compare-and-set.

  An aggregate function returns an object or \<open>NULL\<close>, and may leave an exception set in either case;
  the exception that is pending while the reduction goes on is a flag.  While it flushes, other threads
  may run operations of their own: the schedule is the list of the sequences of operations that happen
  before each of the dictionary operations of the flush.  Reference counts are left out.
\<close>

subsection \<open>Flushing one key\<close>

type_synonym aggregate = "pyobj \<Rightarrow> pyobj \<Rightarrow> pyobj \<Rightarrow> pyobj option \<times> bool"
type_synonym schedule = "(nat \<times> command) list list"

fun interleave :: "pyenv \<Rightarrow> schedule \<Rightarrow> dict \<Rightarrow> (schedule \<times> dict) option" where
  "interleave py [] d = Some ([], d)"
| "interleave py (cs # fs) d =
     (case run_commands (exec_command py) cs d of None \<Rightarrow> None | Some (_, d) \<Rightarrow> Some (fs, d))"

text \<open>The exchange that is tried when the value is the expected one; \<open>None\<close> asks for another round.\<close>

definition flush_attempt ::
  "pyenv \<Rightarrow> nat \<Rightarrow> pyobj \<Rightarrow> pyobj \<Rightarrow> pyobj \<Rightarrow> pyobj \<Rightarrow> schedule \<Rightarrow> dict \<Rightarrow> (unit outcome option \<times> schedule \<times> dict) option" where
  "flush_attempt py tid key current expected desired fs d =
     (if current \<noteq> expected then Some (None, fs, d)
      else
        (case interleave py fs d of
           None \<Rightarrow> None
         | Some (fs, d) \<Rightarrow>
             (case AtomicDict_CompareAndSet py tid key expected desired d of
                None \<Rightarrow> None
              | Some (Inl e, d) \<Rightarrow> Some (Some (Inl e), fs, d)
              | Some (Inr previous, d) \<Rightarrow>
                  Some (if previous \<noteq> EXPECTATION_FAILED then Some (Inr ()) else None, fs, d))))"

partial_function (option) flush_loop ::
  "pyenv \<Rightarrow> nat \<Rightarrow> aggregate \<Rightarrow> pyobj \<Rightarrow> pyobj \<Rightarrow> pyobj \<Rightarrow> pyobj \<Rightarrow> bool \<Rightarrow> schedule \<Rightarrow> dict \<Rightarrow>
   (bool outcome \<times> schedule \<times> dict) option" where
  "flush_loop py tid f key new expected desired pending fs d =
     (case interleave py fs d of
        None \<Rightarrow> None
      | Some (fs, d) \<Rightarrow>
     (case AtomicDict_GetItemOrDefault py tid key (Some NOT_FOUND) [] d of
        None \<Rightarrow> None
      | Some (Inl e, d) \<Rightarrow> Some (Inl e, fs, d)
      | Some (Inr None, d) \<Rightarrow> Some (Inl SystemError, fs, d)
      | Some (Inr (Some current), d) \<Rightarrow>
     (case flush_attempt py tid key current expected desired fs d of
        None \<Rightarrow> None
      | Some (Some (Inl e), fs, d) \<Rightarrow> Some (Inl e, fs, d)
      | Some (Some (Inr _), fs, d) \<Rightarrow> Some (Inr pending, fs, d)
      | Some (None, fs, d) \<Rightarrow>
          (case f key current new of
             (None, err) \<Rightarrow> Some (Inl RaisedByObject, fs, d)
           | (Some new_desired, err) \<Rightarrow>
               flush_loop py tid f key new current new_desired (pending \<or> err) fs d))))"

definition flush_one ::
  "pyenv \<Rightarrow> nat \<Rightarrow> aggregate \<Rightarrow> pyobj \<Rightarrow> pyobj \<Rightarrow> pyobj \<Rightarrow> bool \<Rightarrow> schedule \<Rightarrow> dict \<Rightarrow>
   (bool outcome \<times> schedule \<times> dict) option" where
  "flush_one py tid f key expected new pending fs d = flush_loop py tid f key new expected new pending fs d"

subsection \<open>Flushing the table\<close>

fun flush_entries ::
  "pyenv \<Rightarrow> nat \<Rightarrow> aggregate \<Rightarrow> reduce_table \<Rightarrow> nat list \<Rightarrow> bool \<Rightarrow> schedule \<Rightarrow> dict \<Rightarrow>
   (bool outcome \<times> schedule \<times> dict) option" where
  "flush_entries py tid f t [] pending fs d = Some (Inr pending, fs, d)"
| "flush_entries py tid f t (j # js) pending fs d =
     (let e = rt_entries t j in
      case flush_one py tid f (re_key e) (re_expected e) (re_desired e) pending fs d of
        None \<Rightarrow> None
      | Some (Inl x, fs, d) \<Rightarrow> Some (Inl x, fs, d)
      | Some (Inr pending, fs, d) \<Rightarrow> flush_entries py tid f t js pending fs d)"

text \<open>The entries in their order, from one that depends on the thread.\<close>

definition flush_order :: "pyenv \<Rightarrow> nat \<Rightarrow> reduce_table \<Rightarrow> nat list" where
  "flush_order py tid t =
     (let start = unat (REHASH py (of_nat tid)) mod rt_used t in
      map (\<lambda>i. (start + i) mod rt_used t) [0..<rt_used t])"

definition reduce_flush ::
  "pyenv \<Rightarrow> nat \<Rightarrow> aggregate \<Rightarrow> reduce_table \<Rightarrow> bool \<Rightarrow> schedule \<Rightarrow> dict \<Rightarrow> (bool outcome \<times> schedule \<times> dict) option" where
  "reduce_flush py tid f t pending fs d =
     (if rt_used t = 0 then Some (Inr pending, fs, d)
      else flush_entries py tid f t (flush_order py tid t) pending fs d)"

subsection \<open>The local aggregation\<close>

datatype reduce_item = NotATuple | WrongLength | Pair pyobj pyobj

text \<open>An iterable: the items it yields, and whether it raises after them.\<close>

record reduce_iterable =
  ri_items :: "reduce_item list"
  ri_raises :: bool

fun reduce_items ::
  "pyenv \<Rightarrow> aggregate \<Rightarrow> reduce_table \<Rightarrow> bool \<Rightarrow> mem \<Rightarrow> reduce_item list \<Rightarrow> ((reduce_table \<times> bool) outcome \<times> mem) option"
where
  "reduce_items py f t pending mem [] = Some (Inr (t, pending), mem)"
| "reduce_items py f t pending mem (NotATuple # items) = Some (Inl TypeError, mem)"
| "reduce_items py f t pending mem (WrongLength # items) = Some (Inl TypeError, mem)"
| "reduce_items py f t pending mem (Pair key v # items) =
     (let hash = PyObject_Hash py key in
      if hash = -1 then Some (Inl RaisedByObject, mem)
      else
        (case reduce_table_get py t key hash pending of
           None \<Rightarrow> None
         | Some (Inl e) \<Rightarrow> Some (Inl e, mem)
         | Some (Inr found) \<Rightarrow>
             (let (expected, current) = (case found of None \<Rightarrow> (NOT_FOUND, NOT_FOUND) | Some pair \<Rightarrow> pair) in
              case f key current v of
                (None, err) \<Rightarrow> Some (Inl RaisedByObject, mem)
              | (Some desired, err) \<Rightarrow>
                  (case reduce_table_set py t key hash expected desired mem of
                     None \<Rightarrow> None
                   | Some (Inl e, mem) \<Rightarrow> Some (Inl e, mem)
                   | Some (Inr (t, err'), mem) \<Rightarrow> reduce_items py f t (pending \<or> err \<or> err') mem items))))"

datatype aggregate_arg = NotCallable | Callable aggregate | Specialized aggregate

text \<open>
  The result is whether an exception is still set when the reduction has succeeded.  An iterable that is
  not one is \<open>None\<close>.
\<close>

definition AtomicDict_Reduce_impl ::
  "pyenv \<Rightarrow> nat \<Rightarrow> reduce_iterable option \<Rightarrow> aggregate_arg \<Rightarrow> schedule \<Rightarrow> dict \<Rightarrow> (bool outcome \<times> schedule \<times> dict) option"
where
  "AtomicDict_Reduce_impl py tid iterable arg fs d =
     (let run = (\<lambda>f.
        case reduce_table_new REDUCE_TABLE_INITIAL_LOG_SIZE (allocations d) of
          (Inl e, mem) \<Rightarrow> Some (Inl e, fs, d\<lparr>allocations := mem\<rparr>)
        | (Inr t, mem) \<Rightarrow>
            (case iterable of
               None \<Rightarrow> Some (Inl TypeError, fs, d\<lparr>allocations := mem\<rparr>)
             | Some it \<Rightarrow>
                 (case reduce_items py f t False mem (ri_items it) of
                    None \<Rightarrow> None
                  | Some (Inl e, mem) \<Rightarrow> Some (Inl e, fs, d\<lparr>allocations := mem\<rparr>)
                  | Some (Inr (t, pending), mem) \<Rightarrow>
                      (let d = d\<lparr>allocations := mem\<rparr> in
                       if pending \<or> ri_raises it then Some (Inl RaisedByObject, fs, d)
                       else reduce_flush py tid f t False fs d)))) in
      case arg of
        NotCallable \<Rightarrow> Some (Inl TypeError, fs, d)
      | Callable f \<Rightarrow> run f
      | Specialized f \<Rightarrow> run f)"

end
