(* ===== verification/ReduceFlush.thy ===== *)
theory ReduceFlush
  imports Reduce
begin

text \<open>
  What a flush does to the map of the dictionary.  The laws of an aggregate function are a locale: on
  the values that it is made for, the function returns, keeps them among those values, treats equal keys
  alike and leaves a result as it is when it is aggregated into an absent key.  For such a function,
  flushing a key takes effect at one moment, whatever other threads do in between.
\<close>

subsection \<open>The laws of an aggregate function\<close>

definition agg_value :: "aggregate \<Rightarrow> pyobj \<Rightarrow> pyobj \<Rightarrow> pyobj \<Rightarrow> pyobj" where
  "agg_value f key current v = the (fst (f key current v))"

locale aggregation =
  fixes py :: pyenv and f :: aggregate and dom :: "pyobj \<Rightarrow> bool"
  assumes proper: "dom v \<Longrightarrow> \<not> is_sentinel v"
    and total: "c = NOT_FOUND \<or> dom c \<Longrightarrow> dom v \<Longrightarrow> f key c v = (Some (agg_value f key c v), False)"
    and closed: "c = NOT_FOUND \<or> dom c \<Longrightarrow> dom v \<Longrightarrow> dom (agg_value f key c v)"
    and respects: "same_key py key key' \<Longrightarrow> f key = f key'"
    and absorbs: "c = NOT_FOUND \<or> dom c \<Longrightarrow> dom v \<Longrightarrow>
      agg_value f key NOT_FOUND (agg_value f key c v) = agg_value f key c v"

text \<open>A function whose results do not depend on how the values are grouped.\<close>

locale grouping = aggregation +
  assumes first: "c = NOT_FOUND \<or> dom c \<Longrightarrow> dom v \<Longrightarrow>
      agg_value f key c (agg_value f key NOT_FOUND v) = agg_value f key c v"
    and assoc: "c = NOT_FOUND \<or> dom c \<Longrightarrow> dom a \<Longrightarrow> dom b \<Longrightarrow>
      agg_value f key c (agg_value f key a b) = agg_value f key (agg_value f key c a) b"

subsection \<open>Operations of other threads\<close>

definition after :: "pyenv \<Rightarrow> (nat \<times> command) list \<Rightarrow> pymap \<Rightarrow> pymap" where
  "after py cs M = snd (run_specs (spec_command py) cs M)"

lemma after_Nil [simp]: "after py [] M = M"
  by (simp add: after_def)

lemma after_append: "after py (cs @ ds) M = after py ds (after py cs M)"
proof (induction cs arbitrary: M)
  case (Cons c cs)
  then show ?case by (simp add: after_def split_beta)
qed simp

definition aggregate_at :: "pyenv \<Rightarrow> aggregate \<Rightarrow> pyobj \<Rightarrow> pyobj \<Rightarrow> pymap \<Rightarrow> pymap" where
  "aggregate_at py f key new M = map_put py key (Some (agg_value f key (looked_up M key) new)) M"

text \<open>The values of a map, and those that commands write.\<close>

definition values_in :: "(pyobj \<Rightarrow> bool) \<Rightarrow> pymap \<Rightarrow> bool" where
  "values_in P M \<longleftrightarrow> (\<forall>k v. M k = Some v \<longrightarrow> P v)"

fun command_writes :: "(pyobj \<Rightarrow> bool) \<Rightarrow> nat \<times> command \<Rightarrow> bool" where
  "command_writes P (tid, CompareAndSet key expected desired) \<longleftrightarrow> P desired"
| "command_writes P (tid, SetItem key v) \<longleftrightarrow> P v"
| "command_writes P _ \<longleftrightarrow> True"

definition schedule_writes :: "(pyobj \<Rightarrow> bool) \<Rightarrow> schedule \<Rightarrow> bool" where
  "schedule_writes P fs \<longleftrightarrow> (\<forall>cs\<in>set fs. \<forall>c\<in>set cs. command_writes P c)"

lemma values_in_put: "values_in P M \<Longrightarrow> (\<And>x. v = Some x \<Longrightarrow> P x) \<Longrightarrow> values_in P (map_put py key v M)"
  by (auto simp: values_in_def map_put_def split: if_splits)

lemma values_in_looked_up: "values_in P M \<Longrightarrow> looked_up M k = NOT_FOUND \<or> P (looked_up M k)"
  by (auto simp: values_in_def looked_up_def split: option.splits)

lemma values_in_command:
  assumes "values_in P M" and "command_writes P c"
  shows "values_in P (snd (spec_command py c M))"
  using assms
  by (cases "(P, c)" rule: command_writes.cases)
    (auto simp: get_spec_def get_default_spec_def set_spec_def compare_and_set_spec_def cas_spec_def del_spec_def
      hashable_def apfst_def map_prod_def intro!: values_in_put split: option.splits)

lemma values_in_after: "values_in P M \<Longrightarrow> \<forall>c\<in>set cs. command_writes P c \<Longrightarrow> values_in P (after py cs M)"
proof (induction cs arbitrary: M)
  case (Cons c cs)
  then show ?case using values_in_command [of P M c py] by (simp add: after_def split_beta)
qed simp

text \<open>The first step of a schedule.\<close>

definition cost :: "schedule \<Rightarrow> nat" where
  "cost fs = length (concat fs) + length fs"

lemma interleave_ok:
  assumes ok: "store_ok py (cost fs + n) d" and val: "values_in P (dict_map py d)" and w: "schedule_writes P fs"
  obtains d' where "interleave py fs d = Some (tl fs, d')" and "store_ok py (cost (tl fs) + (if fs = [] then n else Suc n)) d'"
    and "dict_map py d' = after py (concat (take 1 fs)) (dict_map py d)"
    and "values_in P (dict_map py d')" and "schedule_writes P (tl fs)"
proof (cases fs)
  case Nil
  with ok val w that [of d] show thesis by simp
next
  case (Cons cs gs)
  then have "store_ok py (length cs + (cost gs + Suc n)) d" using ok by (simp add: cost_def algebra_simps)
  from dict_store.run_simulates [OF this] obtain rs d' where
    d': "run_commands (exec_command py) cs d = Some (rs, d')" "store_ok py (cost gs + Suc n) d'"
    "(rs, dict_map py d') = run_specs (spec_command py) cs (dict_map py d)" by blast
  from d'(3) [symmetric] have m: "dict_map py d' = after py cs (dict_map py d)" by (simp add: after_def)
  moreover have "values_in P (dict_map py d')" using values_in_after [OF val] w Cons m by (simp add: schedule_writes_def)
  ultimately show thesis using d'(1,2) w Cons by (intro that [of d']) (simp_all add: schedule_writes_def)
qed

subsection \<open>The exchange\<close>

lemma get_current:
  assumes ok: "store_ok py n d" and hash: "PyObject_Hash py key \<noteq> -1"
  obtains d' where "AtomicDict_GetItemOrDefault py tid key (Some NOT_FOUND) [] d =
      Some (Inr (Some (looked_up (dict_map py d) key)), d')"
    and "store_ok py n d'" and "dict_map py d' = dict_map py d"
proof -
  from ok have "dict_ok py (2 * n) d" "well_behaved_keys py" by (simp_all add: store_ok_def)
  from agrees_default [OF this, of tid key "Some NOT_FOUND" "[]"] obtain r d' where
    "AtomicDict_GetItemOrDefault py tid key (Some NOT_FOUND) [] d = Some (r, d')" "dict_ok py (2 * n) d'"
    "(r, dict_map py d') = (Inr (case dict_map py d key of None \<Rightarrow> Some NOT_FOUND | Some v \<Rightarrow> Some v), dict_map py d)"
    using hash by (auto simp: agrees_def hashable_def)
  with ok show thesis by (intro that [of d']) (auto simp: store_ok_def looked_up_def split: option.splits)
qed

lemma exchange_ok:
  assumes ok: "store_ok py (Suc n) d" and hash: "PyObject_Hash py key \<noteq> -1"
    and key: "\<not> is_sentinel key" "\<not> is_sentinel desired" and expected: "expected = NOT_FOUND \<or> \<not> is_sentinel expected"
    and val: "values_in (\<lambda>v. \<not> is_sentinel v) (dict_map py d)"
  obtains previous d' where "AtomicDict_CompareAndSet py tid key expected desired d = Some (Inr previous, d')"
    and "store_ok py n d'"
    and "previous \<noteq> EXPECTATION_FAILED \<longleftrightarrow> looked_up (dict_map py d) key = expected"
    and "dict_map py d' = (if looked_up (dict_map py d) key = expected
      then map_put py key (Some desired) (dict_map py d) else dict_map py d)"
proof -
  from ok have "dict_ok py (2 * n + 2) d" "well_behaved_keys py" by (simp_all add: store_ok_def)
  from agrees_cas [OF this, of tid key expected desired] obtain r d' where
    r: "AtomicDict_CompareAndSet py tid key expected desired d = Some (r, d')" "dict_ok py (2 * n) d'"
    "(r, dict_map py d') = apfst Inr (cas_spec py key expected desired (dict_map py d))"
    using hash key expected by (auto simp: agrees_def compare_and_set_spec_def hashable_def is_sentinel_def)
  have nf: "v \<noteq> NOT_FOUND \<and> v \<noteq> EXPECTATION_FAILED" if "dict_map py d key = Some v" for v
    using val that by (auto simp: values_in_def is_sentinel_def)
  from expected have ex: "expected \<noteq> ANY" "expected \<noteq> EXPECTATION_FAILED" by (auto simp: is_sentinel_def)
  have s: "store_ok py n d'" using r(2) ok by (simp add: store_ok_def)
  show thesis
  proof (cases "dict_map py d key")
    case None
    with r ex show thesis
      by (intro that [OF _ s, of "fst (cas_spec py key expected desired (dict_map py d))"])
        (auto simp: cas_spec_def looked_up_def)
  next
    case (Some v)
    with r ex nf [OF Some] show thesis
      by (intro that [OF _ s, of "fst (cas_spec py key expected desired (dict_map py d))"])
        (auto simp: cas_spec_def looked_up_def)
  qed
qed

subsection \<open>The loop\<close>

context aggregation
begin

lemma values_proper: "values_in dom M \<Longrightarrow> values_in (\<lambda>v. \<not> is_sentinel v) M"
  by (auto simp: values_in_def proper)

text \<open>What the map is when the operations at the head of the schedule have run.\<close>

abbreviation "read_map fs d \<equiv> after py (concat (take 1 fs)) (dict_map py d)"

lemma store_ok_less: "store_ok py n d \<Longrightarrow> k \<le> n \<Longrightarrow> store_ok py k d"
  by (auto simp: store_ok_def intro: dict_ok_mono)

text \<open>A round reads the value and makes an attempt.\<close>

lemma flush_read:
  assumes ok: "store_ok py (cost fs + Suc n) d" and hash: "PyObject_Hash py key \<noteq> -1"
    and new: "dom new" and val: "values_in dom (dict_map py d)" and w: "schedule_writes dom fs"
  obtains d' where "flush_loop py tid f key new expected desired False fs d =
      (case flush_attempt py tid key (looked_up (read_map fs d) key) expected desired (tl fs) d' of
         None \<Rightarrow> None
       | Some (Some (Inl e), gs, d'') \<Rightarrow> Some (Inl e, gs, d'')
       | Some (Some (Inr _), gs, d'') \<Rightarrow> Some (Inr False, gs, d'')
       | Some (None, gs, d'') \<Rightarrow>
           flush_loop py tid f key new (looked_up (read_map fs d) key)
             (agg_value f key (looked_up (read_map fs d) key) new) False gs d'')"
    and "store_ok py (cost (tl fs) + (if fs = [] then Suc n else Suc (Suc n))) d'"
    and "dict_map py d' = read_map fs d" and "values_in dom (dict_map py d')" and "schedule_writes dom (tl fs)"
    and "looked_up (read_map fs d) key = NOT_FOUND \<or> dom (looked_up (read_map fs d) key)"
proof (rule interleave_ok [OF ok val w])
  fix d1
  assume d1: "interleave py fs d = Some (tl fs, d1)" "store_ok py (cost (tl fs) + (if fs = [] then Suc n else Suc (Suc n))) d1"
    "dict_map py d1 = read_map fs d" "values_in dom (dict_map py d1)" "schedule_writes dom (tl fs)"
  from get_current [OF d1(2) hash, of tid] obtain d2 where
    d2: "AtomicDict_GetItemOrDefault py tid key (Some NOT_FOUND) [] d1 = Some (Inr (Some (looked_up (read_map fs d) key)), d2)"
    "store_ok py (cost (tl fs) + (if fs = [] then Suc n else Suc (Suc n))) d2" "dict_map py d2 = read_map fs d"
    unfolding d1(3) .
  have c: "looked_up (read_map fs d) key = NOT_FOUND \<or> dom (looked_up (read_map fs d) key)"
    using d1(3,4) values_in_looked_up by metis
  show thesis
    by (rule that [OF _ d2(2,3) _ d1(5) c], subst flush_loop.simps)
      (use d1(1,3,4) d2(1,3) total [OF c new, of key] in \<open>simp_all cong: option.case_cong sum.case_cong prod.case_cong\<close>)
qed

lemma attempt_ok:
  assumes ok: "store_ok py (cost fs + Suc n) d" and hash: "PyObject_Hash py key \<noteq> -1" and key: "\<not> is_sentinel key"
    and desired: "dom desired" and val: "values_in dom (dict_map py d)" and w: "schedule_writes dom fs"
    and expected: "expected = NOT_FOUND \<or> dom expected"
  obtains (hit) d' where "flush_attempt py tid key expected expected desired fs d = Some (Some (Inr ()), tl fs, d')"
      and "store_ok py (cost (tl fs) + n) d'" and "looked_up (read_map fs d) key = expected"
      and "dict_map py d' = map_put py key (Some desired) (read_map fs d)"
    | (miss) d' where "flush_attempt py tid key expected expected desired fs d = Some (None, tl fs, d')"
      and "store_ok py (cost (tl fs) + (if fs = [] then n else Suc n)) d'" and "looked_up (read_map fs d) key \<noteq> expected"
      and "dict_map py d' = read_map fs d" and "values_in dom (dict_map py d')" and "schedule_writes dom (tl fs)"
proof -
  show thesis
  proof (rule interleave_ok [OF ok val w])
    fix d1
    assume d1: "interleave py fs d = Some (tl fs, d1)" "store_ok py (cost (tl fs) + (if fs = [] then Suc n else Suc (Suc n))) d1"
      "dict_map py d1 = read_map fs d" "values_in dom (dict_map py d1)" "schedule_writes dom (tl fs)"
    have b: "store_ok py (Suc (cost (tl fs) + (if fs = [] then n else Suc n))) d1"
      using d1(2) by (simp split: if_splits)
    have ex: "expected = NOT_FOUND \<or> \<not> is_sentinel expected" using expected proper by blast
    show thesis
    proof (rule exchange_ok [OF b hash key proper [OF desired] ex values_proper [OF d1(4)], of tid])
      fix previous d2
      assume d2: "AtomicDict_CompareAndSet py tid key expected desired d1 = Some (Inr previous, d2)"
        "store_ok py (cost (tl fs) + (if fs = [] then n else Suc n)) d2"
        "previous \<noteq> EXPECTATION_FAILED \<longleftrightarrow> looked_up (dict_map py d1) key = expected"
        "dict_map py d2 = (if looked_up (dict_map py d1) key = expected
          then map_put py key (Some desired) (dict_map py d1) else dict_map py d1)"
      have "store_ok py (cost (tl fs) + n) d2" by (rule store_ok_less [OF d2(2)]) simp
      with d1 d2 show thesis
        by (cases "looked_up (dict_map py d1) key = expected") (auto simp: flush_attempt_def intro: hit miss)
    qed
  qed
qed

lemma after_two: "after py (concat (take 2 fs)) M = after py (concat (take 1 (tl fs))) (after py (concat (take 1 fs)) M)"
  by (cases fs) (simp_all add: after_append [symmetric] numeral_2_eq_2)

lemma drop_two: "drop 2 fs = tl (tl fs)"
  by (simp add: numeral_2_eq_2 drop_Suc)

text \<open>The loop flushes once, at the end of what has run of the schedule.\<close>

lemma flush_loop_ok:
  assumes hash: "PyObject_Hash py key \<noteq> -1" and key: "\<not> is_sentinel key" and new: "dom new"
    and "store_ok py (cost fs + Suc n) d" and "values_in dom (dict_map py d)" and "schedule_writes dom fs"
    and "expected = NOT_FOUND \<or> dom expected" and "desired = agg_value f key expected new"
  shows "\<exists>k d'. flush_loop py tid f key new expected desired False fs d = Some (Inr False, drop k fs, d') \<and>
    store_ok py (cost (drop k fs) + n) d' \<and>
    dict_map py d' = aggregate_at py f key new (after py (concat (take k fs)) (dict_map py d))"
  using assms(4-)
proof (induction "2 * length fs + (if looked_up (dict_map py d) key = expected then 0 else 1)"
    arbitrary: fs d expected desired rule: less_induct)
  case less
  let ?c = "looked_up (read_map fs d) key"
  show ?case
  proof (rule flush_read [OF less.prems(1) hash new less.prems(2,3), of tid expected desired])
    fix d1
    assume run: "flush_loop py tid f key new expected desired False fs d =
      (case flush_attempt py tid key ?c expected desired (tl fs) d1 of
         None \<Rightarrow> None
       | Some (Some (Inl e), gs, d'') \<Rightarrow> Some (Inl e, gs, d'')
       | Some (Some (Inr _), gs, d'') \<Rightarrow> Some (Inr False, gs, d'')
       | Some (None, gs, d'') \<Rightarrow> flush_loop py tid f key new ?c (agg_value f key ?c new) False gs d'')"
      and d1: "store_ok py (cost (tl fs) + (if fs = [] then Suc n else Suc (Suc n))) d1" "dict_map py d1 = read_map fs d"
      "values_in dom (dict_map py d1)" "schedule_writes dom (tl fs)" and c: "?c = NOT_FOUND \<or> dom ?c"
    have b: "store_ok py (cost (tl fs) + Suc n) d1" by (rule store_ok_less [OF d1(1)]) simp
    show ?thesis
    proof (cases "?c = expected")
      case False
      with run have "flush_loop py tid f key new expected desired False fs d =
          flush_loop py tid f key new ?c (agg_value f key ?c new) False (tl fs) d1" by (simp add: flush_attempt_def)
      moreover have "2 * length (tl fs) + (if looked_up (dict_map py d1) key = ?c then 0 else 1) <
          2 * length fs + (if looked_up (dict_map py d) key = expected then 0 else 1)"
        using False d1(2) by (cases fs) simp_all
      from less.hyps [OF this b d1(3,4) c refl] obtain k d' where
        "flush_loop py tid f key new ?c (agg_value f key ?c new) False (tl fs) d1 = Some (Inr False, drop k (tl fs), d')"
        "store_ok py (cost (drop k (tl fs)) + n) d'"
        "dict_map py d' = aggregate_at py f key new (after py (concat (take k (tl fs))) (dict_map py d1))" by blast
      moreover have "after py (concat (take k (tl fs))) (dict_map py d1) = after py (concat (take (Suc k) fs)) (dict_map py d)" for k
        by (cases fs) (simp_all add: d1(2) after_append)
      ultimately show ?thesis by (intro exI [of _ "Suc k"] exI [of _ d']) (simp add: drop_Suc)
    next
      case True
      have des: "dom desired" unfolding less.prems(5) by (rule closed [OF less.prems(4) new])
      show ?thesis
      proof (rule attempt_ok [OF b hash key des d1(3,4) less.prems(4), of tid])
        fix d2
        assume d2: "flush_attempt py tid key expected expected desired (tl fs) d1 = Some (Some (Inr ()), tl (tl fs), d2)"
          "store_ok py (cost (tl (tl fs)) + n) d2" "looked_up (read_map (tl fs) d1) key = expected"
          "dict_map py d2 = map_put py key (Some desired) (read_map (tl fs) d1)"
        have "read_map (tl fs) d1 = after py (concat (take 2 fs)) (dict_map py d)" by (simp only: after_two d1(2))
        with run True d2 less.prems(5) show ?thesis
          by (intro exI [of _ 2] exI [of _ d2]) (simp add: drop_two aggregate_at_def)
      next
        fix d2
        assume d2: "flush_attempt py tid key expected expected desired (tl fs) d1 = Some (None, tl (tl fs), d2)"
          "store_ok py (cost (tl (tl fs)) + (if tl fs = [] then n else Suc n)) d2"
          "looked_up (read_map (tl fs) d1) key \<noteq> expected" "dict_map py d2 = read_map (tl fs) d1"
          "values_in dom (dict_map py d2)" "schedule_writes dom (tl (tl fs))"
        from d2(3) True d1(2) have ne: "tl fs \<noteq> []" by auto
        then have b2: "store_ok py (cost (tl (tl fs)) + Suc n) d2" using d2(2) by simp
        have "2 * length (tl (tl fs)) + (if looked_up (dict_map py d2) key = ?c then 0 else 1) <
            2 * length fs + (if looked_up (dict_map py d) key = expected then 0 else 1)"
          using ne by (cases fs; cases "tl fs") simp_all
        from less.hyps [OF this b2 d2(5,6) c refl] obtain k d' where k:
          "flush_loop py tid f key new ?c (agg_value f key ?c new) False (tl (tl fs)) d2 = Some (Inr False, drop k (tl (tl fs)), d')"
          "store_ok py (cost (drop k (tl (tl fs))) + n) d'"
          "dict_map py d' = aggregate_at py f key new (after py (concat (take k (tl (tl fs)))) (dict_map py d2))" by blast
        have "after py (concat (take k (tl (tl fs)))) (dict_map py d2) =
            after py (concat (take (Suc (Suc k)) fs)) (dict_map py d)"
          using ne by (cases fs; cases "tl fs") (simp_all add: d2(4) d1(2) after_append)
        with run True d2(1) k show ?thesis
          by (intro exI [of _ "Suc (Suc k)"] exI [of _ d']) (simp add: drop_Suc)
      qed
    qed
  qed
qed

end

end
