(* ===== verification/ReduceCorrect.thy ===== *)
theory ReduceCorrect
  imports ReduceFlush
begin

text \<open>
  Reductions are correct: for an aggregate function that satisfies the laws of a grouping, the local
  aggregation followed by the flush leaves the map that the documented sequential program leaves, which
  aggregates the items one after the other into the dictionary.
\<close>

subsection \<open>The sequential program\<close>

text \<open>The items aggregated one after the other into a map.\<close>

definition aggregate_into :: "pyenv \<Rightarrow> aggregate \<Rightarrow> (pyobj \<times> pyobj) list \<Rightarrow> pymap \<Rightarrow> pymap" where
  "aggregate_into py f kvs M = foldl (\<lambda>M (k, v). aggregate_at py f k v M) M kvs"

lemma aggregate_into_Nil [simp]: "aggregate_into py f [] M = M"
  by (simp add: aggregate_into_def)

lemma aggregate_into_Cons [simp]:
  "aggregate_into py f ((k, v) # kvs) M = aggregate_into py f kvs (aggregate_at py f k v M)"
  by (simp add: aggregate_into_def)

lemma aggregate_into_snoc [simp]:
  "aggregate_into py f (kvs @ [(k, v)]) M = aggregate_at py f k v (aggregate_into py f kvs M)"
  by (simp add: aggregate_into_def)

text \<open>A map that is a map of key classes.\<close>

definition class_map :: "pyenv \<Rightarrow> pymap \<Rightarrow> bool" where
  "class_map py M \<longleftrightarrow> (\<forall>a b. same_key py a b \<longrightarrow> M a = M b)"

lemma class_map_put: "well_behaved_keys py \<Longrightarrow> class_map py M \<Longrightarrow> class_map py (map_put py k v M)"
  by (auto simp: class_map_def map_put_def same_key_cong)

lemma class_map_looked_up: "class_map py M \<Longrightarrow> same_key py a b \<Longrightarrow> looked_up M a = looked_up M b"
  by (auto simp: class_map_def looked_up_def)

lemma class_map_dict: "well_behaved_keys py \<Longrightarrow> class_map py (dict_map py d)"
  by (auto simp: class_map_def dict_map_def table_map_cong split: metadata_ref.split)

lemma class_map_aggregate_at: "well_behaved_keys py \<Longrightarrow> class_map py M \<Longrightarrow> class_map py (aggregate_at py f k v M)"
  by (simp add: aggregate_at_def class_map_put)

lemma class_map_aggregate_into: "well_behaved_keys py \<Longrightarrow> class_map py M \<Longrightarrow> class_map py (aggregate_into py f kvs M)"
  by (induction kvs arbitrary: M) (auto simp: class_map_aggregate_at)

lemma aggregate_at_apply:
  "aggregate_at py f k v M x = (if same_key py k x then Some (agg_value f k (looked_up M k) v) else M x)"
  by (simp add: aggregate_at_def map_put_def)

text \<open>A key once, for each of its classes.\<close>

definition distinct_keys :: "pyenv \<Rightarrow> (pyobj \<times> pyobj) list \<Rightarrow> bool" where
  "distinct_keys py kvs \<longleftrightarrow> sorted_wrt (\<lambda>(k, _) (k', _). \<not> same_key py k k') kvs"

text \<open>Items to reduce: hashable keys that are no sentinels, and values of the function's domain.\<close>

definition items_in :: "pyenv \<Rightarrow> (pyobj \<Rightarrow> bool) \<Rightarrow> (pyobj \<times> pyobj) list \<Rightarrow> bool" where
  "items_in py P kvs \<longleftrightarrow> (\<forall>(k, v)\<in>set kvs. PyObject_Hash py k \<noteq> -1 \<and> \<not> is_sentinel k \<and> P v)"

context aggregation
begin

lemma values_in_aggregate_at: "values_in dom M \<Longrightarrow> dom v \<Longrightarrow> values_in dom (aggregate_at py f k v M)"
  unfolding aggregate_at_def using values_in_looked_up [of dom M k] closed by (auto intro!: values_in_put)

lemma values_in_aggregate_into:
  "values_in dom M \<Longrightarrow> items_in py dom kvs \<Longrightarrow> values_in dom (aggregate_into py f kvs M)"
  by (induction kvs arbitrary: M) (auto simp: items_in_def values_in_aggregate_at)

text \<open>Items with different keys are aggregated independently.\<close>

lemma aggregate_distinct:
  assumes "well_behaved_keys py" and "class_map py M" and "distinct_keys py kvs"
  shows "aggregate_into py f kvs M x =
    (case find (\<lambda>(k, _). same_key py k x) kvs of
       None \<Rightarrow> M x
     | Some (_, v) \<Rightarrow> Some (agg_value f x (looked_up M x) v))"
  using assms(2,3)
proof (induction kvs arbitrary: M)
  case (Cons kv kvs)
  obtain k v where kv: "kv = (k, v)" by (cases kv)
  let ?M = "aggregate_at py f k v M"
  from Cons.prems(2) have d: "distinct_keys py kvs" "\<And>k' v'. (k', v') \<in> set kvs \<Longrightarrow> \<not> same_key py k k'"
    by (auto simp: distinct_keys_def kv)
  note IH = Cons.IH [OF class_map_aggregate_at [OF assms(1) Cons.prems(1), of f k v] d(1)]
  show ?case
  proof (cases "same_key py k x")
    case True
    have "\<not> same_key py k' x" if "(k', v') \<in> set kvs" for k' v'
      using d(2) [OF that] True same_key_trans [OF assms(1), of k x k'] same_key_sym [OF assms(1), of k' x] by blast
    then have "find (\<lambda>(k, _). same_key py k x) kvs = None" by (auto simp: find_None_iff)
    moreover have "?M x = Some (agg_value f x (looked_up M x) v)"
      using True respects [OF True] class_map_looked_up [OF Cons.prems(1) True]
      by (simp add: aggregate_at_apply agg_value_def)
    ultimately show ?thesis using IH True by (simp add: kv)
  next
    case False
    then have "looked_up ?M x = looked_up M x" "?M x = M x" by (simp_all add: aggregate_at_apply looked_up_def)
    with IH False show ?thesis by (simp add: kv cong: option.case_cong prod.case_cong)
  qed
qed simp

end

text \<open>What is aggregated from nothing and then joined with a map is aggregated into the map.\<close>

context grouping
begin

lemma local_then_join:
  assumes wb: "well_behaved_keys py" and cm: "class_map py M" and val: "values_in dom M" and "items_in py dom kvs"
  shows "aggregate_into py f kvs M x =
    (case aggregate_into py f kvs Map.empty x of
       None \<Rightarrow> M x
     | Some v \<Rightarrow> Some (agg_value f x (looked_up M x) v))"
  using assms(4)
proof (induction kvs rule: rev_induct)
  case (snoc kv kvs)
  obtain k v where kv: "kv = (k, v)" by (cases kv)
  from snoc.prems have items: "items_in py dom kvs" and v: "dom v" by (auto simp: items_in_def kv)
  let ?L = "aggregate_into py f kvs Map.empty" and ?M = "aggregate_into py f kvs M"
  have "values_in dom Map.empty" "class_map py Map.empty" by (simp_all add: values_in_def class_map_def)
  then have vL: "values_in dom ?L" and cL: "class_map py ?L"
    using values_in_aggregate_into [OF _ items] class_map_aggregate_into [OF wb] by blast+
  have cM: "class_map py ?M" by (rule class_map_aggregate_into [OF wb cm])
  have c: "looked_up M x = NOT_FOUND \<or> dom (looked_up M x)" by (rule values_in_looked_up [OF val])
  show ?case
  proof (cases "same_key py k x")
    case True
    then have eq: "looked_up ?L k = looked_up ?L x" "looked_up ?M k = looked_up ?M x" "agg_value f k = agg_value f x"
      using class_map_looked_up [OF cL] class_map_looked_up [OF cM] respects [OF True] by (auto simp: agg_value_def fun_eq_iff)
    show ?thesis
    proof (cases "?L x")
      case None
      with True snoc.IH [OF items] first [OF c v, of x] show ?thesis
        by (simp add: kv aggregate_at_apply eq) (simp add: looked_up_def)
    next
      case (Some w)
      with vL have "dom w" by (simp add: values_in_def)
      with True snoc.IH [OF items] Some assoc [OF c _ v, of w x] show ?thesis
        by (simp add: kv aggregate_at_apply eq) (simp add: looked_up_def)
    qed
  next
    case False
    with snoc.IH [OF items] show ?thesis by (simp add: kv aggregate_at_apply)
  qed
qed simp

end

subsection \<open>The local table\<close>

text \<open>The pairs of an aggregated map: the expected value of every key is \<open>NOT_FOUND\<close>.\<close>

definition pairs_of :: "pymap \<Rightarrow> pyobj \<Rightarrow> (pyobj \<times> pyobj) option" where
  "pairs_of L k = (case L k of None \<Rightarrow> None | Some v \<Rightarrow> Some (NOT_FOUND, v))"

lemma aggregate_at_pairs:
  "pairs_of (aggregate_at py f k v L) =
    (\<lambda>x. if same_key py k x then Some (NOT_FOUND, agg_value f k (looked_up L k) v) else pairs_of L x)"
  by (simp add: fun_eq_iff pairs_of_def aggregate_at_apply)

definition reduce_pairs :: "(pyobj \<times> pyobj) list \<Rightarrow> reduce_item list" where
  "reduce_pairs kvs = map (\<lambda>(k, v). Pair k v) kvs"

context aggregation
begin

lemma reduce_items_ok:
  assumes wb: "well_behaved_keys py"
  shows "items_in py dom kvs \<Longrightarrow> rt_ok py t \<Longrightarrow> rt_map py t = pairs_of L \<Longrightarrow> values_in dom L \<Longrightarrow>
    rt_used t + length kvs < 2 ^ 60 \<Longrightarrow>
    \<exists>t'. reduce_items py f t False [] (reduce_pairs kvs) = Some (Inr (t', False), []) \<and> rt_ok py t' \<and>
      rt_map py t' = pairs_of (aggregate_into py f kvs L) \<and> rt_used t' \<le> rt_used t + length kvs \<and>
      rt_keys t' \<subseteq> rt_keys t \<union> fst ` set kvs"
proof (induction kvs arbitrary: t L)
  case (Cons kv kvs)
  obtain k v where kv: "kv = (k, v)" by (cases kv)
  from Cons.prems(1) have k: "PyObject_Hash py k \<noteq> -1" and v: "dom v" and items: "items_in py dom kvs"
    by (auto simp: items_in_def kv)
  let ?c = "looked_up L k"
  have c: "?c = NOT_FOUND \<or> dom ?c" by (rule values_in_looked_up [OF Cons.prems(4)])
  have get: "reduce_table_get py t k (PyObject_Hash py k) False = Some (Inr (pairs_of L k))"
    using reduce_table_get_ok [OF Cons.prems(2) wb, of k] Cons.prems(3) by simp
  have found: "(case pairs_of L k of None \<Rightarrow> (NOT_FOUND, NOT_FOUND) | Some pair \<Rightarrow> pair) = (NOT_FOUND, ?c)"
    by (simp add: pairs_of_def looked_up_def split: option.split)
  have used: "rt_used t < 2 ^ 60" using Cons.prems(5) by simp
  show ?case
  proof (rule reduce_table_set_ok [OF Cons.prems(2) wb used, where key = k and expected = NOT_FOUND
        and desired = "agg_value f k ?c v"])
    fix t1
    assume t1: "reduce_table_set py t k (PyObject_Hash py k) NOT_FOUND (agg_value f k ?c v) [] = Some (Inr (t1, False), [])"
      "rt_ok py t1" "rt_used t1 \<le> Suc (rt_used t)"
      "\<And>x. rt_map py t1 x = (if same_key py k x then Some (NOT_FOUND, agg_value f k ?c v) else rt_map py t x)"
    have m: "rt_map py t1 = pairs_of (aggregate_at py f k v L)"
      using t1(4) Cons.prems(3) by (simp add: fun_eq_iff aggregate_at_pairs)
    have step: "reduce_items py f t False [] (reduce_pairs (kv # kvs)) = reduce_items py f t1 False [] (reduce_pairs kvs)"
      using k get found t1(1) total [OF c v, of k] by (simp add: kv reduce_pairs_def Let_def)
    have "rt_used t1 + length kvs < 2 ^ 60" using Cons.prems(5) t1(3) by simp
    from Cons.IH [OF items t1(2) m values_in_aggregate_at [OF Cons.prems(4) v] this] obtain t' where
      "reduce_items py f t1 False [] (reduce_pairs kvs) = Some (Inr (t', False), [])" "rt_ok py t'"
      "rt_map py t' = pairs_of (aggregate_into py f kvs (aggregate_at py f k v L))"
      "rt_used t' \<le> rt_used t1 + length kvs" "rt_keys t' \<subseteq> rt_keys t1 \<union> fst ` set kvs" by blast
    with step t1(3) reduce_table_set_keys [OF t1(1)] show ?thesis by (intro exI [of _ t']) (auto simp: kv)
  qed
qed (simp add: reduce_pairs_def)

text \<open>Every aggregated value stays as it is when it is aggregated again into an absent key.\<close>

lemma aggregate_into_absorbed:
  assumes wb: "well_behaved_keys py"
  shows "items_in py dom kvs \<Longrightarrow> aggregate_into py f kvs Map.empty x = Some w \<Longrightarrow> agg_value f x NOT_FOUND w = w"
proof (induction kvs rule: rev_induct)
  case (snoc kv kvs)
  obtain k v where kv: "kv = (k, v)" by (cases kv)
  from snoc.prems(1) have items: "items_in py dom kvs" and v: "dom v" by (auto simp: items_in_def kv)
  let ?L = "aggregate_into py f kvs Map.empty"
  have "values_in dom ?L" by (rule values_in_aggregate_into [OF _ items]) (simp add: values_in_def)
  note c = values_in_looked_up [OF this, of k]
  show ?case
  proof (cases "same_key py k x")
    case True
    with snoc.prems(2) have "w = agg_value f k (looked_up ?L k) v" by (simp add: kv aggregate_at_apply)
    with absorbs [OF c v, of k] respects [OF True] show ?thesis by (simp add: agg_value_def)
  next
    case False
    with snoc.prems(2) snoc.IH [OF items] show ?thesis by (simp add: kv aggregate_at_apply)
  qed
qed simp

end

subsection \<open>The flush of a table\<close>

definition entry_pair :: "reduce_table \<Rightarrow> nat \<Rightarrow> pyobj \<times> pyobj" where
  "entry_pair t j = (re_key (rt_entries t j), re_desired (rt_entries t j))"

text \<open>Keys that are aggregated one after the other, each after operations of other threads.\<close>

definition interleaved :: "pyenv \<Rightarrow> aggregate \<Rightarrow> ((pyobj \<times> pyobj) \<times> (nat \<times> command) list) list \<Rightarrow> pymap \<Rightarrow> pymap" where
  "interleaved py f es M = foldl (\<lambda>M ((k, v), cs). aggregate_at py f k v (after py cs M)) M es"

lemma interleaved_alone:
  "\<forall>p\<in>set ps. p = [] \<Longrightarrow> length ps = length es \<Longrightarrow> interleaved py f (zip es ps) M = aggregate_into py f es M"
proof (induction es arbitrary: ps M)
  case (Cons e es)
  then show ?case by (cases ps; cases e) (simp_all add: interleaved_def)
qed (simp add: interleaved_def)

lemma set_flush_order:
  assumes "0 < rt_used t"
  shows "set (flush_order py tid t) = {..<rt_used t}" and "distinct (flush_order py tid t)"
proof -
  let ?s = "unat (REHASH py (of_nat tid)) mod rt_used t"
  have "p \<in> (\<lambda>i. (?s + i) mod rt_used t) ` {0..<rt_used t}" if "p < rt_used t" for p
    using ring_surj [OF assms that, of ?s] assms by auto
  then show "set (flush_order py tid t) = {..<rt_used t}"
    using assms by (auto simp: flush_order_def Let_def)
  have "inj_on (\<lambda>i. (?s + i) mod rt_used t) {0..<rt_used t}"
    by (rule inj_onI) (auto dest: ring_inj)
  then show "distinct (flush_order py tid t)"
    by (simp add: flush_order_def Let_def distinct_map)
qed

text \<open>What the flush relies on in every entry.\<close>

definition flushable :: "pyenv \<Rightarrow> aggregate \<Rightarrow> (pyobj \<Rightarrow> bool) \<Rightarrow> reduce_entry \<Rightarrow> bool" where
  "flushable py f P e \<longleftrightarrow>
     PyObject_Hash py (re_key e) \<noteq> -1 \<and> \<not> is_sentinel (re_key e) \<and> re_expected e = NOT_FOUND \<and>
     P (re_desired e) \<and> agg_value f (re_key e) NOT_FOUND (re_desired e) = re_desired e"

context aggregation
begin

lemma flush_one_ok:
  assumes e: "flushable py f dom e" and ok: "store_ok py (cost fs + Suc n) d"
    and val: "values_in dom (dict_map py d)" and w: "schedule_writes dom fs"
  obtains k d' where "flush_one py tid f (re_key e) (re_expected e) (re_desired e) False fs d = Some (Inr False, drop k fs, d')"
    and "store_ok py (cost (drop k fs) + n) d'"
    and "dict_map py d' = aggregate_at py f (re_key e) (re_desired e) (after py (concat (take k fs)) (dict_map py d))"
    and "values_in dom (dict_map py d')" and "schedule_writes dom (drop k fs)"
proof -
  from e have e': "PyObject_Hash py (re_key e) \<noteq> -1" "\<not> is_sentinel (re_key e)" "dom (re_desired e)" "re_expected e = NOT_FOUND"
    "re_desired e = agg_value f (re_key e) NOT_FOUND (re_desired e)" by (simp_all add: flushable_def)
  from flush_loop_ok [OF e'(1-3) ok val w _ e'(5), of tid] obtain k d' where
    k: "flush_loop py tid f (re_key e) (re_desired e) NOT_FOUND (re_desired e) False fs d = Some (Inr False, drop k fs, d')"
    "store_ok py (cost (drop k fs) + n) d'"
    "dict_map py d' = aggregate_at py f (re_key e) (re_desired e) (after py (concat (take k fs)) (dict_map py d))" by auto
  have "\<forall>c\<in>set (concat (take k fs)). command_writes dom c" using w by (auto simp: schedule_writes_def dest: in_set_takeD)
  from values_in_aggregate_at [OF values_in_after [OF val this] e'(3), of "re_key e"]
  have "values_in dom (dict_map py d')" by (simp only: k(3))
  moreover have "schedule_writes dom (drop k fs)" using w by (auto simp: schedule_writes_def dest: in_set_dropD)
  ultimately show thesis using k e'(4) by (intro that [of k d']) (simp_all add: flush_one_def)
qed

lemma flush_entries_ok:
  "\<forall>j\<in>set js. flushable py f dom (rt_entries t j) \<Longrightarrow> store_ok py (cost fs + length js + n) d \<Longrightarrow>
    values_in dom (dict_map py d) \<Longrightarrow> schedule_writes dom fs \<Longrightarrow>
    \<exists>k ps d'. flush_entries py tid f t js False fs d = Some (Inr False, drop k fs, d') \<and>
      store_ok py (cost (drop k fs) + n) d' \<and> length ps = length js \<and> concat ps = concat (take k fs) \<and>
      dict_map py d' = interleaved py f (zip (map (entry_pair t) js) ps) (dict_map py d)"
proof (induction js arbitrary: fs d)
  case Nil
  then show ?case by (intro exI [of _ 0] exI [of _ "[]"] exI [of _ d]) (simp add: interleaved_def)
next
  case (Cons j js)
  let ?e = "rt_entries t j"
  from Cons.prems(1) have e: "flushable py f dom ?e" by simp
  have ok: "store_ok py (cost fs + Suc (length js + n)) d" using Cons.prems(2) by (simp add: add.assoc)
  show ?case
  proof (rule flush_one_ok [OF e ok Cons.prems(3,4), of tid])
    fix k d1
    assume d1: "flush_one py tid f (re_key ?e) (re_expected ?e) (re_desired ?e) False fs d = Some (Inr False, drop k fs, d1)"
      "store_ok py (cost (drop k fs) + (length js + n)) d1"
      "dict_map py d1 = aggregate_at py f (re_key ?e) (re_desired ?e) (after py (concat (take k fs)) (dict_map py d))"
      "values_in dom (dict_map py d1)" "schedule_writes dom (drop k fs)"
    have "store_ok py (cost (drop k fs) + length js + n) d1" using d1(2) by (simp add: add.assoc)
    from Cons.IH [OF _ this d1(4,5)] Cons.prems(1) obtain k' ps d' where
      "flush_entries py tid f t js False (drop k fs) d1 = Some (Inr False, drop k' (drop k fs), d')"
      "store_ok py (cost (drop k' (drop k fs)) + n) d'" "length ps = length js"
      "concat ps = concat (take k' (drop k fs))"
      "dict_map py d' = interleaved py f (zip (map (entry_pair t) js) ps) (dict_map py d1)" by auto
    moreover have "concat (take (k + k') fs) = concat (take k fs) @ concat (take k' (drop k fs))" by (simp add: take_add)
    ultimately show ?thesis
      using d1(1,3) by (intro exI [of _ "k + k'"] exI [of _ "concat (take k fs) # ps"] exI [of _ d'])
        (simp add: interleaved_def entry_pair_def [of t j] add.commute)
  qed
qed

end

subsection \<open>The reduction\<close>

lemma find_SomeD: "find P xs = Some x \<Longrightarrow> x \<in> set xs \<and> P x"
  by (induction xs) (auto split: if_splits)

context grouping
begin

lemma flush_order_distinct_keys:
  assumes ok: "rt_ok py t" and used: "0 < rt_used t"
  shows "distinct_keys py (map (entry_pair t) (flush_order py tid t))"
proof -
  have "sorted_wrt (\<lambda>i j. i \<noteq> j) (flush_order py tid t)"
    using set_flush_order(2) [OF used, of py tid] by (auto simp: sorted_wrt_iff_nth_less distinct_conv_nth)
  moreover have "\<not> same_key py (re_key (rt_entries t i)) (re_key (rt_entries t j))"
    if "i \<in> set (flush_order py tid t)" "j \<in> set (flush_order py tid t)" "i \<noteq> j" for i j
    using that rt_okD(6) [OF ok] set_flush_order(1) [OF used] by blast
  ultimately have "sorted_wrt (\<lambda>i j. \<not> same_key py (re_key (rt_entries t i)) (re_key (rt_entries t j))) (flush_order py tid t)"
    by (rule sorted_wrt_mono_rel [rotated])
  then show ?thesis by (simp add: distinct_keys_def sorted_wrt_map entry_pair_def)
qed

lemma find_entry_pair:
  assumes ok: "rt_ok py t" and wb: "well_behaved_keys py" and used: "0 < rt_used t" and m: "rt_map py t = pairs_of L"
  shows "map_option snd (find (\<lambda>(k, _). same_key py k x) (map (entry_pair t) (flush_order py tid t))) = L x"
proof (cases "find (\<lambda>(k, _). same_key py k x) (map (entry_pair t) (flush_order py tid t))")
  case None
  then have "\<forall>j<rt_used t. \<not> same_key py (re_key (rt_entries t j)) x"
    using set_flush_order(1) [OF used, of py tid] by (auto simp: find_None_iff entry_pair_def)
  then have "rt_map py t x = None" by (simp add: rt_map_None)
  with None show ?thesis by (simp add: m pairs_of_def split: option.splits)
next
  case (Some kv)
  then have "kv \<in> set (map (entry_pair t) (flush_order py tid t))" "same_key py (fst kv) x"
    using find_SomeD [OF Some] by (auto simp: split_beta)
  then obtain j where j: "j < rt_used t" "kv = entry_pair t j" "same_key py (re_key (rt_entries t j)) x"
    using set_flush_order(1) [OF used, of py tid] by (auto simp: entry_pair_def)
  from rt_map_Some [OF ok wb j(1,3)] have "L x = Some (re_desired (rt_entries t j))"
    by (simp add: m pairs_of_def split: option.splits)
  with Some j(2) show ?thesis by (simp add: entry_pair_def)
qed

lemma reduce_flush_alone:
  assumes wb: "well_behaved_keys py" and items: "items_in py dom kvs" and ok: "rt_ok py t"
    and m: "rt_map py t = pairs_of (aggregate_into py f kvs Map.empty)" and keys: "rt_keys t \<subseteq> fst ` set kvs"
    and st: "store_ok py (rt_used t + n) d" and val: "values_in dom (dict_map py d)"
  shows "\<exists>d'. reduce_flush py tid f t False [] d = Some (Inr False, [], d') \<and> store_ok py n d' \<and>
    dict_map py d' = aggregate_into py f kvs (dict_map py d)"
proof -
  let ?L = "aggregate_into py f kvs Map.empty" and ?M = "dict_map py d"
  have join: "aggregate_into py f kvs ?M x = (case ?L x of None \<Rightarrow> ?M x | Some v \<Rightarrow> Some (agg_value f x (looked_up ?M x) v))" for x
    by (rule local_then_join [OF wb class_map_dict [OF wb] val items])
  show ?thesis
  proof (cases "rt_used t = 0")
    case True
    then have "?L x = None" for x
      using m by (auto simp: fun_eq_iff pairs_of_def rt_map_def split: option.splits)
    with join have "aggregate_into py f kvs ?M = ?M" by (simp add: fun_eq_iff)
    with True st show ?thesis by (simp add: reduce_flush_def)
  next
    case False
    let ?js = "flush_order py tid t"
    have len: "length ?js = rt_used t" by (simp add: flush_order_def Let_def)
    have flush: "flushable py f dom (rt_entries t j)" if j: "j \<in> set ?js" for j
    proof -
      from j False have j: "j < rt_used t" using set_flush_order(1) [of t py tid] by simp
      let ?e = "rt_entries t j"
      from j keys have "re_key ?e \<in> fst ` set kvs" by (auto simp: rt_keys_def)
      then have "PyObject_Hash py (re_key ?e) \<noteq> -1 \<and> \<not> is_sentinel (re_key ?e)" using items by (auto simp: items_in_def)
      moreover from rt_map_Some [OF ok wb j same_key_refl [OF wb]]
      have "re_expected ?e = NOT_FOUND" and L: "?L (re_key ?e) = Some (re_desired ?e)"
        by (auto simp: m pairs_of_def split: option.splits)
      moreover have "values_in dom ?L" by (rule values_in_aggregate_into [OF _ items]) (simp add: values_in_def)
      with L have "dom (re_desired ?e)" by (auto simp: values_in_def)
      ultimately show ?thesis using aggregate_into_absorbed [OF wb items L] by (simp add: flushable_def)
    qed
    have "store_ok py (cost [] + length ?js + n) d" using st by (simp add: len cost_def)
    from flush_entries_ok [OF _ this val, of t tid] flush obtain k ps d' where
      run: "flush_entries py tid f t ?js False [] d = Some (Inr False, [], d')" "store_ok py (cost [] + n) d'"
      and ps: "length ps = length ?js" "concat ps = []"
      and d': "dict_map py d' = interleaved py f (zip (map (entry_pair t) ?js) ps) ?M"
      by (auto simp: schedule_writes_def)
    from ps(2) have "\<forall>p\<in>set ps. p = []" by simp
    from interleaved_alone [OF this, of "map (entry_pair t) ?js"] ps(1)
    have "dict_map py d' = aggregate_into py f (map (entry_pair t) ?js) ?M" by (simp add: d')
    also have "\<dots> = aggregate_into py f kvs ?M"
    proof
      fix x
      have "aggregate_into py f (map (entry_pair t) ?js) ?M x =
          (case map_option snd (find (\<lambda>(k, _). same_key py k x) (map (entry_pair t) ?js)) of
             None \<Rightarrow> ?M x | Some v \<Rightarrow> Some (agg_value f x (looked_up ?M x) v))"
        using False aggregate_distinct [OF wb class_map_dict [OF wb] flush_order_distinct_keys [OF ok]]
        by (auto split: option.split)
      with find_entry_pair [OF ok wb _ m, of x tid] False join
      show "aggregate_into py f (map (entry_pair t) ?js) ?M x = aggregate_into py f kvs ?M x" by simp
    qed
    finally show ?thesis using run False by (auto simp: reduce_flush_def cost_def)
  qed
qed

lemma reduce_impl_ok:
  assumes wb: "well_behaved_keys py" and items: "items_in py dom kvs" and small: "length kvs < 2 ^ 60"
    and st: "store_ok py (length kvs + n) d" and val: "values_in dom (dict_map py d)"
    and arg: "arg = Callable f \<or> arg = Specialized f"
  shows "\<exists>d'. AtomicDict_Reduce_impl py tid (Some \<lparr>ri_items = reduce_pairs kvs, ri_raises = False\<rparr>) arg [] d =
      Some (Inr False, [], d') \<and> store_ok py n d' \<and> dict_map py d' = aggregate_into py f kvs (dict_map py d)"
proof -
  from st have mem: "allocations d = []" by (simp add: store_ok_def dict_ok_def)
  from reduce_table_new_ok [of py] obtain t0 where t0: "reduce_table_new REDUCE_TABLE_INITIAL_LOG_SIZE [] = (Inr t0, [])"
    "rt_ok py t0" "rt_map py t0 = Map.empty" "rt_used t0 = 0" by blast
  have "rt_map py t0 = pairs_of Map.empty" by (simp add: t0(3) pairs_of_def fun_eq_iff)
  from reduce_items_ok [OF wb items t0(2) this] small obtain t where
    t: "reduce_items py f t0 False [] (reduce_pairs kvs) = Some (Inr (t, False), [])" "rt_ok py t"
    "rt_map py t = pairs_of (aggregate_into py f kvs Map.empty)" "rt_used t \<le> length kvs" "rt_keys t \<subseteq> fst ` set kvs"
    by (auto simp: t0(4) values_in_def rt_keys_empty)
  have "store_ok py (rt_used t + n) d" by (rule store_ok_less [OF st]) (simp add: t(4))
  from reduce_flush_alone [OF wb items t(2,3,5) this val, of tid] obtain d' where
    "reduce_flush py tid f t False [] d = Some (Inr False, [], d')" "store_ok py n d'"
    "dict_map py d' = aggregate_into py f kvs (dict_map py d)" by blast
  moreover have same: "d\<lparr>allocations := []\<rparr> = d" using mem by simp
  ultimately show ?thesis using arg by (auto simp: AtomicDict_Reduce_impl_def mem same t0(1) t(1) Let_def)
qed

end

end
