(* ===== verification/ReduceSpecialized.thy ===== *)
theory ReduceSpecialized
  imports ReduceCorrect
begin

text \<open>
  The specialised reductions of \<^verbatim>\<open>src/src/cereggii/atomic_dict/insert.c\<close>: sum, and, or, max, min,
  list and count, and the methods that call them.  The operations of the interpreter on values are the
  fields of a record: \<open>NULL\<close> is \<open>None\<close>, and a truth value below 0 is an exception.  On values for which
  those operations satisfy their laws, every specialised function is a grouping.
\<close>

subsection \<open>The code\<close>

record value_ops =
  PyNumber_Add :: "pyobj \<Rightarrow> pyobj \<Rightarrow> pyobj option"
  PyObject_IsTrue :: "pyobj \<Rightarrow> int"
  RichCompareGE :: "pyobj \<Rightarrow> pyobj \<Rightarrow> cmp"
  RichCompareLE :: "pyobj \<Rightarrow> pyobj \<Rightarrow> cmp"
  PyList_CheckExact :: "pyobj \<Rightarrow> bool"
  PyList_of :: "pyobj \<Rightarrow> pyobj option"
  PyLong_One :: pyobj

definition returned :: "pyobj option \<Rightarrow> pyobj option \<times> bool" where
  "returned r = (r, r = None)"

definition reduce_specialized_sum :: "value_ops \<Rightarrow> aggregate" where
  "reduce_specialized_sum ops key current new =
     (if current = NOT_FOUND then (Some new, False) else returned (PyNumber_Add ops current new))"

definition reduce_specialized_and :: "value_ops \<Rightarrow> aggregate" where
  "reduce_specialized_and ops key current new =
     (if current = NOT_FOUND then (Some new, False)
      else if PyObject_IsTrue ops current \<noteq> 0
      then (Some (if PyObject_IsTrue ops new \<noteq> 0 then Py_True else Py_False),
            PyObject_IsTrue ops current < 0 \<or> PyObject_IsTrue ops new < 0)
      else (Some Py_False, False))"

definition reduce_specialized_or :: "value_ops \<Rightarrow> aggregate" where
  "reduce_specialized_or ops key current new =
     (if current = NOT_FOUND then (Some new, False)
      else if PyObject_IsTrue ops current \<noteq> 0 then (Some Py_True, PyObject_IsTrue ops current < 0)
      else (Some (if PyObject_IsTrue ops new \<noteq> 0 then Py_True else Py_False), PyObject_IsTrue ops new < 0))"

definition reduce_specialized_max :: "value_ops \<Rightarrow> aggregate" where
  "reduce_specialized_max ops key current new =
     (if current = NOT_FOUND then (Some new, False)
      else
        (case RichCompareGE ops current new of
           CmpError \<Rightarrow> (None, True)
         | CmpTrue \<Rightarrow> (Some current, False)
         | CmpFalse \<Rightarrow> (Some new, False)))"

definition reduce_specialized_min :: "value_ops \<Rightarrow> aggregate" where
  "reduce_specialized_min ops key current new =
     (if current = NOT_FOUND then (Some new, False)
      else
        (case RichCompareLE ops current new of
           CmpError \<Rightarrow> (None, True)
         | CmpTrue \<Rightarrow> (Some current, False)
         | CmpFalse \<Rightarrow> (Some new, False)))"

definition to_list :: "value_ops \<Rightarrow> pyobj \<Rightarrow> pyobj option" where
  "to_list ops maybe_list = (if PyList_CheckExact ops maybe_list then Some maybe_list else PyList_of ops maybe_list)"

definition reduce_specialized_list :: "value_ops \<Rightarrow> aggregate" where
  "reduce_specialized_list ops key current new =
     (if current = NOT_FOUND then returned (to_list ops new)
      else
        (case to_list ops current of
           None \<Rightarrow> (None, True)
         | Some current_list \<Rightarrow>
             (case to_list ops new of
                None \<Rightarrow> (None, True)
              | Some new_list \<Rightarrow> returned (PyNumber_Add ops current_list new_list))))"

definition AtomicDict_Reduce :: "pyenv \<Rightarrow> nat \<Rightarrow> reduce_iterable option \<Rightarrow> aggregate option \<Rightarrow> schedule \<Rightarrow> dict \<Rightarrow>
   (bool outcome \<times> schedule \<times> dict) option" where
  "AtomicDict_Reduce py tid iterable callable =
     AtomicDict_Reduce_impl py tid iterable (case callable of None \<Rightarrow> NotCallable | Some f \<Rightarrow> Callable f)"

definition AtomicDict_ReduceSum :: "pyenv \<Rightarrow> value_ops \<Rightarrow> nat \<Rightarrow> reduce_iterable option \<Rightarrow> schedule \<Rightarrow> dict \<Rightarrow>
   (bool outcome \<times> schedule \<times> dict) option" where
  "AtomicDict_ReduceSum py ops tid iterable = AtomicDict_Reduce_impl py tid iterable (Specialized (reduce_specialized_sum ops))"

definition AtomicDict_ReduceAnd :: "pyenv \<Rightarrow> value_ops \<Rightarrow> nat \<Rightarrow> reduce_iterable option \<Rightarrow> schedule \<Rightarrow> dict \<Rightarrow>
   (bool outcome \<times> schedule \<times> dict) option" where
  "AtomicDict_ReduceAnd py ops tid iterable = AtomicDict_Reduce_impl py tid iterable (Specialized (reduce_specialized_and ops))"

definition AtomicDict_ReduceOr :: "pyenv \<Rightarrow> value_ops \<Rightarrow> nat \<Rightarrow> reduce_iterable option \<Rightarrow> schedule \<Rightarrow> dict \<Rightarrow>
   (bool outcome \<times> schedule \<times> dict) option" where
  "AtomicDict_ReduceOr py ops tid iterable = AtomicDict_Reduce_impl py tid iterable (Specialized (reduce_specialized_or ops))"

definition AtomicDict_ReduceMax :: "pyenv \<Rightarrow> value_ops \<Rightarrow> nat \<Rightarrow> reduce_iterable option \<Rightarrow> schedule \<Rightarrow> dict \<Rightarrow>
   (bool outcome \<times> schedule \<times> dict) option" where
  "AtomicDict_ReduceMax py ops tid iterable = AtomicDict_Reduce_impl py tid iterable (Specialized (reduce_specialized_max ops))"

definition AtomicDict_ReduceMin :: "pyenv \<Rightarrow> value_ops \<Rightarrow> nat \<Rightarrow> reduce_iterable option \<Rightarrow> schedule \<Rightarrow> dict \<Rightarrow>
   (bool outcome \<times> schedule \<times> dict) option" where
  "AtomicDict_ReduceMin py ops tid iterable = AtomicDict_Reduce_impl py tid iterable (Specialized (reduce_specialized_min ops))"

definition AtomicDict_ReduceList :: "pyenv \<Rightarrow> value_ops \<Rightarrow> nat \<Rightarrow> reduce_iterable option \<Rightarrow> schedule \<Rightarrow> dict \<Rightarrow>
   (bool outcome \<times> schedule \<times> dict) option" where
  "AtomicDict_ReduceList py ops tid iterable = AtomicDict_Reduce_impl py tid iterable (Specialized (reduce_specialized_list ops))"

text \<open>
  What is counted: the items of a dict, or the objects that an iterable yields, each paired with one.
  \<open>calls\<close> are the outcomes of the calls to the interpreter that build the iterator of pairs: the
  iterator, the lookups of \<^verbatim>\<open>zip\<close> and \<^verbatim>\<open>repeat\<close>, the import of \<^verbatim>\<open>itertools\<close> and its
  namespace, the number, and the two calls.
\<close>

datatype count_source = CountDict "(pyobj \<times> pyobj) list" | CountObjects "pyobj list" bool | NotIterable

fun calls_succeed :: "nat \<Rightarrow> bool list \<Rightarrow> bool" where
  "calls_succeed 0 calls = True"
| "calls_succeed (Suc n) [] = True"
| "calls_succeed (Suc n) (ok # calls) = (ok \<and> calls_succeed n calls)"

definition reduce_count_zip_iter_with_ones :: "value_ops \<Rightarrow> pyobj list \<Rightarrow> bool \<Rightarrow> bool list \<Rightarrow> reduce_iterable option" where
  "reduce_count_zip_iter_with_ones ops objs raises calls =
     (if calls_succeed 7 calls
      then Some \<lparr>ri_items = map (\<lambda>x. Pair x (PyLong_One ops)) objs, ri_raises = raises\<rparr>
      else None)"

definition AtomicDict_ReduceCount :: "pyenv \<Rightarrow> value_ops \<Rightarrow> nat \<Rightarrow> count_source \<Rightarrow> bool list \<Rightarrow> schedule \<Rightarrow> dict \<Rightarrow>
   (bool outcome \<times> schedule \<times> dict) option" where
  "AtomicDict_ReduceCount py ops tid source calls fs d =
     (case source of
        NotIterable \<Rightarrow> Some (Inl TypeError, fs, d)
      | CountDict items \<Rightarrow>
          if \<not> calls_succeed 1 calls then Some (Inl MemoryError, fs, d)
          else AtomicDict_Reduce_impl py tid (Some \<lparr>ri_items = map (\<lambda>(k, v). Pair k v) items, ri_raises = False\<rparr>)
                 (Specialized (reduce_specialized_sum ops)) fs d
      | CountObjects objs raises \<Rightarrow>
          (case reduce_count_zip_iter_with_ones ops objs raises calls of
             None \<Rightarrow> Some (Inl RaisedByObject, fs, d)
           | Some it \<Rightarrow> AtomicDict_Reduce_impl py tid (Some it) (Specialized (reduce_specialized_sum ops)) fs d))"

text \<open>
  The methods return \<open>None\<close> when the reduction succeeds; the interpreter raises \<open>SystemError\<close> for a
  method that returns a result while an exception is set.
\<close>

definition reduce_result :: "(bool outcome \<times> schedule \<times> dict) option \<Rightarrow> (unit outcome \<times> schedule \<times> dict) option" where
  "reduce_result = map_option (\<lambda>(r, fs, d).
     (case r of Inl e \<Rightarrow> Inl e | Inr pending \<Rightarrow> if pending then Inl SystemError else Inr (), fs, d))"

definition AtomicDict_Reduce_callable where
  "AtomicDict_Reduce_callable py tid iterable callable fs d = reduce_result (AtomicDict_Reduce py tid iterable callable fs d)"

definition AtomicDict_ReduceSum_callable where
  "AtomicDict_ReduceSum_callable py ops tid iterable fs d = reduce_result (AtomicDict_ReduceSum py ops tid iterable fs d)"

definition AtomicDict_ReduceAnd_callable where
  "AtomicDict_ReduceAnd_callable py ops tid iterable fs d = reduce_result (AtomicDict_ReduceAnd py ops tid iterable fs d)"

definition AtomicDict_ReduceOr_callable where
  "AtomicDict_ReduceOr_callable py ops tid iterable fs d = reduce_result (AtomicDict_ReduceOr py ops tid iterable fs d)"

definition AtomicDict_ReduceMax_callable where
  "AtomicDict_ReduceMax_callable py ops tid iterable fs d = reduce_result (AtomicDict_ReduceMax py ops tid iterable fs d)"

definition AtomicDict_ReduceMin_callable where
  "AtomicDict_ReduceMin_callable py ops tid iterable fs d = reduce_result (AtomicDict_ReduceMin py ops tid iterable fs d)"

definition AtomicDict_ReduceList_callable where
  "AtomicDict_ReduceList_callable py ops tid iterable fs d = reduce_result (AtomicDict_ReduceList py ops tid iterable fs d)"

definition AtomicDict_ReduceCount_callable where
  "AtomicDict_ReduceCount_callable py ops tid source calls fs d =
     reduce_result (AtomicDict_ReduceCount py ops tid source calls fs d)"

subsection \<open>The laws of the operations on values\<close>

definition summable :: "value_ops \<Rightarrow> (pyobj \<Rightarrow> bool) \<Rightarrow> bool" where
  "summable ops D \<longleftrightarrow>
     (\<forall>a. D a \<longrightarrow> \<not> is_sentinel a) \<and>
     (\<forall>a b. D a \<longrightarrow> D b \<longrightarrow> (\<exists>c. PyNumber_Add ops a b = Some c \<and> D c)) \<and>
     (\<forall>a b c. D a \<longrightarrow> D b \<longrightarrow> D c \<longrightarrow>
        Option.bind (PyNumber_Add ops a b) (\<lambda>x. PyNumber_Add ops x c) = Option.bind (PyNumber_Add ops b c) (PyNumber_Add ops a))"

definition truthful :: "value_ops \<Rightarrow> (pyobj \<Rightarrow> bool) \<Rightarrow> bool" where
  "truthful ops D \<longleftrightarrow>
     (\<forall>a. D a \<longrightarrow> \<not> is_sentinel a \<and> 0 \<le> PyObject_IsTrue ops a) \<and> D Py_True \<and> D Py_False \<and>
     PyObject_IsTrue ops Py_True = 1 \<and> PyObject_IsTrue ops Py_False = 0"

definition ordered_by :: "(pyobj \<Rightarrow> pyobj \<Rightarrow> cmp) \<Rightarrow> (pyobj \<Rightarrow> bool) \<Rightarrow> bool" where
  "ordered_by cmp D \<longleftrightarrow>
     (\<forall>a. D a \<longrightarrow> \<not> is_sentinel a) \<and>
     (\<forall>a b. D a \<longrightarrow> D b \<longrightarrow> cmp a b \<noteq> CmpError \<and> (cmp a b = CmpTrue \<or> cmp b a = CmpTrue)) \<and>
     (\<forall>a b c. D a \<longrightarrow> D b \<longrightarrow> D c \<longrightarrow> cmp a b = CmpTrue \<longrightarrow> cmp b c = CmpTrue \<longrightarrow> cmp a c = CmpTrue)"

text \<open>Lists among the values are added as such; every other value makes a list of one.\<close>

definition listable :: "value_ops \<Rightarrow> (pyobj \<Rightarrow> bool) \<Rightarrow> bool" where
  "listable ops D \<longleftrightarrow>
     (\<forall>a. D a \<longrightarrow> \<not> is_sentinel a \<and> (\<exists>l. to_list ops a = Some l \<and> D l \<and> PyList_CheckExact ops l)) \<and>
     summable ops (\<lambda>l. D l \<and> PyList_CheckExact ops l)"

text \<open>The values that satisfy the laws of an operation.\<close>

definition sum_values :: "value_ops \<Rightarrow> (pyobj \<Rightarrow> bool) \<Rightarrow> pyobj \<Rightarrow> bool" where
  "sum_values ops D v \<longleftrightarrow> summable ops D \<and> D v"

definition truth_values :: "value_ops \<Rightarrow> (pyobj \<Rightarrow> bool) \<Rightarrow> pyobj \<Rightarrow> bool" where
  "truth_values ops D v \<longleftrightarrow> truthful ops D \<and> D v"

definition ordered_values :: "(pyobj \<Rightarrow> pyobj \<Rightarrow> cmp) \<Rightarrow> (pyobj \<Rightarrow> bool) \<Rightarrow> pyobj \<Rightarrow> bool" where
  "ordered_values cmp D v \<longleftrightarrow> ordered_by cmp D \<and> D v"

definition list_values :: "value_ops \<Rightarrow> (pyobj \<Rightarrow> bool) \<Rightarrow> pyobj \<Rightarrow> bool" where
  "list_values ops D v \<longleftrightarrow> listable ops D \<and> D v"

subsection \<open>The specialised functions are groupings\<close>

lemma summableD:
  assumes "summable ops D"
  shows "D a \<Longrightarrow> a \<noteq> NOT_FOUND" and "D a \<Longrightarrow> \<not> is_sentinel a"
    and "D a \<Longrightarrow> D b \<Longrightarrow> \<exists>c. PyNumber_Add ops a b = Some c \<and> D c"
    and "D a \<Longrightarrow> D b \<Longrightarrow> D c \<Longrightarrow>
      the (PyNumber_Add ops a (the (PyNumber_Add ops b c))) = the (PyNumber_Add ops (the (PyNumber_Add ops a b)) c)"
proof -
  show s: "D a \<Longrightarrow> \<not> is_sentinel a" for a using assms by (simp add: summable_def)
  then show "D a \<Longrightarrow> a \<noteq> NOT_FOUND" by (auto simp: is_sentinel_def)
  show add: "D a \<Longrightarrow> D b \<Longrightarrow> \<exists>c. PyNumber_Add ops a b = Some c \<and> D c" for a b using assms by (simp add: summable_def)
  assume D: "D a" "D b" "D c"
  from add [OF D(1,2)] add [OF D(2,3)] obtain x y where xy: "PyNumber_Add ops a b = Some x" "PyNumber_Add ops b c = Some y" by blast
  have "Option.bind (PyNumber_Add ops a b) (\<lambda>x. PyNumber_Add ops x c) = Option.bind (PyNumber_Add ops b c) (PyNumber_Add ops a)"
    using assms D by (simp add: summable_def)
  with xy show "the (PyNumber_Add ops a (the (PyNumber_Add ops b c))) = the (PyNumber_Add ops (the (PyNumber_Add ops a b)) c)"
    by simp
qed

lemma sum_value:
  "agg_value (reduce_specialized_sum ops) k c v = (if c = NOT_FOUND then v else the (PyNumber_Add ops c v))"
  by (simp add: agg_value_def reduce_specialized_sum_def returned_def)

interpretation sum: grouping py "reduce_specialized_sum ops" "sum_values ops D" for py ops D
proof (unfold_locales, goal_cases)
  case (1 v)
  then show ?case using summableD(2) [of ops D v] by (simp add: sum_values_def)
next
  case (2 c v key)
  then show ?case
    using summableD(3) [of ops D c v] by (auto simp: sum_values_def reduce_specialized_sum_def returned_def agg_value_def)
next
  case (3 c v key)
  then show ?case using summableD(1) [of ops D] summableD(3) [of ops D c v] by (auto simp: sum_values_def sum_value)
next
  case (4 key key')
  show ?case by (simp add: fun_eq_iff reduce_specialized_sum_def)
next
  case (5 c v key)
  show ?case by (simp add: sum_value)
next
  case (6 c v key)
  show ?case by (simp add: sum_value)
next
  case (7 c a b key)
  then have s: "summable ops D" "D a" "D b" "c = NOT_FOUND \<or> D c" by (auto simp: sum_values_def)
  show ?case
  proof (cases "c = NOT_FOUND")
    case False
    with s summableD(1) [OF s(1)] summableD(3) [OF s(1), of c a] summableD(4) [OF s(1), of c a b] show ?thesis
      by (auto simp: sum_value)
  qed (simp add: sum_value)
qed

lemma truthfulD:
  assumes "truthful ops D"
  shows "D a \<Longrightarrow> a \<noteq> NOT_FOUND" and "D a \<Longrightarrow> \<not> is_sentinel a" and "D a \<Longrightarrow> \<not> PyObject_IsTrue ops a < 0"
    and "D Py_True" and "D Py_False" and "PyObject_IsTrue ops Py_True = 1" and "PyObject_IsTrue ops Py_False = 0"
  using assms by (auto simp: truthful_def is_sentinel_def)

lemma and_value:
  "agg_value (reduce_specialized_and ops) k c v =
    (if c = NOT_FOUND then v
     else if PyObject_IsTrue ops c \<noteq> 0 \<and> PyObject_IsTrue ops v \<noteq> 0 then Py_True else Py_False)"
  by (simp add: agg_value_def reduce_specialized_and_def)

lemma or_value:
  "agg_value (reduce_specialized_or ops) k c v =
    (if c = NOT_FOUND then v
     else if PyObject_IsTrue ops c \<noteq> 0 \<or> PyObject_IsTrue ops v \<noteq> 0 then Py_True else Py_False)"
  by (simp add: agg_value_def reduce_specialized_or_def)

interpretation conj: grouping py "reduce_specialized_and ops" "truth_values ops D" for py ops D
proof (unfold_locales, goal_cases)
  case (1 v)
  then show ?case using truthfulD(2) [of ops D v] by (simp add: truth_values_def)
next
  case (2 c v key)
  then show ?case
    using truthfulD(3) [of ops D] by (auto simp: truth_values_def reduce_specialized_and_def agg_value_def)
next
  case (3 c v key)
  then show ?case using truthfulD(4,5) [of ops D] by (auto simp: truth_values_def and_value)
next
  case (7 c a b key)
  then show ?case using truthfulD(1,6,7) [of ops D] by (auto simp: truth_values_def and_value)
qed (simp_all add: and_value fun_eq_iff reduce_specialized_and_def)

interpretation disj: grouping py "reduce_specialized_or ops" "truth_values ops D" for py ops D
proof (unfold_locales, goal_cases)
  case (1 v)
  then show ?case using truthfulD(2) [of ops D v] by (simp add: truth_values_def)
next
  case (2 c v key)
  then show ?case
    using truthfulD(3) [of ops D] by (auto simp: truth_values_def reduce_specialized_or_def agg_value_def)
next
  case (3 c v key)
  then show ?case using truthfulD(4,5) [of ops D] by (auto simp: truth_values_def or_value)
next
  case (7 c a b key)
  then show ?case using truthfulD(1,6,7) [of ops D] by (auto simp: truth_values_def or_value)
qed (simp_all add: or_value fun_eq_iff reduce_specialized_or_def)

text \<open>The larger of two values, or the smaller, depending on the comparison.\<close>

definition picked :: "(pyobj \<Rightarrow> pyobj \<Rightarrow> cmp) \<Rightarrow> pyobj \<Rightarrow> pyobj \<Rightarrow> pyobj" where
  "picked cmp c v = (if c \<noteq> NOT_FOUND \<and> cmp c v = CmpTrue then c else v)"

lemma ordered_byD:
  assumes "ordered_by cmp D"
  shows "D a \<Longrightarrow> a \<noteq> NOT_FOUND" and "D a \<Longrightarrow> \<not> is_sentinel a"
    and "D a \<Longrightarrow> D b \<Longrightarrow> cmp a b \<noteq> CmpError" and "D a \<Longrightarrow> D b \<Longrightarrow> cmp a b \<noteq> CmpTrue \<Longrightarrow> cmp b a = CmpTrue"
    and "D a \<Longrightarrow> D b \<Longrightarrow> D c \<Longrightarrow> cmp a b = CmpTrue \<Longrightarrow> cmp b c = CmpTrue \<Longrightarrow> cmp a c = CmpTrue"
proof -
  from assms have o: "\<And>a. D a \<Longrightarrow> \<not> is_sentinel a"
    "\<And>a b. D a \<Longrightarrow> D b \<Longrightarrow> cmp a b \<noteq> CmpError \<and> (cmp a b = CmpTrue \<or> cmp b a = CmpTrue)"
    "\<And>a b c. D a \<Longrightarrow> D b \<Longrightarrow> D c \<Longrightarrow> cmp a b = CmpTrue \<Longrightarrow> cmp b c = CmpTrue \<Longrightarrow> cmp a c = CmpTrue"
    unfolding ordered_by_def by blast+
  show "D a \<Longrightarrow> \<not> is_sentinel a" for a by (rule o(1))
  then show "D a \<Longrightarrow> a \<noteq> NOT_FOUND" by (auto simp: is_sentinel_def)
  show "D a \<Longrightarrow> D b \<Longrightarrow> cmp a b \<noteq> CmpError" "D a \<Longrightarrow> D b \<Longrightarrow> cmp a b \<noteq> CmpTrue \<Longrightarrow> cmp b a = CmpTrue"
    using o(2) by blast+
  show "D a \<Longrightarrow> D b \<Longrightarrow> D c \<Longrightarrow> cmp a b = CmpTrue \<Longrightarrow> cmp b c = CmpTrue \<Longrightarrow> cmp a c = CmpTrue" by (rule o(3))
qed

lemma picked_assoc:
  assumes "ordered_by cmp D" and "c = NOT_FOUND \<or> D c" and "D a" and "D b"
  shows "picked cmp c (picked cmp a b) = picked cmp (picked cmp c a) b"
proof (cases "c = NOT_FOUND")
  case True
  then show ?thesis by (simp add: picked_def)
next
  case False
  with assms have D: "D c" "D a" "D b" by simp_all
  note o = ordered_byD [OF assms(1)]
  from o(5) [OF D] o(5) [OF D(1,3,2)] o(4) [OF D(2,3)] o(1) D False show ?thesis
    by (auto simp: picked_def)
qed

lemma grouping_pick:
  assumes f: "\<And>key c v. ordered_by cmp D \<Longrightarrow> c = NOT_FOUND \<or> D c \<Longrightarrow> D v \<Longrightarrow> f key c v = (Some (picked cmp c v), False)"
    and resp: "\<And>key key'. f key = f key'"
  shows "grouping py f (ordered_values cmp D)"
proof -
  have val: "agg_value f key c v = picked cmp c v" if "ordered_by cmp D" "c = NOT_FOUND \<or> D c" "D v" for key c v
    using f [OF that, of key] by (simp add: agg_value_def)
  have cl: "D (picked cmp c v)" if "c = NOT_FOUND \<or> D c" "D v" for c v
    using that by (auto simp: picked_def)
  show ?thesis
  proof (unfold_locales, goal_cases)
    case (1 v)
    then show ?case using ordered_byD(2) [of cmp D v] by (simp add: ordered_values_def)
  next
    case (2 c v key)
    then have "ordered_by cmp D" "c = NOT_FOUND \<or> D c" "D v" by (auto simp: ordered_values_def)
    then show ?case by (simp add: f val)
  next
    case (3 c v key)
    then have "ordered_by cmp D" "c = NOT_FOUND \<or> D c" "D v" by (auto simp: ordered_values_def)
    then show ?case using cl by (simp add: ordered_values_def val)
  next
    case (4 key key')
    show ?case by (rule resp)
  next
    case (5 c v key)
    then have "ordered_by cmp D" "c = NOT_FOUND \<or> D c" "D v" by (auto simp: ordered_values_def)
    then show ?case using cl [of c v] by (simp add: val) (simp add: picked_def)
  next
    case (6 c v key)
    then have "ordered_by cmp D" "c = NOT_FOUND \<or> D c" "D v" by (auto simp: ordered_values_def)
    then show ?case by (simp add: val picked_def [of cmp NOT_FOUND])
  next
    case (7 c a b key)
    then have o: "ordered_by cmp D" "c = NOT_FOUND \<or> D c" "D a" "D b" by (auto simp: ordered_values_def)
    with picked_assoc [OF o] cl [of c a] cl [of a b] show ?case by (simp add: val)
  qed
qed

interpretation maximum: grouping py "reduce_specialized_max ops" "ordered_values (RichCompareGE ops) D" for py ops D
proof (rule grouping_pick)
  fix key c v assume "ordered_by (RichCompareGE ops) D" "c = NOT_FOUND \<or> D c" "D v"
  with ordered_byD(1,3) [of "RichCompareGE ops" D]
  show "reduce_specialized_max ops key c v = (Some (picked (RichCompareGE ops) c v), False)"
    by (auto simp: reduce_specialized_max_def picked_def split: cmp.split)
qed (simp add: fun_eq_iff reduce_specialized_max_def)

interpretation minimum: grouping py "reduce_specialized_min ops" "ordered_values (RichCompareLE ops) D" for py ops D
proof (rule grouping_pick)
  fix key c v assume "ordered_by (RichCompareLE ops) D" "c = NOT_FOUND \<or> D c" "D v"
  with ordered_byD(1,3) [of "RichCompareLE ops" D]
  show "reduce_specialized_min ops key c v = (Some (picked (RichCompareLE ops) c v), False)"
    by (auto simp: reduce_specialized_min_def picked_def split: cmp.split)
qed (simp add: fun_eq_iff reduce_specialized_min_def)

lemma to_list_idem: "PyList_CheckExact ops l \<Longrightarrow> to_list ops l = Some l"
  by (simp add: to_list_def)

lemma listableD:
  assumes "listable ops D"
  shows "D a \<Longrightarrow> a \<noteq> NOT_FOUND" and "D a \<Longrightarrow> \<not> is_sentinel a"
    and "D a \<Longrightarrow> \<exists>l. to_list ops a = Some l \<and> D l \<and> PyList_CheckExact ops l"
    and "summable ops (\<lambda>l. D l \<and> PyList_CheckExact ops l)"
  using assms by (auto simp: listable_def is_sentinel_def)

text \<open>What the list function returns.\<close>

definition list_value :: "value_ops \<Rightarrow> pyobj \<Rightarrow> pyobj \<Rightarrow> pyobj" where
  "list_value ops c v =
     (if c = NOT_FOUND then the (to_list ops v) else the (PyNumber_Add ops (the (to_list ops c)) (the (to_list ops v))))"

lemma list_run:
  assumes ok: "listable ops D" and c: "c = NOT_FOUND \<or> D c" and v: "D v"
  shows "reduce_specialized_list ops key c v = (Some (list_value ops c v), False)"
    and "D (list_value ops c v)" and "PyList_CheckExact ops (list_value ops c v)"
proof -
  note l = listableD [OF ok]
  from l(3) [OF v] obtain lv where lv: "to_list ops v = Some lv" "D lv" "PyList_CheckExact ops lv" by blast
  have "reduce_specialized_list ops key c v = (Some (list_value ops c v), False) \<and> D (list_value ops c v) \<and>
      PyList_CheckExact ops (list_value ops c v)"
  proof (cases "c = NOT_FOUND")
    case True
    with lv show ?thesis by (simp add: reduce_specialized_list_def list_value_def returned_def)
  next
    case False
    with c have "D c" by simp
    from l(3) [OF this] obtain lc where lc: "to_list ops c = Some lc" "D lc" "PyList_CheckExact ops lc" by blast
    with lv summableD(3) [OF l(4), of lc lv] False show ?thesis
      by (auto simp: reduce_specialized_list_def list_value_def returned_def)
  qed
  then show "reduce_specialized_list ops key c v = (Some (list_value ops c v), False)"
    and "D (list_value ops c v)" and "PyList_CheckExact ops (list_value ops c v)" by simp_all
qed

interpretation listing: grouping py "reduce_specialized_list ops" "list_values ops D" for py ops D
proof -
  have val: "agg_value (reduce_specialized_list ops) key c v = list_value ops c v"
    if "listable ops D" "c = NOT_FOUND \<or> D c" "D v" for key c v
    using list_run(1) [OF that, of key] by (simp add: agg_value_def)
  note D = list_values_def
  show "grouping py (reduce_specialized_list ops) (list_values ops D)"
  proof (unfold_locales, goal_cases)
    case (1 v)
    then show ?case using listableD(2) [of ops D v] by (simp add: D)
  next
    case (2 c v key)
    then have o: "listable ops D" "c = NOT_FOUND \<or> D c" "D v" by (auto simp: D)
    then show ?case by (simp add: list_run(1) val)
  next
    case (3 c v key)
    then have o: "listable ops D" "c = NOT_FOUND \<or> D c" "D v" by (auto simp: D)
    then show ?case using list_run(2) [OF o] by (simp add: D val)
  next
    case (4 key key')
    show ?case by (simp add: fun_eq_iff reduce_specialized_list_def)
  next
    case (5 c v key)
    then have o: "listable ops D" "c = NOT_FOUND \<or> D c" "D v" by (auto simp: D)
    from list_run(2,3) [OF o] o show ?case by (simp add: val) (simp add: list_value_def [of ops NOT_FOUND] to_list_idem)
  next
    case (6 c v key)
    then have o: "listable ops D" "c = NOT_FOUND \<or> D c" "D v" by (auto simp: D)
    then have n: "D (list_value ops NOT_FOUND v)" "PyList_CheckExact ops (list_value ops NOT_FOUND v)"
      using list_run(2,3) [of ops D NOT_FOUND v] by simp_all
    with o show ?case by (simp add: val) (simp add: list_value_def to_list_idem)
  next
    case (7 c a b key)
    then have o: "listable ops D" "c = NOT_FOUND \<or> D c" "D a" "D b" by (auto simp: D)
    have lists: "D (list_value ops a b)" "PyList_CheckExact ops (list_value ops a b)"
      "D (list_value ops c a)" "PyList_CheckExact ops (list_value ops c a)"
      using list_run(2,3) [OF o(1) _ o(4), of a] list_run(2,3) [OF o(1,2,3)] o by simp_all
    note l = listableD [OF o(1)]
    from l(3) [OF o(3)] l(3) [OF o(4)] obtain la lb where
      ab: "to_list ops a = Some la" "D la" "PyList_CheckExact ops la" "to_list ops b = Some lb" "D lb" "PyList_CheckExact ops lb"
      by blast
    have ne: "a \<noteq> NOT_FOUND" "list_value ops c a \<noteq> NOT_FOUND" using l(1) o(3) lists(3) by blast+
    have "list_value ops c (list_value ops a b) = list_value ops (list_value ops c a) b"
    proof (cases "c = NOT_FOUND")
      case True
      with lists ab ne show ?thesis by (simp add: list_value_def to_list_idem)
    next
      case False
      with o(2) l(3) [of c] obtain lc where c: "to_list ops c = Some lc" "D lc" "PyList_CheckExact ops lc" by blast
      with False lists ab ne summableD(4) [OF l(4), of lc la lb] show ?thesis by (simp add: list_value_def to_list_idem)
    qed
    with o lists show ?case by (simp add: val)
  qed
qed

subsection \<open>Sums that count\<close>

text \<open>The number that a map has for a key, where the values stand for numbers.\<close>

definition tally :: "(pyobj \<Rightarrow> int) \<Rightarrow> pymap \<Rightarrow> pyobj \<Rightarrow> int" where
  "tally num M k = (case M k of None \<Rightarrow> 0 | Some v \<Rightarrow> num v)"

lemma tally_aggregate_into:
  assumes wb: "well_behaved_keys py" and sum: "summable ops D"
    and num: "\<And>a b. D a \<Longrightarrow> D b \<Longrightarrow> num (the (PyNumber_Add ops a b)) = num a + num b"
  shows "items_in py D kvs \<Longrightarrow> values_in D M \<Longrightarrow> class_map py M \<Longrightarrow>
    tally num (aggregate_into py (reduce_specialized_sum ops) kvs M) k =
      tally num M k + (\<Sum>(k', v)\<leftarrow>kvs. if same_key py k' k then num v else 0)"
proof (induction kvs arbitrary: M)
  case (Cons kv kvs)
  obtain k' v where kv: "kv = (k', v)" by (cases kv)
  from Cons.prems(1) have items: "items_in py D kvs" and v: "D v" by (auto simp: items_in_def kv)
  let ?M = "aggregate_at py (reduce_specialized_sum ops) k' v M"
  have D: "sum_values ops D = D" using sum by (auto simp: sum_values_def)
  have vM: "values_in D ?M" using sum.values_in_aggregate_at [of ops D M v py k'] Cons.prems(2) v by (simp add: D)
  have cM: "class_map py ?M" by (rule class_map_aggregate_at [OF wb Cons.prems(3)])
  have "tally num ?M k = tally num M k + (if same_key py k' k then num v else 0)"
  proof (cases "same_key py k' k")
    case True
    with Cons.prems(3) have "M k' = M k" by (simp add: class_map_def)
    with True num v Cons.prems(2) summableD(1) [OF sum] show ?thesis
      by (auto simp: tally_def aggregate_at_apply sum_value looked_up_def values_in_def split: option.split)
  qed (simp add: tally_def aggregate_at_apply)
  with Cons.IH [OF items vM cM] show ?case by (simp add: kv)
qed simp

subsection \<open>Properties\<close>


definition example_ops :: value_ops where
  "example_ops =
     \<lparr>PyNumber_Add = (\<lambda>a b. case (a, b) of (Obj m, Obj n) \<Rightarrow> Some (Obj (m + n)) | _ \<Rightarrow> None),
      PyObject_IsTrue = (\<lambda>a. case a of Obj n \<Rightarrow> if n = 13 then -1 else if n = 0 then 0 else 1 | Py_True \<Rightarrow> 1 | _ \<Rightarrow> 0),
      RichCompareGE = (\<lambda>_ _. CmpError), RichCompareLE = (\<lambda>_ _. CmpError),
      PyList_CheckExact = (\<lambda>_. False), PyList_of = (\<lambda>_. None), PyLong_One = Obj 1\<rparr>"

definition example_number :: "pyobj \<Rightarrow> bool" where
  "example_number v = (case v of Obj n \<Rightarrow> True | _ \<Rightarrow> False)"

lemma example_numberE: "example_number v \<Longrightarrow> (\<And>n. v = Obj n \<Longrightarrow> P) \<Longrightarrow> P"
  by (cases v) (simp_all add: example_number_def)

lemma example_summable: "summable example_ops example_number"
  unfolding summable_def
  by (auto elim!: example_numberE simp: example_ops_def is_sentinel_def) (simp add: example_number_def)

lemma example_sum_values: "sum_values example_ops example_number = example_number"
  using example_summable by (simp add: fun_eq_iff sum_values_def)






text \<open>
  The documentation of \<open>reduce_and\<close> and \<open>reduce_or\<close> says that a value for a new key is stored as
  \<^verbatim>\<open>not not value\<close>.  The code stores the value itself, which need not be a truth value.
\<close>

theorem reduce_and_keeps_a_first_value:
  assumes "truthful ops D" and "well_behaved_keys py" and "PyObject_Hash py key \<noteq> -1" and "\<not> is_sentinel key" and "D v"
    and "dict_ok py 2 d" and "values_in D (dict_map py d)" and "dict_map py d key = None"
  shows "(case AtomicDict_ReduceAnd_callable py ops tid (Some \<lparr>ri_items = [Pair key v], ri_raises = False\<rparr>) [] d of
            None \<Rightarrow> False
          | Some (r, _, d') \<Rightarrow> r = Inr () \<and> dict_map py d' key = Some v)"
proof -
  have D: "truth_values ops D = D" using assms(1) by (auto simp: truth_values_def)
  have items: "items_in py D [(key, v)]" and st: "store_ok py (length [(key, v)] + 0) d"
    using assms by (simp_all add: items_in_def store_ok_def)
  from conj.reduce_impl_ok [where ops = ops and D = D, unfolded D, OF assms(2) items _ st assms(7),
      where arg = "Specialized (reduce_specialized_and ops)" and tid = tid]
  show ?thesis
    using assms(8) same_key_refl [OF assms(2)]
    by (auto simp: AtomicDict_ReduceAnd_callable_def AtomicDict_ReduceAnd_def reduce_result_def reduce_pairs_def
        aggregate_at_apply looked_up_def and_value)
qed

definition example_truth :: "pyobj \<Rightarrow> bool" where
  "example_truth v = (case v of Obj n \<Rightarrow> n \<noteq> 13 | Py_True \<Rightarrow> True | Py_False \<Rightarrow> True | _ \<Rightarrow> False)"

theorem reduce_and_keeps_a_first_value_witness:
  "(case AtomicDict_ReduceAnd_callable example_env example_ops 7
           (Some \<lparr>ri_items = [Pair (Obj 1) (Obj 5)], ri_raises = False\<rparr>) [] fresh_dict of
      None \<Rightarrow> False
    | Some (r, _, d') \<Rightarrow> r = Inr () \<and> dict_map example_env d' (Obj 1) = Some (Obj 5))"
proof -
  have "truthful example_ops example_truth"
    by (auto simp: truthful_def example_ops_def example_truth_def is_sentinel_def split: pyobj.splits)
  moreover have "dict_ok example_env 2 fresh_dict" using dict_ok_mono [OF fresh_dict_ok] by simp
  ultimately show ?thesis
    using reduce_and_keeps_a_first_value [where ops = example_ops and D = example_truth and py = example_env
        and key = "Obj 1" and v = "Obj 5" and d = fresh_dict and tid = 7] example_env_ok
    by (simp add: example_truth_def is_sentinel_def values_in_def fresh_dict_map)
qed

subsection \<open>Exceptions that are lost\<close>

lemma dict_values_proper:
  assumes "dict_ok py n d"
  shows "values_in (\<lambda>v. \<not> is_sentinel v) (dict_map py d)"
proof -
  from assms obtain mid where t: "table_ok py mid d" by (auto simp: dict_ok_def)
  from table_okD(1,7) [OF t] show ?thesis by (simp add: values_in_def dict_map_def proper_values_def)
qed

text \<open>The local table of one item.\<close>

lemma reduce_one_item:
  assumes wb: "well_behaved_keys py" and hash: "PyObject_Hash py key \<noteq> -1" and f: "f key NOT_FOUND v = (Some v, False)"
  obtains t0 t where "reduce_table_new REDUCE_TABLE_INITIAL_LOG_SIZE [] = (Inr t0, [])"
    and "reduce_items py f t0 False [] [Pair key v] = Some (Inr (t, False), [])"
    and "rt_used t = 1" and "re_key (rt_entries t 0) = key" and "re_expected (rt_entries t 0) = NOT_FOUND"
    and "re_desired (rt_entries t 0) = v"
proof -
  from reduce_table_new_ok [of py] obtain t0 where t0: "reduce_table_new REDUCE_TABLE_INITIAL_LOG_SIZE [] = (Inr t0, [])"
    "rt_ok py t0" "rt_map py t0 = Map.empty" "rt_used t0 = 0" by blast
  have small: "rt_used t0 < 2 ^ 60" by (simp add: t0(4))
  show thesis
  proof (rule reduce_table_set_ok [OF t0(2) wb small, where key = key and expected = NOT_FOUND and desired = v])
    fix t assume t: "reduce_table_set py t0 key (PyObject_Hash py key) NOT_FOUND v [] = Some (Inr (t, False), [])"
      "rt_ok py t" "rt_used t \<le> Suc (rt_used t0)"
      "\<And>k. rt_map py t k = (if same_key py key k then Some (NOT_FOUND, v) else rt_map py t0 k)"
    have m: "rt_map py t key = Some (NOT_FOUND, v)" using t(4) same_key_refl [OF wb] by simp
    have "rt_used t \<noteq> 0"
    proof
      assume "rt_used t = 0"
      then have "rt_map py t key = None" by (simp add: rt_map_None)
      with m show False by simp
    qed
    with t(3) t0(4) have u: "rt_used t = 1" by simp
    with reduce_table_set_keys [OF t(1)] rt_keys_empty [OF t0(4)] have k: "re_key (rt_entries t 0) = key"
      by (auto simp: rt_keys_def)
    from rt_map_Some [OF t(2) wb, of 0 key] m u k same_key_refl [OF wb]
    have "re_expected (rt_entries t 0) = NOT_FOUND" "re_desired (rt_entries t 0) = v" by simp_all
    moreover have "reduce_items py f t0 False [] [Pair key v] = Some (Inr (t, False), [])"
      using hash f t(1) reduce_table_get_ok [OF t0(2) wb, of key] by (simp add: t0(3) Let_def)
    ultimately show thesis using t0(1) u k by (intro that [of t0 t])
  qed
qed

text \<open>A flush that finds a value, when nobody interferes.\<close>

lemma flush_alone:
  assumes ok: "store_ok py 1 d" and hash: "PyObject_Hash py key \<noteq> -1" and key: "\<not> is_sentinel key"
    and c: "dict_map py d key = Some c" and f: "f key c new = (Some b, err)" and b: "\<not> is_sentinel b"
  obtains d' where "flush_one py tid f key NOT_FOUND new False [] d = Some (Inr err, [], d')"
    and "dict_map py d' = map_put py key (Some b) (dict_map py d)"
proof -
  have look: "looked_up (dict_map py d) key = c" by (simp add: looked_up_def c)
  from ok have val: "values_in (\<lambda>v. \<not> is_sentinel v) (dict_map py d)" by (auto simp: store_ok_def intro: dict_values_proper)
  with c have cp: "\<not> is_sentinel c" by (simp add: values_in_def)
  then have c': "c \<noteq> NOT_FOUND" by (auto simp: is_sentinel_def)
  from get_current [OF ok hash, of tid, unfolded look] obtain d1 where
    d1: "AtomicDict_GetItemOrDefault py tid key (Some NOT_FOUND) [] d = Some (Inr (Some c), d1)"
    "store_ok py 1 d1" "dict_map py d1 = dict_map py d" .
  from get_current [OF d1(2) hash, of tid, unfolded d1(3) look] obtain d2 where
    d2: "AtomicDict_GetItemOrDefault py tid key (Some NOT_FOUND) [] d1 = Some (Inr (Some c), d2)"
    "store_ok py (Suc 0) d2" "dict_map py d2 = dict_map py d" by auto
  show thesis
  proof (rule exchange_ok [OF d2(2) hash key b disjI2 [OF cp], unfolded d2(3) look, OF val, of tid])
    fix previous d3
    assume d3: "AtomicDict_CompareAndSet py tid key c b d2 = Some (Inr previous, d3)"
      "(previous \<noteq> EXPECTATION_FAILED) = (c = c)"
      "dict_map py d3 = (if c = c then map_put py key (Some b) (dict_map py d) else dict_map py d)"
    have "flush_one py tid f key NOT_FOUND new False [] d = Some (Inr err, [], d3)"
      unfolding flush_one_def
      by (subst flush_loop.simps, simp add: d1(1) flush_attempt_def c' f, subst flush_loop.simps)
        (use d3(2) in \<open>simp add: d2(1) flush_attempt_def d3(1)\<close>)
    with d3(3) show thesis by (intro that [of d3]) simp_all
  qed
qed

text \<open>
  C24: \<open>reduce_and\<close> takes a truth value that raises for a true one: when the value in the dictionary
  cannot be tested, the reduction stores a truth value in its place nevertheless, and only then the
  method fails, with the \<open>SystemError\<close> of a call that returned a result while an exception was set.
\<close>

theorem reduce_and_stores_in_spite_of_exception:
  assumes "well_behaved_keys py" and "dict_ok py 2 d" and "PyObject_Hash py key \<noteq> -1" and "\<not> is_sentinel key"
    and "dict_map py d key = Some c" and "PyObject_IsTrue ops c < 0"
  shows "(case AtomicDict_ReduceAnd_callable py ops tid (Some \<lparr>ri_items = [Pair key v], ri_raises = False\<rparr>) [] d of
            None \<Rightarrow> False
          | Some (r, _, d') \<Rightarrow> r = Inl SystemError \<and>
              dict_map py d' key = Some (if PyObject_IsTrue ops v \<noteq> 0 then Py_True else Py_False))"
proof -
  let ?f = "reduce_specialized_and ops" and ?b = "if PyObject_IsTrue ops v \<noteq> 0 then Py_True else Py_False"
  from assms(2) have mem: "allocations d = []" by (simp add: dict_ok_def)
  have same: "d\<lparr>allocations := []\<rparr> = d" using mem by simp
  have st: "store_ok py 1 d" using assms(1,2) by (simp add: store_ok_def)
  from dict_values_proper [OF assms(2)] assms(5) have c: "c \<noteq> NOT_FOUND" by (auto simp: values_in_def is_sentinel_def)
  have b: "?f key c v = (Some ?b, True)" and bp: "\<not> is_sentinel ?b" and first: "?f key NOT_FOUND v = (Some v, False)"
    using assms(6) c by (auto simp: reduce_specialized_and_def is_sentinel_def)
  show ?thesis
  proof (rule reduce_one_item [where f = "reduce_specialized_and ops", OF assms(1,3) first])
    fix t0 t assume t: "reduce_table_new REDUCE_TABLE_INITIAL_LOG_SIZE [] = (Inr t0, [])"
      "reduce_items py ?f t0 False [] [Pair key v] = Some (Inr (t, False), [])"
      "rt_used t = 1" "re_key (rt_entries t 0) = key" "re_expected (rt_entries t 0) = NOT_FOUND" "re_desired (rt_entries t 0) = v"
    from flush_alone [where f = "reduce_specialized_and ops", OF st assms(3-5) b bp, of tid] obtain d' where
      d': "flush_one py tid ?f key NOT_FOUND v False [] d = Some (Inr True, [], d')"
      "dict_map py d' = map_put py key (Some ?b) (dict_map py d)" .
    have "reduce_flush py tid ?f t False [] d = Some (Inr True, [], d')"
      using d'(1) t(3-6) by (simp add: reduce_flush_def flush_order_def)
    then have "AtomicDict_Reduce_impl py tid (Some \<lparr>ri_items = [Pair key v], ri_raises = False\<rparr>) (Specialized ?f) [] d =
        Some (Inr True, [], d')"
      using t(1,2) by (simp add: AtomicDict_Reduce_impl_def mem same Let_def del: reduce_items.simps)
    with d'(2) same_key_refl [OF assms(1)] show ?thesis
      by (simp add: AtomicDict_ReduceAnd_callable_def AtomicDict_ReduceAnd_def reduce_result_def map_put_def)
  qed
qed

lemma stored_item:
  assumes "well_behaved_keys py" and "dict_ok py (n + 2) d" and "PyObject_Hash py key \<noteq> -1" and "\<not> is_sentinel key" and "\<not> is_sentinel v"
  obtains d' where "AtomicDict_SetItem py tid key (Some v) d = Some (Inr (), d')" and "dict_ok py n d'"
    and "dict_map py d' key = Some v"
  using agrees_set [OF assms(2,1), of tid key v] assms(3-5) same_key_refl [OF assms(1)]
  by (auto simp: agrees_def set_spec_def hashable_def map_put_def)

definition example_stored :: dict where
  "example_stored = (case AtomicDict_SetItem example_env 1 (Obj 1) (Some (Obj 13)) fresh_dict of Some (_, d) \<Rightarrow> d)"

lemma example_stored_ok: "dict_ok example_env 2 example_stored" "dict_map example_env example_stored (Obj 1) = Some (Obj 13)"
proof -
  have "dict_ok example_env (2 + 2) fresh_dict" using dict_ok_mono [OF fresh_dict_ok] by simp
  from stored_item [OF example_env_ok this, of "Obj 1" "Obj 13" 1] obtain d' where
    "AtomicDict_SetItem example_env 1 (Obj 1) (Some (Obj 13)) fresh_dict = Some (Inr (), d')" "dict_ok example_env 2 d'"
    "dict_map example_env d' (Obj 1) = Some (Obj 13)" by (auto simp: is_sentinel_def)
  then show "dict_ok example_env 2 example_stored" "dict_map example_env example_stored (Obj 1) = Some (Obj 13)"
    by (simp_all add: example_stored_def)
qed

theorem reduce_and_stores_in_spite_of_exception_witness:
  "(case AtomicDict_ReduceAnd_callable example_env example_ops 7
           (Some \<lparr>ri_items = [Pair (Obj 1) (Obj 5)], ri_raises = False\<rparr>) [] example_stored of
      None \<Rightarrow> False
    | Some (r, _, d') \<Rightarrow> r = Inl SystemError \<and> dict_map example_env d' (Obj 1) = Some Py_True)"
proof -
  have "PyObject_IsTrue example_ops (Obj 13) = -1" "PyObject_IsTrue example_ops (Obj 5) = 1" by (simp_all add: example_ops_def)
  with reduce_and_stores_in_spite_of_exception [OF example_env_ok example_stored_ok(1) _ _ example_stored_ok(2),
      where ops = example_ops and tid = 7 and v = "Obj 5"]
  show ?thesis by (simp add: is_sentinel_def split: option.splits prod.splits)
qed

end
