(* ===== verification/Handles.thy ===== *)
theory Handles
  imports AtomicIntOps
begin

text \<open>
  \<open>ThreadHandle\<close>, from \<^verbatim>\<open>src/src/cereggii/thread_handle.c\<close>, and the \<open>get_handle\<close> methods of the
  atomic types.

  A handle is an object that holds a reference to another and passes every operation on to it.  The
  state has the handles that exist and the number of references to every object.  What the C code
  does to memory that is not what it takes it for (an object that is not a handle read as one, an
  object used after it has been freed) has no result: \<open>None\<close>.
\<close>

record ThreadHandle =
  handled :: "pyobj option"
  handle_tid :: nat

record handle_world =
  handles :: "pyobj \<rightharpoonup> ThreadHandle"
  counts :: "pyobj \<Rightarrow> int"

subsection \<open>References\<close>

text \<open>A reference cannot be taken to an object that has none: it has been freed.\<close>

definition Py_INCREF :: "pyobj \<Rightarrow> handle_world \<Rightarrow> handle_world option" where
  "Py_INCREF x w = (if counts w x \<le> 0 then None else Some (w\<lparr>counts := (counts w)(x := counts w x + 1)\<rparr>))"

definition Py_DECREF :: "pyobj \<Rightarrow> handle_world \<Rightarrow> handle_world" where
  "Py_DECREF x w = w\<lparr>counts := (counts w)(x := counts w x - 1)\<rparr>"

text \<open>\<open>((ThreadHandle *) x)->obj\<close>\<close>

definition object_of :: "handle_world \<Rightarrow> pyobj \<Rightarrow> pyobj option option" where
  "object_of w x = map_option handled (handles w x)"

definition store_object :: "pyobj \<Rightarrow> pyobj option \<Rightarrow> handle_world \<Rightarrow> handle_world" where
  "store_object h v w = w\<lparr>handles := (handles w)(h := map_option (\<lambda>r. r\<lparr>handled := v\<rparr>) (handles w h))\<rparr>"

text \<open>
  A handle is an instance of its type.  Of another object, Python asks for its attribute
  \<open>__class__\<close>: \<open>claims\<close> is 0 when that is not the type of handles, 1 when it is, -1 when it raises.
\<close>

definition PyObject_IsInstance :: "(pyobj \<Rightarrow> int) \<Rightarrow> handle_world \<Rightarrow> pyobj \<Rightarrow> int" where
  "PyObject_IsInstance claims w x = (if handles w x = None then claims x else 1)"

subsection \<open>Life of a handle\<close>

text \<open>The allocator gives a new object with one reference that belongs to the thread, or fails.\<close>

definition ThreadHandle_new :: "pyobj option \<Rightarrow> nat \<Rightarrow> handle_world \<Rightarrow> (pyobj outcome \<times> handle_world) option" where
  "ThreadHandle_new tp_alloc tid w =
     (case tp_alloc of
        None \<Rightarrow> Some (Inl MemoryError, w)
      | Some self \<Rightarrow>
          map_option (\<lambda>w. (Inr self, w))
            (Py_INCREF Py_None
              (w\<lparr>handles := (handles w)(self \<mapsto> \<lparr>handled = Some Py_None, handle_tid = tid\<rparr>),
                 counts := (counts w)(self := 1)\<rparr>)))"

definition ThreadHandle_clear :: "pyobj \<Rightarrow> handle_world \<Rightarrow> handle_world option" where
  "ThreadHandle_clear self w =
     map_option (\<lambda>obj. case obj of None \<Rightarrow> w | Some x \<Rightarrow> Py_DECREF x (store_object self None w)) (object_of w self)"

definition ThreadHandle_traverse :: "pyobj \<Rightarrow> handle_world \<Rightarrow> pyobj list option" where
  "ThreadHandle_traverse self w =
     map_option (\<lambda>obj. case obj of None \<Rightarrow> [] | Some x \<Rightarrow> [x]) (object_of w self)"

definition ThreadHandle_dealloc :: "pyobj \<Rightarrow> handle_world \<Rightarrow> handle_world option" where
  "ThreadHandle_dealloc self w =
     map_option (\<lambda>w. w\<lparr>handles := (handles w)(self := None)\<rparr>) (ThreadHandle_clear self w)"

text \<open>
  The build of the free-threaded interpreter, with assertions off.  \<open>args\<close> is the one positional
  argument, or \<open>None\<close> when there is none or more than one.
\<close>

definition ThreadHandle_init ::
  "(pyobj \<Rightarrow> int) \<Rightarrow> nat \<Rightarrow> pyobj \<Rightarrow> pyobj option \<Rightarrow> handle_world \<Rightarrow> (unit outcome \<times> handle_world) option" where
  "ThreadHandle_init claims tid self args w =
     (case handles w self of
        None \<Rightarrow> None
      | Some r \<Rightarrow>
          if tid \<noteq> handle_tid r then Some (Inl RuntimeError, w)
          else
            (case args of
               None \<Rightarrow> Some (Inl TypeError, w)
             | Some obj \<Rightarrow>
                 (case (if PyObject_IsInstance claims w obj \<noteq> 0 then Option.bind (object_of w obj) id else Some obj) of
                    None \<Rightarrow> None
                  | Some obj \<Rightarrow>
                      (case ThreadHandle_clear self w of
                         None \<Rightarrow> None
                       | Some w \<Rightarrow>
                           map_option (\<lambda>w. (Inr (), store_object self (Some obj) w)) (Py_INCREF obj w)))))"

text \<open>
  The methods of the atomic types.  The argument tuple, whose allocation may fail, holds a reference
  to the object; when a step fails after the handle has been made, the handle is not released.
\<close>

definition AtomicDict_GetHandle ::
  "(pyobj \<Rightarrow> int) \<Rightarrow> nat \<Rightarrow> pyobj option \<Rightarrow> bool \<Rightarrow> pyobj \<Rightarrow> handle_world \<Rightarrow> (pyobj outcome \<times> handle_world) option" where
  "AtomicDict_GetHandle claims tid tp_alloc tuple_allocated self w =
     (case ThreadHandle_new tp_alloc tid w of
        None \<Rightarrow> None
      | Some (Inl e, w) \<Rightarrow> Some (Inl e, w)
      | Some (Inr handle, w) \<Rightarrow>
          if \<not> tuple_allocated then Some (Inl MemoryError, w)
          else
            (case Py_INCREF self w of
               None \<Rightarrow> None
             | Some w \<Rightarrow>
                 (case ThreadHandle_init claims tid handle (Some self) w of
                    None \<Rightarrow> None
                  | Some (Inl e, w) \<Rightarrow> Some (Inl e, Py_DECREF self w)
                  | Some (Inr _, w) \<Rightarrow> Some (Inr handle, Py_DECREF self w))))"

definition AtomicRef_GetHandle ::
  "(pyobj \<Rightarrow> int) \<Rightarrow> nat \<Rightarrow> pyobj option \<Rightarrow> bool \<Rightarrow> pyobj \<Rightarrow> handle_world \<Rightarrow> (pyobj outcome \<times> handle_world) option" where
  "AtomicRef_GetHandle = AtomicDict_GetHandle"

definition AtomicInt64_GetHandle ::
  "(pyobj \<Rightarrow> int) \<Rightarrow> nat \<Rightarrow> pyobj option \<Rightarrow> bool \<Rightarrow> pyobj \<Rightarrow> handle_world \<Rightarrow> (pyobj outcome \<times> handle_world) option" where
  "AtomicInt64_GetHandle = AtomicDict_GetHandle"

subsection \<open>Binary operators\<close>

datatype handle_binary = Binary binary_op | MatrixMultiply

text \<open>
  \<open>PyNumber_\<close>\<^emph>\<open>op\<close> is the interpreter's: a parameter, whose result may be an effect on the objects.
  The slot is called with the handle on either side; an error of \<open>PyObject_IsInstance\<close>, which is not
  zero, is taken for an answer.
\<close>

type_synonym 'r handle_number = "handle_binary \<Rightarrow> pyobj option \<Rightarrow> pyobj option \<Rightarrow> 'r option"

definition ThreadHandle_binary ::
  "(pyobj \<Rightarrow> int) \<Rightarrow> handle_world \<Rightarrow> 'r handle_number \<Rightarrow> handle_binary \<Rightarrow> pyobj \<Rightarrow> pyobj \<Rightarrow> 'r option" where
  "ThreadHandle_binary claims w PyNumber bop self other =
     (if PyObject_IsInstance claims w other \<noteq> 0 then
        Option.bind (object_of w other) (\<lambda>other. PyNumber bop (Some self) other)
      else Option.bind (object_of w self) (\<lambda>obj. PyNumber bop obj (Some other)))"

type_synonym 'r handle_power = "pyobj option \<Rightarrow> pyobj option \<Rightarrow> pyobj \<Rightarrow> 'r option"

definition ThreadHandle_Power ::
  "(pyobj \<Rightarrow> int) \<Rightarrow> handle_world \<Rightarrow> 'r handle_power \<Rightarrow> pyobj \<Rightarrow> pyobj \<Rightarrow> pyobj \<Rightarrow> 'r option" where
  "ThreadHandle_Power claims w PyNumber_Power self other m =
     (if PyObject_IsInstance claims w other \<noteq> 0 then
        Option.bind (object_of w other) (\<lambda>other. PyNumber_Power (Some self) other m)
      else Option.bind (object_of w self) (\<lambda>obj. PyNumber_Power obj (Some other) m))"

subsection \<open>Operations that are passed on\<close>

text \<open>Functions of the interpreter, with the arguments that follow the object.\<close>

datatype request =
    PyObject_Hash_of | PyObject_RichCompare pyobj nat
  | PyNumber_unary unary_op | PyNumber_Long | PyObject_IsTrue
  | PyNumber_InPlace handle_binary pyobj | PyNumber_InPlacePower pyobj pyobj
  | PySequence_Length | PySequence_Concat pyobj | PySequence_Repeat int | PySequence_GetItem int
  | PySequence_SetItem int pyobj | PySequence_DelItem int | PySequence_Contains pyobj
  | PySequence_InPlaceConcat pyobj | PySequence_InPlaceRepeat int
  | PyObject_Size | PyMapping_Length | PyObject_GetItem pyobj | PyObject_SetItem pyobj pyobj | PyObject_DelItem pyobj
  | PyObject_Call pyobj "pyobj option" | PyObject_GetIter | PyObject_GetAttr pyobj | PyObject_SetAttr pyobj "pyobj option"

text \<open>The slots of the type, with the arguments that they get; a missing value is a deletion.\<close>

datatype number_slot =
    nb_unary unary_op | nb_int | nb_bool
  | nb_inplace handle_binary pyobj | nb_inplace_power pyobj pyobj

datatype sequence_slot =
    sq_length | sq_concat pyobj | sq_repeat int | sq_item int | sq_ass_item int "pyobj option" | sq_contains pyobj
  | sq_inplace_concat pyobj | sq_inplace_repeat int

datatype mapping_slot = mp_length | mp_subscript pyobj | mp_ass_subscript pyobj "pyobj option"

datatype compare_slot = tp_hash | tp_richcompare pyobj nat

datatype access_slot = tp_call pyobj "pyobj option" | tp_iter | tp_getattro pyobj | tp_setattro pyobj "pyobj option"

datatype slot =
  Number number_slot | Sequence sequence_slot | Mapping mapping_slot | Compare compare_slot | Access access_slot

text \<open>What each function of the file asks of the object of the handle.\<close>

fun number_request :: "number_slot \<Rightarrow> request" where
  "number_request (nb_unary u) = PyNumber_unary u"
| "number_request nb_int = PyNumber_Long"
| "number_request nb_bool = PyObject_IsTrue"
| "number_request (nb_inplace bop other) = PyNumber_InPlace bop other"
| "number_request (nb_inplace_power other m) = PyNumber_InPlacePower other m"

fun sequence_request :: "sequence_slot \<Rightarrow> request" where
  "sequence_request sq_length = PySequence_Length"
| "sequence_request (sq_concat other) = PySequence_Concat other"
| "sequence_request (sq_repeat count) = PySequence_Repeat count"
| "sequence_request (sq_item i) = PySequence_GetItem i"
| "sequence_request (sq_ass_item i v) = (case v of None \<Rightarrow> PySequence_DelItem i | Some v \<Rightarrow> PySequence_SetItem i v)"
| "sequence_request (sq_contains other) = PySequence_Contains other"
| "sequence_request (sq_inplace_concat other) = PySequence_InPlaceConcat other"
| "sequence_request (sq_inplace_repeat count) = PySequence_InPlaceRepeat count"

fun mapping_request :: "mapping_slot \<Rightarrow> request" where
  "mapping_request mp_length = PyMapping_Length"
| "mapping_request (mp_subscript other) = PyObject_GetItem other"
| "mapping_request (mp_ass_subscript key v) =
     (case v of None \<Rightarrow> PyObject_DelItem key | Some v \<Rightarrow> PyObject_SetItem key v)"

fun compare_request :: "compare_slot \<Rightarrow> request" where
  "compare_request tp_hash = PyObject_Hash_of"
| "compare_request (tp_richcompare other op) = PyObject_RichCompare other op"

fun access_request :: "access_slot \<Rightarrow> request" where
  "access_request (tp_call args kwargs) = PyObject_Call args kwargs"
| "access_request tp_iter = PyObject_GetIter"
| "access_request (tp_getattro attr_name) = PyObject_GetAttr attr_name"
| "access_request (tp_setattro attr_name v) = PyObject_SetAttr attr_name v"

fun slot_request :: "slot \<Rightarrow> request" where
  "slot_request (Number s) = number_request s"
| "slot_request (Sequence s) = sequence_request s"
| "slot_request (Mapping s) = mapping_request s"
| "slot_request (Compare s) = compare_request s"
| "slot_request (Access s) = access_request s"

text \<open>The call of a slot; \<open>interpreter\<close> performs a request on an object, or on \<open>NULL\<close>.\<close>

definition ThreadHandle_slot ::
  "handle_world \<Rightarrow> (request \<Rightarrow> pyobj option \<Rightarrow> 'r option) \<Rightarrow> slot \<Rightarrow> pyobj \<Rightarrow> 'r option" where
  "ThreadHandle_slot w interpreter s self = Option.bind (object_of w self) (interpreter (slot_request s))"

text \<open>\<open>%R\<close> is the representation of the object and \<open>%p\<close> that of an address.\<close>

definition ThreadHandle_Repr ::
  "handle_world \<Rightarrow> (pyobj option \<Rightarrow> string outcome) \<Rightarrow> (pyobj \<Rightarrow> string) \<Rightarrow> (nat \<Rightarrow> string) \<Rightarrow> pyobj \<Rightarrow> string outcome option" where
  "ThreadHandle_Repr w repr address_of address self =
     map_option (\<lambda>r.
       case repr (handled r) of
         Inl e \<Rightarrow> Inl e
       | Inr text \<Rightarrow>
           Inr (''<ThreadHandle('' @ text @ '') at '' @ address_of self @ '' belongs to '' @ address (handle_tid r) @ ''>''))
       (handles w self)"

subsection \<open>Facts\<close>

text \<open>The handles on an object, and what holds of all handles.\<close>

definition handles_on :: "handle_world \<Rightarrow> pyobj \<Rightarrow> pyobj set" where
  "handles_on w x = {h. object_of w h = Some (Some x)}"

definition handles_ok :: "(pyobj \<Rightarrow> int) \<Rightarrow> handle_world \<Rightarrow> bool" where
  "handles_ok held w \<longleftrightarrow>
     finite (dom (handles w)) \<and>
     (\<forall>h x. object_of w h = Some (Some x) \<longrightarrow> handles w x = None) \<and>
     (\<forall>x. 0 \<le> held x \<and> counts w x = held x + int (card (handles_on w x))) \<and>
     0 < held Py_None \<and> handles w Py_None = None"

lemma object_of_eq_None [simp]: "object_of w h = None \<longleftrightarrow> handles w h = None"
  by (simp add: object_of_def)

lemma handles_on_finite: "finite (dom (handles w)) \<Longrightarrow> finite (handles_on w x)"
  by (rule finite_subset [of _ "dom (handles w)"]) (auto simp: handles_on_def object_of_def dom_def)

lemma object_of_counts [simp]: "object_of (w\<lparr>counts := c\<rparr>) = object_of w"
  by (simp add: object_of_def fun_eq_iff)

lemma handles_on_counts [simp]: "handles_on (w\<lparr>counts := c\<rparr>) = handles_on w"
  by (simp add: handles_on_def fun_eq_iff)

lemma object_of_store [simp]:
  "object_of (store_object h v w) k = (if k = h then map_option (\<lambda>_. v) (handles w h) else object_of w k)"
  by (simp add: object_of_def store_object_def option.map_comp comp_def)

lemma handles_store [simp]: "(handles (store_object h v w) k = None) = (handles w k = None)"
  by (auto simp: store_object_def)

lemma dom_store [simp]: "dom (handles (store_object h v w)) = dom (handles w)"
  by (auto simp: store_object_def dom_def)

lemma counts_store [simp]: "counts (store_object h v w) = counts w"
  by (simp add: store_object_def)

lemma handles_on_store:
  assumes "handles w h \<noteq> None"
  shows "handles_on (store_object h v w) x = (if v = Some x then insert h (handles_on w x) else handles_on w x - {h})"
  using assms by (auto simp: handles_on_def split: if_splits)

lemma handles_okD:
  assumes "handles_ok held w"
  shows "finite (dom (handles w))" and "object_of w h = Some (Some x) \<Longrightarrow> handles w x = None"
    and "counts w x = held x + int (card (handles_on w x))" and "0 \<le> held x"
    and "0 < held Py_None" and "handles w Py_None = None"
  using assms by (auto simp: handles_ok_def)

text \<open>Storing another object in a handle, with the references to the two.\<close>

lemma handles_ok_store:
  assumes ok: "handles_ok held w" and h: "object_of w h = Some old"
    and new: "\<And>x. v = Some x \<Longrightarrow> handles w x = None"
    and c: "\<And>x. c x = counts w x - (if old = Some x then 1 else 0) + (if v = Some x then 1 else 0)"
  shows "handles_ok held ((store_object h v w)\<lparr>counts := c\<rparr>)"
proof -
  have dom: "handles w h \<noteq> None" using h by (auto simp: object_of_def)
  have member: "h \<in> handles_on w x \<longleftrightarrow> old = Some x" for x using h by (auto simp: handles_on_def)
  note [simp] = handles_on_finite [OF handles_okD(1) [OF ok]]
  have "c x = held x + int (card (handles_on (store_object h v w) x))" for x
  proof (cases "old = Some x")
    case True
    then have "0 < card (handles_on w x)" using member by (auto simp: card_gt_0_iff)
    moreover have "h \<in> handles_on w x" using True member by simp
    ultimately show ?thesis
      using True by (simp add: c handles_on_store [OF dom] handles_okD(3) [OF ok] insert_absorb card_Diff_singleton of_nat_diff)
  next
    case False
    with member show ?thesis by (simp add: c handles_on_store [OF dom] handles_okD(3) [OF ok])
  qed
  then have counted: "\<forall>x. 0 \<le> held x \<and> c x = held x + int (card (handles_on (store_object h v w) x))"
    using handles_okD(4) [OF ok] by blast
  have "object_of (store_object h v w) k = Some (Some x) \<Longrightarrow> handles w x = None" for k x
    using new handles_okD(2) [OF ok] by (auto split: if_splits)
  then have flat: "\<forall>k x. object_of (store_object h v w) k = Some (Some x) \<longrightarrow> handles w x = None" by blast
  show ?thesis
    unfolding handles_ok_def
    by (intro conjI) (use flat counted handles_okD(1,5,6) [OF ok] in \<open>simp_all del: object_of_store\<close>)
qed

lemma handles_ok_held:
  assumes "handles_ok held w" and "c x = held x + d" and "0 \<le> c x" and "x = Py_None \<longrightarrow> 0 < c x"
    and "\<And>y. y \<noteq> x \<Longrightarrow> c y = held y"
  shows "handles_ok c (w\<lparr>counts := (counts w)(x := counts w x + d)\<rparr>)"
  using assms by (auto simp: handles_ok_def)

lemma alive_of_held: "handles_ok held w \<Longrightarrow> 0 < held x \<Longrightarrow> 0 < counts w x"
  by (simp add: handles_okD(3))

lemma alive_of_handle:
  assumes "handles_ok held w" and "object_of w h = Some (Some x)"
  shows "0 < counts w x"
proof -
  have "h \<in> handles_on w x" using assms(2) by (simp add: handles_on_def)
  then have "0 < card (handles_on w x)"
    using handles_on_finite [OF handles_okD(1) [OF assms(1)]] by (auto simp: card_gt_0_iff)
  then show ?thesis using handles_okD(3,4) [OF assms(1), of x] by linarith
qed

lemma handles_ok_new:
  assumes ok: "handles_ok held w" and fresh: "counts w h = 0" "handles w h = None"
  shows "\<exists>w'. ThreadHandle_new (Some h) tid w = Some (Inr h, w') \<and> handles_ok (held(h := 1)) w' \<and>
           handles w' = (handles w)(h \<mapsto> \<lparr>handled = Some Py_None, handle_tid = tid\<rparr>) \<and>
           counts w' = (counts w)(h := 1, Py_None := counts w Py_None + 1)"
proof -
  let ?w = "w\<lparr>handles := (handles w)(h \<mapsto> \<lparr>handled = Some Py_None, handle_tid = tid\<rparr>),
      counts := (counts w)(h := 1, Py_None := counts w Py_None + 1)\<rparr>"
  have none: "0 < counts w Py_None" using alive_of_held [OF ok] handles_okD(5) [OF ok] by blast
  then have h: "h \<noteq> Py_None" using fresh(1) by auto
  have new: "ThreadHandle_new (Some h) tid w = Some (Inr h, ?w)"
    using none h by (simp add: ThreadHandle_new_def Py_INCREF_def)
  have "0 \<le> held h" "counts w h = held h + int (card (handles_on w h))" using handles_okD(3,4) [OF ok] by blast+
  with fresh(1) have "held h = 0" "card (handles_on w h) = 0" by linarith+
  then have unused: "held h = 0" "handles_on w h = {}"
    using handles_on_finite [OF handles_okD(1) [OF ok], of h] by simp_all
  have on: "handles_on (w\<lparr>handles := (handles w)(h \<mapsto> \<lparr>handled = Some Py_None, handle_tid = tid\<rparr>)\<rparr>) x =
      (if x = Py_None then insert h (handles_on w x) else handles_on w x)" for x
    using fresh(2) by (auto simp: handles_on_def object_of_def)
  have "h \<notin> handles_on w x" for x using fresh(2) by (simp add: handles_on_def object_of_def)
  then have "\<forall>x. 0 \<le> (held(h := 1)) x \<and> counts ?w x = (held(h := 1)) x + int (card (handles_on ?w x))"
    using handles_okD(3,4) [OF ok] h unused handles_on_finite [OF handles_okD(1) [OF ok]]
    by (simp add: on)
  moreover have "\<forall>k x. object_of ?w k = Some (Some x) \<longrightarrow> handles ?w x = None"
    using handles_okD(2,6) [OF ok] unused(2) h by (auto simp: object_of_def handles_on_def)
  ultimately have "handles_ok (held(h := 1)) ?w"
    using handles_okD(1,5,6) [OF ok] h by (simp add: handles_ok_def)
  with new show ?thesis by (intro exI [of _ ?w]) simp
qed

text \<open>Taking the object out of a handle, and putting one into it.\<close>

lemma handles_ok_clear:
  assumes "handles_ok held w" and "ThreadHandle_clear h w = Some w'"
  shows "handles_ok held w'" and "object_of w' h = Some None"
    and "object_of w h = Some old \<Longrightarrow> counts w' = (\<lambda>x. counts w x - (if old = Some x then 1 else 0))"
    and "object_of w' = (object_of w)(h := Some None)"
proof -
  from assms(2) obtain old where old: "object_of w h = Some old"
    and w': "w' = (case old of None \<Rightarrow> w | Some x \<Rightarrow> Py_DECREF x (store_object h None w))"
    by (auto simp: ThreadHandle_clear_def)
  show obj: "object_of w' h = Some None"
    using old by (cases old) (auto simp: w' Py_DECREF_def object_of_def store_object_def)
  show "object_of w' = (object_of w)(h := Some None)"
    using old by (cases old) (auto simp: w' Py_DECREF_def object_of_def store_object_def fun_eq_iff)
  show "object_of w h = Some old \<Longrightarrow> counts w' = (\<lambda>x. counts w x - (if old = Some x then 1 else 0))" for old
    using \<open>object_of w h = Some _\<close> by (cases old) (auto simp: w' Py_DECREF_def fun_eq_iff)
  show "handles_ok held w'"
  proof (cases old)
    case None with assms(1) w' show ?thesis by simp
  next
    case (Some x)
    have "handles_ok held ((store_object h None w)\<lparr>counts := (counts w)(x := counts w x - 1)\<rparr>)"
      by (rule handles_ok_store [OF assms(1) old]) (auto simp: Some)
    with w' Some show ?thesis by (simp add: Py_DECREF_def store_object_def)
  qed
qed

lemma handles_ok_init:
  assumes ok: "handles_ok held w" and init: "ThreadHandle_init claims tid h args w = Some (r, w')"
  shows "handles_ok held w'"
    and "r = Inr () \<Longrightarrow> \<exists>obj x. args = Some obj \<and> object_of w' h = Some (Some x) \<and>
           (if PyObject_IsInstance claims w obj \<noteq> 0 then object_of w obj = Some (Some x) else x = obj)"
proof -
  have "handles_ok held w' \<and> (r = Inr () \<longrightarrow> (\<exists>obj x. args = Some obj \<and> object_of w' h = Some (Some x) \<and>
           (if PyObject_IsInstance claims w obj \<noteq> 0 then object_of w obj = Some (Some x) else x = obj)))"
  proof (cases "r = Inr ()")
    case False
    with init ok show ?thesis
      by (auto simp: ThreadHandle_init_def split: option.splits if_splits)
  next
    case True
    with init obtain obj x cleared where args: "args = Some obj"
      and x: "(if PyObject_IsInstance claims w obj \<noteq> 0 then Option.bind (object_of w obj) id else Some obj) = Some x"
      and cleared: "ThreadHandle_clear h w = Some cleared" and "0 < counts cleared x"
      and w': "w' = store_object h (Some x) (cleared\<lparr>counts := (counts cleared)(x := counts cleared x + 1)\<rparr>)"
      by (auto simp: ThreadHandle_init_def Py_INCREF_def split: option.splits if_splits)
    have obj: "if PyObject_IsInstance claims w obj \<noteq> 0 then object_of w obj = Some (Some x) else x = obj"
      using x by (auto split: if_splits bind_splits)
    have "handles w x = None"
      using obj handles_okD(2) [OF ok] by (auto simp: PyObject_IsInstance_def split: if_splits)
    moreover have "handles w h \<noteq> None" using cleared by (auto simp: ThreadHandle_clear_def object_of_def)
    ultimately have "x \<noteq> h" "object_of w x = None" by auto
    then have "object_of cleared x = None" using handles_ok_clear(4) [OF ok cleared] by simp
    then have "handles cleared x = None" by simp
    then have "handles_ok held ((store_object h (Some x) cleared)\<lparr>counts := (counts cleared)(x := counts cleared x + 1)\<rparr>)"
      by (intro handles_ok_store [OF handles_ok_clear(1,2) [OF ok cleared]]) auto
    moreover have "object_of w' h = Some (Some x)"
      using handles_ok_clear(2) [OF ok cleared] by (auto simp: w' object_of_def store_object_def)
    moreover have "w' = (store_object h (Some x) cleared)\<lparr>counts := (counts cleared)(x := counts cleared x + 1)\<rparr>"
      by (simp add: w' store_object_def)
    ultimately show ?thesis using args obj by blast
  qed
  then show "handles_ok held w'"
    "r = Inr () \<Longrightarrow> \<exists>obj x. args = Some obj \<and> object_of w' h = Some (Some x) \<and>
           (if PyObject_IsInstance claims w obj \<noteq> 0 then object_of w obj = Some (Some x) else x = obj)" by blast+
qed

lemma handles_ok_dealloc:
  assumes ok: "handles_ok held w" and dealloc: "ThreadHandle_dealloc h w = Some w'"
  shows "handles_ok held w'"
proof -
  from dealloc obtain c where c: "ThreadHandle_clear h w = Some c" and w': "w' = c\<lparr>handles := (handles c)(h := None)\<rparr>"
    by (auto simp: ThreadHandle_dealloc_def)
  note cleared = handles_ok_clear [OF ok c]
  have obj: "object_of w' k = (if k = h then None else object_of c k)" for k by (simp add: w' object_of_def)
  have "handles_on w' x = handles_on c x" for x using cleared(2) by (auto simp: handles_on_def obj)
  with cleared(1) show ?thesis
    unfolding handles_ok_def by (auto simp: w' object_of_def split: if_splits)
qed

subsection \<open>States that a program reaches\<close>

text \<open>
  \<open>held\<close> are the references that belong to others than the handles.  The allocator gives an object
  that nobody has; the interpreter deallocates one whose count has reached zero; the program takes
  and drops its own references.
\<close>

inductive handle_states :: "(pyobj \<Rightarrow> int) \<Rightarrow> (pyobj \<Rightarrow> int) \<Rightarrow> handle_world \<Rightarrow> bool"
  for claims :: "pyobj \<Rightarrow> int" where
  start: "\<lbrakk>\<And>x. 0 \<le> held x; 0 < held Py_None\<rbrakk> \<Longrightarrow> handle_states claims held \<lparr>handles = Map.empty, counts = held\<rparr>"
| new: "\<lbrakk>handle_states claims held w; counts w h = 0; handles w h = None;
         ThreadHandle_new (Some h) tid w = Some (r, w')\<rbrakk> \<Longrightarrow> handle_states claims (held(h := 1)) w'"
| init: "\<lbrakk>handle_states claims held w; ThreadHandle_init claims tid h args w = Some (r, w')\<rbrakk>
         \<Longrightarrow> handle_states claims held w'"
| clear: "\<lbrakk>handle_states claims held w; ThreadHandle_clear h w = Some w'\<rbrakk> \<Longrightarrow> handle_states claims held w'"
| dealloc: "\<lbrakk>handle_states claims held w; counts w h = 0; ThreadHandle_dealloc h w = Some w'\<rbrakk>
         \<Longrightarrow> handle_states claims held w'"
| take: "\<lbrakk>handle_states claims held w; Py_INCREF x w = Some w'\<rbrakk>
         \<Longrightarrow> handle_states claims (held(x := held x + 1)) w'"
| release: "\<lbrakk>handle_states claims held w; 0 < held x; x = Py_None \<Longrightarrow> 1 < held x\<rbrakk>
         \<Longrightarrow> handle_states claims (held(x := held x - 1)) (Py_DECREF x w)"

lemma handle_states_ok: "handle_states claims held w \<Longrightarrow> handles_ok held w"
proof (induction rule: handle_states.induct)
  case (start held)
  have "handles_on \<lparr>handles = Map.empty, counts = held\<rparr> x = {}" for x by (simp add: handles_on_def object_of_def)
  with start show ?case by (simp add: handles_ok_def object_of_def)
next
  case (new held w h tid r w')
  with handles_ok_new [OF new.IH new.hyps(2,3), of tid] show ?case by (auto simp del: fun_upd_apply)
next
  case (take held w x w')
  then have "0 \<le> held x" using handles_okD(4) by blast
  then have "handles_ok (held(x := held x + 1)) (w\<lparr>counts := (counts w)(x := counts w x + 1)\<rparr>)"
    by (intro handles_ok_held [OF take.IH]) auto
  with take.hyps(2) show ?case by (auto simp: Py_INCREF_def simp del: fun_upd_apply split: if_splits)
next
  case (release held w x)
  have "handles_ok (held(x := held x - 1)) (w\<lparr>counts := (counts w)(x := counts w x + - 1)\<rparr>)"
    using release by (intro handles_ok_held [OF release.IH]) auto
  then show ?case by (simp add: Py_DECREF_def del: fun_upd_apply)
qed (blast intro: handles_ok_init handles_ok_clear handles_ok_dealloc)+


definition example_handle :: handle_world where
  "example_handle =
     \<lparr>handles = [Obj 7 \<mapsto> \<lparr>handled = Some (Obj 3), handle_tid = 1\<rparr>],
      counts = (\<lambda>x. if x = Obj 7 then 1 else if x = Obj 3 then 3 else if x = Py_None then 5 else 0)\<rparr>"

definition example_held :: "pyobj \<Rightarrow> int" where
  "example_held x = (if x = Obj 7 then 1 else if x = Obj 3 then 2 else if x = Py_None then 5 else 0)"

lemma example_handle_reached: "handle_states (\<lambda>_. 0) example_held example_handle"
proof -
  define start :: handle_world where "start = \<lparr>handles = Map.empty, counts = example_held(Obj 7 := 0)\<rparr>"
  define made :: handle_world where "made =
     \<lparr>handles = [Obj 7 \<mapsto> \<lparr>handled = Some Py_None, handle_tid = 1\<rparr>], counts = example_held(Py_None := 6)\<rparr>"
  have "handle_states (\<lambda>_. 0) (example_held(Obj 7 := 0)) start"
    unfolding start_def by (rule handle_states.start) (simp_all add: example_held_def)
  then have "handle_states (\<lambda>_. 0) ((example_held(Obj 7 := 0))(Obj 7 := 1)) made"
    by (rule handle_states.new [where tid = 1 and r = "Inr (Obj 7)"])
       (auto simp: start_def made_def ThreadHandle_new_def Py_INCREF_def example_held_def fun_eq_iff)
  moreover have "(example_held(Obj 7 := 0))(Obj 7 := 1) = example_held" by (simp add: example_held_def fun_eq_iff)
  ultimately have "handle_states (\<lambda>_. 0) example_held made" by simp
  then show ?thesis
    by (rule handle_states.init [where tid = 1 and h = "Obj 7" and args = "Some (Obj 3)" and r = "Inr ()"])
       (auto simp: made_def example_handle_def ThreadHandle_init_def PyObject_IsInstance_def ThreadHandle_clear_def
         object_of_def store_object_def Py_DECREF_def Py_INCREF_def example_held_def fun_eq_iff)
qed


subsection \<open>Making a handle\<close>

definition underlying :: "handle_world \<Rightarrow> pyobj \<Rightarrow> pyobj" where
  "underlying w x = (case object_of w x of Some (Some y) \<Rightarrow> y | _ \<Rightarrow> x)"

definition initialised :: "handle_world \<Rightarrow> bool" where
  "initialised w \<longleftrightarrow> (\<forall>h. object_of w h \<noteq> Some None)"

lemma underlying_not_handle:
  assumes "handles_ok held w" and "initialised w"
  shows "object_of w (underlying w x) = None"
  using assms handles_okD(2) by (auto simp: underlying_def initialised_def split: option.splits)

text \<open>The object that \<open>ThreadHandle_init\<close> takes.\<close>

lemma init_object:
  assumes "claims obj = 0" and "object_of w obj \<noteq> Some None"
  shows "(if PyObject_IsInstance claims w obj \<noteq> 0 then Option.bind (object_of w obj) id else Some obj) =
         Some (underlying w obj)"
  using assms by (auto simp: PyObject_IsInstance_def underlying_def object_of_def split: option.splits)

lemma underlying_alive:
  assumes "handles_ok held w" and "0 < held obj"
  shows "0 < counts w (underlying w obj)"
  using alive_of_held [OF assms] alive_of_handle [OF assms(1)]
  by (auto simp: underlying_def split: option.splits)

lemma init_wraps:
  assumes ok: "handles_ok held w" and self: "handles w h = Some r" "handled r = Some Py_None" "handle_tid r = tid"
    and obj: "claims obj = 0" "object_of w obj \<noteq> Some None" "0 < held obj"
  shows "\<exists>w'. ThreadHandle_init claims tid h (Some obj) w = Some (Inr (), w') \<and>
           object_of w' = (object_of w)(h := Some (Some (underlying w obj))) \<and>
           counts w' = (\<lambda>x. counts w x - (if x = Py_None then 1 else 0) + (if x = underlying w obj then 1 else 0))"
proof -
  have of_h: "object_of w h = Some (Some Py_None)" using self by (simp add: object_of_def)
  then obtain c where c: "ThreadHandle_clear h w = Some c" by (simp add: ThreadHandle_clear_def)
  note cleared = handles_ok_clear [OF ok c]
  have "0 < counts c (underlying w obj)"
  proof (cases "underlying w obj = Py_None")
    case True
    with alive_of_held [OF cleared(1) handles_okD(5) [OF ok]] show ?thesis by simp
  next
    case False
    with underlying_alive [OF ok obj(3)] cleared(3) [OF of_h] show ?thesis by simp
  qed
  then have "ThreadHandle_init claims tid h (Some obj) w =
      Some (Inr (), store_object h (Some (underlying w obj))
        (c\<lparr>counts := (counts c)(underlying w obj := counts c (underlying w obj) + 1)\<rparr>))"
    using self init_object [where claims = claims, OF obj(1,2)] c by (simp add: ThreadHandle_init_def Py_INCREF_def)
  moreover have "handles c h \<noteq> None" using cleared(2) by (auto simp: object_of_def)
  ultimately show ?thesis
    using cleared(3) [OF of_h] cleared(4) by (auto simp: fun_eq_iff)
qed

text \<open>The states between the steps of \<open>get_handle\<close>: \<open>w1\<close> after the tuple has been made, \<open>w2\<close> at the end.\<close>

lemma get_handle_steps:
  assumes "handle_states claims held w" and "0 < held self" and "claims self = 0" and "object_of w self \<noteq> Some None"
    and "counts w h = 0" and "handles w h = None"
  obtains w1 w2 :: handle_world where "AtomicDict_GetHandle claims tid (Some h) True self w = Some (Inr h, Py_DECREF self w2)"
    and "handle_states claims (held(h := 1)) (Py_DECREF self w2)"
    and "object_of w2 = (object_of w)(h := Some (Some (underlying w self)))"
    and "counts w1 = (counts w)(h := 1, Py_None := counts w Py_None + 1)"
    and "counts w2 = (\<lambda>x. counts w1 x + (if x = self then 1 else 0) - (if x = Py_None then 1 else 0)
           + (if x = underlying w self then 1 else 0))"
proof -
  note ok = handle_states_ok [OF assms(1)]
  have ne: "self \<noteq> h" using alive_of_held [OF ok] assms(2,5) by force
  obtain w1 where new: "ThreadHandle_new (Some h) tid w = Some (Inr h, w1)"
    and handles1: "handles w1 = (handles w)(h \<mapsto> \<lparr>handled = Some Py_None, handle_tid = tid\<rparr>)"
    and counts1: "counts w1 = (counts w)(h := 1, Py_None := counts w Py_None + 1)"
    using handles_ok_new [OF ok assms(5,6), of tid] by blast
  from assms(1,5,6) new have s1: "handle_states claims (held(h := 1)) w1" by (rule handle_states.new)
  define w2 where "w2 = w1\<lparr>counts := (counts w1)(self := counts w1 self + 1)\<rparr>"
  have "0 < counts w1 self" using alive_of_held [OF handle_states_ok [OF s1]] ne assms(2) by simp
  then have incref: "Py_INCREF self w1 = Some w2" by (simp add: Py_INCREF_def w2_def)
  let ?held = "(held(h := 1))(self := (held(h := 1)) self + 1)"
  from s1 incref have s2: "handle_states claims ?held w2" by (rule handle_states.take)
  have obj2: "object_of w2 = (object_of w)(h := Some (Some Py_None))"
    by (auto simp: object_of_def handles1 w2_def)
  then have under: "underlying w2 self = underlying w self" using ne by (simp add: underlying_def)
  have "\<exists>w3. ThreadHandle_init claims tid h (Some self) w2 = Some (Inr (), w3) \<and>
      object_of w3 = (object_of w2)(h := Some (Some (underlying w2 self))) \<and>
      counts w3 = (\<lambda>x. counts w2 x - (if x = Py_None then 1 else 0) + (if x = underlying w2 self then 1 else 0))"
    by (rule init_wraps [OF handle_states_ok [OF s2], where r = "\<lparr>handled = Some Py_None, handle_tid = tid\<rparr>"])
       (use assms(2,3,4) ne in \<open>simp_all add: w2_def handles1 object_of_def\<close>)
  then obtain w3 where init: "ThreadHandle_init claims tid h (Some self) w2 = Some (Inr (), w3)"
    and obj3: "object_of w3 = (object_of w2)(h := Some (Some (underlying w2 self)))"
    and counts3: "counts w3 = (\<lambda>x. counts w2 x - (if x = Py_None then 1 else 0) + (if x = underlying w2 self then 1 else 0))"
    by blast
  from s2 init have s3: "handle_states claims ?held w3" by (rule handle_states.init)
  have "handle_states claims (?held(self := ?held self - 1)) (Py_DECREF self w3)"
    by (rule handle_states.release [OF s3]) (use assms(2) ne in simp_all)
  moreover have "?held(self := ?held self - 1) = held(h := 1)" by (simp add: fun_eq_iff)
  ultimately have end_state: "handle_states claims (held(h := 1)) (Py_DECREF self w3)" by (simp del: fun_upd_apply)
  have run: "AtomicDict_GetHandle claims tid (Some h) True self w = Some (Inr h, Py_DECREF self w3)"
    by (simp add: AtomicDict_GetHandle_def new incref init)
  have obj: "object_of w3 = (object_of w)(h := Some (Some (underlying w self)))" by (simp add: obj3 obj2 under)
  have "counts w3 = (\<lambda>x. counts w1 x + (if x = self then 1 else 0) - (if x = Py_None then 1 else 0)
           + (if x = underlying w self then 1 else 0))"
    unfolding counts3 under by (simp add: w2_def fun_eq_iff)
  with run end_state obj counts1 show thesis by (rule that)
qed

text \<open>
  \<open>get_handle\<close> of an object that the caller has, called through the object or through a handle on
  it, gives a new handle that refers to the object itself, is the caller's, and adds exactly one
  reference to the object.
\<close>

theorem get_handle_refers_to_the_object:
  assumes "handle_states claims held w" and "0 < held self" and "claims self = 0" and "object_of w self \<noteq> Some None"
    and "counts w h = 0" and "handles w h = None"
  shows "\<exists>w'. AtomicDict_GetHandle claims tid (Some h) True self w = Some (Inr h, w') \<and>
           handle_states claims (held(h := 1)) w' \<and>
           object_of w' = (object_of w)(h := Some (Some (underlying w self))) \<and>
           counts w' = (\<lambda>x. if x = h then 1 else counts w x + (if x = underlying w self then 1 else 0))"
proof -
  note ok = handle_states_ok [OF assms(1)]
  have ne: "self \<noteq> h" "underlying w self \<noteq> h" "Py_None \<noteq> h"
    using alive_of_held [OF ok] assms(2,5) underlying_alive [OF ok assms(2)] handles_okD(5) [OF ok] by force+
  from get_handle_steps [OF assms, of tid] obtain w1 w2 :: handle_world where
    run: "AtomicDict_GetHandle claims tid (Some h) True self w = Some (Inr h, Py_DECREF self w2)"
      "handle_states claims (held(h := 1)) (Py_DECREF self w2)"
    and obj: "object_of w2 = (object_of w)(h := Some (Some (underlying w self)))"
    and counts1: "counts w1 = (counts w)(h := 1, Py_None := counts w Py_None + 1)"
    and counts2: "counts w2 = (\<lambda>x. counts w1 x + (if x = self then 1 else 0) - (if x = Py_None then 1 else 0)
           + (if x = underlying w self then 1 else 0))" .
  have "counts (Py_DECREF self w2) x = (if x = h then 1 else counts w x + (if x = underlying w self then 1 else 0))" for x
    using ne by (simp add: Py_DECREF_def counts2 counts1)
  moreover have "object_of (Py_DECREF self w2) = object_of w2" by (simp add: Py_DECREF_def)
  ultimately show ?thesis using run obj by (intro exI [of _ "Py_DECREF self w2"]) auto
qed

theorem get_handle_refers_to_the_object_witness:
  "\<exists>w'. AtomicDict_GetHandle (\<lambda>_. 0) 1 (Some (Obj 8)) True (Obj 7) example_handle = Some (Inr (Obj 8), w') \<and>
     object_of w' (Obj 8) = Some (Some (Obj 3)) \<and> counts w' (Obj 3) = 4"
proof -
  have facts: "underlying example_handle (Obj 7) = Obj 3" "counts example_handle (Obj 3) = 3"
    "0 < example_held (Obj 7)" "object_of example_handle (Obj 7) \<noteq> Some None"
    "counts example_handle (Obj 8) = 0" "handles example_handle (Obj 8) = None"
    by (simp_all add: underlying_def object_of_def example_handle_def example_held_def)
  obtain w' where
    "AtomicDict_GetHandle (\<lambda>_. 0) 1 (Some (Obj 8)) True (Obj 7) example_handle = Some (Inr (Obj 8), w')"
    "object_of w' = (object_of example_handle)(Obj 8 := Some (Some (underlying example_handle (Obj 7))))"
    "counts w' = (\<lambda>x. if x = Obj 8 then 1
       else counts example_handle x + (if x = underlying example_handle (Obj 7) then 1 else 0))"
    using get_handle_refers_to_the_object [OF example_handle_reached facts(3) _ facts(4-6), of 1] by auto
  then show ?thesis by (simp add: facts)
qed

text \<open>A tuple that cannot be allocated leaves a handle that nobody refers to, with its reference.\<close>

lemma handle_leaked_without_tuple:
  assumes "handles_ok held w" and "counts w h = 0" and "handles w h = None"
  shows "\<exists>w'. AtomicDict_GetHandle claims tid (Some h) False self w = Some (Inl MemoryError, w') \<and>
           counts w' h = 1 \<and> handles_on w' h = {}"
proof -
  obtain w' where new: "ThreadHandle_new (Some h) tid w = Some (Inr h, w')" and ok: "handles_ok (held(h := 1)) w'"
    and counts': "counts w' = (counts w)(h := 1, Py_None := counts w Py_None + 1)"
    using handles_ok_new [OF assms, of tid] by blast
  have "h \<noteq> Py_None" using alive_of_held [OF assms(1)] handles_okD(5) [OF assms(1)] assms(2) by force
  then have "counts w' h = 1" by (simp add: counts')
  moreover have "counts w' h = 1 + int (card (handles_on w' h))" using handles_okD(3) [OF ok, of h] by simp
  ultimately have "handles_on w' h = {}" using handles_on_finite [OF handles_okD(1) [OF ok]] by simp
  with \<open>counts w' h = 1\<close> show ?thesis by (simp add: AtomicDict_GetHandle_def new)
qed

text \<open>
  The object is released before the new one is referenced: initialising a handle again with itself
  uses the object after it has been freed, when the handle has the only reference to it.
\<close>

lemma init_again_uses_freed_object:
  assumes "handles w h = Some \<lparr>handled = Some x, handle_tid = tid\<rparr>" and "counts w x = 1"
  shows "ThreadHandle_init claims tid h (Some h) w = None"
  using assms
  by (simp add: ThreadHandle_init_def PyObject_IsInstance_def ThreadHandle_clear_def object_of_def Py_DECREF_def
      Py_INCREF_def)

subsection \<open>A handle behaves like its object\<close>

text \<open>
  What Python documents of binary operators: the method of the left operand's type is called with the
  two operands; the method of the right one's is, when the left operand's type does not know the
  right operand.
\<close>

definition dispatches :: "(pyobj \<Rightarrow> int) \<Rightarrow> handle_world \<Rightarrow> (pyobj option \<Rightarrow> pyobj option \<Rightarrow> 'r option) \<Rightarrow>
    (pyobj \<Rightarrow> pyobj \<Rightarrow> 'r option) \<Rightarrow> bool" where
  "dispatches claims w PyNumber_op slot \<longleftrightarrow>
     (\<forall>x y. (object_of w x \<noteq> None \<or> object_of w y \<noteq> None) \<longrightarrow> PyNumber_op (Some x) (Some y) = slot x y)"

text \<open>The two operators have the same body; the facts are about it.\<close>

lemma unwraps:
  assumes ok: "handles_ok held w" and "initialised w" and honest: "\<And>x. claims x = 0"
    and slot: "\<And>x y. slot x y =
      (if PyObject_IsInstance claims w y \<noteq> 0 then Option.bind (object_of w y) (\<lambda>y. PyNumber_op (Some x) y)
       else Option.bind (object_of w x) (\<lambda>obj. PyNumber_op obj (Some y)))"
    and dispatch: "dispatches claims w PyNumber_op slot"
  shows "PyNumber_op (Some x) (Some y) = PyNumber_op (Some (underlying w x)) (Some (underlying w y))"
proof -
  have inst: "PyObject_IsInstance claims w y = 0 \<longleftrightarrow> object_of w y = None" for y
    by (simp add: PyObject_IsInstance_def honest)
  have handle: "object_of w x \<noteq> None \<Longrightarrow> object_of w x = Some (Some (underlying w x))" for x
    using assms(2) by (auto simp: underlying_def initialised_def split: option.splits)
  have plain: "object_of w x = None \<Longrightarrow> underlying w x = x" for x
    by (simp add: underlying_def del: object_of_eq_None)
  have left: "PyNumber_op (Some x) (Some y) = PyNumber_op (Some (underlying w x)) (Some y)"
    if "object_of w y = None" for x y
  proof (cases "object_of w x = None")
    case False
    then have "PyNumber_op (Some x) (Some y) = slot x y" using dispatch unfolding dispatches_def by blast
    with that handle [OF False] show ?thesis by (simp add: slot inst del: object_of_eq_None)
  qed (simp add: plain)
  have right: "PyNumber_op (Some x) (Some y) = PyNumber_op (Some x) (Some (underlying w y))" for x y
  proof (cases "object_of w y = None")
    case False
    then have "PyNumber_op (Some x) (Some y) = slot x y" using dispatch unfolding dispatches_def by blast
    with False handle [OF False] show ?thesis by (simp add: slot inst del: object_of_eq_None)
  qed (simp add: plain)
  show ?thesis using right [of x y] left [OF underlying_not_handle [OF ok assms(2)], of x y] by simp
qed


text \<open>Operands for the examples: \<open>Obj 3\<close>, on which \<open>Obj 7\<close> is a handle, and \<open>Obj 4\<close>.\<close>

definition example_op :: "pyobj handle_number" where
  "example_op bop x y =
     (let plain = (\<lambda>x. if x = Some (Obj 7) then Some (Obj 3) else x) in
      if plain x = Some (Obj 4) \<and> plain y = Some (Obj 3) then Some (Obj 5) else plain x)"


text \<open>
  The same of \<open>pow\<close>, but its third operand is not looked at.  The interpreter also calls the slot of
  the third operand, with the two others in the first two places: the first is then read as a handle,
  which it is not.
\<close>

text \<open>
  \<open>pow\<close> with a handle for its modulus never has a result, whatever the first two operands are:
  \<open>ThreadHandle_Power\<close> ends in reading the object of a handle out of an object that is not a handle.
\<close>

theorem handle_as_modulus_is_undefined:
  assumes "handle_states claims held w" and "initialised w" and "\<And>x. claims x = 0"
    and "dispatches claims w (\<lambda>x y. PyNumber_Power x y m) (\<lambda>x y. ThreadHandle_Power claims w PyNumber_Power x y m)"
    and third: "\<And>x y. object_of w m \<noteq> None \<Longrightarrow> object_of w x = None \<Longrightarrow> object_of w y = None \<Longrightarrow>
      PyNumber_Power (Some x) (Some y) m = ThreadHandle_Power claims w PyNumber_Power x y m"
    and "object_of w m \<noteq> None"
  shows "PyNumber_Power (Some x) (Some y) m = None"
proof -
  note ok = handle_states_ok [OF assms(1)]
  note plain = underlying_not_handle [OF ok assms(2)]
  have "PyNumber_Power (Some x) (Some y) m = PyNumber_Power (Some (underlying w x)) (Some (underlying w y)) m"
    by (rule unwraps [OF ok assms(2,3) _ assms(4)]) (rule ThreadHandle_Power_def)
  also have "\<dots> = ThreadHandle_Power claims w PyNumber_Power (underlying w x) (underlying w y) m"
    by (rule third [OF assms(6) plain plain])
  also have "\<dots> = None"
    using plain [of y] plain [of x] by (simp add: ThreadHandle_Power_def PyObject_IsInstance_def assms(3) object_of_def)
  finally show ?thesis .
qed

definition example_power :: "pyobj handle_power" where
  "example_power x y m = (if m = Obj 7 then None else example_op (Binary Multiply) x y)"

theorem handle_as_modulus_is_undefined_witness:
  "example_power (Some (Obj 4)) (Some (Obj 3)) (Obj 7) = None \<and>
   example_power (Some (Obj 4)) (Some (Obj 3)) Py_None = Some (Obj 5)"
proof -
  have "initialised example_handle" by (simp add: initialised_def example_handle_def object_of_def)
  moreover have "dispatches (\<lambda>_. 0) example_handle (\<lambda>x y. example_power x y (Obj 7))
      (\<lambda>x y. ThreadHandle_Power (\<lambda>_. 0) example_handle example_power x y (Obj 7))"
    by (auto simp: dispatches_def ThreadHandle_Power_def PyObject_IsInstance_def example_power_def object_of_def
        split: bind_splits)
  moreover have "example_power (Some x) (Some y) (Obj 7) =
      ThreadHandle_Power (\<lambda>_. 0) example_handle example_power x y (Obj 7)"
    if "object_of example_handle x = None" "object_of example_handle y = None" for x y
    using that by (simp add: ThreadHandle_Power_def PyObject_IsInstance_def example_power_def)
  moreover have "object_of example_handle (Obj 7) \<noteq> None" by (simp add: example_handle_def)
  ultimately have "example_power (Some (Obj 4)) (Some (Obj 3)) (Obj 7) = None"
    by (intro handle_as_modulus_is_undefined [OF example_handle_reached]) simp_all
  then show ?thesis by (simp add: example_power_def example_op_def)
qed

text \<open>The slot that Python documents for a request to an object whose type has all of them.\<close>

fun slot_of :: "request \<Rightarrow> slot" where
  "slot_of PyObject_Hash_of = Compare tp_hash"
| "slot_of (PyObject_RichCompare other op) = Compare (tp_richcompare other op)"
| "slot_of (PyNumber_unary u) = Number (nb_unary u)"
| "slot_of PyNumber_Long = Number nb_int"
| "slot_of PyObject_IsTrue = Number nb_bool"
| "slot_of (PyNumber_InPlace bop other) = Number (nb_inplace bop other)"
| "slot_of (PyNumber_InPlacePower other m) = Number (nb_inplace_power other m)"
| "slot_of PySequence_Length = Sequence sq_length"
| "slot_of (PySequence_Concat other) = Sequence (sq_concat other)"
| "slot_of (PySequence_Repeat count) = Sequence (sq_repeat count)"
| "slot_of (PySequence_GetItem i) = Sequence (sq_item i)"
| "slot_of (PySequence_SetItem i v) = Sequence (sq_ass_item i (Some v))"
| "slot_of (PySequence_DelItem i) = Sequence (sq_ass_item i None)"
| "slot_of (PySequence_Contains other) = Sequence (sq_contains other)"
| "slot_of (PySequence_InPlaceConcat other) = Sequence (sq_inplace_concat other)"
| "slot_of (PySequence_InPlaceRepeat count) = Sequence (sq_inplace_repeat count)"
| "slot_of PyObject_Size = Sequence sq_length"
| "slot_of PyMapping_Length = Mapping mp_length"
| "slot_of (PyObject_GetItem key) = Mapping (mp_subscript key)"
| "slot_of (PyObject_SetItem key v) = Mapping (mp_ass_subscript key (Some v))"
| "slot_of (PyObject_DelItem key) = Mapping (mp_ass_subscript key None)"
| "slot_of (PyObject_Call args kwargs) = Access (tp_call args kwargs)"
| "slot_of PyObject_GetIter = Access tp_iter"
| "slot_of (PyObject_GetAttr attr_name) = Access (tp_getattro attr_name)"
| "slot_of (PyObject_SetAttr attr_name v) = Access (tp_setattro attr_name v)"

text \<open>Every slot asks of the object what was asked of the handle; \<open>len\<close> is the exception.\<close>

lemma slot_request_slot_of: "slot_request (slot_of r) = (if r = PyObject_Size then PySequence_Length else r)"
  by (cases r) simp_all


definition example_mapping :: "request \<Rightarrow> pyobj option \<Rightarrow> int outcome option" where
  "example_mapping r x =
     (if x \<noteq> Some (Obj 3) \<and> x \<noteq> Some (Obj 7) then Some (Inl TypeError)
      else
        (case r of
           PyMapping_Length \<Rightarrow> Some (Inr 2)
         | PyObject_Size \<Rightarrow> if x = Some (Obj 3) then Some (Inr 2) else Some (Inl TypeError)
         | PyObject_GetItem key \<Rightarrow> Some (if key = Obj 1 then Inr 10 else Inl (KeyError key))
         | _ \<Rightarrow> Some (Inl TypeError)))"


end
