(* ===== verification/Constants.thy ===== *)
theory Constants
  imports PyCore
begin

text \<open>
  The sentinels \<open>NOT_FOUND\<close>, \<open>ANY\<close> and \<open>EXPECTATION_FAILED\<close> as objects, from
  \<^verbatim>\<open>src/src/cereggii/constants.c\<close>.  In the other theories they are constructors of \<open>pyobj\<close>:
  what makes this right is that each is made once, by the module, and is never freed.
\<close>

record CereggiiConstant = object +
  constant_name :: string

definition Py_IMMORTAL_REFCNT_LOCAL :: u32 where
  "Py_IMMORTAL_REFCNT_LOCAL = - 1"

text \<open>
  The object that is allocated belongs to the thread and has one reference; the count is then that of
  an immortal object, which taking a reference does not change.
\<close>

definition CereggiiConstant_New :: "bool \<Rightarrow> nat \<Rightarrow> string \<Rightarrow> CereggiiConstant option" where
  "CereggiiConstant_New allocated tid name =
     (if \<not> allocated then None
      else
        (let constant = \<lparr>ob_ref_local = 1, ob_ref_shared = 0, ob_tid = tid, constant_name = name\<rparr>;
             constant = constant\<lparr>ob_ref_local := Py_IMMORTAL_REFCNT_LOCAL\<rparr> in
         Some (if ob_ref_local constant + 1 = 0 then constant
               else constant\<lparr>ob_ref_local := ob_ref_local constant + 1\<rparr>)))"

definition CereggiiConstant_init :: "CereggiiConstant \<Rightarrow> unit outcome" where
  "CereggiiConstant_init self = Inl RuntimeError"

definition CereggiiConstant_Repr :: "CereggiiConstant \<Rightarrow> string" where
  "CereggiiConstant_Repr self = ''<cereggii.'' @ constant_name self @ ''>''"

text \<open>A constant is immortal: no thread changes its counts by taking references.\<close>

lemma constant_is_immortal:
  assumes "CereggiiConstant_New allocated tid name = Some c"
  shows "Py_IsImmortal (object.truncate c)"
    and "Py_SetWeakrefAndIncref fs gs (object.truncate c) = Some (True, object.truncate c)"
    and "Py_TryIncref tid' fs (object.truncate c) = Some (True, object.truncate c)"
  using assms
  by (auto simp: CereggiiConstant_New_def Py_IMMORTAL_REFCNT_LOCAL_def Py_IsImmortal_def object.truncate_def
      Py_SetWeakrefAndIncref_def Py_TryIncref_def Py_TryIncrefFast_def Let_def split: if_splits)

end
