(* ===== verification/MigrateCount.thy ===== *)
theory MigrateCount
  imports Participants
begin

text \<open>
  The recount that checks a migrated block (\<open>to_migrate\<close> of
  \<^verbatim>\<open>src/src/cereggii/atomic_dict/resize.c\<close>), which only assertions call: it goes over the
  old index again with conditions of its own.
\<close>

function to_migrate_until :: "meta \<Rightarrow> nat \<Rightarrow> nat \<Rightarrow> int \<Rightarrow> int" where
  "to_migrate_until cur i stop n =
     (if i < stop then
        (let nd = read_node_at (of_nat i) cur in
         to_migrate_until cur (Suc i) stop (if n_node nd \<noteq> 0 \<and> n_index nd \<noteq> 0 then n + 1 else n))
      else n)"
  by pat_completeness auto
termination
  by (relation "measure (\<lambda>(cur, i, stop, n). stop - i)") auto

declare to_migrate_until.simps [simp del]

partial_function (option) to_migrate_trailing :: "meta \<Rightarrow> nat \<Rightarrow> int \<Rightarrow> int option" where
  "to_migrate_trailing cur i n =
     (let nd = read_node_at (of_nat i) cur;
          n = (if n_node nd \<noteq> 0 \<and> n_index nd \<noteq> 0 then n + 1 else n) in
      if n_node nd \<noteq> 0 then to_migrate_trailing cur (Suc i) n else Some n)"

definition to_migrate :: "meta \<Rightarrow> nat \<Rightarrow> nat \<Rightarrow> int option" where
  "to_migrate cur start_of_block stop =
     (let i = first_empty cur start_of_block stop in
      if i \<ge> stop then Some 0
      else to_migrate_trailing cur stop (to_migrate_until cur i stop 0))"

lemma live_node: "index m p \<noteq> 0 \<and> n_index (slot m p) \<noteq> 0 \<longleftrightarrow> live m p"
  by (auto simp: live_def is_empty_def is_tombstone_def)

lemma to_migrate_until_count:
  assumes "log_size cur \<le> 30" and "i \<le> stop"
  shows "to_migrate_until cur i stop n = n + int (live_count cur i stop)"
  using assms(2)
proof (induction "stop - i" arbitrary: i n)
  case 0
  then show ?case by (subst to_migrate_until.simps) simp
next
  case (Suc k)
  then have "i < stop" by simp
  with Suc.hyps(1) [of "Suc i"] Suc.hyps(2) live_count_first [OF \<open>i < stop\<close>] show ?case
    by (subst to_migrate_until.simps) (auto simp: Let_def read_node_at_nat [OF assms(1)] live_node [symmetric])
qed

lemma to_migrate_trailing_count:
  assumes "log_size cur \<le> 30" and "i \<le> j" and "index cur (j mod SIZE_OF cur) = 0"
    and "\<forall>y. i \<le> y \<longrightarrow> y < j \<longrightarrow> index cur (y mod SIZE_OF cur) \<noteq> 0"
  shows "to_migrate_trailing cur i n = Some (n + int (live_count cur i j))"
  using assms(2,4)
proof (induction "j - i" arbitrary: i n)
  case 0
  with assms(3) show ?case
    by (subst to_migrate_trailing.simps) (simp add: Let_def read_node_at_nat [OF assms(1)])
next
  case (Suc k)
  then have "i < j" by simp
  with Suc.prems have ne: "index cur (i mod SIZE_OF cur) \<noteq> 0" by blast
  have "to_migrate_trailing cur i n =
      to_migrate_trailing cur (Suc i) (if live cur (i mod SIZE_OF cur) then n + 1 else n)"
    by (subst to_migrate_trailing.simps) (use ne in \<open>simp add: Let_def read_node_at_nat [OF assms(1)] live_node [symmetric]\<close>)
  with Suc.hyps(1) [of "Suc i"] Suc.hyps(2) Suc.prems live_count_first [OF \<open>i < j\<close>] show ?case by auto
qed

text \<open>
  C13: The assertion at the end of \<open>block_wise_migrate\<close> holds: the recount of a block of a well-formed
  old index ends, and it finds as many nodes as have been migrated.
\<close>

theorem migrated_count_is_asserted:
  assumes "next_generation cur new" and "wf_index py h cur" and "s < SIZE_OF cur"
  shows "\<exists>new' n. block_wise_migrate py h cur new s = Some (new', n) \<and>
    to_migrate cur s (end_of_block cur s) = Some n"
proof -
  have le: "log_size cur \<le> 30" using assms(1) by (simp add: next_generation_def)
  obtain new' where "block_wise_migrate py h cur new s = Some (new', int (block_count cur s))"
    using block_wise_migrate_correct [OF assms] by blast
  moreover have "to_migrate cur s (end_of_block cur s) = Some (int (block_count cur s))"
  proof (cases "block_owned cur s")
    case False
    then show ?thesis by (simp add: to_migrate_def block_owned_def block_first_def block_count_def Let_def)
  next
    case True
    note b = block_bounds [OF le assms(3) True]
    have "to_migrate_trailing cur (end_of_block cur s) n =
        Some (n + int (live_count cur (end_of_block cur s) (block_last cur s)))" for n
      by (rule to_migrate_trailing_count [OF le b(5,7)]) (use b(9) in blast)
    with True b(3,5) to_migrate_until_count [OF le, of "block_first cur s" "end_of_block cur s" 0] show ?thesis
      by (simp add: to_migrate_def block_count_def block_first_def [symmetric] Let_def
          live_count_split [of "block_first cur s" "end_of_block cur s" "block_last cur s"])
  qed
  ultimately show ?thesis by blast
qed

theorem migrated_count_is_asserted_witness:
  "\<exists>new' n. block_wise_migrate example_env example_heap example_current example_next 0 = Some (new', n) \<and>
    to_migrate example_current 0 (end_of_block example_current 0) = Some n"
  by (rule migrated_count_is_asserted [OF example_current_facts(2,1)]) (simp add: example_current_facts(3))

end
