(* ===== verification/FailedResize.thy ===== *)
theory FailedResize
  imports DictCorrect
begin

text \<open>
  What is left after a resize that fails (\<open>leader_resize\<close> of
  \<^verbatim>\<open>src/src/cereggii/atomic_dict/resize.c\<close>, label \<open>fail\<close>): the generation stays the current one
  and keeps its leader.
\<close>

definition abandoned :: "nat \<Rightarrow> dict \<Rightarrow> bool" where
  "abandoned cur d \<longleftrightarrow>
     metadata d = MetaAt cur \<and> resize_leader (metas d cur) \<noteq> 0 \<and> new_metadata_ready (metas d cur) \<and>
     node_migration_done (metas d cur) \<and> resize_done (metas d cur)"

subsection \<open>A resize that fails leaves the generation abandoned\<close>

lemma allocate_same [simp]:
  assumes "allocate d = (ok, d')"
  shows "metas d' = metas d" and "metadata d' = metadata d" and "next_meta d' = next_meta d"
    and "accessors d' = accessors d" and "thread_storage d' = thread_storage d"
  using assms by (auto simp: allocate_def split: list.splits)

text \<open>What the steps of the leader leave alone until the new generation is published.\<close>

definition kept_by_leader :: "nat \<Rightarrow> dict \<Rightarrow> dict \<Rightarrow> bool" where
  "kept_by_leader cur d d' \<longleftrightarrow>
     metas d' cur = metas d cur \<and> metadata d' = metadata d \<and> next_meta d \<le> next_meta d' \<and>
     thread_storage d' = thread_storage d \<and> length (accessors d') = length (accessors d)"

lemma kept_refl [intro, simp]: "kept_by_leader cur d d"
  by (simp add: kept_by_leader_def)

lemma kept_trans [trans]: "kept_by_leader cur d e \<Longrightarrow> kept_by_leader cur e f \<Longrightarrow> kept_by_leader cur d f"
  by (simp add: kept_by_leader_def)

lemma allocate_kept: "allocate d = (ok, d') \<Longrightarrow> kept_by_leader cur d d'"
  by (simp add: kept_by_leader_def)

lemma begin_kept: "begin_synchronous_operation d = Some d' \<Longrightarrow> kept_by_leader cur d d'"
  by (auto simp: begin_synchronous_operation_def kept_by_leader_def split: if_splits)

lemma end_kept: "kept_by_leader cur d (end_synchronous_operation d)"
  by (simp add: end_synchronous_operation_def kept_by_leader_def)

lemma upd_meta_kept: "mid \<noteq> cur \<Longrightarrow> kept_by_leader cur d (upd_meta mid f d)"
  by (simp add: kept_by_leader_def upd_meta_def)

lemma copy_kept: "new \<noteq> cur \<Longrightarrow> meta_copy_pages from new d = (ok, d') \<Longrightarrow> kept_by_leader cur d d'"
  by (auto simp: meta_copy_pages_def Let_def split: prod.splits bool.splits
      intro: allocate_kept kept_trans [OF allocate_kept upd_meta_kept])

lemma New_kept:
  assumes "cur < next_meta d" and "AtomicDictMeta_New ls d = Some (r, d')"
  shows "kept_by_leader cur d d'" and "r = Some new \<Longrightarrow> new \<noteq> cur"
proof -
  have "kept_by_leader cur d d' \<and> (\<forall>new. r = Some new \<longrightarrow> new \<noteq> cur)"
    using assms
    by (auto simp: AtomicDictMeta_New_def Let_def kept_by_leader_def split: prod.splits bool.splits if_splits)
  then show "kept_by_leader cur d d'" "r = Some new \<Longrightarrow> new \<noteq> cur" by blast+
qed

text \<open>The leader fails only in front of the common part.\<close>

lemma leader_fails:
  assumes "cur < next_meta d" and "leader_resize py tid cur d = Some (r, d')" and "r < 0"
  shows "\<exists>d1 hold. kept_by_leader cur d d1 \<and> d' = snd (resize_failed cur hold d1)"
proof (cases "log_size (metas d cur) + 1 > ATOMIC_DICT_MAX_LOG_SIZE")
  case True
  with assms(2) show ?thesis
    by (intro exI [of _ d] exI [of _ False]) (simp add: leader_resize_def)
next
  case False
  then obtain new d1 where new: "AtomicDictMeta_New (log_size (metas d cur) + 1) d = Some (new, d1)"
    using assms(2) by (auto simp: leader_resize_def Let_def split: option.splits)
  note u1 = New_kept [OF assms(1) new]
  show ?thesis
  proof (cases new)
    case None
    with new False assms(2) u1(1) show ?thesis
      by (intro exI [of _ d1] exI [of _ False]) (simp add: leader_resize_def)
  next
    case (Some n)
    obtain d2 where d2: "begin_synchronous_operation d1 = Some d2"
      using assms(2) False new Some by (auto simp: leader_resize_def Let_def split: option.splits)
    obtain ok d3 where d3: "meta_copy_pages cur n d2 = (ok, d3)" by fastforce
    obtain ok' d4 where d4: "allocate d3 = (ok', d4)" by fastforce
    have u2: "kept_by_leader cur d d2" using u1(1) begin_kept [OF d2] by (rule kept_trans)
    have u3: "kept_by_leader cur d d3" using u2 copy_kept [OF u1(2) [OF Some] d3] by (rule kept_trans)
    have u4: "kept_by_leader cur d d4" using u3 allocate_kept [OF d4] by (rule kept_trans)
    have "\<not> (ok \<and> ok')"
      using assms(2,3) False new Some d2 d3 d4
      by (auto simp: leader_resize_def Let_def split: option.splits)
    with assms(2) False new Some d2 d3 d4 u3 u4 show ?thesis
      by (cases ok; intro exI [of _ "if ok then d4 else d3"] exI [of _ True])
        (auto simp: leader_resize_def)
  qed
qed

lemma failed_abandoned:
  assumes "kept_by_leader cur d d1" and "metadata d = MetaAt cur" and "resize_leader (metas d cur) \<noteq> 0"
  shows "abandoned cur (snd (resize_failed cur hold d1))"
    and "thread_storage (snd (resize_failed cur hold d1)) = thread_storage d"
    and "length (accessors (snd (resize_failed cur hold d1))) = length (accessors d)"
  using assms
  by (auto simp: abandoned_def resize_failed_def upd_meta_def end_synchronous_operation_def kept_by_leader_def)

lemma get_meta_current:
  assumes "metadata d = MetaAt cur" and "i < length (accessors d)"
  obtains as where "get_meta i d = Some (cur, d\<lparr>accessors := as\<rparr>)" and "length as = length (accessors d)"
proof (cases "metadata d = st_meta (accessors d ! i)")
  case True
  with assms(1) have "get_meta i d = Some (cur, d\<lparr>accessors := accessors d\<rparr>)" by (simp add: get_meta_def)
  then show thesis by (rule that) simp
next
  case False
  with assms show thesis
    by (intro that [of "(accessors d)[i := (accessors d ! i)\<lparr>st_meta := MetaAt cur\<rparr>]"])
      (auto simp: get_meta_def upd_storage_def)
qed

lemma grow_abandons:
  assumes "metadata d = MetaAt cur" and "cur < next_meta d" and "resize_leader (metas d cur) = 0"
    and "thread_storage d tid = Some i" and "i < length (accessors d)" and "tid \<noteq> 0"
    and "grow py tid d = Some (r, d')" and "r < 0"
  shows "abandoned cur d'" and "thread_storage d' = thread_storage d" and "length (accessors d') = length (accessors d)"
proof -
  obtain as where meta: "get_meta i d = Some (cur, d\<lparr>accessors := as\<rparr>)" "length as = length (accessors d)"
    using assms(1,5) by (rule get_meta_current)
  define e where "e = upd_meta cur (\<lambda>m. m\<lparr>resize_leader := tid\<rparr>) (d\<lparr>accessors := as\<rparr>)"
  have "leader_resize py tid cur e = Some (r, d')"
    using assms(3,4,7) meta(1) by (simp add: grow_def get_or_create_accessor_storage_def resize_def e_def)
  moreover have "cur < next_meta e" using assms(2) by (simp add: e_def upd_meta_def)
  ultimately obtain d1 hold where "kept_by_leader cur e d1" "d' = snd (resize_failed cur hold d1)"
    using leader_fails [OF _ _ assms(8)] by blast
  moreover have "metadata e = MetaAt cur" "resize_leader (metas e cur) \<noteq> 0" "thread_storage e = thread_storage d"
    "length (accessors e) = length (accessors d)"
    using assms(1,6) meta(2) by (simp_all add: e_def upd_meta_def)
  ultimately show "abandoned cur d'" "thread_storage d' = thread_storage d"
    "length (accessors d') = length (accessors d)"
    using failed_abandoned [of cur e d1 hold] by simp_all
qed

subsection \<open>Writers do not get past an abandoned generation\<close>

lemma abandoned_round:
  assumes "abandoned cur d" and "i < length (accessors d)"
  shows "\<exists>d1 d2. get_meta i d = Some (cur, d1) \<and> lock_accessor_storage_or_help_resize py tid i cur d1 = Some (True, d2) \<and>
    abandoned cur d2 \<and> length (accessors d2) = length (accessors d)"
proof -
  have helped: "\<exists>e2. maybe_help_resize py tid cur j e = Some (True, e2) \<and> abandoned cur e2 \<and>
      length (accessors e2) = length (accessors d)"
    if "abandoned cur e" "length (accessors e) = length (accessors d)" for e j
    using that
    by (cases j) (auto simp: maybe_help_resize_def follower_resize_def common_resize_def abandoned_def upd_storage_def)
  obtain d1 where d1: "get_meta i d = Some (cur, d1)" "abandoned cur d1" "length (accessors d1) = length (accessors d)"
  proof -
    have "metadata d = MetaAt cur" using assms(1) by (simp add: abandoned_def)
    then obtain as where "get_meta i d = Some (cur, d\<lparr>accessors := as\<rparr>)" "length as = length (accessors d)"
      using assms(2) by (rule get_meta_current)
    with assms(1) show thesis by (intro that [of "d\<lparr>accessors := as\<rparr>"]) (simp_all add: abandoned_def)
  qed
  let ?locked = "upd_storage i (\<lambda>s. s\<lparr>self_mutex := True\<rparr>) d1"
  have "abandoned cur ?locked" "length (accessors ?locked) = length (accessors d)"
    using d1(2,3) by (simp_all add: abandoned_def upd_storage_def)
  from helped [OF this, of "Some i"] helped [OF d1(2,3), of None] d1(1) show ?thesis
    by (auto simp: lock_accessor_storage_or_help_resize_def)
qed

lemma cas_never_returns:
  "cas_beginning py tid i key hash expected desired d = Some y \<Longrightarrow> \<not> (abandoned cur d \<and> i < length (accessors d))"
proof (induction rule: cas_beginning.raw_induct [rotated, consumes 1])
  case (1 f py tid i key hash expected desired d y)
  show ?case
  proof
    assume a: "abandoned cur d \<and> i < length (accessors d)"
    then obtain d1 d2 where r: "get_meta i d = Some (cur, d1)"
      "lock_accessor_storage_or_help_resize py tid i cur d1 = Some (True, d2)" "abandoned cur d2"
      "length (accessors d2) = length (accessors d)" using abandoned_round by blast
    with 1(2) have "f py tid i key hash expected desired d2 = Some y" by simp
    from 1(1) [OF this] a r(3,4) show False by simp
  qed
qed

lemma del_never_returns:
  "del_beginning py tid i key hash d = Some y \<Longrightarrow> \<not> (abandoned cur d \<and> i < length (accessors d))"
proof (induction rule: del_beginning.raw_induct [rotated, consumes 1])
  case (1 f py tid i key hash d y)
  show ?case
  proof
    assume a: "abandoned cur d \<and> i < length (accessors d)"
    then obtain d1 d2 where r: "get_meta i d = Some (cur, d1)"
      "lock_accessor_storage_or_help_resize py tid i cur d1 = Some (True, d2)" "abandoned cur d2"
      "length (accessors d2) = length (accessors d)" using abandoned_round by blast
    with 1(2) have "f py tid i key hash d2 = Some y" by simp
    from 1(1) [OF this] a r(3,4) show False by simp
  qed
qed

text \<open>
  C12: When growing the table fails, for want of memory or of room, the thread that grows it raises an
  exception, and from then on no thread that has already used the dictionary can write to it:
  assigning and deleting, of whatever key, go round for ever waiting for the resize to be done.
\<close>

theorem failed_resize_blocks_writers:
  assumes "metadata d = MetaAt cur" and "cur < next_meta d" and "resize_leader (metas d cur) = 0"
    and storages: "\<And>tid i. thread_storage d tid = Some i \<Longrightarrow> i < length (accessors d)"
    and "thread_storage d tid \<noteq> None" and "tid \<noteq> 0"
    and "grow py tid d = Some (r, d')" and "r < 0"
    and "thread_storage d' tid' \<noteq> None" and "PyObject_Hash py key \<noteq> -1"
    and "\<not> is_sentinel key" and "expected \<noteq> EXPECTATION_FAILED" and "\<not> is_sentinel desired"
  shows "AtomicDict_CompareAndSet py tid' key expected desired d' = None \<and> AtomicDict_DelItem py tid' key d' = None"
proof -
  obtain i where i: "thread_storage d tid = Some i" using assms(5) by blast
  note g = grow_abandons [OF assms(1-3) i storages [OF i] assms(6-8)]
  obtain j where j: "thread_storage d' tid' = Some j" using assms(9) by blast
  have len: "j < length (accessors d')" using j storages [of tid' j] g(2,3) by simp
  have storage: "get_or_create_accessor_storage tid' d' = Some (Some j, d')"
    using j by (simp add: get_or_create_accessor_storage_def)
  have "cas_beginning py tid' j key hash expected desired d' = None" for hash
    using cas_never_returns g(1) len by (metis option.exhaust)
  moreover have "del_beginning py tid' j key hash d' = None" for hash
    using del_never_returns g(1) len by (metis option.exhaust)
  ultimately show ?thesis
    using assms(10-13) storage by (simp add: AtomicDict_CompareAndSet_def AtomicDict_DelItem_def)
qed

definition example_no_memory :: dict where
  "example_no_memory = example_dict\<lparr>thread_storage := [5 \<mapsto> 0, 6 \<mapsto> 1], allocations := [False]\<rparr>"

theorem failed_resize_blocks_writers_witness:
  "\<exists>d'. grow example_env 5 example_no_memory = Some (- 1, d') \<and>
     AtomicDict_CompareAndSet example_env 6 (Obj 1) ANY (Obj 2) d' = None \<and>
     AtomicDict_DelItem example_env 6 (Obj 1) d' = None"
proof -
  let ?d = "example_no_memory"
  have d: "metadata ?d = MetaAt 0" "(0::nat) < next_meta ?d" "resize_leader (metas ?d 0) = 0"
    "thread_storage ?d = [5 \<mapsto> 0, 6 \<mapsto> 1]" "length (accessors ?d) = 2" "allocations ?d = [False]"
    by (simp_all add: example_no_memory_def example_dict_def example_meta_def)
  have log: "log_size (metas ?d 0) = 7" by (simp add: example_no_memory_def example_dict_def example_meta_def)
  have "grow example_env 5 ?d \<noteq> None \<and> fst (the (grow example_env 5 ?d)) = - 1"
    by (simp add: grow_def get_or_create_accessor_storage_def resize_def leader_resize_def
        AtomicDictMeta_New_def allocate_def resize_failed_def get_meta_def upd_meta_def upd_storage_def layout_consts
        example_no_memory_def example_dict_def example_meta_def zero_storage_def)
  then obtain d' where g: "grow example_env 5 ?d = Some (- 1, d')" by auto
  have stored: "\<And>tid i. thread_storage ?d tid = Some i \<Longrightarrow> i < length (accessors ?d)"
    using d(4,5) by (auto split: if_splits)
  have five: "thread_storage ?d 5 = Some 0" "0 < length (accessors ?d)" using d(4,5) by simp_all
  have "thread_storage d' = thread_storage ?d" by (rule grow_abandons(2) [OF d(1-3) five _ g]) simp_all
  then have "thread_storage d' 6 \<noteq> None" using d(4) by simp
  then have "AtomicDict_CompareAndSet example_env 6 (Obj 1) ANY (Obj 2) d' = None \<and>
      AtomicDict_DelItem example_env 6 (Obj 1) d' = None"
    by (intro failed_resize_blocks_writers [OF d(1-3) stored _ _ g])
      (simp_all add: is_sentinel_def five)
  with g show ?thesis by blast
qed

end
