(* ===== verification/TableSteps.thy ===== *)
theory TableSteps
  imports Delete
begin

text \<open>
  The operations on one table as steps of concurrent threads: \<open>expected_insert_or_update\<close> and
  \<open>expected_update_entry\<close> (\<^verbatim>\<open>src/src/cereggii/atomic_dict/insert.c\<close>), \<open>lookup\<close>
  (\<^verbatim>\<open>lookup.c\<close>) and \<open>delete_\<close> (\<^verbatim>\<open>delete.c\<close>).

  A step of a thread is one access to the shared memory (a load of a node or of an entry, or a
  compare-and-exchange) and what the thread computes from it.  Where a thread is, with the local
  variables that are still used, is an \<open>op_pc\<close>.  Two things are coarser than the code.  An entry is
  loaded in one step (\<open>read_entry\<close>): the code loads the value first, and the key and the hash of an
  entry that a node points at do not change.  The comparison of two keys happens in the step that loads
  the entry.  The variable \<open>current\<close> of \<open>expected_insert_or_update\<close> is \<open>NULL\<close> whenever the probe goes
  on, and it is the value of the exchange otherwise.
\<close>

subsection \<open>Where a thread is\<close>

datatype answer = Value "pyobj option" | MustGrowTable | Raises

datatype op_pc =
    Ready
  | Probing nat
  | Checking nat node
  | Exchanging nat node entry_ptr pyobj
  | Rereading nat node entry_ptr
  | Publishing nat node
  | Burying nat node pyobj
  | Returned answer

subsection \<open>Compare and set\<close>

text \<open>The next distance, or the whole table has been probed.\<close>

definition probe_on :: "nat \<Rightarrow> meta \<Rightarrow> op_pc" where
  "probe_on k m = (if Suc k \<ge> SIZE_OF m then Returned MustGrowTable else Probing (Suc k))"

text \<open>The body of the loop of \<open>expected_update_entry\<close> up to its exchange.\<close>

definition check_value :: "pyobj \<Rightarrow> nat \<Rightarrow> node \<Rightarrow> entry_ptr \<Rightarrow> pyobj option \<Rightarrow> meta \<Rightarrow> op_pc" where
  "check_value expected k nd p v m =
     (if v \<noteq> Some expected \<and> expected \<noteq> ANY then Returned (Value (insert_outcome expected False None))
      else (case v of None \<Rightarrow> probe_on k m | Some v \<Rightarrow> Exchanging k nd p v))"

definition check_entry :: "pyenv \<Rightarrow> pyobj \<Rightarrow> pyobj \<Rightarrow> nat \<Rightarrow> node \<Rightarrow> entry_ptr \<Rightarrow> entry \<Rightarrow> meta \<Rightarrow> op_pc option" where
  "check_entry py key expected k nd p e m =
     (let found = (if expected = NOT_FOUND then Returned (Value (insert_outcome expected False None))
                   else check_value expected k nd p (e_value e) m) in
      if e_value e = None \<or> PyObject_Hash py key \<noteq> e_hash e then Some (probe_on k m)
      else if e_key e \<noteq> Some key then
        (case e_key e of
           None \<Rightarrow> None
         | Some k' \<Rightarrow>
             (case RichCompareEq py k' key of
                CmpError \<Rightarrow> Some (Returned Raises)
              | CmpFalse \<Rightarrow> Some (probe_on k m)
              | CmpTrue \<Rightarrow> Some found))
      else Some found)"

fun cas_step :: "pyenv \<Rightarrow> pyobj \<Rightarrow> pyobj \<Rightarrow> pyobj \<Rightarrow> u64 \<Rightarrow> op_pc \<Rightarrow> world \<Rightarrow> (op_pc \<times> world) option" where
  "cas_step py key expected desired location (Probing k) (h, m) =
     (let hash = PyObject_Hash py key;
          nd = read_node_at ((distance0_of py hash m + of_nat k) AND index_mask m) m in
      if is_empty nd then
        (if expected \<noteq> NOT_FOUND \<and> expected \<noteq> ANY
         then Some (Returned (Value (insert_outcome expected False None)), h, m)
         else Some (Publishing k nd, h, m))
      else if is_tombstone nd \<or> \<not> check_tag py hash nd m then Some (probe_on k m, h, m)
      else Some (Checking k nd, h, m))"
| "cas_step py key expected desired location (Checking k nd) (h, m) =
     (case get_entry_at (n_index nd) m of
        None \<Rightarrow> None
      | Some p \<Rightarrow> map_option (\<lambda>pc. (pc, h, m)) (check_entry py key expected k nd p (read_entry h p) m))"
| "cas_step py key expected desired location (Exchanging k nd p v) (h, m) =
     (let (ok, v', _) = compare_exchange (e_value (h p)) (Some v) (Some desired) in
      if ok then Some (Returned (Value (insert_outcome expected True (Some v))), set_value p v' h, m)
      else Some (Rereading k nd p, h, m))"
| "cas_step py key expected desired location (Rereading k nd p) (h, m) =
     Some (check_value expected k nd p (e_value (read_entry h p)) m, h, m)"
| "cas_step py key expected desired location (Publishing k nd) (h, m) =
     (let hash = PyObject_Hash py key;
          (ok, m) = atomic_write_node_at ((distance0_of py hash m + of_nat k) AND index_mask m) nd
                      (insert_node py location hash k) m in
      if \<not> ok then Some (Probing k, h, m)
      else if Suc k \<ge> SIZE_OF m then Some (Returned MustGrowTable, h, m)
      else Some (Returned (Value (insert_outcome expected True None)), h, m))"
| "cas_step py key expected desired location pc w = None"

subsection \<open>Lookup and deletion\<close>

text \<open>\<open>found\<close> says what becomes of an entry with the key.\<close>

fun search_step ::
  "pyenv \<Rightarrow> pyobj \<Rightarrow> (nat \<Rightarrow> node \<Rightarrow> entry_ptr \<Rightarrow> pyobj \<Rightarrow> op_pc) \<Rightarrow> op_pc \<Rightarrow> world \<Rightarrow> (op_pc \<times> world) option" where
  "search_step py key found (Probing k) (h, m) =
     (let hash = PyObject_Hash py key in
      if k < SIZE_OF m then
        (let nd = read_node_at (distance0_of py hash m + of_nat k) m in
         if is_empty nd then Some (Returned (Value None), h, m)
         else if is_tombstone nd \<or> \<not> check_tag py hash nd m then Some (Probing (Suc k), h, m)
         else Some (Checking k nd, h, m))
      else Some (Returned (Value None), h, m))"
| "search_step py key found (Checking k nd) (h, m) =
     (case get_entry_at (n_index nd) m of
        None \<Rightarrow> None
      | Some p \<Rightarrow>
          (let e = read_entry h p in
           case (e_value e, e_key e) of
             (Some v, Some k') \<Rightarrow>
               if k' = key then Some (found k nd p v, h, m)
               else if e_hash e \<noteq> PyObject_Hash py key then Some (Probing (Suc k), h, m)
               else
                 (case RichCompareEq py k' key of
                    CmpError \<Rightarrow> Some (Returned Raises, h, m)
                  | CmpFalse \<Rightarrow> Some (Probing (Suc k), h, m)
                  | CmpTrue \<Rightarrow> Some (found k nd p v, h, m))
           | (None, _) \<Rightarrow> Some (Probing (Suc k), h, m)
           | (Some v, None) \<Rightarrow>
               if e_hash e \<noteq> PyObject_Hash py key then Some (Probing (Suc k), h, m) else None))"
| "search_step py key found pc w = None"

definition lookup_step :: "pyenv \<Rightarrow> pyobj \<Rightarrow> op_pc \<Rightarrow> world \<Rightarrow> (op_pc \<times> world) option" where
  "lookup_step py key = search_step py key (\<lambda>k nd p v. Returned (Value (Some v)))"

fun delete_step :: "pyenv \<Rightarrow> pyobj \<Rightarrow> op_pc \<Rightarrow> world \<Rightarrow> (op_pc \<times> world) option" where
  "delete_step py key (Exchanging k nd p v) (h, m) =
     (let (ok, v', _) = compare_exchange (e_value (h p)) (Some v) None in
      if ok then Some (Burying k nd v, set_value p v' h, m) else Some (Rereading k nd p, h, m))"
| "delete_step py key (Rereading k nd p) (h, m) =
     (case e_value (read_entry h p) of
        None \<Rightarrow> Some (Returned (Value None), h, m)
      | Some v \<Rightarrow> Some (Exchanging k nd p v, h, m))"
| "delete_step py key (Burying k nd v) (h, m) =
     (let position = (distance0_of py (PyObject_Hash py key) m + of_nat k) AND index_mask m;
          (ok, m) = atomic_write_node_at position nd (tombstone_node m) m in
      Some (Returned (Value (Some v)), h, m))"
| "delete_step py key pc w = search_step py key Exchanging pc w"

subsection \<open>Threads\<close>

text \<open>What a thread was asked to do: an insertion comes with the location of the entry that it has filled.\<close>

datatype table_op = CompareSet pyobj pyobj u64 | Search | Remove

record table_request =
  rq_key :: pyobj
  rq_op :: table_op

definition op_step :: "pyenv \<Rightarrow> table_request \<Rightarrow> op_pc \<Rightarrow> world \<Rightarrow> (op_pc \<times> world) option" where
  "op_step py rq pc w =
     (case rq_op rq of
        CompareSet expected desired location \<Rightarrow> cas_step py (rq_key rq) expected desired location pc w
      | Search \<Rightarrow> lookup_step py (rq_key rq) pc w
      | Remove \<Rightarrow> delete_step py (rq_key rq) pc w)"

text \<open>
  The shared memory and the threads.  The other fields record the history and influence nothing: the
  maps that the table has stood for, one after the other, the moment (an index of that list) at which a
  thread was called, and the moment after which its step changed the map.
\<close>

record table_run =
  tr_heap :: heap
  tr_meta :: meta
  tr_pc :: "nat \<Rightarrow> op_pc"
  tr_maps :: "(pyobj \<Rightarrow> pyobj option) list"
  tr_start :: "nat \<Rightarrow> nat"
  tr_effect :: "nat \<Rightarrow> nat option"

definition now :: "table_run \<Rightarrow> nat" where
  "now s = length (tr_maps s) - 1"

definition moved :: "pyenv \<Rightarrow> nat \<Rightarrow> op_pc \<Rightarrow> heap \<Rightarrow> meta \<Rightarrow> table_run \<Rightarrow> table_run" where
  "moved py t pc h m s =
     s\<lparr>tr_heap := h, tr_meta := m, tr_pc := (tr_pc s)(t := pc), tr_maps := tr_maps s @ [table_map py h m],
       tr_effect := (if table_map py h m = table_map py (tr_heap s) (tr_meta s) then tr_effect s
                     else (tr_effect s)(t := Some (now s)))\<rparr>"

inductive table_step :: "pyenv \<Rightarrow> table_request list \<Rightarrow> table_run \<Rightarrow> table_run \<Rightarrow> bool" for py rqs where
  call: "\<lbrakk> t < length rqs; tr_pc s t = Ready \<rbrakk> \<Longrightarrow>
    table_step py rqs s (s\<lparr>tr_pc := (tr_pc s)(t := Probing 0), tr_start := (tr_start s)(t := now s)\<rparr>)"
| access: "\<lbrakk> t < length rqs; op_step py (rqs ! t) (tr_pc s t) (tr_heap s, tr_meta s) = Some (pc, h, m) \<rbrakk> \<Longrightarrow>
    table_step py rqs s (moved py t pc h m s)"

text \<open>
  The state before any thread is called: each insertion has filled an entry of its own, to which no node
  points, and there are empty slots for all of them and one more.
\<close>

fun location_of :: "table_op \<Rightarrow> (u64 \<times> pyobj) option" where
  "location_of (CompareSet expected desired location) =
     (if expected = NOT_FOUND \<or> expected = ANY then Some (location, desired) else None)"
| "location_of _ = None"

definition inserters :: "table_request list \<Rightarrow> nat set" where
  "inserters rqs = {t. t < length rqs \<and> location_of (rq_op (rqs ! t)) \<noteq> None}"

definition reserved_entries :: "pyenv \<Rightarrow> table_request list \<Rightarrow> heap \<Rightarrow> meta \<Rightarrow> nat set \<Rightarrow> bool" where
  "reserved_entries py rqs h m T \<longleftrightarrow>
     (\<forall>t\<in>T. \<forall>l v. location_of (rq_op (rqs ! t)) = Some (l, v) \<longrightarrow> fresh_entry py h m (rq_key (rqs ! t)) v l) \<and>
     (\<forall>t\<in>T. \<forall>u\<in>T. t \<noteq> u \<longrightarrow>
        map_option fst (location_of (rq_op (rqs ! t))) \<noteq> map_option fst (location_of (rq_op (rqs ! u)))) \<and>
     card (occupied m) + card T < SIZE_OF m"

definition table_start :: "pyenv \<Rightarrow> table_request list \<Rightarrow> table_run \<Rightarrow> bool" where
  "table_start py rqs s \<longleftrightarrow>
     wf_index py (tr_heap s) (tr_meta s) \<and> (\<forall>t. tr_pc s t = Ready) \<and>
     tr_maps s = [table_map py (tr_heap s) (tr_meta s)] \<and> (\<forall>t. tr_effect s t = None) \<and>
     reserved_entries py rqs (tr_heap s) (tr_meta s) (inserters rqs)"

inductive table_reachable :: "pyenv \<Rightarrow> table_request list \<Rightarrow> table_run \<Rightarrow> bool" for py rqs where
  start: "table_start py rqs s \<Longrightarrow> table_reachable py rqs s"
| step: "\<lbrakk> table_reachable py rqs s; table_step py rqs s s' \<rbrakk> \<Longrightarrow> table_reachable py rqs s'"

text \<open>What a request means on maps.\<close>

definition op_spec :: "pyenv \<Rightarrow> table_request \<Rightarrow> (pyobj \<Rightarrow> pyobj option) \<Rightarrow> answer \<times> (pyobj \<Rightarrow> pyobj option)" where
  "op_spec py rq M =
     (case rq_op rq of
        CompareSet expected desired location \<Rightarrow>
          (case cas_spec py (rq_key rq) expected desired M of (r, M') \<Rightarrow> (Value (Some r), M'))
      | Search \<Rightarrow> (Value (M (rq_key rq)), M)
      | Remove \<Rightarrow>
          (case M (rq_key rq) of
             None \<Rightarrow> (Value None, M)
           | Some v \<Rightarrow> (Value (Some v), map_put py (rq_key rq) None M)))"

end
