(* ===== verification/TableAccess.thy ===== *)
theory TableAccess
  imports TableSteps
begin

text \<open>
  What a single access of a thread does to a table (\<open>TableSteps\<close>), what every access keeps, what a thread
  knows of the table while others run, and that its next access succeeds and advances it as the
  specification of its operation allows.
\<close>

subsection \<open>What one access does to the table\<close>

datatype change = Same | Exchanged | Linked u64 | Buried nat

inductive table_change :: "pyenv \<Rightarrow> change \<Rightarrow> world \<Rightarrow> world \<Rightarrow> bool" for py where
  same: "table_change py Same w w"
| exchanged: "\<lbrakk> p < SIZE_OF m; holds py h m key p; get_entry_at (n_index (slot m p)) m = Some ptr \<rbrakk> \<Longrightarrow>
    table_change py Exchanged (h, m) (set_value ptr v h, m)"
| linked: "insertable py h m key location ptr v k p \<Longrightarrow>
    table_change py (Linked location) (h, m) (h, put_node p (insert_node py location (PyObject_Hash py key) k) m)"
| buried: "\<lbrakk> p < SIZE_OF m; index m p \<noteq> 0; \<forall>key. \<not> holds py h m key p \<rbrakk> \<Longrightarrow>
    table_change py (Buried p) (h, m) (h, put_node p (tombstone_node m) m)"

lemma table_change_cases [consumes 1, case_names same exchanged linked buried]:
  assumes "table_change py c (h, m) (h', m')"
  obtains "c = Same" and "h' = h" and "m' = m"
    | p key ptr v where "c = Exchanged" and "h' = set_value ptr v h" and "m' = m" and "p < SIZE_OF m"
      and "holds py h m key p" and "get_entry_at (n_index (slot m p)) m = Some ptr"
    | key location ptr v k p where "c = Linked location" and "h' = h"
      and "m' = put_node p (insert_node py location (PyObject_Hash py key) k) m"
      and "insertable py h m key location ptr v k p"
    | p where "c = Buried p" and "h' = h" and "m' = put_node p (tombstone_node m) m" and "p < SIZE_OF m"
      and "index m p \<noteq> 0" and "\<forall>key. \<not> holds py h m key p"
  using assms
proof cases
  case same
  with that(1) show thesis by simp
next
  case exchanged
  with that(2) show thesis by simp
next
  case linked
  with that(3) show thesis by simp
next
  case buried
  with that(4) show thesis by simp
qed

text \<open>What every access keeps, and what it can take from the others.\<close>

definition evolves :: "pyenv \<Rightarrow> heap \<Rightarrow> meta \<Rightarrow> heap \<Rightarrow> meta \<Rightarrow> bool" where
  "evolves py h m h' m' \<longleftrightarrow>
     log_size m' = log_size m \<and> pages m' = pages m \<and> greatest_allocated_page m' = greatest_allocated_page m \<and>
     (\<forall>ptr. e_key (h' ptr) = e_key (h ptr) \<and> e_hash (h' ptr) = e_hash (h ptr)) \<and>
     (\<forall>ptr. e_value (h ptr) = None \<longrightarrow> e_value (h' ptr) = None) \<and>
     (\<forall>p<SIZE_OF m. index m p \<noteq> 0 \<longrightarrow>
        index m' p \<noteq> 0 \<and> (index m' p = index m p \<or> (\<forall>key. \<not> holds py h m key p))) \<and>
     (\<forall>p<SIZE_OF m. \<forall>key. holds py h m key p \<and> \<not> holds py h' m' key p \<longrightarrow> table_map py h' m' key = None) \<and>
     (\<forall>p<SIZE_OF m. \<forall>key. index m p \<noteq> 0 \<and> holds py h' m' key p \<longrightarrow> holds py h m key p)"

lemma evolvesD:
  assumes "evolves py h m h' m'"
  shows "log_size m' = log_size m" and "SIZE_OF m' = SIZE_OF m" and "get_entry_at ix m' = get_entry_at ix m"
    and "home py m' = home py m"
    and "e_key (h' ptr) = e_key (h ptr)" and "e_hash (h' ptr) = e_hash (h ptr)"
    and "e_value (h ptr) = None \<Longrightarrow> e_value (h' ptr) = None"
    and "p < SIZE_OF m \<Longrightarrow> index m p \<noteq> 0 \<Longrightarrow> index m' p \<noteq> 0"
    and "p < SIZE_OF m \<Longrightarrow> index m p \<noteq> 0 \<Longrightarrow> index m' p = index m p \<or> (\<forall>key. \<not> holds py h m key p)"
    and "p < SIZE_OF m \<Longrightarrow> holds py h m key p \<Longrightarrow> holds py h' m' key p \<or> table_map py h' m' key = None"
    and "p < SIZE_OF m \<Longrightarrow> index m p \<noteq> 0 \<Longrightarrow> holds py h' m' key p \<Longrightarrow> holds py h m key p"
proof -
  show eq: "log_size m' = log_size m" "SIZE_OF m' = SIZE_OF m" "get_entry_at ix m' = get_entry_at ix m" "home py m' = home py m"
    using assms by (simp_all add: evolves_def SIZE_OF_def get_entry_at_def fun_eq_iff home_def distance0_of_def)
qed (insert assms, unfold evolves_def, elim conjE, metis)+

lemma index_tombstone:
  assumes "wf_index py h m"
  shows "index (put_node p (tombstone_node m) m) q = 0 \<longleftrightarrow> q \<noteq> p \<and> index m q = 0"
  using tombstone_slot(2) [OF assms] by (simp add: index_put_node)

lemma table_change_wf:
  assumes "table_change py c (h, m) (h', m')" and "wf_index py h m" and "well_behaved_keys py"
  shows "wf_index py h' m'"
  using assms(1)
proof (cases rule: table_change_cases)
  case (linked key location ptr v k p)
  then show ?thesis using insert_wf [OF assms(2,3)] by blast
qed (use assms set_value_wf tombstone_wf in blast)+

lemma table_change_evolves:
  assumes "table_change py c (h, m) (h', m')" and wf: "wf_index py h m" and wb: "well_behaved_keys py"
  shows "evolves py h m h' m'"
  using assms(1)
proof (cases rule: table_change_cases)
  case same
  then show ?thesis by (auto simp: evolves_def)
next
  case (exchanged p key ptr v)
  note H = holds_set_value [OF wf wb exchanged(4-6)] and M = set_value_map [OF wf wb exchanged(4-6)]
  have old: "holds py h m k p \<longleftrightarrow> same_key py key k" for k
    using exchanged(5) wb by (auto simp: holds_def split: option.splits intro: same_key_trans same_key_sym)
  from exchanged(5,6) have "e_value (h ptr) \<noteq> None" by (auto simp: entry_of_def elim: holdsD)
  then show ?thesis
    unfolding evolves_def exchanged(2,3) using H M old by (auto simp: set_value_def)
next
  case (linked key location ptr v k p)
  then have p: "index m p = 0" by (simp add: insertable_def)
  then have "\<not> holds py h m a p" for a by (auto elim: holdsD dest: live_not_empty)
  with linked p show ?thesis
    using holds_inserted [OF wf linked(4)] by (auto simp: evolves_def index_put_node)
next
  case (buried p)
  then show ?thesis
    using index_tombstone [OF wf] holds_tombstone [OF wf, of p]
    by (auto simp: evolves_def index_put_node)
qed

lemma occupied_finite: "finite (occupied m)"
  by (rule finite_subset [of _ "{..<SIZE_OF m}"]) (auto simp: occupied_def)

lemma table_change_occupied:
  assumes "table_change py c (h, m) (h', m')" and "wf_index py h m"
  shows "card (occupied m') = card (occupied m) + (case c of Linked l \<Rightarrow> 1 | _ \<Rightarrow> 0)"
  using assms(1)
proof (cases rule: table_change_cases)
  case (linked key location ptr v k p)
  from slot_inserted(4) [OF assms(2) linked(4)] linked have "occupied m' = insert p (occupied m)" "p \<notin> occupied m"
    by (auto simp: occupied_def index_put_node insertable_def on_path_def split: if_splits)
  then show ?thesis using linked(1) occupied_finite by simp
next
  case (buried p)
  then have "occupied m' = occupied m" using index_tombstone [OF assms(2)] by (auto simp: occupied_def)
  with buried show ?thesis by simp
qed simp_all

text \<open>An entry that waits to be linked keeps waiting, unless it is the one that is linked.\<close>

lemma table_change_fresh:
  assumes "table_change py c (h, m) (h', m')" and wf: "wf_index py h m" and c: "c \<noteq> Linked location"
    and f: "fresh_entry py h m key v location"
  shows "fresh_entry py h' m' key v location"
  using assms(1)
proof (cases rule: table_change_cases)
  case same
  with f show ?thesis by simp
next
  case (exchanged p key2 ptr v2)
  then have live: "live m p" by (auto elim: holdsD)
  from f obtain ptr2 where f2: "get_entry_at location m = Some ptr2" "allocated m location"
    "n_index (slot m p) \<noteq> location" using exchanged(4) live by (auto simp: fresh_entry_def split: option.splits)
  have "allocated m (n_index (slot m p))" using wf_node [OF wf exchanged(4) live] by (simp add: node_ok_def)
  with get_entry_at_inj [OF wf_pages [OF wf] f2(2)] f2 exchanged(6) have "ptr2 \<noteq> ptr" by metis
  with f f2(1) exchanged show ?thesis by (simp add: fresh_entry_def set_value_def)
next
  case (linked key2 location2 ptr v2 k p)
  with c have "location2 \<noteq> location" by simp
  with f linked slot_inserted(1) [OF wf linked(4), of "PyObject_Hash py key2"] show ?thesis
    by (auto simp: fresh_entry_def live_put_node_other) (metis live_put_node_other slot_put_node_other)
next
  case (buried p)
  then have "n_index (slot m' q) \<noteq> location" if "q < SIZE_OF m" "live m' q" for q
    using that f tombstone_slot(1) [OF wf, of p]
    by (metis fresh_entry_def live_put_node_other slot_put_node_other)
  with f buried show ?thesis by (simp add: fresh_entry_def)
qed

subsection \<open>What a thread knows while others run\<close>

text \<open>The slot at a distance of the probe for a key, and a probe that has not met the key before it.\<close>

definition probed :: "pyenv \<Rightarrow> meta \<Rightarrow> pyobj \<Rightarrow> nat \<Rightarrow> nat" where
  "probed py m key k = (home py m (PyObject_Hash py key) + k) mod SIZE_OF m"

definition passed :: "pyenv \<Rightarrow> heap \<Rightarrow> meta \<Rightarrow> pyobj \<Rightarrow> nat \<Rightarrow> bool" where
  "passed py h m key k \<longleftrightarrow>
     (\<forall>j<k. index m (probed py m key j) \<noteq> 0 \<and> \<not> holds py h m key (probed py m key j))"

text \<open>
  A node that a thread has read, whose entry is \<open>ptr\<close> with key \<open>kk\<close>: it is still in its slot, or the entry
  has lost its value for good.
\<close>

definition node_read :: "pyenv \<Rightarrow> heap \<Rightarrow> meta \<Rightarrow> nat \<Rightarrow> node \<Rightarrow> entry_ptr \<Rightarrow> pyobj \<Rightarrow> bool" where
  "node_read py h m p nd ptr kk \<longleftrightarrow>
     get_entry_at (n_index nd) m = Some ptr \<and> e_key (h ptr) = Some kk \<and> e_hash (h ptr) = PyObject_Hash py kk \<and>
     index m p \<noteq> 0 \<and>
     (slot m p = nd \<and> live m p \<or> e_value (h ptr) = None \<and> (\<forall>key. \<not> holds py h m key p))"

text \<open>The node at hand has the key; \<open>absent\<close> says that since the call there was a moment without it.\<close>

definition at_key :: "pyenv \<Rightarrow> pyobj \<Rightarrow> bool \<Rightarrow> heap \<Rightarrow> meta \<Rightarrow> nat \<Rightarrow> node \<Rightarrow> entry_ptr \<Rightarrow> bool" where
  "at_key py key absent h m k nd ptr \<longleftrightarrow>
     passed py h m key k \<and>
     (\<exists>kk. node_read py h m (probed py m key k) nd ptr kk \<and> same_key py kk key) \<and>
     (e_value (h ptr) = None \<longrightarrow> absent)"

definition buries :: "pyenv \<Rightarrow> pyobj \<Rightarrow> heap \<Rightarrow> meta \<Rightarrow> nat \<Rightarrow> node \<Rightarrow> bool" where
  "buries py key h m k nd \<longleftrightarrow>
     slot m (probed py m key k) = nd \<and> live m (probed py m key k) \<and> (\<forall>a. \<not> holds py h m a (probed py m key k))"

fun pc_ok :: "pyenv \<Rightarrow> table_request \<Rightarrow> bool \<Rightarrow> heap \<Rightarrow> meta \<Rightarrow> op_pc \<Rightarrow> bool" where
  "pc_ok py rq absent h m (Probing k) = passed py h m (rq_key rq) k"
| "pc_ok py rq absent h m (Checking k nd) =
     (passed py h m (rq_key rq) k \<and> (\<exists>ptr kk. node_read py h m (probed py m (rq_key rq) k) nd ptr kk))"
| "pc_ok py rq absent h m (Exchanging k nd ptr v) =
     (at_key py (rq_key rq) absent h m k nd ptr \<and>
      (case rq_op rq of
         CompareSet expected _ _ \<Rightarrow> expected \<noteq> NOT_FOUND \<and> (expected = ANY \<or> v = expected)
       | Search \<Rightarrow> False
       | Remove \<Rightarrow> True))"
| "pc_ok py rq absent h m (Rereading k nd ptr) =
     (at_key py (rq_key rq) absent h m k nd ptr \<and>
      (case rq_op rq of
         CompareSet expected _ _ \<Rightarrow> expected \<noteq> NOT_FOUND | Search \<Rightarrow> False | Remove \<Rightarrow> True))"
| "pc_ok py rq absent h m (Publishing k nd) =
     (passed py h m (rq_key rq) k \<and> nd = parse_node_from_raw 0 m \<and> location_of (rq_op rq) \<noteq> None)"
| "pc_ok py rq absent h m (Burying k nd v) = (rq_op rq = Remove \<and> buries py (rq_key rq) h m k nd)"
| "pc_ok py rq absent h m _ = True"

lemma probed_lt [simp]: "probed py m key k < SIZE_OF m"
  by (simp add: probed_def)

lemma passed_0 [simp]: "passed py h m key 0"
  by (simp add: passed_def)

lemma passed_Suc:
  "passed py h m key k \<Longrightarrow> index m (probed py m key k) \<noteq> 0 \<Longrightarrow> \<not> holds py h m key (probed py m key k) \<Longrightarrow>
     passed py h m key (Suc k)"
  by (simp add: passed_def less_Suc_eq)

lemma probe_goes_on:
  assumes "wf_index py h m" and "passed py h m key k" and "index m (probed py m key k) \<noteq> 0"
  shows "Suc k < SIZE_OF m"
proof -
  from wf_empty_slot [OF assms(1)] obtain q where "q < SIZE_OF m" "index m q = 0" by blast
  moreover from assms(2,3) have "\<forall>j\<le>k. index m ((home py m (PyObject_Hash py key) + j) mod SIZE_OF m) \<noteq> 0"
    by (auto simp: passed_def le_less probed_def)
  ultimately show ?thesis using probe_room home_lt [OF wf_log_size_le [OF assms(1)]] by blast
qed

lemma passed_lt:
  assumes "wf_index py h m" and "passed py h m key k"
  shows "k < SIZE_OF m"
proof (cases k)
  case (Suc j)
  with assms have "passed py h m key j" "index m (probed py m key j) \<noteq> 0" by (simp_all add: passed_def)
  from probe_goes_on [OF assms(1) this] Suc show ?thesis by simp
qed simp

lemma passed_none:
  assumes "wf_index py h m" and "well_behaved_keys py" and "passed py h m key k"
    and "index m (probed py m key k) = 0"
  shows "\<forall>p<SIZE_OF m. \<not> holds py h m key p"
  using assms by (intro none_holds [OF assms(1,2), of k]) (simp_all add: passed_def probed_def)

text \<open>What a thread knows is stable under the accesses of the others.\<close>

lemma evolves_probed [simp]: "evolves py h m h' m' \<Longrightarrow> probed py m' key k = probed py m key k"
  by (simp add: probed_def evolvesD)

lemma evolves_passed: "evolves py h m h' m' \<Longrightarrow> passed py h m key k \<Longrightarrow> passed py h' m' key k"
  using evolvesD(8,11) by (fastforce simp: passed_def)

lemma holds_value:
  assumes "live m p" and "get_entry_at (n_index (slot m p)) m = Some ptr" and "e_key (h ptr) = Some kk"
  shows "holds py h m key p \<longleftrightarrow> e_value (h ptr) \<noteq> None \<and> same_key py kk key"
  using assms by (simp add: holds_def entry_of_def)

lemma evolves_node_read:
  assumes ev: "evolves py h m h' m'" and wb: "well_behaved_keys py" and p: "p < SIZE_OF m"
    and nr: "node_read py h m p nd ptr kk"
  shows "node_read py h' m' p nd ptr kk"
proof -
  note E = evolvesD [OF ev]
  from nr have ne: "index m p \<noteq> 0" by (simp add: node_read_def)
  note keep = E(3) E(5,6) E(8) [OF p ne]
  show ?thesis
  proof (cases "e_value (h ptr) = None \<and> (\<forall>key. \<not> holds py h m key p)")
    case True
    with E(7) E(11) [OF p ne] nr show ?thesis by (auto simp: node_read_def keep)
  next
    case False
    with nr have s: "slot m p = nd" "live m p" by (auto simp: node_read_def)
    show ?thesis
    proof (cases "index m' p = index m p")
      case True
      with s have "slot m' p = nd" "live m' p" by (simp_all add: slot_def live_def parse_node_from_raw_def E TAG_MASK_def)
      with nr show ?thesis by (simp add: node_read_def keep)
    next
      case moved: False
      with E(9) [OF p ne] have none: "\<forall>key. \<not> holds py h m key p" by blast
      with s nr holds_value [OF s(2), of ptr h kk py kk] same_key_refl [OF wb] have "e_value (h ptr) = None"
        by (auto simp: node_read_def)
      with False none show ?thesis by blast
    qed
  qed
qed

lemma node_read_holds:
  "node_read py h m p nd ptr kk \<Longrightarrow> holds py h m key p \<longleftrightarrow> e_value (h ptr) \<noteq> None \<and> same_key py kk key"
  using holds_value [of m p ptr h kk py key] by (auto simp: node_read_def)

lemma at_keyD:
  assumes "wf_index py h m" and "at_key py key absent h m k nd ptr" and "e_value (h ptr) = Some v"
  shows "holds py h m key (probed py m key k)" and "slot m (probed py m key k) = nd" and "live m (probed py m key k)"
    and "get_entry_at (n_index (slot m (probed py m key k))) m = Some ptr" and "table_map py h m key = Some v"
proof -
  from assms(2) obtain kk where nr: "node_read py h m (probed py m key k) nd ptr kk" "same_key py kk key"
    by (auto simp: at_key_def)
  with node_read_holds [OF nr(1)] assms(3) show hp: "holds py h m key (probed py m key k)" by simp
  with nr assms(3) show s: "slot m (probed py m key k) = nd" and l: "live m (probed py m key k)"
    by (auto simp: node_read_def)
  with nr show "get_entry_at (n_index (slot m (probed py m key k))) m = Some ptr" by (simp add: node_read_def)
  then have "entry_of h m (probed py m key k) = Some (h ptr)" by (simp add: entry_of_def)
  from table_map_holds [OF assms(1) probed_lt hp this] assms(3) show "table_map py h m key = Some v" by simp
qed

lemma at_key_gone: "at_key py key absent h m k nd ptr \<Longrightarrow> e_value (h ptr) = None \<Longrightarrow> \<not> holds py h m key (probed py m key k)"
  by (auto simp: at_key_def node_read_holds)

lemma evolves_at_key:
  assumes ev: "evolves py h m h' m'" and wf: "wf_index py h m" and wb: "well_behaved_keys py"
    and A: "absent \<or> table_map py h' m' key = None \<Longrightarrow> absent'" and ak: "at_key py key absent h m k nd ptr"
  shows "at_key py key absent' h' m' k nd ptr"
proof -
  from ak obtain kk where nr: "node_read py h m (probed py m key k) nd ptr kk" "same_key py kk key"
    by (auto simp: at_key_def)
  note nr' = evolves_node_read [OF ev wb probed_lt nr(1)]
  have "absent'" if none: "e_value (h' ptr) = None"
  proof (cases "e_value (h ptr)")
    case None
    with ak A show ?thesis by (simp add: at_key_def)
  next
    case (Some v)
    from none node_read_holds [OF nr'] have "\<not> holds py h' m' key (probed py m key k)" by simp
    with evolvesD(10) [OF ev probed_lt at_keyD(1) [OF wf ak Some]] A show ?thesis by blast
  qed
  with ak nr' nr(2) evolves_passed [OF ev] ev show ?thesis by (auto simp: at_key_def)
qed

text \<open>Only the thread that buries a node overwrites it.\<close>

lemma evolves_pc_ok:
  assumes ev: "evolves py h m h' m'" and wf: "wf_index py h m" and wb: "well_behaved_keys py"
    and A: "absent \<or> table_map py h' m' (rq_key rq) = None \<Longrightarrow> absent'" and ok: "pc_ok py rq absent h m pc"
    and B: "\<And>k nd v. pc = Burying k nd v \<Longrightarrow> index m' (probed py m (rq_key rq) k) = index m (probed py m (rq_key rq) k)"
  shows "pc_ok py rq absent' h' m' pc"
proof (cases pc)
  case (Checking k nd)
  with ok evolves_passed [OF ev] evolves_node_read [OF ev wb probed_lt] ev show ?thesis by fastforce
next
  case (Exchanging k nd ptr v)
  with ok evolves_at_key [OF ev wf wb, of absent "rq_key rq" absent'] A show ?thesis by auto
next
  case (Rereading k nd ptr)
  with ok evolves_at_key [OF ev wf wb, of absent "rq_key rq" absent'] A show ?thesis by auto
next
  case (Publishing k nd)
  with ok evolves_passed [OF ev] evolvesD(1) [OF ev] show ?thesis
    by (simp add: parse_node_from_raw_def TAG_MASK_def)
next
  case (Burying k nd v)
  let ?p = "probed py m (rq_key rq) k"
  have "slot m' ?p = slot m ?p" "live m' ?p = live m ?p"
    using B [OF Burying] evolvesD(1) [OF ev] by (simp_all add: slot_def live_def parse_node_from_raw_def TAG_MASK_def)
  moreover have "live m ?p" "\<forall>a. \<not> holds py h m a ?p" using ok Burying by (simp_all add: buries_def)
  then have "\<forall>a. \<not> holds py h' m' a ?p" using evolvesD(11) [OF ev probed_lt] live_not_empty by blast
  ultimately show ?thesis using ok Burying ev by (simp add: buries_def)
qed (use ok evolves_passed [OF ev] in auto)

subsection \<open>What an access of a thread does\<close>

definition running :: "op_pc \<Rightarrow> bool" where
  "running pc = (case pc of Ready \<Rightarrow> False | Returned _ \<Rightarrow> False | Burying _ _ _ \<Rightarrow> False | _ \<Rightarrow> True)"

text \<open>The answer of an operation that leaves the map alone: right now, or when the key was absent.\<close>

definition answers :: "pyenv \<Rightarrow> table_request \<Rightarrow> bool \<Rightarrow> (pyobj \<Rightarrow> pyobj option) \<Rightarrow> answer \<Rightarrow> bool" where
  "answers py rq absent M a \<longleftrightarrow>
     op_spec py rq M = (a, M) \<or> absent \<and> (\<forall>M. M (rq_key rq) = None \<longrightarrow> op_spec py rq M = (a, M))"

inductive advance ::
  "pyenv \<Rightarrow> table_request \<Rightarrow> bool \<Rightarrow> heap \<Rightarrow> meta \<Rightarrow> change \<Rightarrow> op_pc \<Rightarrow> heap \<Rightarrow> meta \<Rightarrow> bool"
  for py rq absent h m where
  runs: "\<lbrakk> running pc'; pc_ok py rq (absent \<or> table_map py h m (rq_key rq) = None) h m pc' \<rbrakk> \<Longrightarrow>
    advance py rq absent h m Same pc' h m"
| answers: "answers py rq absent (table_map py h m) a \<Longrightarrow> advance py rq absent h m Same (Returned a) h m"
| commits: "\<lbrakk> op_spec py rq (table_map py h m) = (a, table_map py h' m');
    c = Exchanged \<or> (\<exists>l v. c = Linked l \<and> location_of (rq_op rq) = Some (l, v)) \<rbrakk> \<Longrightarrow>
    advance py rq absent h m c (Returned a) h' m'"
| takes: "\<lbrakk> op_spec py rq (table_map py h m) = (Value (Some v), table_map py h' m);
    table_map py h' m \<noteq> table_map py h m; pc_ok py rq absent h' m (Burying k nd v);
    holds py h m (rq_key rq) (probed py m (rq_key rq) k) \<rbrakk> \<Longrightarrow>
    advance py rq absent h m Exchanged (Burying k nd v) h' m"

definition advances :: "pyenv \<Rightarrow> table_request \<Rightarrow> bool \<Rightarrow> heap \<Rightarrow> meta \<Rightarrow> (op_pc \<times> world) option \<Rightarrow> bool" where
  "advances py rq absent h m res \<longleftrightarrow>
     (\<exists>c pc' h' m'. res = Some (pc', h', m') \<and> table_change py c (h, m) (h', m') \<and>
        advance py rq absent h m c pc' h' m')"

lemma advances_runs:
  "running pc' \<Longrightarrow> pc_ok py rq (absent \<or> table_map py h m (rq_key rq) = None) h m pc' \<Longrightarrow>
     advances py rq absent h m (Some (pc', h, m))"
  unfolding advances_def by (blast intro: table_change.same advance.runs)

lemma advances_answers:
  "answers py rq absent (table_map py h m) a \<Longrightarrow> advances py rq absent h m (Some (Returned a, h, m))"
  unfolding advances_def by (blast intro: table_change.same advance.answers)

lemma running_simps [simp]:
  "running (Probing k)" "running (Checking k nd)" "running (Exchanging k nd ptr v)" "running (Rereading k nd ptr)"
  "running (Publishing k nd)"
  by (simp_all add: running_def)

lemma advances_next:
  assumes "passed py h m (rq_key rq) k" and "index m (probed py m (rq_key rq) k) \<noteq> 0"
    and "\<not> holds py h m (rq_key rq) (probed py m (rq_key rq) k)"
  shows "advances py rq absent h m (Some (Probing (Suc k), h, m))"
  using assms by (intro advances_runs) (simp_all add: passed_Suc)

lemma advances_probe_on:
  assumes "wf_index py h m" and "passed py h m (rq_key rq) k" and "index m (probed py m (rq_key rq) k) \<noteq> 0"
    and "\<not> holds py h m (rq_key rq) (probed py m (rq_key rq) k)"
  shows "advances py rq absent h m (Some (probe_on k m, h, m))"
  using advances_next [OF assms(2-4)] probe_goes_on [OF assms(1-3)] by (simp add: probe_on_def)

text \<open>The tests of a probe.\<close>

lemma probe_read [simp]:
  assumes "log_size m \<le> 30"
  shows "read_node_at ((distance0_of py (PyObject_Hash py key) m + of_nat k) AND index_mask m) m = slot m (probed py m key k)"
    and "read_node_at (distance0_of py (PyObject_Hash py key) m + of_nat k) m = slot m (probed py m key k)"
  using read_on_probe [OF assms] read_node_at_slot [OF assms] by (simp_all add: probed_def home_def)

lemma probe_skips:
  assumes "wf_index py h m" and "well_behaved_keys py"
    and "is_tombstone (slot m (probed py m key k)) \<or> \<not> check_tag py (PyObject_Hash py key) (slot m (probed py m key k)) m"
  shows "\<not> holds py h m key (probed py m key k)"
proof
  assume hp: "holds py h m key (probed py m key k)"
  then have "\<not> is_tombstone (slot m (probed py m key k))" by (auto elim: holdsD simp: live_def)
  moreover have "check_tag py (PyObject_Hash py key) (slot m (probed py m key k)) m"
    using holds_on_path [OF assms(1,2) probed_lt hp] by (auto intro: check_tag_slot)
  ultimately show False using assms(3) by blast
qed

lemma live_node_read:
  assumes wf: "wf_index py h m" and p: "p < SIZE_OF m" and live: "live m p"
  obtains ptr kk where "node_read py h m p (slot m p) ptr kk"
proof -
  from wf_node [OF wf p live] obtain e kk where "entry_of h m p = Some e" "e_key e = Some kk"
    "e_hash e = PyObject_Hash py kk" unfolding node_ok_def by blast
  moreover from this obtain ptr where "get_entry_at (n_index (slot m p)) m = Some ptr" "h ptr = e"
    by (auto simp: entry_of_def)
  ultimately show thesis using live live_not_empty by (intro that [of ptr kk]) (simp add: node_read_def)
qed

lemma advances_checks:
  assumes "wf_index py h m" and "passed py h m (rq_key rq) k" and "live m (probed py m (rq_key rq) k)"
  shows "advances py rq absent h m (Some (Checking k (slot m (probed py m (rq_key rq) k)), h, m))"
proof -
  from live_node_read [OF assms(1) probed_lt assms(3)] obtain ptr kk where
    "node_read py h m (probed py m (rq_key rq) k) (slot m (probed py m (rq_key rq) k)) ptr kk" .
  with assms(2) show ?thesis by (intro advances_runs) (auto simp only: pc_ok.simps running_simps)
qed

lemma entry_read:
  "e_value (h ptr) = Some v \<Longrightarrow> read_entry h ptr = h ptr"
  "e_value (h ptr) = None \<Longrightarrow> e_value (read_entry h ptr) = None" "e_value (h ptr) = None \<Longrightarrow> e_key (read_entry h ptr) = None"
  by (simp_all add: read_entry_def)

lemma checking_key:
  assumes "passed py h m key k" and "node_read py h m (probed py m key k) nd ptr kk" and "same_key py kk key"
    and "e_value (h ptr) \<noteq> None"
  shows "at_key py key absent h m k nd ptr"
  using assms by (auto simp: at_key_def)

text \<open>Compare and set.\<close>

lemma check_value_advances:
  assumes wf: "wf_index py h m" and op: "rq_op rq = CompareSet expected desired location" "expected \<noteq> NOT_FOUND"
    and ak: "at_key py (rq_key rq) absent h m k nd ptr"
  shows "advances py rq absent h m (Some (check_value expected k nd ptr (e_value (h ptr)) m, h, m))"
proof (cases "e_value (h ptr)")
  case None
  from ak have ps: "passed py h m (rq_key rq) k" "index m (probed py m (rq_key rq) k) \<noteq> 0"
    by (auto simp: at_key_def node_read_def)
  show ?thesis
  proof (cases "expected = ANY")
    case True
    with None advances_probe_on [OF wf ps at_key_gone [OF ak None]] show ?thesis by (simp add: check_value_def)
  next
    case False
    from None ak have absent by (simp add: at_key_def)
    with False None op show ?thesis
      by (auto simp: check_value_def insert_outcome_def answers_def op_spec_def cas_spec_def intro!: advances_answers)
  qed
next
  case (Some v)
  note D = at_keyD [OF wf ak Some]
  from ak Some have ak': "at_key py (rq_key rq) b h m k nd ptr" for b by (simp add: at_key_def)
  show ?thesis
  proof (cases "expected = ANY \<or> v = expected")
    case True
    with Some op ak' show ?thesis by (auto simp: check_value_def intro!: advances_runs)
  next
    case False
    with Some op D(5) show ?thesis
      by (auto simp: check_value_def insert_outcome_def answers_def op_spec_def cas_spec_def intro!: advances_answers)
  qed
qed

lemma cas_checks_entry:
  assumes wf: "wf_index py h m" and wb: "well_behaved_keys py" and op: "rq_op rq = CompareSet expected desired location"
    and ps: "passed py h m (rq_key rq) k" and nr: "node_read py h m (probed py m (rq_key rq) k) nd ptr kk"
  shows "advances py rq absent h m
    (map_option (\<lambda>pc. (pc, h, m)) (check_entry py (rq_key rq) expected k nd ptr (read_entry h ptr) m))"
proof -
  let ?p = "probed py m (rq_key rq) k"
  have ne: "index m ?p \<noteq> 0" using nr by (simp add: node_read_def)
  note holds = node_read_holds [OF nr, of "rq_key rq"]
  show ?thesis
  proof (cases "holds py h m (rq_key rq) ?p")
    case False
    have "check_entry py (rq_key rq) expected k nd ptr (read_entry h ptr) m = Some (probe_on k m)"
    proof (cases "e_value (h ptr)")
      case (Some v)
      with False holds have "\<not> same_key py kk (rq_key rq)" by simp
      with Some nr compare_cases [OF wb, of kk "rq_key rq"] same_key_refl [OF wb] show ?thesis
        by (auto simp: check_entry_def entry_read node_read_def Let_def)
    qed (simp add: check_entry_def entry_read Let_def)
    with advances_probe_on [OF wf ps ne False] show ?thesis by simp
  next
    case True
    with holds obtain v where v: "e_value (h ptr) = Some v" "same_key py kk (rq_key rq)" by auto
    note ak = checking_key [OF ps nr v(2)]
    have "check_entry py (rq_key rq) expected k nd ptr (read_entry h ptr) m =
        Some (if expected = NOT_FOUND then Returned (Value (insert_outcome expected False None))
              else check_value expected k nd ptr (e_value (h ptr)) m)"
      using nr v compare_cases [OF wb, of kk "rq_key rq"] same_key_hash [OF wb v(2)]
      by (auto simp: check_entry_def entry_read node_read_def Let_def)
    moreover have "answers py rq absent (table_map py h m) (Value (insert_outcome expected False None))"
      if "expected = NOT_FOUND"
      using at_keyD(5) [OF wf ak v(1)] v(1) that op by (simp add: answers_def op_spec_def cas_spec_def insert_outcome_def)
    ultimately show ?thesis
      using check_value_advances [OF wf op _ ak] v(1) by (auto intro: advances_answers)
  qed
qed

lemma publish_fails:
  assumes "log_size_ok m" and "index m p \<noteq> 0" and "unat pos = p"
  shows "atomic_write_node_at pos (parse_node_from_raw 0 m) nd m = (False, m)"
proof -
  from log_size_ok_bounds [OF assms(1)] have "n_node (compute_raw_node (parse_node_from_raw 0 m) m) = 0"
    by (subst compute_parse) simp_all
  with assms(2,3) show ?thesis by (simp add: atomic_write_node_at_def compare_exchange_fail)
qed

lemma cas_publishes:
  assumes wf: "wf_index py h m" and wb: "well_behaved_keys py" and op: "rq_op rq = CompareSet expected desired location"
    and ex: "expected = NOT_FOUND \<or> expected = ANY" and room: "spare_slots m"
    and fresh: "fresh_entry py h m (rq_key rq) desired location"
    and ps: "passed py h m (rq_key rq) k" and nd: "nd = parse_node_from_raw 0 m"
  shows "advances py rq absent h m (cas_step py (rq_key rq) expected desired location (Publishing k nd) (h, m))"
proof -
  let ?p = "probed py m (rq_key rq) k"
  note le = wf_log_size_le [OF wf]
  show ?thesis
  proof (cases "index m ?p = 0")
    case False
    from unat_position [OF le] have "unat ((distance0_of py (PyObject_Hash py (rq_key rq)) m + of_nat k) AND index_mask m) = ?p"
      by (simp add: probed_def home_def)
    from publish_fails [OF wf_log_size [OF wf] False this] ps nd show ?thesis
      by (auto simp: Let_def intro!: advances_runs)
  next
    case True
    let ?nd = "insert_node py location (PyObject_Hash py (rq_key rq)) k" and ?m = "put_node ?p
      (insert_node py location (PyObject_Hash py (rq_key rq)) k) m"
    have nd': "nd = slot m ?p" using True nd by (simp add: slot_def)
    have path: "\<forall>j<k. index m ((home py m (PyObject_Hash py (rq_key rq)) + j) mod SIZE_OF m) \<noteq> 0"
      using ps by (simp add: passed_def probed_def)
    have more: "\<not> SIZE_OF m \<le> Suc k" using probe_room_spare [OF path room home_lt [OF le]] by simp
    note none = passed_none [OF wf wb ps True]
    from insertable_fresh [OF fresh room le passed_lt [OF wf ps] path _ True none] obtain ptr where
      ins: "insertable py h m (rq_key rq) location ptr desired k ?p" by (metis probed_def)
    have "?p = (unat (distance0_of py (PyObject_Hash py (rq_key rq)) m) + k) mod SIZE_OF m" by (simp add: probed_def home_def)
    from atomic_write_empty [OF wf_log_size [OF wf] True this] more nd'
    have "cas_step py (rq_key rq) expected desired location (Publishing k nd) (h, m) =
        Some (Returned (Value (insert_outcome expected True None)), h, ?m)" by (simp add: Let_def)
    moreover have "table_map py h m (rq_key rq) = None" using none by (simp add: table_map_None)
    with insert_map [OF wf wb ins] ex op
    have "op_spec py rq (table_map py h m) = (Value (insert_outcome expected True None), table_map py h ?m)"
      by (auto simp: op_spec_def cas_spec_def insert_outcome_def fun_eq_iff map_put_def)
    ultimately show ?thesis
      using op ex table_change.linked [OF ins] unfolding advances_def by (auto intro!: exI advance.commits)
  qed
qed

lemma cas_exchanges:
  assumes wf: "wf_index py h m" and wb: "well_behaved_keys py" and op: "rq_op rq = CompareSet expected desired location"
    and ok: "pc_ok py rq absent h m (Exchanging k nd ptr v)"
  shows "advances py rq absent h m (cas_step py (rq_key rq) expected desired location (Exchanging k nd ptr v) (h, m))"
proof (cases "e_value (h ptr) = Some v")
  case False
  with ok op show ?thesis by (auto simp: compare_exchange_fail at_key_def intro!: advances_runs)
next
  case True
  from ok op have ak: "at_key py (rq_key rq) absent h m k nd ptr" and ex: "expected \<noteq> NOT_FOUND" "expected = ANY \<or> v = expected"
    by auto
  note D = at_keyD [OF wf ak True]
  have "op_spec py rq (table_map py h m) = (Value (insert_outcome expected True (Some v)), table_map py (set_value ptr (Some desired) h) m)"
    using D(5) ex op set_value_map [OF wf wb probed_lt D(1,4)]
    by (auto simp: op_spec_def cas_spec_def insert_outcome_def fun_eq_iff map_put_def)
  with True table_change.exchanged [OF probed_lt D(1,4)] show ?thesis
    unfolding advances_def by (auto intro!: exI advance.commits)
qed

lemma cas_probes:
  assumes wf: "wf_index py h m" and wb: "well_behaved_keys py" and op: "rq_op rq = CompareSet expected desired location"
    and ps: "passed py h m (rq_key rq) k"
  shows "advances py rq absent h m (cas_step py (rq_key rq) expected desired location (Probing k) (h, m))"
proof -
  let ?p = "probed py m (rq_key rq) k"
  note [simp] = probe_read [OF wf_log_size_le [OF wf]]
  show ?thesis
  proof (cases "index m ?p = 0")
    case True
    then have "table_map py h m (rq_key rq) = None"
      using passed_none [OF wf wb ps] by (simp add: table_map_None)
    with op have "answers py rq absent (table_map py h m) (Value (insert_outcome expected False None))"
      if "expected \<noteq> NOT_FOUND \<and> expected \<noteq> ANY"
      using that by (simp add: answers_def op_spec_def cas_spec_def insert_outcome_def)
    moreover have "advances py rq absent h m (Some (Publishing k (slot m ?p), h, m))"
      if "\<not> (expected \<noteq> NOT_FOUND \<and> expected \<noteq> ANY)"
      using that True op ps by (intro advances_runs) (auto simp: slot_def)
    ultimately show ?thesis using True advances_answers by (simp add: Let_def is_empty_slot)
  next
    case ne: False
    show ?thesis
    proof (cases "is_tombstone (slot m ?p) \<or> \<not> check_tag py (PyObject_Hash py (rq_key rq)) (slot m ?p) m")
      case True
      with ne advances_probe_on [OF wf ps ne probe_skips [OF wf wb True]] show ?thesis by (simp add: Let_def is_empty_slot)
    next
      case False
      with ne have "live m ?p" by (simp add: live_def is_empty_slot)
      from advances_checks [OF wf ps this] False ne show ?thesis by (simp add: Let_def is_empty_slot)
    qed
  qed
qed

subsection \<open>Search and deletion\<close>

text \<open>A search, for what its caller does with the entry that it finds.\<close>

lemma search_advances:
  assumes wf: "wf_index py h m" and wb: "well_behaved_keys py"
    and none: "\<And>M. M (rq_key rq) = None \<Longrightarrow> op_spec py rq M = (Value None, M)"
    and found: "\<And>k nd ptr v. at_key py (rq_key rq) (absent \<or> table_map py h m (rq_key rq) = None) h m k nd ptr \<Longrightarrow>
      e_value (h ptr) = Some v \<Longrightarrow> advances py rq absent h m (Some (found k nd ptr v, h, m))"
    and ok: "pc_ok py rq absent h m pc" and pc: "pc = Probing k \<or> pc = Checking k nd"
  shows "advances py rq absent h m (search_step py (rq_key rq) found pc (h, m))"
proof -
  let ?p = "probed py m (rq_key rq) k"
  note [simp] = probe_read [OF wf_log_size_le [OF wf]]
  from pc ok have ps: "passed py h m (rq_key rq) k" by auto
  note lt = passed_lt [OF wf ps]
  from pc consider "pc = Probing k" | "pc = Checking k nd" by blast
  then show ?thesis
  proof cases
    case 1
    show ?thesis
    proof (cases "index m ?p = 0")
      case True
      then have "table_map py h m (rq_key rq) = None" using passed_none [OF wf wb ps] by (simp add: table_map_None)
      with none have "answers py rq absent (table_map py h m) (Value None)" by (simp add: answers_def)
      with 1 True lt show ?thesis by (simp add: Let_def is_empty_slot advances_answers)
    next
      case ne: False
      show ?thesis
      proof (cases "is_tombstone (slot m ?p) \<or> \<not> check_tag py (PyObject_Hash py (rq_key rq)) (slot m ?p) m")
        case True
        with ne lt 1 advances_next [OF ps ne probe_skips [OF wf wb True]] show ?thesis by (simp add: Let_def is_empty_slot)
      next
        case False
        with ne have "live m ?p" by (simp add: live_def is_empty_slot)
        from advances_checks [OF wf ps this] 1 False ne lt show ?thesis by (simp add: Let_def is_empty_slot)
      qed
    qed
  next
    case 2
    with ok obtain ptr kk where nr: "node_read py h m ?p nd ptr kk" by auto
    then have ne: "index m ?p \<noteq> 0" and ptr: "get_entry_at (n_index nd) m = Some ptr" "e_key (h ptr) = Some kk"
      "e_hash (h ptr) = PyObject_Hash py kk" by (simp_all add: node_read_def)
    note holds = node_read_holds [OF nr, of "rq_key rq"]
    show ?thesis
    proof (cases "e_value (h ptr)")
      case None
      with advances_next [OF ps ne] holds 2 ptr show ?thesis by (simp add: entry_read Let_def)
    next
      case (Some v)
      show ?thesis
      proof (cases "same_key py kk (rq_key rq)")
        case True
        with found [OF checking_key [OF ps nr True] Some] Some 2 ptr compare_cases [OF wb, of kk "rq_key rq"]
          same_key_hash [OF wb True]
        show ?thesis by (simp add: entry_read Let_def)
      next
        case False
        with same_key_refl [OF wb] have "kk \<noteq> rq_key rq" by blast
        with False advances_next [OF ps ne] holds Some 2 ptr compare_cases [OF wb, of kk "rq_key rq"]
        show ?thesis by (simp add: entry_read Let_def)
      qed
    qed
  qed
qed

lemma delete_exchanges:
  assumes wf: "wf_index py h m" and wb: "well_behaved_keys py" and op: "rq_op rq = Remove"
    and ok: "pc_ok py rq absent h m (Exchanging k nd ptr v)"
  shows "advances py rq absent h m (delete_step py (rq_key rq) (Exchanging k nd ptr v) (h, m))"
proof (cases "e_value (h ptr) = Some v")
  case False
  with ok op show ?thesis by (auto simp: compare_exchange_fail at_key_def intro!: advances_runs)
next
  case True
  let ?h = "set_value ptr None h"
  from ok have ak: "at_key py (rq_key rq) absent h m k nd ptr" by simp
  note D = at_keyD [OF wf ak True] and M = set_value_map [OF wf wb probed_lt at_keyD(1,4) [OF wf ak True], of None]
  have spec: "op_spec py rq (table_map py h m) = (Value (Some v), table_map py ?h m)"
    using D(5) op M by (auto simp: op_spec_def fun_eq_iff map_put_def)
  have "table_map py ?h m (rq_key rq) = None" using M same_key_refl [OF wb] by simp
  with D(5) have moves: "table_map py ?h m \<noteq> table_map py h m" by auto
  have "pc_ok py rq absent ?h m (Burying k nd v)"
    using D op holds_set_value [OF wf wb probed_lt D(1,4) probed_lt, of None] by (simp add: buries_def)
  from advance.takes [OF spec moves this D(1)] True table_change.exchanged [OF probed_lt D(1,4)] show ?thesis
    unfolding advances_def by auto
qed

lemma delete_rereads:
  assumes wf: "wf_index py h m" and op: "rq_op rq = Remove" and ok: "pc_ok py rq absent h m (Rereading k nd ptr)"
  shows "advances py rq absent h m (delete_step py (rq_key rq) (Rereading k nd ptr) (h, m))"
proof (cases "e_value (h ptr)")
  case None
  with ok have absent by (simp add: at_key_def)
  with op have "answers py rq absent (table_map py h m) (Value None)" by (simp add: answers_def op_spec_def)
  with None show ?thesis by (simp add: entry_read advances_answers)
next
  case (Some v)
  with ok op have "advances py rq absent h m (Some (Exchanging k nd ptr v, h, m))"
    by (intro advances_runs) (auto simp: at_key_def)
  with Some show ?thesis by (simp add: entry_read)
qed

lemma burying_writes:
  assumes wf: "wf_index py h m" and b: "buries py key h m k nd"
  shows "atomic_write_node_at ((distance0_of py (PyObject_Hash py key) m + of_nat k) AND index_mask m) nd (tombstone_node m) m =
    (True, put_node (probed py m key k) (tombstone_node m) m)"
proof -
  from unat_position [OF wf_log_size_le [OF wf]]
  have "unat ((distance0_of py (PyObject_Hash py key) m + of_nat k) AND index_mask m) = probed py m key k"
    by (simp add: probed_def home_def)
  from write_tombstone [OF wf_log_size [OF wf] this] b show ?thesis by (simp add: buries_def)
qed

text \<open>Every access succeeds, and advances its thread as the specification of its operation allows.\<close>

lemma op_step_buries:
  assumes wf: "wf_index py h m" and ok: "pc_ok py rq absent h m (Burying k nd v)"
  shows "op_step py rq (Burying k nd v) (h, m) =
      Some (Returned (Value (Some v)), h, put_node (probed py m (rq_key rq) k) (tombstone_node m) m)"
    and "table_change py (Buried (probed py m (rq_key rq) k)) (h, m) (h, put_node (probed py m (rq_key rq) k) (tombstone_node m) m)"
    and "table_map py h (put_node (probed py m (rq_key rq) k) (tombstone_node m) m) = table_map py h m"
proof -
  from ok have b: "buries py (rq_key rq) h m k nd" by simp
  then have p: "index m (probed py m (rq_key rq) k) \<noteq> 0" "\<forall>a. \<not> holds py h m a (probed py m (rq_key rq) k)"
    by (auto simp: buries_def dest: live_not_empty)
  then show "table_change py (Buried (probed py m (rq_key rq) k)) (h, m) (h, put_node (probed py m (rq_key rq) k) (tombstone_node m) m)"
    by (intro table_change.buried) simp_all
  show "table_map py h (put_node (probed py m (rq_key rq) k) (tombstone_node m) m) = table_map py h m"
    using tombstone_map [OF wf probed_lt p(1)] p(2) by blast
  show "op_step py rq (Burying k nd v) (h, m) =
      Some (Returned (Value (Some v)), h, put_node (probed py m (rq_key rq) k) (tombstone_node m) m)"
    using burying_writes [OF wf b] ok by (simp add: op_step_def)
qed

lemma op_step_advances:
  assumes wf: "wf_index py h m" and wb: "well_behaved_keys py" and ok: "pc_ok py rq absent h m pc" and "running pc"
    and room: "\<And>l v. location_of (rq_op rq) = Some (l, v) \<Longrightarrow> spare_slots m \<and> fresh_entry py h m (rq_key rq) v l"
  shows "advances py rq absent h m (op_step py rq pc (h, m))"
proof (cases "rq_op rq")
  case op: (CompareSet expected desired location)
  show ?thesis
  proof (cases pc)
    case (Checking k nd)
    with ok obtain ptr kk where "passed py h m (rq_key rq) k" "node_read py h m (probed py m (rq_key rq) k) nd ptr kk" by auto
    with cas_checks_entry [OF wf wb op this] op Checking show ?thesis by (simp add: op_step_def node_read_def)
  next
    case (Rereading k nd ptr)
    with ok op check_value_advances [OF wf op] show ?thesis by (simp add: op_step_def read_entry_value)
  next
    case (Publishing k nd)
    with ok op have ex: "expected = NOT_FOUND \<or> expected = ANY" by (auto split: if_splits)
    with op room have "spare_slots m" "fresh_entry py h m (rq_key rq) desired location" by auto
    from cas_publishes [OF wf wb op ex this] ok op Publishing show ?thesis by (simp add: op_step_def)
  qed (use assms op cas_probes [OF wf wb op] cas_exchanges [OF wf wb op] in \<open>auto simp: op_step_def running_def\<close>)
next
  case op: Search
  have found: "advances py rq absent h m (Some (Returned (Value (Some v)), h, m))"
    if "at_key py (rq_key rq) (absent \<or> table_map py h m (rq_key rq) = None) h m k nd ptr" "e_value (h ptr) = Some v" for k nd ptr v
    using at_keyD(5) [OF wf that] op by (intro advances_answers) (simp add: answers_def op_spec_def)
  have "pc = Probing k \<or> pc = Checking k nd \<Longrightarrow> ?thesis" for k nd
    using search_advances [OF wf wb _ found ok] op by (simp add: op_step_def lookup_step_def op_spec_def)
  with ok op assms(4) show ?thesis by (cases pc) (auto simp: running_def)
next
  case op: Remove
  have found: "advances py rq absent h m (Some (Exchanging k nd ptr v, h, m))"
    if "at_key py (rq_key rq) (absent \<or> table_map py h m (rq_key rq) = None) h m k nd ptr" "e_value (h ptr) = Some v" for k nd ptr v
    using that op by (intro advances_runs) simp_all
  have search: "pc = Probing k \<or> pc = Checking k nd \<Longrightarrow> advances py rq absent h m (search_step py (rq_key rq) Exchanging pc (h, m))" for k nd
    using search_advances [OF wf wb _ found ok] op by (simp add: op_spec_def)
  show ?thesis
    using assms(4) ok op search delete_exchanges [OF wf wb op] delete_rereads [OF wf op]
    by (cases pc) (auto simp: op_step_def running_def)
qed

end
