(* ===== verification/TableLinear.thy ===== *)
theory TableLinear
  imports TableAccess
begin

text \<open>
  The operations of concurrent threads on one table are linearizable: the history of the maps that the
  table stands for, with the moments at which the operations take effect.  The invariant of a run is
  \<open>run_ok\<close>.
\<close>

subsection \<open>The history of a run\<close>

definition absent_since :: "table_request list \<Rightarrow> table_run \<Rightarrow> nat \<Rightarrow> bool" where
  "absent_since rqs s t \<longleftrightarrow>
     (\<exists>n<length (tr_maps s). tr_start s t \<le> n \<and> (tr_maps s ! n) (rq_key (rqs ! t)) = None)"

text \<open>
  The operation of a thread, with the answer \<open>a\<close>, is what its specification says of the map at a moment
  since its call: it changed nothing, or it is what led from that map to the next one.
\<close>

definition took_effect :: "pyenv \<Rightarrow> table_request list \<Rightarrow> table_run \<Rightarrow> nat \<Rightarrow> answer \<Rightarrow> bool" where
  "took_effect py rqs s t a \<longleftrightarrow>
     (\<exists>n<length (tr_maps s). tr_start s t \<le> n \<and>
        (case tr_effect s t of
           None \<Rightarrow> op_spec py (rqs ! t) (tr_maps s ! n) = (a, tr_maps s ! n)
         | Some e \<Rightarrow> e = n \<and> Suc n < length (tr_maps s) \<and>
             op_spec py (rqs ! t) (tr_maps s ! n) = (a, tr_maps s ! Suc n)))"

definition thread_ok :: "pyenv \<Rightarrow> table_request list \<Rightarrow> table_run \<Rightarrow> nat \<Rightarrow> bool" where
  "thread_ok py rqs s t \<longleftrightarrow>
     pc_ok py (rqs ! t) (absent_since rqs s t) (tr_heap s) (tr_meta s) (tr_pc s t) \<and>
     (tr_pc s t \<noteq> Ready \<longrightarrow> tr_start s t \<le> now s) \<and>
     (case tr_pc s t of
        Returned a \<Rightarrow> took_effect py rqs s t a
      | Burying k nd v \<Rightarrow> took_effect py rqs s t (Value (Some v)) \<and> tr_effect s t \<noteq> None
      | _ \<Rightarrow> tr_effect s t = None)"

definition pending :: "table_request list \<Rightarrow> table_run \<Rightarrow> nat set" where
  "pending rqs s = {t \<in> inserters rqs. \<forall>a. tr_pc s t \<noteq> Returned a}"

definition history_ok :: "pyenv \<Rightarrow> table_request list \<Rightarrow> table_run \<Rightarrow> bool" where
  "history_ok py rqs s \<longleftrightarrow>
     tr_maps s \<noteq> [] \<and> last (tr_maps s) = table_map py (tr_heap s) (tr_meta s) \<and>
     (\<forall>n. Suc n < length (tr_maps s) \<longrightarrow> tr_maps s ! n = tr_maps s ! Suc n \<or>
        (\<exists>t<length rqs. tr_effect s t = Some n \<and> snd (op_spec py (rqs ! t) (tr_maps s ! n)) = tr_maps s ! Suc n)) \<and>
     (\<forall>t n. tr_effect s t = Some n \<longrightarrow> Suc n < length (tr_maps s)) \<and>
     (\<forall>t u n. tr_effect s t = Some n \<longrightarrow> tr_effect s u = Some n \<longrightarrow> t = u)"

definition burials_apart :: "pyenv \<Rightarrow> table_request list \<Rightarrow> table_run \<Rightarrow> bool" where
  "burials_apart py rqs s \<longleftrightarrow>
     (\<forall>t<length rqs. \<forall>u<length rqs. \<forall>i a v j b w. t \<noteq> u \<longrightarrow> tr_pc s t = Burying i a v \<longrightarrow> tr_pc s u = Burying j b w \<longrightarrow>
        probed py (tr_meta s) (rq_key (rqs ! t)) i \<noteq> probed py (tr_meta s) (rq_key (rqs ! u)) j)"

definition run_ok :: "pyenv \<Rightarrow> table_request list \<Rightarrow> table_run \<Rightarrow> bool" where
  "run_ok py rqs s \<longleftrightarrow>
     wf_index py (tr_heap s) (tr_meta s) \<and> history_ok py rqs s \<and> (\<forall>t<length rqs. thread_ok py rqs s t) \<and>
     burials_apart py rqs s \<and> reserved_entries py rqs (tr_heap s) (tr_meta s) (pending rqs s)"

lemma moved_simps [simp]:
  "tr_heap (moved py t pc h m s) = h" "tr_meta (moved py t pc h m s) = m"
  "tr_pc (moved py t pc h m s) = (tr_pc s)(t := pc)" "tr_start (moved py t pc h m s) = tr_start s"
  "tr_maps (moved py t pc h m s) = tr_maps s @ [table_map py h m]"
  "now (moved py t pc h m s) = length (tr_maps s)"
  by (simp_all add: moved_def now_def)

lemma moved_effect:
  "tr_effect (moved py t pc h m s) u =
     (if u = t \<and> table_map py h m \<noteq> table_map py (tr_heap s) (tr_meta s) then Some (now s) else tr_effect s u)"
  by (simp add: moved_def)

lemma took_effect_moved:
  assumes "took_effect py rqs s u a" and "u = t \<Longrightarrow> table_map py h m = table_map py (tr_heap s) (tr_meta s)"
  shows "took_effect py rqs (moved py t pc h m s) u a"
proof -
  from assms(2) have "tr_effect (moved py t pc h m s) u = tr_effect s u" by (auto simp: moved_effect)
  with assms(1) show ?thesis
    unfolding took_effect_def by (auto simp: nth_append split: option.splits)
qed

lemma absent_moved:
  assumes "absent_since rqs s u \<or> table_map py h m (rq_key (rqs ! u)) = None" and "tr_start s u \<le> now s"
  shows "absent_since rqs (moved py t pc h m s) u"
proof -
  have le: "now s \<le> length (tr_maps s)" by (simp add: now_def)
  from assms(1) show ?thesis
  proof
    assume "absent_since rqs s u"
    then show ?thesis unfolding absent_since_def by (auto simp: nth_append intro: less_SucI)
  next
    assume "table_map py h m (rq_key (rqs ! u)) = None"
    with assms(2) le show ?thesis unfolding absent_since_def by (intro exI [of _ "length (tr_maps s)"]) simp
  qed
qed

lemma history_now:
  assumes "history_ok py rqs s"
  shows "tr_maps s ! now s = table_map py (tr_heap s) (tr_meta s)" and "Suc (now s) = length (tr_maps s)"
  using assms by (auto simp: history_ok_def now_def last_conv_nth)

lemma absent_now:
  assumes "history_ok py rqs s" and "tr_start s t \<le> now s"
    and "absent_since rqs s t \<or> table_map py (tr_heap s) (tr_meta s) (rq_key (rqs ! t)) = None"
  shows "absent_since rqs s t"
proof (cases "absent_since rqs s t")
  case False
  with assms history_now [OF assms(1)] show ?thesis
    unfolding absent_since_def by (metis lessI)
qed

lemma evolves_refl: "evolves py h m h m"
  by (simp add: evolves_def)

lemma pc_ok_mono:
  assumes "wf_index py h m" and "well_behaved_keys py" and "pc_ok py rq absent h m pc"
    and "absent \<or> table_map py h m (rq_key rq) = None \<Longrightarrow> absent'"
  shows "pc_ok py rq absent' h m pc"
  by (rule evolves_pc_ok [OF evolves_refl assms(1,2) assms(4,3)]) simp_all

text \<open>The other threads are not disturbed.\<close>

lemma thread_moved_other:
  assumes wf: "wf_index py (tr_heap s) (tr_meta s)" and wb: "well_behaved_keys py"
    and ch: "table_change py c (tr_heap s, tr_meta s) (h, m)" and ok: "thread_ok py rqs s u" and "u \<noteq> t"
    and B: "\<And>k nd v. tr_pc s u = Burying k nd v \<Longrightarrow> c \<noteq> Buried (probed py (tr_meta s) (rq_key (rqs ! u)) k)"
  shows "thread_ok py rqs (moved py t pc h m s) u"
proof -
  note ev = table_change_evolves [OF ch wf wb]
  let ?A' = "absent_since rqs (moved py t pc h m s) u"
  have keep: "index m (probed py (tr_meta s) (rq_key (rqs ! u)) k) = index (tr_meta s) (probed py (tr_meta s) (rq_key (rqs ! u)) k)"
    if pc: "tr_pc s u = Burying k nd v" for k nd v
  proof -
    from ok pc have "live (tr_meta s) (probed py (tr_meta s) (rq_key (rqs ! u)) k)" by (simp add: thread_ok_def buries_def)
    from ch B [OF pc] live_not_empty [OF this] show ?thesis
      by (cases rule: table_change_cases) (auto simp: index_put_node insertable_def)
  qed
  have "pc_ok py (rqs ! u) ?A' h m (tr_pc s u)"
  proof (cases "tr_pc s u = Ready")
    case False
    with ok have start: "tr_start s u \<le> now s" by (simp add: thread_ok_def)
    have pc: "pc_ok py (rqs ! u) (absent_since rqs s u) (tr_heap s) (tr_meta s) (tr_pc s u)" using ok by (simp add: thread_ok_def)
    show ?thesis
    proof (rule evolves_pc_ok [OF ev wf wb _ pc keep])
      show "?A'" if "absent_since rqs s u \<or> table_map py h m (rq_key (rqs ! u)) = None"
        using absent_moved [OF that start] .
    qed
  qed simp
  moreover have "tr_start s u \<le> length (tr_maps s)" if "tr_start s u \<le> now s" using that by (simp add: now_def)
  moreover have "tr_effect (moved py t pc h m s) u = tr_effect s u" using assms(5) by (simp add: moved_effect)
  ultimately show ?thesis
    using ok assms(5) took_effect_moved [where u = u and t = t] by (auto simp: thread_ok_def split: op_pc.splits)
qed

text \<open>The thread itself.\<close>

lemma thread_moved_self:
  assumes wf: "wf_index py (tr_heap s) (tr_meta s)" and wb: "well_behaved_keys py" and hist: "history_ok py rqs s"
    and ok: "thread_ok py rqs s t" and run: "running (tr_pc s t)"
    and adv: "advance py (rqs ! t) (absent_since rqs s t) (tr_heap s) (tr_meta s) c pc h m"
  shows "thread_ok py rqs (moved py t pc h m s) t"
proof -
  let ?M = "table_map py (tr_heap s) (tr_meta s)"
  note now = history_now [OF hist]
  from run ok have start: "tr_start s t \<le> now s" and none: "tr_effect s t = None"
    by (auto simp: thread_ok_def running_def split: op_pc.splits)
  then have start': "tr_start s t \<le> length (tr_maps s)" using now(2) by simp
  have commit: "took_effect py rqs (moved py t pc' h' m' s) t a" if "op_spec py (rqs ! t) ?M = (a, table_map py h' m')" for a pc' h' m'
    unfolding took_effect_def using that start now none
    by (intro exI [of _ "now s"]) (auto simp: moved_effect nth_append)
  from adv show ?thesis
  proof cases
    case runs
    have "pc_ok py (rqs ! t) (absent_since rqs (moved py t pc h m s) t) h m pc"
      using pc_ok_mono [OF wf wb runs(5)] absent_now [OF hist start] absent_moved [OF _ start] runs by simp
    with runs start' none show ?thesis
      by (auto simp: thread_ok_def moved_effect running_def split: op_pc.splits)
  next
    case (answers a)
    have "took_effect py rqs (moved py t pc h m s) t a"
    proof (cases "op_spec py (rqs ! t) ?M = (a, ?M)")
      case True
      with commit answers show ?thesis by simp
    next
      case False
      with answers obtain n where "n < length (tr_maps s)" "tr_start s t \<le> n"
        "op_spec py (rqs ! t) (tr_maps s ! n) = (a, tr_maps s ! n)" by (auto simp: answers_def absent_since_def)
      then show ?thesis using none answers
        unfolding took_effect_def by (intro exI [of _ n]) (auto simp: moved_effect nth_append)
    qed
    with answers start' show ?thesis by (simp add: thread_ok_def)
  next
    case (commits a)
    with commit start' show ?thesis by (simp add: thread_ok_def)
  next
    case (takes v k nd)
    from takes(6) have "pc_ok py (rqs ! t) (absent_since rqs (moved py t pc h m s) t) h m pc" using takes by simp
    with takes commit start' show ?thesis by (auto simp: thread_ok_def moved_effect)
  qed
qed

text \<open>The history, the burials and the reserved entries.\<close>

lemma history_moved:
  assumes hist: "history_ok py rqs s" and t: "t < length rqs"
    and new: "table_map py h m \<noteq> table_map py (tr_heap s) (tr_meta s) \<Longrightarrow> tr_effect s t = None \<and>
      snd (op_spec py (rqs ! t) (table_map py (tr_heap s) (tr_meta s))) = table_map py h m"
  shows "history_ok py rqs (moved py t pc h m s)"
proof -
  let ?s = "moved py t pc h m s" and ?M = "table_map py (tr_heap s) (tr_meta s)" and ?M' = "table_map py h m"
  note now = history_now [OF hist] and H = hist [unfolded history_ok_def]
  have old: "tr_effect ?s u = Some n" if "tr_effect s u = Some n" for u n
    using that new by (auto simp: moved_effect)
  have eff: "tr_effect s u = Some n \<or> u = t \<and> n = now s \<and> ?M' \<noteq> ?M" if "tr_effect ?s u = Some n" for u n
    using that by (auto simp: moved_effect split: if_splits)
  have "tr_maps ?s ! n = tr_maps ?s ! Suc n \<or>
      (\<exists>u<length rqs. tr_effect ?s u = Some n \<and> snd (op_spec py (rqs ! u) (tr_maps ?s ! n)) = tr_maps ?s ! Suc n)"
    if n: "Suc n < length (tr_maps ?s)" for n
  proof (cases "Suc n < length (tr_maps s)")
    case True
    with H old show ?thesis by (simp add: nth_append) (metis Suc_lessD)
  next
    case False
    with n now(2) have "n = now s" by simp
    with now new t show ?thesis by (cases "?M' = ?M") (auto simp: nth_append moved_effect)
  qed
  moreover have "Suc n < length (tr_maps ?s)" if "tr_effect ?s u = Some n" for u n
  proof -
    from eff [OF that] H now(2) have "n < length (tr_maps s)" by (metis Suc_lessD lessI)
    then show ?thesis by simp
  qed
  moreover have "u = w" if "tr_effect ?s u = Some n" "tr_effect ?s w = Some n" for u w n
    using eff [OF that(1)] eff [OF that(2)] H now(2) by (metis less_irrefl)
  ultimately show ?thesis unfolding history_ok_def by simp
qed

lemma burials_moved:
  assumes ap: "burials_apart py rqs s" and ev: "evolves py (tr_heap s) (tr_meta s) h m"
    and ok: "\<forall>u<length rqs. thread_ok py rqs s u"
    and new: "\<And>k nd v. pc = Burying k nd v \<Longrightarrow>
      holds py (tr_heap s) (tr_meta s) (rq_key (rqs ! t)) (probed py (tr_meta s) (rq_key (rqs ! t)) k)"
  shows "burials_apart py rqs (moved py t pc h m s)"
proof -
  have apart: "probed py (tr_meta s) (rq_key (rqs ! t)) i \<noteq> probed py (tr_meta s) (rq_key (rqs ! u)) j"
    if "pc = Burying i a v" "tr_pc s u = Burying j b w" "u < length rqs" for u i a v j b w
  proof
    assume eq: "probed py (tr_meta s) (rq_key (rqs ! t)) i = probed py (tr_meta s) (rq_key (rqs ! u)) j"
    from ok that have "buries py (rq_key (rqs ! u)) (tr_heap s) (tr_meta s) j b" by (auto simp: thread_ok_def)
    with new [OF that(1)] eq show False by (simp add: buries_def)
  qed
  show ?thesis
    unfolding burials_apart_def moved_simps evolves_probed [OF ev]
    using ap apart unfolding burials_apart_def fun_upd_apply by metis
qed

lemma pending_finite: "finite (pending rqs s)"
  by (rule finite_subset [of _ "{..<length rqs}"]) (auto simp: pending_def inserters_def)

lemma pending_room:
  assumes "reserved_entries py rqs h m (pending rqs s)" and "t < length rqs" and "\<forall>a. tr_pc s t \<noteq> Returned a"
    and "location_of (rq_op (rqs ! t)) = Some (l, v)"
  shows "spare_slots m" and "fresh_entry py h m (rq_key (rqs ! t)) v l" and "t \<in> pending rqs s"
proof -
  show t: "t \<in> pending rqs s" using assms(2-4) by (simp add: pending_def inserters_def)
  with assms(1,4) show "fresh_entry py h m (rq_key (rqs ! t)) v l" by (auto simp: reserved_entries_def)
  from t pending_finite [of rqs s] have "0 < card (pending rqs s)" by (auto simp: card_gt_0_iff)
  with assms(1) show "spare_slots m" by (intro spare_of_room) (simp add: reserved_entries_def)
qed

lemma reserved_moved:
  assumes wf: "wf_index py (tr_heap s) (tr_meta s)" and wb: "well_behaved_keys py"
    and res: "reserved_entries py rqs (tr_heap s) (tr_meta s) (pending rqs s)"
    and ch: "table_change py c (tr_heap s, tr_meta s) (h, m)" and pc: "\<forall>a. tr_pc s t \<noteq> Returned a"
    and lk: "\<And>l. c = Linked l \<Longrightarrow> t < length rqs \<and> (\<exists>v. location_of (rq_op (rqs ! t)) = Some (l, v)) \<and> (\<exists>a. pc = Returned a)"
  shows "reserved_entries py rqs h m (pending rqs (moved py t pc h m s))"
proof -
  let ?P = "pending rqs s" and ?P' = "pending rqs (moved py t pc h m s)"
  have sub: "?P' \<subseteq> ?P" using pc by (auto simp: pending_def)
  have linked: "t \<in> ?P \<and> t \<notin> ?P'" if "c = Linked l" for l
  proof -
    from lk [OF that] obtain v a where "t < length rqs" "location_of (rq_op (rqs ! t)) = Some (l, v)" "pc = Returned a" by blast
    with pc show ?thesis by (simp add: pending_def inserters_def)
  qed
  have "c \<noteq> Linked l" if u: "u \<in> ?P'" "location_of (rq_op (rqs ! u)) = Some (l, v)" for u l v
  proof
    assume c: "c = Linked l"
    from lk [OF this] obtain w where "location_of (rq_op (rqs ! t)) = Some (l, w)" by blast
    moreover have "t \<in> ?P" "u \<in> ?P" using linked [OF c] subsetD [OF sub u(1)] by simp_all
    moreover have "t \<noteq> u" using linked [OF c] u(1) by metis
    ultimately show False using res u(2) unfolding reserved_entries_def by (metis option.simps(9) fst_conv)
  qed
  then have fresh: "fresh_entry py h m (rq_key (rqs ! u)) v l"
    if "u \<in> ?P'" "location_of (rq_op (rqs ! u)) = Some (l, v)" for u l v
    using that res sub table_change_fresh [OF ch wf] by (auto simp: reserved_entries_def)
  have "card (occupied m) + card ?P' \<le> card (occupied (tr_meta s)) + card ?P"
  proof (cases "\<exists>l. c = Linked l")
    case True
    with linked sub have "?P' \<subset> ?P" by blast
    with psubset_card_mono [OF pending_finite this] True table_change_occupied [OF ch wf] show ?thesis by auto
  next
    case False
    with table_change_occupied [OF ch wf] have "card (occupied m) = card (occupied (tr_meta s))" by (cases c) auto
    with card_mono [OF pending_finite sub] show ?thesis by simp
  qed
  moreover have "SIZE_OF m = SIZE_OF (tr_meta s)" by (rule evolvesD(2) [OF table_change_evolves [OF ch wf wb]])
  ultimately have "card (occupied m) + card ?P' < SIZE_OF m" using res by (simp add: reserved_entries_def)
  with fresh res sub show ?thesis unfolding reserved_entries_def by blast
qed

subsection \<open>Every reachable state\<close>

lemma op_step_active:
  "op_step py rq pc w = Some x \<Longrightarrow> running pc \<or> (\<exists>k nd v. pc = Burying k nd v)"
  by (cases pc; cases "rq_op rq"; cases w) (auto simp: op_step_def lookup_step_def)

lemma running_not_returned: "running pc \<Longrightarrow> \<forall>a. pc \<noteq> Returned a"
  by (auto simp: running_def)

lemma thread_advances:
  assumes "run_ok py rqs s" and wb: "well_behaved_keys py" and t: "t < length rqs" and run: "running (tr_pc s t)"
  shows "advances py (rqs ! t) (absent_since rqs s t) (tr_heap s) (tr_meta s)
    (op_step py (rqs ! t) (tr_pc s t) (tr_heap s, tr_meta s))"
proof -
  from assms(1) t have wf: "wf_index py (tr_heap s) (tr_meta s)" and th: "thread_ok py rqs s t"
    and res: "reserved_entries py rqs (tr_heap s) (tr_meta s) (pending rqs s)" by (simp_all add: run_ok_def)
  from th have ok: "pc_ok py (rqs ! t) (absent_since rqs s t) (tr_heap s) (tr_meta s) (tr_pc s t)" by (simp add: thread_ok_def)
  have room: "spare_slots (tr_meta s) \<and> fresh_entry py (tr_heap s) (tr_meta s) (rq_key (rqs ! t)) v l"
    if "location_of (rq_op (rqs ! t)) = Some (l, v)" for l v
    using pending_room [OF res t running_not_returned [OF run] that] by blast
  from op_step_advances [OF wf wb ok run room] show ?thesis .
qed

lemma run_ok_access:
  assumes ok: "run_ok py rqs s" and wb: "well_behaved_keys py" and t: "t < length rqs"
    and step: "op_step py (rqs ! t) (tr_pc s t) (tr_heap s, tr_meta s) = Some (pc, h, m)"
  shows "run_ok py rqs (moved py t pc h m s)"
proof -
  from ok have wf: "wf_index py (tr_heap s) (tr_meta s)" and hist: "history_ok py rqs s"
    and th: "\<forall>u<length rqs. thread_ok py rqs s u" and ap: "burials_apart py rqs s"
    and res: "reserved_entries py rqs (tr_heap s) (tr_meta s) (pending rqs s)" by (simp_all add: run_ok_def)
  from th t have tht: "thread_ok py rqs s t" by blast
  then have pcok: "pc_ok py (rqs ! t) (absent_since rqs s t) (tr_heap s) (tr_meta s) (tr_pc s t)" by (simp add: thread_ok_def)
  from op_step_active [OF step] have nr: "\<forall>a. tr_pc s t \<noteq> Returned a" by (auto simp: running_def)
  from op_step_active [OF step] show ?thesis
  proof
    assume run: "running (tr_pc s t)"
    from thread_advances [OF ok wb t run] step obtain c where
      ch: "table_change py c (tr_heap s, tr_meta s) (h, m)" and
      adv: "advance py (rqs ! t) (absent_since rqs s t) (tr_heap s) (tr_meta s) c pc h m"
      by (auto simp: advances_def)
    have nb: "c \<noteq> Buried p" for p using adv by cases auto
    have "thread_ok py rqs (moved py t pc h m s) u" if "u < length rqs" for u
    proof (cases "u = t")
      case True
      with thread_moved_self [OF wf wb hist tht run adv] show ?thesis by simp
    next
      case False
      with th that nb show ?thesis by (intro thread_moved_other [OF wf wb ch]) simp_all
    qed
    moreover have "history_ok py rqs (moved py t pc h m s)"
    proof (rule history_moved [OF hist t])
      assume moves: "table_map py h m \<noteq> table_map py (tr_heap s) (tr_meta s)"
      from run tht have "tr_effect s t = None" by (auto simp: thread_ok_def running_def split: op_pc.splits)
      with adv moves show "tr_effect s t = None \<and>
          snd (op_spec py (rqs ! t) (table_map py (tr_heap s) (tr_meta s))) = table_map py h m" by cases auto
    qed
    moreover have "burials_apart py rqs (moved py t pc h m s)"
    proof (rule burials_moved [OF ap table_change_evolves [OF ch wf wb] th])
      show "holds py (tr_heap s) (tr_meta s) (rq_key (rqs ! t)) (probed py (tr_meta s) (rq_key (rqs ! t)) k)"
        if "pc = Burying k nd v" for k nd v using adv that by cases (auto simp: running_def)
    qed
    moreover have "reserved_entries py rqs h m (pending rqs (moved py t pc h m s))"
    proof (rule reserved_moved [OF wf wb res ch nr])
      show "t < length rqs \<and> (\<exists>v. location_of (rq_op (rqs ! t)) = Some (l, v)) \<and> (\<exists>a. pc = Returned a)" if "c = Linked l" for l
        using adv that t by cases auto
    qed
    ultimately show ?thesis using table_change_wf [OF ch wf wb] by (simp add: run_ok_def)
  next
    assume "\<exists>k nd v. tr_pc s t = Burying k nd v"
    then obtain k nd v where pc: "tr_pc s t = Burying k nd v" by blast
    note B = op_step_buries [OF wf pcok [unfolded pc]]
    let ?p = "probed py (tr_meta s) (rq_key (rqs ! t)) k"
    from B(1) step pc have new: "pc = Returned (Value (Some v))" "h = tr_heap s" "m = put_node ?p (tombstone_node (tr_meta s)) (tr_meta s)"
      by simp_all
    with B have ch: "table_change py (Buried ?p) (tr_heap s, tr_meta s) (h, m)"
      and same: "table_map py h m = table_map py (tr_heap s) (tr_meta s)" by simp_all
    have "thread_ok py rqs (moved py t pc h m s) t"
      using tht pc new(1) same took_effect_moved by (auto simp: thread_ok_def now_def)
    moreover have "thread_ok py rqs (moved py t pc h m s) u" if "u < length rqs" "u \<noteq> t" for u
    proof (rule thread_moved_other [OF wf wb ch])
      show "Buried ?p \<noteq> Buried (probed py (tr_meta s) (rq_key (rqs ! u)) j)" if "tr_pc s u = Burying j b w" for j b w
        using ap t pc that \<open>u < length rqs\<close> \<open>u \<noteq> t\<close> unfolding burials_apart_def by blast
    qed (use th that in blast)+
    ultimately have "\<forall>u<length rqs. thread_ok py rqs (moved py t pc h m s) u" by blast
    moreover have "history_ok py rqs (moved py t pc h m s)" by (rule history_moved [OF hist t]) (simp add: same)
    moreover have "burials_apart py rqs (moved py t pc h m s)"
      by (rule burials_moved [OF ap table_change_evolves [OF ch wf wb] th]) (simp add: new(1))
    moreover have "reserved_entries py rqs h m (pending rqs (moved py t pc h m s))"
      by (rule reserved_moved [OF wf wb res ch nr]) simp
    ultimately show ?thesis using table_change_wf [OF ch wf wb] by (simp add: run_ok_def)
  qed
qed

lemma run_ok_call:
  assumes ok: "run_ok py rqs s" and t: "t < length rqs" and r: "tr_pc s t = Ready"
  shows "run_ok py rqs (s\<lparr>tr_pc := (tr_pc s)(t := Probing 0), tr_start := (tr_start s)(t := now s)\<rparr>)"
proof -
  let ?s = "s\<lparr>tr_pc := (tr_pc s)(t := Probing 0), tr_start := (tr_start s)(t := now s)\<rparr>"
  have "thread_ok py rqs ?s u" if "u < length rqs" for u
  proof (cases "u = t")
    case True
    with ok r t show ?thesis by (auto simp: run_ok_def thread_ok_def now_def)
  next
    case False
    with ok that have "thread_ok py rqs s u" by (simp add: run_ok_def)
    moreover have "absent_since rqs ?s u = absent_since rqs s u" "took_effect py rqs ?s u = took_effect py rqs s u"
      "now ?s = now s"
      using False by (cases "tr_effect s u"; simp add: absent_since_def took_effect_def now_def fun_eq_iff)+
    ultimately show ?thesis using False by (cases "tr_pc s u") (simp_all add: thread_ok_def)
  qed
  moreover have "pending rqs ?s = pending rqs s" using r by (auto simp: pending_def)
  moreover have "history_ok py rqs ?s = history_ok py rqs s" by (simp add: history_ok_def)
  moreover have "burials_apart py rqs ?s" using ok by (auto simp: run_ok_def burials_apart_def)
  ultimately show ?thesis using ok by (simp add: run_ok_def)
qed

lemma table_reachable_ok:
  assumes "table_reachable py rqs s" and wb: "well_behaved_keys py"
  shows "run_ok py rqs s"
  using assms(1)
proof induction
  case (start s)
  then have "pending rqs s = inserters rqs" by (simp add: table_start_def pending_def)
  with start show ?case
    by (simp add: run_ok_def table_start_def history_ok_def thread_ok_def burials_apart_def)
next
  case (step s s')
  from step.hyps(2) show ?case
  proof cases
    case (call t)
    with run_ok_call [OF step.IH] show ?thesis by simp
  next
    case (access t pc h m)
    with run_ok_access [OF step.IH wb] show ?thesis by simp
  qed
qed

subsection \<open>A run\<close>

text \<open>One thread inserts a key that another one looks up; the lookup comes between the two accesses of the insertion.\<close>

definition example_requests :: "table_request list" where
  "example_requests =
     [\<lparr>rq_key = Obj 1, rq_op = CompareSet ANY (Obj 2) 3\<rparr>, \<lparr>rq_key = Obj 1, rq_op = Search\<rparr>]"

definition example_start :: table_run where
  "example_start =
     \<lparr>tr_heap = example_heap, tr_meta = example_table, tr_pc = (\<lambda>_. Ready),
      tr_maps = [table_map example_env example_heap example_table], tr_start = (\<lambda>_. 0), tr_effect = (\<lambda>_. None)\<rparr>"

definition called :: "nat \<Rightarrow> table_run \<Rightarrow> table_run" where
  "called t s = s\<lparr>tr_pc := (tr_pc s)(t := Probing 0), tr_start := (tr_start s)(t := now s)\<rparr>"

definition example_before :: table_run where
  "example_before =
     moved example_env 1 (Returned (Value None)) example_heap example_table
       (called 1 (moved example_env 0 (Publishing 0 (slot example_table 0)) example_heap example_table
          (called 0 example_start)))"

definition example_after :: table_run where
  "example_after =
     moved example_env 0 (Returned (Value (Some NOT_FOUND))) (fst example_world) (snd example_world) example_before"

lemma called_simps [simp]:
  "tr_heap (called t s) = tr_heap s" "tr_meta (called t s) = tr_meta s" "tr_maps (called t s) = tr_maps s"
  "tr_pc (called t s) = (tr_pc s)(t := Probing 0)" "tr_start (called t s) = (tr_start s)(t := now s)"
  "tr_effect (called t s) = tr_effect s" "now (called t s) = now s"
  by (simp_all add: called_def now_def)

lemma reachable_call:
  "table_reachable py rqs s \<Longrightarrow> t < length rqs \<Longrightarrow> tr_pc s t = Ready \<Longrightarrow> table_reachable py rqs (called t s)"
  unfolding called_def by (blast intro: table_reachable.step table_step.call)

lemma reachable_access:
  "table_reachable py rqs s \<Longrightarrow> t < length rqs \<Longrightarrow>
     op_step py (rqs ! t) (tr_pc s t) (tr_heap s, tr_meta s) = Some (pc, h, m) \<Longrightarrow>
     table_reachable py rqs (moved py t pc h m s)"
  by (blast intro: table_reachable.step table_step.access)

lemma example_table_start: "table_start example_env example_requests example_start"
proof -
  have "inserters example_requests = {0}"
    by (auto simp: inserters_def example_requests_def less_Suc_eq)
  moreover have "occupied example_table = {}" by (simp add: occupied_def example_defs)
  moreover have "location_of (rq_op (example_requests ! 0)) = Some (3, Obj 2)" "rq_key (example_requests ! 0) = Obj 1"
    by (simp_all add: example_requests_def)
  moreover have "card {0::nat} < SIZE_OF example_table" by (simp add: SIZE_OF_def example_defs)
  ultimately have "reserved_entries example_env example_requests example_heap example_table (inserters example_requests)"
    using example_fresh by (simp add: reserved_entries_def)
  with example_table_wf show ?thesis by (simp add: table_start_def example_start_def)
qed

lemma example_probed: "probed example_env example_table key 0 = 0"
  by (simp add: probed_def home_def distance0_of_def REHASH_def example_env_def)

lemma example_empty: "is_empty (slot example_table p)"
  by (simp add: is_empty_slot example_defs)

lemma example_probe:
  "op_step example_env (example_requests ! 0) (Probing 0) (example_heap, example_table) =
     Some (Publishing 0 (slot example_table 0), example_heap, example_table)"
  "op_step example_env (example_requests ! 1) (Probing 0) (example_heap, example_table) =
     Some (Returned (Value None), example_heap, example_table)"
proof -
  have le: "log_size example_table \<le> 30" by (simp add: example_defs)
  show "op_step example_env (example_requests ! 0) (Probing 0) (example_heap, example_table) =
     Some (Publishing 0 (slot example_table 0), example_heap, example_table)"
    "op_step example_env (example_requests ! 1) (Probing 0) (example_heap, example_table) =
     Some (Returned (Value None), example_heap, example_table)"
    using probe_read [OF le, of example_env "Obj 1" 0]
    by (simp_all add: op_step_def lookup_step_def example_requests_def example_probed example_empty Let_def)
qed

lemma example_publish:
  "op_step example_env (example_requests ! 0) (Publishing 0 (slot example_table 0)) (example_heap, example_table) =
     Some (Returned (Value (Some NOT_FOUND)), fst example_world, snd example_world)"
proof -
  have "log_size_ok example_table" "index example_table 0 = 0"
    using wf_log_size [OF example_table_wf] by (simp_all add: example_defs)
  from atomic_write_empty [OF this, of "distance0_of example_env 5 example_table" 0] example_probed
  show ?thesis
    by (simp add: op_step_def example_requests_def Let_def probed_def home_def example_world_def insert_outcome_def SIZE_OF_def)
      (simp add: example_defs)
qed

lemma example_before_reachable: "table_reachable example_env example_requests example_before"
  unfolding example_before_def
proof (intro reachable_access reachable_call)
  show "table_reachable example_env example_requests example_start" by (rule table_reachable.start) (rule example_table_start)
qed (use example_probe in \<open>simp_all add: example_start_def example_requests_def\<close>)

lemma example_after_reachable: "table_reachable example_env example_requests example_after"
  unfolding example_after_def
proof (rule reachable_access [OF example_before_reachable])
  show "op_step example_env (example_requests ! 0) (tr_pc example_before 0) (tr_heap example_before, tr_meta example_before) =
      Some (Returned (Value (Some NOT_FOUND)), fst example_world, snd example_world)"
    using example_publish by (simp add: example_before_def)
qed (simp add: example_requests_def)

lemma example_after_pc: "tr_pc example_after 0 = Returned (Value (Some NOT_FOUND))" "tr_pc example_after 1 = Returned (Value None)"
  by (simp_all add: example_after_def example_before_def)

subsection \<open>Properties\<close>

text \<open>
  C2: The operations of any number of threads on one table, interleaved at every access to the shared
  memory, are linearizable: in every reachable state, each thread that has returned has the answer that
  compare-and-set, lookup or deletion gives on the map of the table at one moment between its call and now,
  and if its operation changes that map, the next map is the one that it specifies; and each change of the
  map is the effect of exactly one thread.
\<close>

theorem table_operations_are_linearizable:
  assumes "table_reachable py rqs s" and "well_behaved_keys py"
  shows "(\<forall>t<length rqs. \<forall>a. tr_pc s t = Returned a \<longrightarrow>
            (\<exists>n<length (tr_maps s). tr_start s t \<le> n \<and>
               (case tr_effect s t of
                  None \<Rightarrow> op_spec py (rqs ! t) (tr_maps s ! n) = (a, tr_maps s ! n)
                | Some e \<Rightarrow> e = n \<and> Suc n < length (tr_maps s) \<and>
                    op_spec py (rqs ! t) (tr_maps s ! n) = (a, tr_maps s ! Suc n)))) \<and>
         (\<forall>n. Suc n < length (tr_maps s) \<longrightarrow> tr_maps s ! n \<noteq> tr_maps s ! Suc n \<longrightarrow>
            (\<exists>!t. t < length rqs \<and> tr_effect s t = Some n \<and>
               snd (op_spec py (rqs ! t) (tr_maps s ! n)) = tr_maps s ! Suc n)) \<and>
         last (tr_maps s) = table_map py (tr_heap s) (tr_meta s)"
proof (intro conjI allI impI)
  note ok = table_reachable_ok [OF assms]
  then have H: "history_ok py rqs s" by (simp add: run_ok_def)
  then show "last (tr_maps s) = table_map py (tr_heap s) (tr_meta s)" by (simp add: history_ok_def)
  show "\<exists>n<length (tr_maps s). tr_start s t \<le> n \<and>
               (case tr_effect s t of
                  None \<Rightarrow> op_spec py (rqs ! t) (tr_maps s ! n) = (a, tr_maps s ! n)
                | Some e \<Rightarrow> e = n \<and> Suc n < length (tr_maps s) \<and>
                    op_spec py (rqs ! t) (tr_maps s ! n) = (a, tr_maps s ! Suc n))"
    if "t < length rqs" "tr_pc s t = Returned a" for t a
    using ok that unfolding took_effect_def [symmetric] by (auto simp: run_ok_def thread_ok_def)
  show "\<exists>!t. t < length rqs \<and> tr_effect s t = Some n \<and>
               snd (op_spec py (rqs ! t) (tr_maps s ! n)) = tr_maps s ! Suc n"
    if "Suc n < length (tr_maps s)" "tr_maps s ! n \<noteq> tr_maps s ! Suc n" for n
    using H that unfolding history_ok_def by metis
qed

theorem table_operations_are_linearizable_witness:
  "\<exists>n<length (tr_maps example_after).
     fst (op_spec example_env (example_requests ! 0) (tr_maps example_after ! n)) = Value (Some NOT_FOUND)"
proof -
  have "0 < length example_requests" by (simp add: example_requests_def)
  with table_operations_are_linearizable [OF example_after_reachable example_env_ok, THEN conjunct1, rule_format, of 0]
  obtain n where n: "n < length (tr_maps example_after)" and c: "case tr_effect example_after 0 of
      None \<Rightarrow> op_spec example_env (example_requests ! 0) (tr_maps example_after ! n) =
        (Value (Some NOT_FOUND), tr_maps example_after ! n)
    | Some e \<Rightarrow> e = n \<and> Suc n < length (tr_maps example_after) \<and>
        op_spec example_env (example_requests ! 0) (tr_maps example_after ! n) =
        (Value (Some NOT_FOUND), tr_maps example_after ! Suc n)"
    using example_after_pc(1) by blast
  from c have "fst (op_spec example_env (example_requests ! 0) (tr_maps example_after ! n)) = Value (Some NOT_FOUND)"
    by (cases "tr_effect example_after 0") simp_all
  with n show ?thesis by blast
qed

text \<open>
  C6: In every state that concurrent operations on a table reach, between any two accesses, the table
  satisfies its invariant: the probe paths are unbroken, no key is held twice, no two nodes share an entry.
\<close>

theorem concurrent_operations_keep_the_invariant:
  assumes "table_reachable py rqs s" and "well_behaved_keys py"
  shows "wf_index py (tr_heap s) (tr_meta s)"
  using table_reachable_ok [OF assms] by (simp add: run_ok_def)

theorem concurrent_operations_keep_the_invariant_witness:
  "wf_index example_env (fst example_world) (tr_meta example_after)"
  using concurrent_operations_keep_the_invariant [OF example_after_reachable example_env_ok]
  by (simp add: example_after_def)

text \<open>
  C5: No thread of a concurrent run is ever stuck: the next access of a thread that has been called and has
  not returned succeeds, whatever the others did: the entry that a node points at exists and has a key, the
  probe ends before the table is exhausted, so that neither an exception nor a request to grow is returned, and
  the write of a tombstone, which the code asserts, goes through.
\<close>

theorem concurrent_operations_never_stick:
  assumes "table_reachable py rqs s" and "well_behaved_keys py" and "t < length rqs"
  shows "(case tr_pc s t of
            Ready \<Rightarrow> True
          | Returned a \<Rightarrow> a \<noteq> Raises \<and> a \<noteq> MustGrowTable
          | _ \<Rightarrow> op_step py (rqs ! t) (tr_pc s t) (tr_heap s, tr_meta s) \<noteq> None) \<and>
         (\<forall>k nd v. tr_pc s t = Burying k nd v \<longrightarrow>
            fst (atomic_write_node_at
                   ((distance0_of py (PyObject_Hash py (rq_key (rqs ! t))) (tr_meta s) + of_nat k) AND index_mask (tr_meta s))
                   nd (tombstone_node (tr_meta s)) (tr_meta s)))"
proof -
  from table_reachable_ok [OF assms(1,2)] assms(3) have wf: "wf_index py (tr_heap s) (tr_meta s)"
    and th: "thread_ok py rqs s t" by (simp_all add: run_ok_def)
  from th have ok: "pc_ok py (rqs ! t) (absent_since rqs s t) (tr_heap s) (tr_meta s) (tr_pc s t)" by (simp add: thread_ok_def)
  have runs: "op_step py (rqs ! t) (tr_pc s t) (tr_heap s, tr_meta s) \<noteq> None" if "running (tr_pc s t)"
    using thread_advances [OF table_reachable_ok [OF assms(1,2)] assms(2,3) that] by (auto simp: advances_def)
  have "a \<noteq> Raises \<and> a \<noteq> MustGrowTable" if "tr_pc s t = Returned a" for a
    using th that by (auto simp: thread_ok_def took_effect_def op_spec_def split: option.splits table_op.splits prod.splits)
  with runs op_step_buries(1) [OF wf] burying_writes [OF wf] ok show ?thesis
    by (cases "tr_pc s t") auto
qed

theorem concurrent_operations_never_stick_witness:
  "op_step example_env (example_requests ! 0) (Publishing 0 (slot example_table 0)) (example_heap, example_table) \<noteq> None"
  using concurrent_operations_never_stick [OF example_before_reachable example_env_ok, of 0]
  by (simp add: example_before_def example_requests_def)

end
