(* ===== verification/TableProgress.thy ===== *)
theory TableProgress
  imports TableLinear
begin

text \<open>
  Progress of the concurrent operations on one table: a lookup ends within a number of its own accesses that
  depends on the size of the table only, whatever the other threads do; and any operation ends within such a
  number once its thread runs alone.
\<close>

subsection \<open>A lookup among other threads\<close>

text \<open>How often a thread moves in a stretch of a run.\<close>

inductive thread_moves :: "pyenv \<Rightarrow> table_request list \<Rightarrow> nat \<Rightarrow> table_run \<Rightarrow> nat \<Rightarrow> table_run \<Rightarrow> bool"
  for py rqs t s where
  none: "thread_moves py rqs t s 0 s"
| more: "\<lbrakk> thread_moves py rqs t s n s'; table_step py rqs s' s'' \<rbrakk> \<Longrightarrow>
    thread_moves py rqs t s (if tr_pc s'' t = tr_pc s' t then n else Suc n) s''"

fun search_left :: "nat \<Rightarrow> op_pc \<Rightarrow> nat" where
  "search_left l Ready = 2 * l + 2"
| "search_left l (Probing k) = 2 * (l - k) + 1"
| "search_left l (Checking k nd) = 2 * (l - k)"
| "search_left l _ = 0"

lemma search_advances_left:
  assumes wf: "wf_index py h m" and ok: "pc_ok py rq absent h m pc" and op: "rq_op rq = Search"
    and step: "op_step py rq pc (h, m) = Some (pc', w)"
  shows "search_left (SIZE_OF m) pc' < search_left (SIZE_OF m) pc"
proof (cases pc)
  case (Probing k)
  with ok passed_lt [OF wf] have "k < SIZE_OF m" by simp
  with Probing op step show ?thesis
    by (auto simp: op_step_def lookup_step_def Let_def split: if_splits)
next
  case (Checking k nd)
  with ok passed_lt [OF wf] have "k < SIZE_OF m" by auto
  with Checking op step show ?thesis
    by (auto simp: op_step_def lookup_step_def Let_def split: if_splits option.splits cmp.splits)
qed (use op step in \<open>simp_all add: op_step_def lookup_step_def\<close>)

lemma step_same_size:
  assumes "table_step py rqs s s'" and "run_ok py rqs s" and "well_behaved_keys py"
  shows "SIZE_OF (tr_meta s') = SIZE_OF (tr_meta s)"
  using assms(1)
proof cases
  case (access t pc h m)
  from assms(2) access(2) have wf: "wf_index py (tr_heap s) (tr_meta s)" and th: "thread_ok py rqs s t"
 by (simp_all add: run_ok_def)
  from th have ok: "pc_ok py (rqs ! t) (absent_since rqs s t) (tr_heap s) (tr_meta s) (tr_pc s t)" by (simp add: thread_ok_def)
  have "\<exists>c. table_change py c (tr_heap s, tr_meta s) (h, m)"
  proof (cases "running (tr_pc s t)")
    case True
    from thread_advances [OF assms(2,3) access(2) True] access(3) show ?thesis by (auto simp: advances_def)
  next
    case False
    with op_step_active [OF access(3)] obtain k nd v where pc: "tr_pc s t = Burying k nd v" by blast
    from op_step_buries [OF wf ok [unfolded pc]] access(3) pc show ?thesis by auto
  qed
  then have "SIZE_OF m = SIZE_OF (tr_meta s)" using evolvesD(2) table_change_evolves [OF _ wf assms(3)] by blast
  with access show ?thesis by simp
qed simp

lemma search_moves_bound:
  assumes "thread_moves py rqs t s n s'" and s: "table_reachable py rqs s" and wb: "well_behaved_keys py"
    and t: "t < length rqs" and op: "rq_op (rqs ! t) = Search"
  shows "table_reachable py rqs s' \<and> SIZE_OF (tr_meta s') = SIZE_OF (tr_meta s) \<and>
    n + search_left (SIZE_OF (tr_meta s)) (tr_pc s' t) \<le> search_left (SIZE_OF (tr_meta s)) (tr_pc s t)"
  using assms(1)
proof induction
  case none
  with s show ?case by simp
next
  case (more n s' s'')
  let ?left = "search_left (SIZE_OF (tr_meta s))"
  from more.IH have reach: "table_reachable py rqs s'" and size: "SIZE_OF (tr_meta s') = SIZE_OF (tr_meta s)"
    and left: "n + ?left (tr_pc s' t) \<le> ?left (tr_pc s t)" by simp_all
  note ok = table_reachable_ok [OF reach wb]
  then have wf: "wf_index py (tr_heap s') (tr_meta s')" and th: "thread_ok py rqs s' t" using t by (simp_all add: run_ok_def)
  from th have pcok: "pc_ok py (rqs ! t) (absent_since rqs s' t) (tr_heap s') (tr_meta s') (tr_pc s' t)" by (simp add: thread_ok_def)
  have "tr_pc s'' t = tr_pc s' t \<or> ?left (tr_pc s'' t) < ?left (tr_pc s' t)"
    using more.hyps(2)
  proof cases
    case (call u)
    then show ?thesis by (cases "u = t") simp_all
  next
    case (access u pc h m)
    then show ?thesis
      using search_advances_left [OF wf pcok op] size by (cases "u = t") auto
  qed
  with left table_reachable.step [OF reach more.hyps(2)] step_same_size [OF more.hyps(2) ok wb] size
  show ?case by auto
qed

subsection \<open>A thread that runs alone\<close>

fun run_alone :: "pyenv \<Rightarrow> table_request \<Rightarrow> nat \<Rightarrow> op_pc \<Rightarrow> world \<Rightarrow> op_pc \<times> world" where
  "run_alone py rq 0 pc w = (pc, w)"
| "run_alone py rq (Suc n) pc w =
     (case op_step py rq pc w of None \<Rightarrow> (pc, w) | Some (pc', w') \<Rightarrow> run_alone py rq n pc' w')"

text \<open>
  The accesses that a thread still needs: at most seven on each slot, the last of them on the slot where it
  publishes, exchanges or buries.
\<close>

fun slot_left :: "pyenv \<Rightarrow> table_request \<Rightarrow> op_pc \<Rightarrow> world \<Rightarrow> nat" where
  "slot_left py rq (Probing k) (h, m) = (if index m (probed py m (rq_key rq) k) = 0 then 2 else 6)"
| "slot_left py rq (Publishing k nd) (h, m) = (if index m (probed py m (rq_key rq) k) = 0 then 1 else 7)"
| "slot_left py rq (Checking k nd) w = 5"
| "slot_left py rq (Exchanging k nd ptr v) (h, m) = (if e_value (h ptr) = Some v then 2 else 4)"
| "slot_left py rq (Rereading k nd ptr) w = 3"
| "slot_left py rq pc w = 0"

fun distance_of :: "op_pc \<Rightarrow> nat" where
  "distance_of (Probing k) = k"
| "distance_of (Checking k nd) = k"
| "distance_of (Exchanging k nd ptr v) = k"
| "distance_of (Rereading k nd ptr) = k"
| "distance_of (Publishing k nd) = k"
| "distance_of _ = 0"

definition alone_left :: "pyenv \<Rightarrow> table_request \<Rightarrow> op_pc \<Rightarrow> world \<Rightarrow> nat" where
  "alone_left py rq pc w =
     (case pc of
        Ready \<Rightarrow> 0 | Returned _ \<Rightarrow> 0 | Burying _ _ _ \<Rightarrow> 1
      | _ \<Rightarrow> 8 * (SIZE_OF (snd w) - distance_of pc) + slot_left py rq pc w)"

lemma alone_left_bound: "alone_left py rq pc (h, m) \<le> 8 * SIZE_OF m + 7"
  by (cases pc) (auto simp: alone_left_def)

lemma alone_probe_on:
  assumes "k < SIZE_OF m"
  shows "alone_left py rq (probe_on k m) (h, m) + 1 < 8 * (SIZE_OF m - k)"
    and "alone_left py rq (Probing (Suc k)) (h, m) + 1 < 8 * (SIZE_OF m - k)"
  using assms by (auto simp: probe_on_def alone_left_def)

lemma alone_check_value:
  assumes "k < SIZE_OF m"
  shows "alone_left py rq (check_value expected k nd ptr (e_value (h ptr)) m) (h, m) < 8 * (SIZE_OF m - k) + 3"
  using alone_probe_on(1) [OF assms, of py rq h]
  by (auto simp: check_value_def alone_left_def split: option.splits)

lemma alone_check_entry:
  assumes k: "k < SIZE_OF m" and step: "check_entry py key expected k nd ptr (read_entry h ptr) m = Some pc"
  shows "alone_left py rq pc (h, m) < 8 * (SIZE_OF m - k) + 5"
proof -
  have "pc = probe_on k m \<or> pc = check_value expected k nd ptr (e_value (h ptr)) m \<or> (\<exists>a. pc = Returned a)"
    using step by (auto simp: check_entry_def read_entry_value Let_def split: if_splits option.splits cmp.splits)
  then show ?thesis
    using alone_probe_on(1) [OF k, of py rq h] alone_check_value [OF k, of py rq expected nd ptr h]
    by (auto simp: alone_left_def)
qed

lemma cas_alone_left:
  assumes wf: "wf_index py h m" and op: "rq_op rq = CompareSet expected desired location"
    and ok: "pc_ok py rq absent h m pc" and run: "running pc" and step: "op_step py rq pc (h, m) = Some (pc', h', m')"
  shows "alone_left py rq pc' (h', m') < alone_left py rq pc (h, m)"
proof -
  note le = wf_log_size_le [OF wf]
  note [simp] = probe_read [OF le] read_entry_value
  from step op have st: "cas_step py (rq_key rq) expected desired location pc (h, m) = Some (pc', h', m')"
    by (simp add: op_step_def)
  show ?thesis
  proof (cases pc)
    case (Probing k)
    with ok passed_lt [OF wf] have k: "k < SIZE_OF m" by simp
    from Probing st alone_probe_on [OF k, of py rq h] show ?thesis
      by (auto simp: Let_def is_empty_slot alone_left_def split: if_splits)
  next
    case (Checking k nd)
    with ok passed_lt [OF wf] have k: "k < SIZE_OF m" by auto
    from Checking st alone_check_entry [OF k] show ?thesis
      by (fastforce simp: alone_left_def split: option.splits)
  next
    case (Exchanging k nd ptr v)
    with st show ?thesis
      by (auto simp: alone_left_def compare_exchange_def split: if_splits)
  next
    case (Rereading k nd ptr)
    with ok passed_lt [OF wf] have k: "k < SIZE_OF m" by (auto simp: at_key_def)
    from Rereading st alone_check_value [OF k, of py rq expected nd ptr h] show ?thesis by (auto simp: alone_left_def)
  next
    case (Publishing k nd)
    let ?pos = "(distance0_of py (PyObject_Hash py (rq_key rq)) m + of_nat k) AND index_mask m" and ?p = "probed py m (rq_key rq) k"
    from Publishing ok have nd: "nd = parse_node_from_raw 0 m" and k: "k < SIZE_OF m" using passed_lt [OF wf] by auto
    have pos: "unat ?pos = ?p" using unat_position [OF le] by (simp add: probed_def home_def)
    show ?thesis
    proof (cases "index m ?p = 0")
      case True
      have "?p = (unat (distance0_of py (PyObject_Hash py (rq_key rq)) m) + k) mod SIZE_OF m" by (simp add: probed_def home_def)
      from atomic_write_empty [OF wf_log_size [OF wf] True this] True nd Publishing st show ?thesis
        by (auto simp: Let_def slot_def alone_left_def split: if_splits)
    next
      case False
      from publish_fails [OF wf_log_size [OF wf] False pos] False nd Publishing st show ?thesis
        by (auto simp: Let_def alone_left_def)
    qed
  qed (use run in \<open>auto simp: running_def\<close>)
qed

lemma search_alone_left:
  assumes wf: "wf_index py h m" and ok: "pc_ok py rq absent h m pc" and pc: "pc = Probing k \<or> pc = Checking k nd"
    and found: "\<And>k nd ptr v. e_value (h ptr) = Some v \<Longrightarrow> alone_left py rq (found k nd ptr v) (h, m) \<le> 8 * (SIZE_OF m - k) + 2"
    and step: "search_step py (rq_key rq) found pc (h, m) = Some (pc', h', m')"
  shows "alone_left py rq pc' (h', m') < alone_left py rq pc (h, m)"
proof -
  note [simp] = probe_read [OF wf_log_size_le [OF wf]]
  from ok pc passed_lt [OF wf] have k: "k < SIZE_OF m" by auto
  note onward = alone_probe_on(2) [OF k, of py rq h]
  from pc show ?thesis
  proof
    assume "pc = Probing k"
    with step k onward show ?thesis
      by (auto simp: Let_def is_empty_slot alone_left_def split: if_splits)
  next
    assume chk: "pc = Checking k nd"
    with step obtain ptr where ptr: "get_entry_at (n_index nd) m = Some ptr" by (auto split: option.splits)
    with step chk have "pc' = Probing (Suc k) \<or> (\<exists>a. pc' = Returned a) \<or>
        (\<exists>v. e_value (h ptr) = Some v \<and> pc' = found k nd ptr v)" and "h' = h" "m' = m"
      by (auto simp: Let_def read_entry_value split: if_splits option.splits cmp.splits)
    with onward found [where k = k and nd = nd and ptr = ptr] chk show ?thesis by (fastforce simp: alone_left_def)
  qed
qed

lemma running_alone_left:
  assumes wf: "wf_index py h m" and ok: "pc_ok py rq absent h m pc" and run: "running pc"
    and step: "op_step py rq pc (h, m) = Some (pc', h', m')"
  shows "alone_left py rq pc' (h', m') < alone_left py rq pc (h, m)"
proof (cases "rq_op rq")
  case (CompareSet expected desired location)
  from cas_alone_left [OF wf this ok run step] show ?thesis .
next
  case Search
  have found: "alone_left py rq (Returned (Value (Some v))) (h, m) \<le> 8 * (SIZE_OF m - k) + 2" for k v
    by (simp add: alone_left_def)
  from Search ok run step obtain k nd where "pc = Probing k \<or> pc = Checking k nd"
    by (cases pc) (auto simp: running_def op_step_def lookup_step_def)
  from search_alone_left [OF wf ok this found] step Search show ?thesis by (simp add: op_step_def lookup_step_def)
next
  case Remove
  have found: "alone_left py rq (Exchanging k nd ptr v) (h, m) \<le> 8 * (SIZE_OF m - k) + 2" if "e_value (h ptr) = Some v" for k nd ptr v
    using that by (simp add: alone_left_def)
  show ?thesis
  proof (cases "\<exists>k nd. pc = Probing k \<or> pc = Checking k nd")
    case True
    then obtain k nd where pc: "pc = Probing k \<or> pc = Checking k nd" by blast
    then have "delete_step py (rq_key rq) pc (h, m) = search_step py (rq_key rq) Exchanging pc (h, m)" by auto
    with search_alone_left [OF wf ok pc found] step Remove show ?thesis by (simp add: op_step_def)
  next
    case False
    with ok run Remove consider (ex) k nd ptr v where "pc = Exchanging k nd ptr v" | (re) k nd ptr where "pc = Rereading k nd ptr"
      by (cases pc) (auto simp: running_def)
    then show ?thesis
    proof cases
      case ex
      have "0 < SIZE_OF m" by (rule SIZE_OF_pos)
      with ex step Remove ok show ?thesis
        by (auto simp: op_step_def compare_exchange_def alone_left_def split: if_splits)
    next
      case re
      with step Remove show ?thesis
        by (auto simp: op_step_def alone_left_def read_entry_value split: option.splits)
    qed
  qed
qed

lemma run_alone_ends:
  assumes "run_ok py rqs s" and wb: "well_behaved_keys py" and t: "t < length rqs" and "tr_pc s t \<noteq> Ready"
    and "alone_left py (rqs ! t) (tr_pc s t) (tr_heap s, tr_meta s) \<le> n"
  shows "\<exists>a. fst (run_alone py (rqs ! t) n (tr_pc s t) (tr_heap s, tr_meta s)) = Returned a"
  using assms(1,4,5)
proof (induction n arbitrary: s)
  case 0
  then show ?case by (cases "tr_pc s t") (auto simp: alone_left_def split: if_splits)
next
  case (Suc n)
  from Suc.prems t have wf: "wf_index py (tr_heap s) (tr_meta s)" and th: "thread_ok py rqs s t" by (simp_all add: run_ok_def)
  from th have ok: "pc_ok py (rqs ! t) (absent_since rqs s t) (tr_heap s) (tr_meta s) (tr_pc s t)" by (simp add: thread_ok_def)
  show ?case
  proof (cases "\<exists>a. tr_pc s t = Returned a")
    case True
    then obtain a where a: "tr_pc s t = Returned a" by blast
    then have "op_step py (rqs ! t) (tr_pc s t) (tr_heap s, tr_meta s) = None"
      using op_step_active [of py "rqs ! t" "tr_pc s t" "(tr_heap s, tr_meta s)"]
      by (cases "op_step py (rqs ! t) (tr_pc s t) (tr_heap s, tr_meta s)") (auto simp: running_def)
    with a show ?thesis by simp
  next
    case False
    obtain pc h m where step: "op_step py (rqs ! t) (tr_pc s t) (tr_heap s, tr_meta s) = Some (pc, h, m)"
      and less: "pc \<noteq> Ready \<and> alone_left py (rqs ! t) pc (h, m) < alone_left py (rqs ! t) (tr_pc s t) (tr_heap s, tr_meta s)"
    proof (cases "running (tr_pc s t)")
      case True
      from thread_advances [OF Suc.prems(1) wb t True] obtain c pc h m where
        st: "op_step py (rqs ! t) (tr_pc s t) (tr_heap s, tr_meta s) = Some (pc, h, m)"
        and adv: "advance py (rqs ! t) (absent_since rqs s t) (tr_heap s) (tr_meta s) c pc h m" by (auto simp: advances_def)
      from adv have "pc \<noteq> Ready" by cases (auto simp: running_def)
      with running_alone_left [OF wf ok True st] st that show thesis by blast
    next
      case nr: False
      with False Suc.prems(2) obtain k nd v where pc: "tr_pc s t = Burying k nd v"
        by (cases "tr_pc s t") (auto simp: running_def)
      from op_step_buries(1) [OF wf ok [unfolded pc]] pc show thesis
        by (intro that) (auto simp: alone_left_def)
    qed
    from run_ok_access [OF Suc.prems(1) wb t step]
    have "run_ok py rqs (moved py t pc h m s)" .
    from Suc.IH [OF this] less Suc.prems(3) step show ?thesis by simp
  qed
qed

subsection \<open>Properties\<close>



text \<open>
  C8: The operations on a table are obstruction-free: from any state that concurrent threads can reach, a
  thread that has been called and from then on runs alone returns within eight accesses per slot and seven
  more, wherever the others were interrupted.
\<close>

theorem operations_are_obstruction_free:
  assumes "table_reachable py rqs s" and "well_behaved_keys py" and "t < length rqs" and "tr_pc s t \<noteq> Ready"
  shows "\<exists>a. fst (run_alone py (rqs ! t) (8 * SIZE_OF (tr_meta s) + 7) (tr_pc s t) (tr_heap s, tr_meta s)) = Returned a"
  using run_alone_ends [OF table_reachable_ok [OF assms(1,2)] assms(2-4) alone_left_bound] .

theorem operations_are_obstruction_free_witness:
  "\<exists>a. fst (run_alone example_env (example_requests ! 0) (8 * SIZE_OF example_table + 7)
              (Publishing 0 (slot example_table 0)) (example_heap, example_table)) = Returned a"
  using operations_are_obstruction_free [OF example_before_reachable example_env_ok, of 0]
  by (simp add: example_before_def example_requests_def)

end
