(* ===== verification/TableAlone.thy ===== *)
theory TableAlone
  imports TableProgress
begin

text \<open>
  The steps of a thread (\<open>TableSteps\<close>) and the functions that follow the loops of the code
  (\<open>Lookup\<close>, \<open>Insert\<close>, \<open>Delete\<close>) are two readings of the same sources: a thread that runs alone
  computes what the function computes when nobody interferes, in every state of the memory, well formed or not.
\<close>

definition reaches :: "pyenv \<Rightarrow> table_request \<Rightarrow> op_pc \<Rightarrow> world \<Rightarrow> op_pc \<Rightarrow> world \<Rightarrow> bool" where
  "reaches py rq pc w pc' w' \<longleftrightarrow> (\<exists>n. run_alone py rq n pc w = (pc', w'))"

lemma reaches_refl: "reaches py rq pc w pc w"
  unfolding reaches_def by (rule exI [of _ 0]) simp

lemma reaches_step:
  "op_step py rq pc w = Some (pc1, w1) \<Longrightarrow> reaches py rq pc1 w1 pc' w' \<Longrightarrow> reaches py rq pc w pc' w'"
  unfolding reaches_def by (metis (mono_tags, lifting) run_alone.simps(2) option.simps(5) case_prod_conv)

lemma reaches_once: "op_step py rq pc w = Some (pc', w') \<Longrightarrow> reaches py rq pc w pc' w'"
  by (rule reaches_step [OF _ reaches_refl])

lemma run_alone_append:
  "run_alone py rq (a + b) pc w = (case run_alone py rq a pc w of (pc', w') \<Rightarrow> run_alone py rq b pc' w')"
proof (induction a arbitrary: pc w)
  case (Suc a)
  have "run_alone py rq b pc w = (pc, w)" if "op_step py rq pc w = None" using that by (cases b) simp_all
  with Suc show ?case by (auto split: option.splits)
qed simp

lemma reaches_trans: "reaches py rq pc w pc1 w1 \<Longrightarrow> reaches py rq pc1 w1 pc2 w2 \<Longrightarrow> reaches py rq pc w pc2 w2"
  unfolding reaches_def by (metis (no_types, lifting) run_alone_append case_prod_conv)

subsection \<open>Search\<close>

text \<open>Where a search stops: at its answer, or at what its caller does with the entry it has found.\<close>

definition search_stops ::
  "pyenv \<Rightarrow> heap \<Rightarrow> meta \<Rightarrow> i64 \<Rightarrow> (nat \<Rightarrow> node \<Rightarrow> entry_ptr \<Rightarrow> pyobj \<Rightarrow> op_pc) \<Rightarrow> search_result \<Rightarrow> op_pc \<Rightarrow> bool" where
  "search_stops py h m hash found r pc \<longleftrightarrow>
     (if sr_error r then pc = Returned Raises
      else if \<not> sr_found r then sr_entry_p r = None \<and> pc = Returned (Value None)
      else \<exists>k p v. pc = found k (sr_node r) p v \<and> sr_entry_p r = Some p \<and> e_value (sr_entry r) = Some v \<and>
        sr_entry r = read_entry h p \<and> sr_position r = (distance0_of py hash m + of_nat k) AND index_mask m)"

lemma search_alone:
  assumes step: "\<And>k nd. op_step py rq (Probing k) (h, m) = search_step py key found (Probing k) (h, m)"
    "\<And>k nd. op_step py rq (Checking k nd) (h, m) = search_step py key found (Checking k nd) (h, m)"
    and hash: "hash = PyObject_Hash py key"
  shows "lookup_from py h m key hash k r = Some r' \<Longrightarrow>
    \<exists>pc. reaches py rq (Probing k) (h, m) pc (h, m) \<and> search_stops py h m hash found r' pc"
  using hash
proof (induction "SIZE_OF m - k" arbitrary: k r rule: less_induct)
  case less
  let ?nd = "read_node_at (distance0_of py hash m + of_nat k) m"
  note [simp] = step
  have unfold: "lookup_from py h m key hash k r = Some r'" by (rule less.prems)
  show ?case
  proof (cases "k < SIZE_OF m \<and> \<not> is_empty ?nd")
    case False
    with less.prems(2) have "op_step py rq (Probing k) (h, m) = Some (Returned (Value None), h, m)"
      by (simp add: Let_def)
    moreover from False unfold have "\<exists>q. r' = lookup_not_found q"
      by (subst (asm) lookup_from.simps) (auto simp: Let_def split: if_splits)
    then have "search_stops py h m hash found r' (Returned (Value None))"
      by (auto simp: search_stops_def lookup_not_found_def)
    ultimately show ?thesis using reaches_once by blast
  next
    case True
    have onward: ?thesis if "lookup_from py h m key hash (Suc k) q = Some r'"
      "reaches py rq (Probing k) (h, m) (Probing (Suc k)) (h, m)" for q
      using less.hyps [OF _ that(1) less.prems(2)] True that(2) reaches_trans by (metis diff_less_mono2 lessI)
    show ?thesis
    proof (cases "is_tombstone ?nd \<or> \<not> check_tag py hash ?nd m")
      case skip: True
      with True less.prems(2) have "op_step py rq (Probing k) (h, m) = Some (Probing (Suc k), h, m)" by (simp add: Let_def)
      moreover from skip True unfold have "lookup_from py h m key hash (Suc k) (r\<lparr>sr_node := ?nd\<rparr>) = Some r'"
        by (subst (asm) lookup_from.simps) (auto simp: Let_def split: if_splits)
      ultimately show ?thesis using onward reaches_once by blast
    next
      case False
      with True less.prems(2) have "op_step py rq (Probing k) (h, m) = Some (Checking k ?nd, h, m)" by (simp add: Let_def)
      then have chk: "reaches py rq (Probing k) (h, m) pc (h, m)"
        if "op_step py rq (Checking k ?nd) (h, m) = Some (pc, h, m)" for pc
        using that reaches_step reaches_once by blast
      from False True unfold obtain p where p: "get_entry_at (n_index ?nd) m = Some p"
        by (subst (asm) lookup_from.simps) (auto simp: Let_def split: if_splits option.splits)
      let ?e = "read_entry h p" and ?r = "r\<lparr>sr_node := ?nd, sr_entry_p := Some p, sr_entry := read_entry h p\<rparr>"
      let ?on = "lookup_from py h m key hash (Suc k) ?r = Some r'"
      let ?hit = "r' = lookup_found m (distance0_of py hash m) k ?r"
      have res: "case (e_value ?e, e_key ?e) of
          (Some v, Some kk) \<Rightarrow>
            if kk = key then ?hit else if e_hash ?e \<noteq> hash then ?on
            else (case RichCompareEq py kk key of CmpError \<Rightarrow> r' = ?r\<lparr>sr_error := True\<rparr> | CmpFalse \<Rightarrow> ?on | CmpTrue \<Rightarrow> ?hit)
        | (None, _) \<Rightarrow> ?on
        | (Some v, None) \<Rightarrow> e_hash ?e \<noteq> hash \<and> ?on"
        using False True unfold p
        by (subst (asm) lookup_from.simps) (auto simp: Let_def split: if_splits option.splits cmp.splits)
      have at_hit: "search_stops py h m hash found r' (found k ?nd p v)" if ?hit "e_value ?e = Some v" for v
        using that by (simp add: search_stops_def lookup_found_def del: split_paired_Ex) blast
      have at_err: "search_stops py h m hash found r' (Returned Raises)" if "r' = ?r\<lparr>sr_error := True\<rparr>"
        using that by (simp add: search_stops_def)
      note go = onward [OF _ chk]
      show ?thesis
      proof (cases "e_value ?e")
        case None
        with res have ?on by simp
        moreover have "op_step py rq (Checking k ?nd) (h, m) = Some (Probing (Suc k), h, m)"
          using None p by (simp add: Let_def)
        ultimately show ?thesis using go by blast
      next
        case v: (Some v)
        show ?thesis
        proof (cases "e_key ?e")
          case None
          with v res have "e_hash ?e \<noteq> hash" ?on by simp_all
          moreover have "op_step py rq (Checking k ?nd) (h, m) = Some (Probing (Suc k), h, m)"
            using None v p calculation(1) less.prems(2) by (simp add: Let_def)
          ultimately show ?thesis using go by blast
        next
          case kk: (Some kk)
          consider (on) ?on "op_step py rq (Checking k ?nd) (h, m) = Some (Probing (Suc k), h, m)"
            | (hit) ?hit "op_step py rq (Checking k ?nd) (h, m) = Some (found k ?nd p v, h, m)"
            | (err) "r' = ?r\<lparr>sr_error := True\<rparr>" "op_step py rq (Checking k ?nd) (h, m) = Some (Returned Raises, h, m)"
            using v kk res p less.prems(2)
            by (cases "RichCompareEq py kk key") (auto simp: Let_def split: if_splits)
          then show ?thesis
          proof cases
            case on
            then show ?thesis using go by blast
          next
            case hit
            then show ?thesis using chk [OF hit(2)] at_hit [OF hit(1) v] by blast
          next
            case err
            then show ?thesis using chk [OF err(2)] at_err [OF err(1)] by blast
          qed
        qed
      qed
    qed
  qed
qed

definition search_answer :: "search_result \<Rightarrow> answer" where
  "search_answer r =
     (if sr_error r then Raises else Value (if sr_found r then e_value (sr_entry r) else None))"

lemma lookup_alone:
  assumes "lookup py h m key (PyObject_Hash py key) r = Some r'" and "rq_key rq = key" and "rq_op rq = Search"
  shows "reaches py rq (Probing 0) (h, m) (Returned (search_answer r')) (h, m)"
proof -
  let ?found = "\<lambda>k nd p v. Returned (Value (Some v))"
  have step: "op_step py rq (Probing k) (h, m) = search_step py key ?found (Probing k) (h, m)"
    "op_step py rq (Checking k nd) (h, m) = search_step py key ?found (Checking k nd) (h, m)" for k nd
    using assms by (simp_all add: op_step_def lookup_step_def)
  from assms(1) have "lookup_from py h m key (PyObject_Hash py key) 0 r = Some r'" by (simp add: lookup_def)
  from search_alone [of py rq h m key ?found, OF step refl this] obtain pc where
    pc: "reaches py rq (Probing 0) (h, m) pc (h, m)" "search_stops py h m (PyObject_Hash py key) ?found r' pc" by blast
  from pc(2) have "pc = Returned (search_answer r')"
    by (auto simp: search_stops_def search_answer_def split: if_splits)
  with pc(1) show ?thesis by simp
qed

subsection \<open>Deletion\<close>

lemma delete_alone:
  assumes del: "delete py key (PyObject_Hash py key) r [] (h, m) = Some d" and rq: "rq_key rq = key" "rq_op rq = Remove"
  shows "reaches py rq (Probing 0) (h, m) (Returned (search_answer (dr_search d))) (dr_world d)"
proof -
  have step: "op_step py rq (Probing k) (h, m) = search_step py key Exchanging (Probing k) (h, m)"
    "op_step py rq (Checking k nd) (h, m) = search_step py key Exchanging (Checking k nd) (h, m)" for k nd
    using rq by (simp_all add: op_step_def)
  from del obtain r' where r': "lookup py h m key (PyObject_Hash py key) r = Some r'"
    by (auto simp: delete_def Let_def split: option.splits)
  then have "lookup_from py h m key (PyObject_Hash py key) 0 r = Some r'" by (simp add: lookup_def)
  from search_alone [of py rq h m key Exchanging, OF step refl this] obtain pc where
    pc: "reaches py rq (Probing 0) (h, m) pc (h, m)" "search_stops py h m (PyObject_Hash py key) Exchanging r' pc" by blast
  show ?thesis
  proof (cases "sr_error r' \<or> \<not> sr_found r'")
    case True
    with pc(2) r' del have "pc = Returned (search_answer (dr_search d))" "dr_world d = (h, m)"
      by (auto simp: search_stops_def search_answer_def delete_def Let_def split: if_splits)
    with pc(1) show ?thesis by simp
  next
    case False
    with pc(2) obtain k p v where f: "pc = Exchanging k (sr_node r') p v" "sr_entry_p r' = Some p"
      "e_value (sr_entry r') = Some v" "sr_entry r' = read_entry h p"
      "sr_position r' = (distance0_of py (PyObject_Hash py key) m + of_nat k) AND index_mask m"
      by (auto simp: search_stops_def simp del: split_paired_Ex)
    from f(3,4) have v: "e_value (h p) = Some v" by (simp add: read_entry_value)
    let ?h = "set_value p None h" and ?w = "atomic_write_node_at (sr_position r') (sr_node r') (tombstone_node m) m"
    have "take_value p r' [] (h, m) = Some (True, r', [], (?h, m))"
      using f(3) v by (subst take_value.simps) simp
    with del r' False f(2) have d: "dr_search d = r'" "dr_world d = (?h, snd ?w)"
      by (auto simp: delete_def Let_def split: prod.splits)
    have "op_step py rq pc (h, m) = Some (Burying k (sr_node r') v, ?h, m)"
      using rq v by (simp add: op_step_def f(1))
    moreover have "op_step py rq (Burying k (sr_node r') v) (?h, m) = Some (Returned (Value (Some v)), ?h, snd ?w)"
      using rq by (simp add: op_step_def f(5) Let_def split: prod.splits)
    ultimately have "reaches py rq pc (h, m) (Returned (Value (Some v))) (?h, snd ?w)"
      using reaches_step reaches_once by blast
    with reaches_trans [OF pc(1)] d False f(3) show ?thesis by (simp add: search_answer_def)
  qed
qed

subsection \<open>Compare and set\<close>

text \<open>The update of an entry, as the next step of a thread.\<close>

definition update_stops :: "heap \<Rightarrow> meta \<Rightarrow> pyobj \<Rightarrow> pyobj \<Rightarrow> nat \<Rightarrow> node \<Rightarrow> update_result \<Rightarrow> op_pc \<Rightarrow> bool" where
  "update_stops h m expected desired k nd u pc \<longleftrightarrow>
     ur_rest u = [] \<and>
     (case ur_ret u of
        UpdateError \<Rightarrow> pc = Returned Raises \<and> ur_world u = (h, m)
      | NotUpdated \<Rightarrow> pc = probe_on k m \<and> ur_current u = None \<and> ur_world u = (h, m)
      | Updated \<Rightarrow>
          \<not> ur_expectation u \<and> pc = Returned (Value (insert_outcome expected False None)) \<and> ur_world u = (h, m) \<or>
          (\<exists>p v. pc = Exchanging k nd p v \<and> e_value (h p) = Some v \<and> ur_expectation u \<and> ur_current u = Some v \<and>
             ur_world u = (set_value p (Some desired) h, m)))"

lemma update_alone:
  assumes u: "expected_update_entry py (n_index nd) key (PyObject_Hash py key) expected desired None [] (h, m) = Some u"
  obtains p pc where "get_entry_at (n_index nd) m = Some p"
    and "check_entry py key expected k nd p (read_entry h p) m = Some pc"
    and "update_stops h m expected desired k nd u pc"
proof -
  from u obtain p where p: "get_entry_at (n_index nd) m = Some p"
    by (auto simp: expected_update_entry_def Let_def split: option.splits)
  let ?e = "read_entry h p"
  have loop: "\<exists>u. update_loop expected desired p ?e None [] (h, m) = Some u \<and>
      update_stops h m expected desired k nd u (check_value expected k nd p (e_value ?e) m)"
  proof (cases "e_value (h p)")
    case None
    then show ?thesis
      by (subst update_loop.simps) (simp add: read_entry_value update_stops_def check_value_def insert_outcome_def)
  next
    case (Some v)
    have "update_stops h m expected desired k nd u (Exchanging k nd p v)"
      if "ur_ret u = Updated" "ur_rest u = []" "ur_expectation u" "ur_current u = Some v"
        "ur_world u = (set_value p (Some desired) h, m)" for u
      using that Some by (simp add: update_stops_def del: split_paired_Ex)
    with Some show ?thesis
      by (subst update_loop.simps)
        (auto simp: read_entry_value update_stops_def check_value_def insert_outcome_def simp del: split_paired_Ex)
  qed
  show thesis
  proof (cases "e_value ?e = None \<or> PyObject_Hash py key \<noteq> e_hash ?e")
    case True
    with u p show thesis
      by (intro that [OF p, of "probe_on k m"]) (auto simp: expected_update_entry_def check_entry_def Let_def update_stops_def)
  next
    case False
    show thesis
    proof (cases "expected = NOT_FOUND")
      case nf: True
      with u p False show thesis
        by (cases "e_key ?e = Some key"; cases "e_key ?e"; cases "RichCompareEq py (the (e_key ?e)) key")
          (auto simp: expected_update_entry_def check_entry_def Let_def update_stops_def insert_outcome_def intro!: that [OF p])
    next
      case ex: False
      from False obtain y where y: "e_value ?e = Some y" "PyObject_Hash py key = e_hash ?e" by auto
      from loop obtain u' where u': "update_loop expected desired p ?e None [] (h, m) = Some u'"
        "update_stops h m expected desired k nd u' (check_value expected k nd p (Some y) m)" unfolding y(1) by blast
      consider (hit) "e_key ?e = Some key \<or> (\<exists>kk. e_key ?e = Some kk \<and> RichCompareEq py kk key = CmpTrue)"
        | (other) kk where "e_key ?e = Some kk" "kk \<noteq> key" "RichCompareEq py kk key \<noteq> CmpTrue"
        using u p y by (cases "e_key ?e") (auto simp: expected_update_entry_def Let_def split: if_splits)
      then show thesis
      proof cases
        case hit
        with u p y ex u'(1) have "u = u'" by (auto simp: expected_update_entry_def Let_def split: if_splits)
        with hit y ex u'(2) show thesis by (intro that [OF p]) (auto simp: check_entry_def Let_def)
      next
        case other
        with u p y show thesis
          by (cases "RichCompareEq py kk key")
            (auto simp: expected_update_entry_def check_entry_def Let_def update_stops_def intro!: that [OF p])
      qed
    qed
  qed
qed

definition insert_answer :: "insert_result \<Rightarrow> answer" where
  "insert_answer r =
     (if ir_must_grow r then MustGrowTable
      else (case ir_result r of None \<Rightarrow> Raises | Some v \<Rightarrow> Value (Some v)))"

lemma insert_outcome_some:
  "insert_outcome expected False c = Some EXPECTATION_FAILED"
  "insert_outcome expected True (Some v) \<noteq> None"
  "expected = NOT_FOUND \<or> expected = ANY \<Longrightarrow> insert_outcome expected True None = Some NOT_FOUND"
  by (auto simp: insert_outcome_def)

lemma insert_alone:
  "insert_loop py key hash expected desired loc skip_entry_check k current fs w = Some r \<Longrightarrow>
     hash = PyObject_Hash py key \<and> \<not> skip_entry_check \<and> current = None \<and> fs = [] \<longrightarrow>
     rq_key rq = key \<and> rq_op rq = CompareSet expected desired (loc_location loc) \<longrightarrow>
     reaches py rq (Probing k) w (Returned (insert_answer r)) (ir_world r)"
proof (induction rule: insert_loop.raw_induct [rotated, consumes 1])
  case (1 f py key hash expected desired loc skip_entry_check k current fs w r)
  show ?case
  proof (intro impI)
    assume as: "hash = PyObject_Hash py key \<and> \<not> skip_entry_check \<and> current = None \<and> fs = []"
      and rq: "rq_key rq = key \<and> rq_op rq = CompareSet expected desired (loc_location loc)"
    obtain h m where w: "w = (h, m)" by (cases w)
    from as have args: "hash = PyObject_Hash py key" "skip_entry_check = False" "current = None" "fs = []" by simp_all
    note body = 1(2) [unfolded args w]
    let ?nd = "read_node_at ((distance0_of py hash m + of_nat k) AND index_mask m) m"
    have step: "op_step py rq pc (h', m') = cas_step py key expected desired (loc_location loc) pc (h', m')" for pc h' m'
      using rq by (simp add: op_step_def)
    have again: "reaches py rq (Probing k') (h', m') (Returned (insert_answer r)) (ir_world r)"
      if "f py key hash expected desired loc skip_entry_check k' None [] (h', m') = Some r" for k' h' m'
      using 1(1) [OF that] as rq by blast
    have full: "reaches py rq pc (h', m') (Returned (insert_answer r)) (ir_world r)"
      if "pc = probe_on k m'" "(if Suc k \<ge> SIZE_OF m' then Some \<lparr>ir_result = None, ir_must_grow = True, ir_rest = [], ir_world = (h', m')\<rparr>
        else f py key hash expected desired loc skip_entry_check (Suc k) None [] (h', m')) = Some r" for pc h' m'
      using that again reaches_refl by (auto simp: probe_on_def insert_answer_def split: if_splits)
    show "reaches py rq (Probing k) w (Returned (insert_answer r)) (ir_world r)"
    proof (cases "is_empty ?nd")
      case empty: True
      show ?thesis
      proof (cases "expected \<noteq> NOT_FOUND \<and> expected \<noteq> ANY")
        case True
        with True empty body as w have "r = inserted_ok expected False None [] (h, m)" by (simp add: Let_def)
        moreover have "op_step py rq (Probing k) (h, m) = Some (Returned (Value (insert_outcome expected False None)), h, m)"
          using True empty as by (simp add: step Let_def)
        ultimately show ?thesis
          using reaches_once w by (simp add: inserted_ok_def insert_answer_def insert_outcome_some)
      next
        case ex: False
        then have ins [simp]: "(expected \<noteq> NOT_FOUND \<and> expected \<noteq> ANY) = False" by blast
        obtain ok m' where wr: "atomic_write_node_at ((distance0_of py hash m + of_nat k) AND index_mask m) ?nd
            (insert_node py (loc_location loc) hash k) m = (ok, m')" by (meson surj_pair)
        have pub: "op_step py rq (Probing k) (h, m) = Some (Publishing k ?nd, h, m)"
          using ex empty as by (simp add: step Let_def)
        have fst: "insert_outcome expected True None = Some NOT_FOUND" using ex by (intro insert_outcome_some) blast
        have "reaches py rq (Publishing k ?nd) (h, m) (Returned (insert_answer r)) (ir_world r)"
        proof (cases ok)
          case False
          with body empty wr as w have "f py key hash expected desired loc skip_entry_check k None [] (h, m') = Some r"
            by (simp add: Let_def)
          moreover have "op_step py rq (Publishing k ?nd) (h, m) = Some (Probing k, h, m')"
            using False wr as by (simp add: step Let_def)
          ultimately show ?thesis using again reaches_step by blast
        next
          case True
          with body empty wr as w have "r = (if Suc k \<ge> SIZE_OF m' then \<lparr>ir_result = None, ir_must_grow = True, ir_rest = [], ir_world = (h, m')\<rparr>
              else inserted_ok expected True None [] (h, m'))"
            by (simp add: Let_def split: if_splits)
          moreover have "op_step py rq (Publishing k ?nd) (h, m) = Some (if Suc k \<ge> SIZE_OF m' then Returned MustGrowTable
              else Returned (Value (insert_outcome expected True None)), h, m')"
            using True wr as by (simp add: step Let_def)
          ultimately show ?thesis
            using reaches_once fst by (auto simp: inserted_ok_def insert_answer_def)
        qed
        with reaches_step [OF pub] w show ?thesis by simp
      qed
    next
      case ne: False
      show ?thesis
      proof (cases "is_tombstone ?nd \<or> \<not> check_tag py hash ?nd m")
        case skip: True
        with ne as have st: "op_step py rq (Probing k) (h, m) = Some (probe_on k m, h, m)" by (simp add: step Let_def)
        have "(if Suc k \<ge> SIZE_OF m then Some \<lparr>ir_result = None, ir_must_grow = True, ir_rest = [], ir_world = (h, m)\<rparr>
            else f py key hash expected desired loc skip_entry_check (Suc k) None [] (h, m)) = Some r"
          using skip ne body unfolding args by (simp add: Let_def)
        from reaches_step [OF st full [OF refl this]] w show ?thesis by simp
      next
        case False
        with ne as have chk: "op_step py rq (Probing k) (h, m) = Some (Checking k ?nd, h, m)" by (simp add: step Let_def)
        from False ne body as w obtain u where u: "expected_update_entry py (n_index ?nd) key (PyObject_Hash py key) expected desired None [] (h, m) = Some u"
          by (auto simp: Let_def split: option.splits)
        from update_alone [OF u, of k] obtain p pc where
          p: "get_entry_at (n_index ?nd) m = Some p" "check_entry py key expected k ?nd p (read_entry h p) m = Some pc"
          and stop: "update_stops h m expected desired k ?nd u pc" .
        from p have pc: "op_step py rq (Checking k ?nd) (h, m) = Some (pc, h, m)" by (simp add: step)
        have res: "(if ur_ret u = UpdateError
              then Some \<lparr>ir_result = None, ir_must_grow = False, ir_rest = ur_rest u, ir_world = ur_world u\<rparr>
              else if ur_ret u = Updated
              then Some (inserted_ok expected (ur_expectation u) (ur_current u) (ur_rest u) (ur_world u))
              else if Suc k \<ge> SIZE_OF (snd (ur_world u)) then Some \<lparr>ir_result = None, ir_must_grow = True, ir_rest = ur_rest u, ir_world = ur_world u\<rparr>
              else f py key hash expected desired loc skip_entry_check (Suc k) (ur_current u) (ur_rest u) (ur_world u)) = Some r"
          using False ne body u unfolding args by (simp add: Let_def)
        have "reaches py rq pc (h, m) (Returned (insert_answer r)) (ir_world r)"
        proof (cases "ur_ret u")
          case UpdateError
          with res stop show ?thesis by (auto simp: update_stops_def insert_answer_def reaches_refl)
        next
          case NotUpdated
          with res stop show ?thesis by (intro full) (auto simp: update_stops_def)
        next
          case Updated
          with res stop have r: "r = inserted_ok expected (ur_expectation u) (ur_current u) [] (ur_world u)"
            by (simp add: update_stops_def)
          show ?thesis
          proof (cases "ur_expectation u")
            case False
            with Updated stop r show ?thesis
              by (simp add: update_stops_def inserted_ok_def insert_answer_def insert_outcome_some reaches_refl)
          next
            case True
            with Updated stop obtain q v where e: "pc = Exchanging k ?nd q v" "e_value (h q) = Some v"
              "ur_current u = Some v" "ur_world u = (set_value q (Some desired) h, m)"
              by (auto simp: update_stops_def simp del: split_paired_Ex)
            then have "op_step py rq pc (h, m) =
                Some (Returned (Value (insert_outcome expected True (Some v))), set_value q (Some desired) h, m)"
              by (simp add: step)
            moreover have "insert_answer r = Value (insert_outcome expected True (Some v))"
              using r True e(3) insert_outcome_some(2) [of expected v]
              by (auto simp: inserted_ok_def insert_answer_def split: option.splits)
            ultimately show ?thesis using reaches_once r e(4) by (simp add: inserted_ok_def)
          qed
        qed
        from reaches_step [OF chk reaches_step [OF pc this]] w show ?thesis by simp
      qed
    qed
  qed
qed

subsection \<open>Properties\<close>


end
