(* ===== verification/TypeTables.thy ===== *)
theory TypeTables
  imports Constants
begin

text \<open>
  The tables of \<^verbatim>\<open>src/src/cereggii/cereggii.c\<close> that tell the interpreter which function implements a
  method, an attribute or a slot of a type, with the prototypes of those functions from the headers, and the
  initialisation of the module.

  The interpreter calls a function of a table through a pointer of a type that the kind of its entry
  determines; the tables cast the functions to those types, so the compiler does not compare them with the
  prototypes.  A structure that begins with \<open>PyObject_HEAD\<close> is an object.  Of the conditional parts those for
  Python 3.12 and later are modelled.
\<close>

subsection \<open>C types and tables\<close>

datatype ctype = Object | Pointer | CharPointer | IntPointer | CInt | Int64 | Ssize | HashT | Void | Visitproc

datatype prototype = Prototype (proto_name: string) (proto_returns: ctype) (proto_params: "ctype list")

type_synonym signature = "ctype \<times> ctype list"

datatype function_type =
    unaryfunc | binaryfunc | ternaryfunc | inquiry | lenfunc | ssizeargfunc | ssizeobjargproc | objobjproc
  | objobjargproc | hashfunc | reprfunc | richcmpfunc | getiterfunc | iternextfunc | getattrofunc
  | setattrofunc | initproc | newfunc | destructor | traverseproc | getter | setter

text \<open>The function types of the interpreter.\<close>

fun signature_of :: "function_type \<Rightarrow> signature" where
  "signature_of unaryfunc = (Object, [Object])"
| "signature_of binaryfunc = (Object, [Object, Object])"
| "signature_of ternaryfunc = (Object, [Object, Object, Object])"
| "signature_of inquiry = (CInt, [Object])"
| "signature_of lenfunc = (Ssize, [Object])"
| "signature_of ssizeargfunc = (Object, [Object, Ssize])"
| "signature_of ssizeobjargproc = (CInt, [Object, Ssize, Object])"
| "signature_of objobjproc = (CInt, [Object, Object])"
| "signature_of objobjargproc = (CInt, [Object, Object, Object])"
| "signature_of hashfunc = (HashT, [Object])"
| "signature_of reprfunc = (Object, [Object])"
| "signature_of richcmpfunc = (Object, [Object, Object, CInt])"
| "signature_of getiterfunc = (Object, [Object])"
| "signature_of iternextfunc = (Object, [Object])"
| "signature_of getattrofunc = (Object, [Object, Object])"
| "signature_of setattrofunc = (CInt, [Object, Object, Object])"
| "signature_of initproc = (CInt, [Object, Object, Object])"
| "signature_of newfunc = (Object, [Object, Object, Object])"
| "signature_of destructor = (Void, [Object])"
| "signature_of traverseproc = (CInt, [Object, Visitproc, Pointer])"
| "signature_of getter = (Object, [Object, Pointer])"
| "signature_of setter = (CInt, [Object, Object, Pointer])"

datatype meth_flag = METH_NOARGS | METH_O | METH_VARARGS | METH_KEYWORDS | METH_CLASS

text \<open>
  A method without keywords is called with its object and one more argument, which is \<open>NULL\<close> for one
  without arguments.
\<close>

definition method_signature :: "meth_flag list \<Rightarrow> signature" where
  "method_signature flags = (Object, if METH_KEYWORDS \<in> set flags then [Object, Object, Object] else [Object, Object])"

datatype slot_def = Slot string function_type string

datatype method_def = Method string string "meth_flag list"

datatype getset_def = GetSet string string string

datatype tp_flag = Py_TPFLAGS_DEFAULT | Py_TPFLAGS_BASETYPE | Py_TPFLAGS_HAVE_GC | Py_TPFLAGS_MANAGED_WEAKREF

record type_object =
  tp_name :: string
  tp_flags :: "tp_flag set"
  tp_slots :: "slot_def list"
  tp_methods :: "method_def list"
  tp_getset :: "getset_def list"
  tp_as_number :: "slot_def list"
  tp_as_sequence :: "slot_def list"
  tp_as_mapping :: "slot_def list"

subsection \<open>The prototypes\<close>

text \<open>The constructor of the interpreter that most types use, and the function that is defined beside the tables.\<close>

definition shared_prototypes :: "prototype list" where
  "shared_prototypes =
     [Prototype ''PyType_GenericNew'' Object [Object, Object, Object],
      Prototype ''_generic_class_getitem'' Object [Object, Object]]"

definition AtomicInt64_prototypes :: "prototype list" where
  "AtomicInt64_prototypes = [
     Prototype ''AtomicInt64_Get'' Int64 [Object], Prototype ''AtomicInt64_Get_callable'' Object [Object],
     Prototype ''AtomicInt64_Set'' Void [Object, Int64],
     Prototype ''AtomicInt64_Set_callable'' Object [Object, Object],
     Prototype ''AtomicInt64_CompareAndSet'' CInt [Object, Int64, Int64],
     Prototype ''AtomicInt64_CompareAndSet_callable'' Object [Object, Object, Object],
     Prototype ''AtomicInt64_GetAndSet'' Int64 [Object, Int64],
     Prototype ''AtomicInt64_GetAndSet_callable'' Object [Object, Object, Object],
     Prototype ''AtomicInt64_GetHandle'' Object [Object],
     Prototype ''AtomicInt64_IncrementAndGet'' Int64 [Object, Int64, IntPointer],
     Prototype ''AtomicInt64_IncrementAndGet_callable'' Object [Object, Object],
     Prototype ''AtomicInt64_GetAndIncrement'' Int64 [Object, Int64, IntPointer],
     Prototype ''AtomicInt64_GetAndIncrement_callable'' Object [Object, Object],
     Prototype ''AtomicInt64_DecrementAndGet'' Int64 [Object, Int64, IntPointer],
     Prototype ''AtomicInt64_DecrementAndGet_callable'' Object [Object, Object],
     Prototype ''AtomicInt64_GetAndDecrement'' Int64 [Object, Int64, IntPointer],
     Prototype ''AtomicInt64_GetAndDecrement_callable'' Object [Object, Object],
     Prototype ''AtomicInt64_GetAndUpdate'' Int64 [Object, Object, IntPointer],
     Prototype ''AtomicInt64_GetAndUpdate_callable'' Object [Object, Object],
     Prototype ''AtomicInt64_UpdateAndGet'' Int64 [Object, Object, IntPointer],
     Prototype ''AtomicInt64_UpdateAndGet_callable'' Object [Object, Object],
     Prototype ''AtomicInt64_Hash'' HashT [Object], Prototype ''AtomicInt64_Add'' Object [Object, Object],
     Prototype ''AtomicInt64_Subtract'' Object [Object, Object],
     Prototype ''AtomicInt64_Multiply'' Object [Object, Object],
     Prototype ''AtomicInt64_Remainder'' Object [Object, Object],
     Prototype ''AtomicInt64_Divmod'' Object [Object, Object],
     Prototype ''AtomicInt64_Power'' Object [Object, Object, Object],
     Prototype ''AtomicInt64_Negative'' Object [Object], Prototype ''AtomicInt64_Positive'' Object [Object],
     Prototype ''AtomicInt64_Absolute'' Object [Object], Prototype ''AtomicInt64_Bool'' CInt [Object],
     Prototype ''AtomicInt64_Invert'' Object [Object],
     Prototype ''AtomicInt64_Lshift'' Object [Object, Object],
     Prototype ''AtomicInt64_Rshift'' Object [Object, Object],
     Prototype ''AtomicInt64_And'' Object [Object, Object],
     Prototype ''AtomicInt64_Xor'' Object [Object, Object],
     Prototype ''AtomicInt64_Or'' Object [Object, Object], Prototype ''AtomicInt64_Int'' Object [Object],
     Prototype ''AtomicInt64_Float'' Object [Object],
     Prototype ''AtomicInt64_InplaceAdd'' Object [Object, Object],
     Prototype ''AtomicInt64_InplaceSubtract'' Object [Object, Object],
     Prototype ''AtomicInt64_InplaceMultiply'' Object [Object, Object],
     Prototype ''AtomicInt64_InplaceRemainder'' Object [Object, Object],
     Prototype ''AtomicInt64_InplacePower'' Object [Object, Object, Object],
     Prototype ''AtomicInt64_InplaceLshift'' Object [Object, Object],
     Prototype ''AtomicInt64_InplaceRshift'' Object [Object, Object],
     Prototype ''AtomicInt64_InplaceAnd'' Object [Object, Object],
     Prototype ''AtomicInt64_InplaceXor'' Object [Object, Object],
     Prototype ''AtomicInt64_InplaceOr'' Object [Object, Object],
     Prototype ''AtomicInt64_FloorDivide'' Object [Object, Object],
     Prototype ''AtomicInt64_TrueDivide'' Object [Object, Object],
     Prototype ''AtomicInt64_InplaceFloorDivide'' Object [Object, Object],
     Prototype ''AtomicInt64_InplaceTrueDivide'' Object [Object, Object],
     Prototype ''AtomicInt64_Index'' Object [Object],
     Prototype ''AtomicInt64_MatrixMultiply'' Object [Object, Object],
     Prototype ''AtomicInt64_InplaceMatrixMultiply'' Object [Object, Object],
     Prototype ''AtomicInt64_RichCompare'' Object [Object, Object, CInt],
     Prototype ''AtomicInt64_AsIntegerRatio'' Object [Object],
     Prototype ''AtomicInt64_BitLength'' Object [Object],
     Prototype ''AtomicInt64_Conjugate'' Object [Object],
     Prototype ''AtomicInt64_FromBytes'' Object [Object, Object, Object],
     Prototype ''AtomicInt64_ToBytes'' Object [Object, Object, Object],
     Prototype ''AtomicInt64_Denominator_Get'' Object [Object, Pointer],
     Prototype ''AtomicInt64_Denominator_Set'' Object [Object, Object, Pointer],
     Prototype ''AtomicInt64_Numerator_Get'' Object [Object, Pointer],
     Prototype ''AtomicInt64_Numerator_Set'' Object [Object, Object, Pointer],
     Prototype ''AtomicInt64_Imag_Get'' Object [Object, Pointer],
     Prototype ''AtomicInt64_Imag_Set'' Object [Object, Object, Pointer],
     Prototype ''AtomicInt64_Real_Get'' Object [Object, Pointer],
     Prototype ''AtomicInt64_Real_Set'' Object [Object, Object, Pointer],
     Prototype ''AtomicInt64_new'' Object [Object, Object, Object],
     Prototype ''AtomicInt64_init'' CInt [Object, Object, Object],
     Prototype ''AtomicInt64_dealloc'' Void [Object]]"

definition AtomicRef_prototypes :: "prototype list" where
  "AtomicRef_prototypes = [
     Prototype ''AtomicRef_Get'' Object [Object], Prototype ''AtomicRef_Set'' Object [Object, Object],
     Prototype ''AtomicRef_CompareAndSet'' CInt [Object, Object, Object],
     Prototype ''AtomicRef_CompareAndSet_callable'' Object [Object, Object, Object],
     Prototype ''AtomicRef_GetAndSet'' Object [Object, Object],
     Prototype ''AtomicRef_GetHandle'' Object [Object],
     Prototype ''AtomicRef_new'' Object [Object, Object, Object],
     Prototype ''AtomicRef_init'' CInt [Object, Object, Object],
     Prototype ''AtomicRef_traverse'' CInt [Object, Visitproc, Pointer],
     Prototype ''AtomicRef_clear'' CInt [Object], Prototype ''AtomicRef_dealloc'' Void [Object]]"

definition AtomicEvent_prototypes :: "prototype list" where
  "AtomicEvent_prototypes = [
     Prototype ''AtomicEvent_new'' Object [Object, Object, Object],
     Prototype ''AtomicEvent_init'' CInt [Object, Object, Object],
     Prototype ''AtomicEvent_dealloc'' Void [Object], Prototype ''AtomicEvent_Set'' Void [Object],
     Prototype ''AtomicEvent_Set_callable'' Object [Object], Prototype ''AtomicEvent_IsSet'' CInt [Object],
     Prototype ''AtomicEvent_IsSet_callable'' Object [Object], Prototype ''AtomicEvent_Wait'' Void [Object],
     Prototype ''AtomicEvent_Wait_callable'' Object [Object]]"

definition ThreadHandle_prototypes :: "prototype list" where
  "ThreadHandle_prototypes = [
     Prototype ''ThreadHandle_new'' Object [Object, Object, Object],
     Prototype ''ThreadHandle_init'' CInt [Object, Object, Object],
     Prototype ''ThreadHandle_traverse'' CInt [Object, Visitproc, Pointer],
     Prototype ''ThreadHandle_clear'' CInt [Object], Prototype ''ThreadHandle_dealloc'' Void [Object],
     Prototype ''ThreadHandle_Hash'' HashT [Object], Prototype ''ThreadHandle_Add'' Object [Object, Object],
     Prototype ''ThreadHandle_Subtract'' Object [Object, Object],
     Prototype ''ThreadHandle_Multiply'' Object [Object, Object],
     Prototype ''ThreadHandle_Remainder'' Object [Object, Object],
     Prototype ''ThreadHandle_Divmod'' Object [Object, Object],
     Prototype ''ThreadHandle_Power'' Object [Object, Object, Object],
     Prototype ''ThreadHandle_Negative'' Object [Object],
     Prototype ''ThreadHandle_Positive'' Object [Object],
     Prototype ''ThreadHandle_Absolute'' Object [Object], Prototype ''ThreadHandle_Bool'' CInt [Object],
     Prototype ''ThreadHandle_Invert'' Object [Object],
     Prototype ''ThreadHandle_Lshift'' Object [Object, Object],
     Prototype ''ThreadHandle_Rshift'' Object [Object, Object],
     Prototype ''ThreadHandle_And'' Object [Object, Object],
     Prototype ''ThreadHandle_Xor'' Object [Object, Object],
     Prototype ''ThreadHandle_Or'' Object [Object, Object], Prototype ''ThreadHandle_Int'' Object [Object],
     Prototype ''ThreadHandle_Float'' Object [Object],
     Prototype ''ThreadHandle_InPlaceAdd'' Object [Object, Object],
     Prototype ''ThreadHandle_InPlaceSubtract'' Object [Object, Object],
     Prototype ''ThreadHandle_InPlaceMultiply'' Object [Object, Object],
     Prototype ''ThreadHandle_InPlaceRemainder'' Object [Object, Object],
     Prototype ''ThreadHandle_InPlacePower'' Object [Object, Object, Object],
     Prototype ''ThreadHandle_InPlaceLshift'' Object [Object, Object],
     Prototype ''ThreadHandle_InPlaceRshift'' Object [Object, Object],
     Prototype ''ThreadHandle_InPlaceAnd'' Object [Object, Object],
     Prototype ''ThreadHandle_InPlaceXor'' Object [Object, Object],
     Prototype ''ThreadHandle_InPlaceOr'' Object [Object, Object],
     Prototype ''ThreadHandle_FloorDivide'' Object [Object, Object],
     Prototype ''ThreadHandle_TrueDivide'' Object [Object, Object],
     Prototype ''ThreadHandle_InPlaceFloorDivide'' Object [Object, Object],
     Prototype ''ThreadHandle_InPlaceTrueDivide'' Object [Object, Object],
     Prototype ''ThreadHandle_Index'' Object [Object],
     Prototype ''ThreadHandle_MatrixMultiply'' Object [Object, Object],
     Prototype ''ThreadHandle_InPlaceMatrixMultiply'' Object [Object, Object],
     Prototype ''ThreadHandle_RichCompare'' Object [Object, Object, CInt],
     Prototype ''ThreadHandle_Length'' Ssize [Object],
     Prototype ''ThreadHandle_Concat'' Object [Object, Object],
     Prototype ''ThreadHandle_Repeat'' Object [Object, Ssize],
     Prototype ''ThreadHandle_GetItem'' Object [Object, Ssize],
     Prototype ''ThreadHandle_SetItem'' CInt [Object, Ssize, Object],
     Prototype ''ThreadHandle_Contains'' CInt [Object, Object],
     Prototype ''ThreadHandle_InPlaceConcat'' Object [Object, Object],
     Prototype ''ThreadHandle_InPlaceRepeat'' Object [Object, Ssize],
     Prototype ''ThreadHandle_MappingLength'' Ssize [Object],
     Prototype ''ThreadHandle_MappingGetItem'' Object [Object, Object],
     Prototype ''ThreadHandle_MappingSetItem'' CInt [Object, Object, Object],
     Prototype ''ThreadHandle_Repr'' Object [Object],
     Prototype ''ThreadHandle_Call'' Object [Object, Object, Object],
     Prototype ''ThreadHandle_GetIter'' Object [Object],
     Prototype ''ThreadHandle_GetAttr'' Object [Object, Object],
     Prototype ''ThreadHandle_SetAttr'' CInt [Object, Object, Object]]"

definition AtomicDict_prototypes :: "prototype list" where
  "AtomicDict_prototypes = [
     Prototype ''AtomicDict_GetItemOrDefault'' Object [Object, Object, Object],
     Prototype ''AtomicDict_GetItemOrDefaultVarargs'' Object [Object, Object, Object],
     Prototype ''AtomicDict_GetItem'' Object [Object, Object],
     Prototype ''AtomicDict_SetItem'' CInt [Object, Object, Object],
     Prototype ''AtomicDict_DelItem'' CInt [Object, Object],
     Prototype ''AtomicDict_CompareAndSet'' Object [Object, Object, Object, Object],
     Prototype ''AtomicDict_CompareAndSet_callable'' Object [Object, Object, Object],
     Prototype ''AtomicDict_Reduce'' CInt [Object, Object, Object],
     Prototype ''AtomicDict_Reduce_callable'' Object [Object, Object, Object],
     Prototype ''AtomicDict_ReduceSum'' CInt [Object, Object],
     Prototype ''AtomicDict_ReduceSum_callable'' Object [Object, Object, Object],
     Prototype ''AtomicDict_ReduceAnd'' CInt [Object, Object],
     Prototype ''AtomicDict_ReduceAnd_callable'' Object [Object, Object, Object],
     Prototype ''AtomicDict_ReduceOr'' CInt [Object, Object],
     Prototype ''AtomicDict_ReduceOr_callable'' Object [Object, Object, Object],
     Prototype ''AtomicDict_ReduceMax'' CInt [Object, Object],
     Prototype ''AtomicDict_ReduceMax_callable'' Object [Object, Object, Object],
     Prototype ''AtomicDict_ReduceMin'' CInt [Object, Object],
     Prototype ''AtomicDict_ReduceMin_callable'' Object [Object, Object, Object],
     Prototype ''AtomicDict_ReduceList'' CInt [Object, Object],
     Prototype ''AtomicDict_ReduceList_callable'' Object [Object, Object, Object],
     Prototype ''AtomicDict_ReduceCount'' CInt [Object, Object],
     Prototype ''AtomicDict_ReduceCount_callable'' Object [Object, Object, Object],
     Prototype ''AtomicDict_LenBounds'' Object [Object], Prototype ''AtomicDict_ApproxLen'' Object [Object],
     Prototype ''AtomicDict_Len'' Ssize [Object], Prototype ''AtomicDict_Len_impl'' Ssize [Object],
     Prototype ''AtomicDict_FastIter'' Object [Object, Object, Object],
     Prototype ''AtomicDict_BatchGetItem'' Object [Object, Object, Object],
     Prototype ''AtomicDict_GetHandle'' Object [Object], Prototype ''AtomicDict_Debug'' Object [Object],
     Prototype ''AtomicDict_new'' Object [Object, Object, Object],
     Prototype ''AtomicDict_init'' CInt [Object, Object, Object],
     Prototype ''AtomicDict_traverse'' CInt [Object, Visitproc, Pointer],
     Prototype ''AtomicDict_clear'' CInt [Object], Prototype ''AtomicDict_dealloc'' Void [Object],
     Prototype ''AtomicDict_ReHash'' Object [Object, Object]]"

definition CereggiiConstant_prototypes :: "prototype list" where
  "CereggiiConstant_prototypes = [
     Prototype ''CereggiiConstant_New'' Object [CharPointer],
     Prototype ''CereggiiConstant_init'' CInt [Object, Object, Object],
     Prototype ''CereggiiConstant_Repr'' Object [Object]]"

definition AtomicDictMeta_prototypes :: "prototype list" where
  "AtomicDictMeta_prototypes = [
     Prototype ''AtomicDictMeta_traverse'' CInt [Object, Visitproc, Pointer],
     Prototype ''AtomicDictMeta_clear'' CInt [Object], Prototype ''AtomicDictMeta_dealloc'' Void [Object]]"

definition AtomicDictPage_prototypes :: "prototype list" where
  "AtomicDictPage_prototypes = [
     Prototype ''AtomicDictPage_traverse'' CInt [Object, Visitproc, Pointer],
     Prototype ''AtomicDictPage_clear'' CInt [Object], Prototype ''AtomicDictPage_dealloc'' Void [Object]]"

definition AtomicDictFastIterator_prototypes :: "prototype list" where
  "AtomicDictFastIterator_prototypes = [
     Prototype ''AtomicDictFastIterator_dealloc'' Void [Object],
     Prototype ''AtomicDictFastIterator_Next'' Object [Object],
     Prototype ''AtomicDictFastIterator_GetIter'' Object [Object]]"

subsection \<open>The tables\<close>

definition AtomicInt64_methods :: "method_def list" where
  "AtomicInt64_methods = [
     Method ''get'' ''AtomicInt64_Get_callable'' [METH_NOARGS],
     Method ''set'' ''AtomicInt64_Set_callable'' [METH_O],
     Method ''compare_and_set'' ''AtomicInt64_CompareAndSet_callable'' [METH_VARARGS, METH_KEYWORDS],
     Method ''get_and_set'' ''AtomicInt64_GetAndSet_callable'' [METH_VARARGS, METH_KEYWORDS],
     Method ''increment_and_get'' ''AtomicInt64_IncrementAndGet_callable'' [METH_VARARGS],
     Method ''get_and_increment'' ''AtomicInt64_GetAndIncrement_callable'' [METH_VARARGS],
     Method ''decrement_and_get'' ''AtomicInt64_DecrementAndGet_callable'' [METH_VARARGS],
     Method ''get_and_decrement'' ''AtomicInt64_GetAndDecrement_callable'' [METH_VARARGS],
     Method ''update_and_get'' ''AtomicInt64_UpdateAndGet_callable'' [METH_O],
     Method ''get_and_update'' ''AtomicInt64_GetAndUpdate_callable'' [METH_O],
     Method ''get_handle'' ''AtomicInt64_GetHandle'' [METH_NOARGS],
     Method ''as_integer_ratio'' ''AtomicInt64_AsIntegerRatio'' [METH_NOARGS],
     Method ''bit_length'' ''AtomicInt64_BitLength'' [METH_NOARGS],
     Method ''conjugate'' ''AtomicInt64_Conjugate'' [METH_NOARGS],
     Method ''from_bytes'' ''AtomicInt64_FromBytes'' [METH_VARARGS, METH_KEYWORDS, METH_CLASS],
     Method ''to_bytes'' ''AtomicInt64_ToBytes'' [METH_NOARGS]]"

definition AtomicRef_methods :: "method_def list" where
  "AtomicRef_methods = [
     Method ''get'' ''AtomicRef_Get'' [METH_NOARGS], Method ''set'' ''AtomicRef_Set'' [METH_O],
     Method ''compare_and_set'' ''AtomicRef_CompareAndSet_callable'' [METH_VARARGS, METH_KEYWORDS],
     Method ''get_and_set'' ''AtomicRef_GetAndSet'' [METH_O],
     Method ''get_handle'' ''AtomicRef_GetHandle'' [METH_NOARGS],
     Method ''__class_getitem__'' ''_generic_class_getitem'' [METH_O, METH_CLASS]]"

definition AtomicDict_methods :: "method_def list" where
  "AtomicDict_methods = [
     Method ''_debug'' ''AtomicDict_Debug'' [METH_NOARGS], Method ''_rehash'' ''AtomicDict_ReHash'' [METH_O],
     Method ''get'' ''AtomicDict_GetItemOrDefaultVarargs'' [METH_VARARGS, METH_KEYWORDS],
     Method ''len_bounds'' ''AtomicDict_LenBounds'' [METH_NOARGS],
     Method ''approx_len'' ''AtomicDict_ApproxLen'' [METH_NOARGS],
     Method ''fast_iter'' ''AtomicDict_FastIter'' [METH_VARARGS, METH_KEYWORDS],
     Method ''compare_and_set'' ''AtomicDict_CompareAndSet_callable'' [METH_VARARGS, METH_KEYWORDS],
     Method ''batch_getitem'' ''AtomicDict_BatchGetItem'' [METH_VARARGS, METH_KEYWORDS],
     Method ''reduce'' ''AtomicDict_Reduce_callable'' [METH_VARARGS, METH_KEYWORDS],
     Method ''reduce_sum'' ''AtomicDict_ReduceSum_callable'' [METH_VARARGS, METH_KEYWORDS],
     Method ''reduce_and'' ''AtomicDict_ReduceAnd_callable'' [METH_VARARGS, METH_KEYWORDS],
     Method ''reduce_or'' ''AtomicDict_ReduceOr_callable'' [METH_VARARGS, METH_KEYWORDS],
     Method ''reduce_max'' ''AtomicDict_ReduceMax_callable'' [METH_VARARGS, METH_KEYWORDS],
     Method ''reduce_min'' ''AtomicDict_ReduceMin_callable'' [METH_VARARGS, METH_KEYWORDS],
     Method ''reduce_list'' ''AtomicDict_ReduceList_callable'' [METH_VARARGS, METH_KEYWORDS],
     Method ''reduce_count'' ''AtomicDict_ReduceCount_callable'' [METH_VARARGS, METH_KEYWORDS],
     Method ''get_handle'' ''AtomicDict_GetHandle'' [METH_NOARGS],
     Method ''__class_getitem__'' ''_generic_class_getitem'' [METH_O, METH_CLASS]]"

definition AtomicEvent_methods :: "method_def list" where
  "AtomicEvent_methods = [
     Method ''wait'' ''AtomicEvent_Wait_callable'' [METH_NOARGS],
     Method ''set'' ''AtomicEvent_Set_callable'' [METH_NOARGS],
     Method ''is_set'' ''AtomicEvent_IsSet_callable'' [METH_NOARGS]]"

definition ThreadHandle_methods :: "method_def list" where
  "ThreadHandle_methods = [
     Method ''__class_getitem__'' ''_generic_class_getitem'' [METH_O, METH_CLASS]]"

definition AtomicInt64_properties :: "getset_def list" where
  "AtomicInt64_properties = [
     GetSet ''denominator'' ''AtomicInt64_Denominator_Get'' ''AtomicInt64_Denominator_Set'',
     GetSet ''numerator'' ''AtomicInt64_Numerator_Get'' ''AtomicInt64_Numerator_Set'',
     GetSet ''imag'' ''AtomicInt64_Imag_Get'' ''AtomicInt64_Imag_Set'',
     GetSet ''real'' ''AtomicInt64_Real_Get'' ''AtomicInt64_Real_Set'']"

definition AtomicInt64_as_number :: "slot_def list" where
  "AtomicInt64_as_number = [
     Slot ''nb_add'' binaryfunc ''AtomicInt64_Add'',
     Slot ''nb_subtract'' binaryfunc ''AtomicInt64_Subtract'',
     Slot ''nb_multiply'' binaryfunc ''AtomicInt64_Multiply'',
     Slot ''nb_remainder'' binaryfunc ''AtomicInt64_Remainder'',
     Slot ''nb_divmod'' binaryfunc ''AtomicInt64_Divmod'',
     Slot ''nb_power'' ternaryfunc ''AtomicInt64_Power'',
     Slot ''nb_negative'' unaryfunc ''AtomicInt64_Negative'',
     Slot ''nb_positive'' unaryfunc ''AtomicInt64_Positive'',
     Slot ''nb_absolute'' unaryfunc ''AtomicInt64_Absolute'', Slot ''nb_bool'' inquiry ''AtomicInt64_Bool'',
     Slot ''nb_invert'' unaryfunc ''AtomicInt64_Invert'',
     Slot ''nb_lshift'' binaryfunc ''AtomicInt64_Lshift'',
     Slot ''nb_rshift'' binaryfunc ''AtomicInt64_Rshift'', Slot ''nb_and'' binaryfunc ''AtomicInt64_And'',
     Slot ''nb_xor'' binaryfunc ''AtomicInt64_Xor'', Slot ''nb_or'' binaryfunc ''AtomicInt64_Or'',
     Slot ''nb_int'' unaryfunc ''AtomicInt64_Int'', Slot ''nb_float'' unaryfunc ''AtomicInt64_Float'',
     Slot ''nb_inplace_add'' binaryfunc ''AtomicInt64_InplaceAdd'',
     Slot ''nb_inplace_subtract'' binaryfunc ''AtomicInt64_InplaceSubtract'',
     Slot ''nb_inplace_multiply'' binaryfunc ''AtomicInt64_InplaceMultiply'',
     Slot ''nb_inplace_remainder'' binaryfunc ''AtomicInt64_InplaceRemainder'',
     Slot ''nb_inplace_power'' ternaryfunc ''AtomicInt64_InplacePower'',
     Slot ''nb_inplace_lshift'' binaryfunc ''AtomicInt64_InplaceLshift'',
     Slot ''nb_inplace_rshift'' binaryfunc ''AtomicInt64_InplaceRshift'',
     Slot ''nb_inplace_and'' binaryfunc ''AtomicInt64_InplaceAnd'',
     Slot ''nb_inplace_xor'' binaryfunc ''AtomicInt64_InplaceXor'',
     Slot ''nb_inplace_or'' binaryfunc ''AtomicInt64_InplaceOr'',
     Slot ''nb_floor_divide'' binaryfunc ''AtomicInt64_FloorDivide'',
     Slot ''nb_true_divide'' binaryfunc ''AtomicInt64_TrueDivide'',
     Slot ''nb_inplace_floor_divide'' binaryfunc ''AtomicInt64_InplaceFloorDivide'',
     Slot ''nb_inplace_true_divide'' binaryfunc ''AtomicInt64_InplaceTrueDivide'',
     Slot ''nb_index'' unaryfunc ''AtomicInt64_Index'',
     Slot ''nb_matrix_multiply'' binaryfunc ''AtomicInt64_MatrixMultiply'',
     Slot ''nb_inplace_matrix_multiply'' binaryfunc ''AtomicInt64_InplaceMatrixMultiply'']"

definition AtomicDict_mapping_methods :: "slot_def list" where
  "AtomicDict_mapping_methods = [
     Slot ''mp_length'' lenfunc ''AtomicDict_Len'', Slot ''mp_subscript'' binaryfunc ''AtomicDict_GetItem'',
     Slot ''mp_ass_subscript'' objobjargproc ''AtomicDict_SetItem'']"

definition ThreadHandle_as_number :: "slot_def list" where
  "ThreadHandle_as_number = [
     Slot ''nb_add'' binaryfunc ''ThreadHandle_Add'',
     Slot ''nb_subtract'' binaryfunc ''ThreadHandle_Subtract'',
     Slot ''nb_multiply'' binaryfunc ''ThreadHandle_Multiply'',
     Slot ''nb_remainder'' binaryfunc ''ThreadHandle_Remainder'',
     Slot ''nb_divmod'' binaryfunc ''ThreadHandle_Divmod'',
     Slot ''nb_power'' ternaryfunc ''ThreadHandle_Power'',
     Slot ''nb_negative'' unaryfunc ''ThreadHandle_Negative'',
     Slot ''nb_positive'' unaryfunc ''ThreadHandle_Positive'',
     Slot ''nb_absolute'' unaryfunc ''ThreadHandle_Absolute'',
     Slot ''nb_bool'' inquiry ''ThreadHandle_Bool'', Slot ''nb_invert'' unaryfunc ''ThreadHandle_Invert'',
     Slot ''nb_lshift'' binaryfunc ''ThreadHandle_Lshift'',
     Slot ''nb_rshift'' binaryfunc ''ThreadHandle_Rshift'', Slot ''nb_and'' binaryfunc ''ThreadHandle_And'',
     Slot ''nb_xor'' binaryfunc ''ThreadHandle_Xor'', Slot ''nb_or'' binaryfunc ''ThreadHandle_Or'',
     Slot ''nb_int'' unaryfunc ''ThreadHandle_Int'', Slot ''nb_float'' unaryfunc ''ThreadHandle_Float'',
     Slot ''nb_inplace_add'' binaryfunc ''ThreadHandle_InPlaceAdd'',
     Slot ''nb_inplace_subtract'' binaryfunc ''ThreadHandle_InPlaceSubtract'',
     Slot ''nb_inplace_multiply'' binaryfunc ''ThreadHandle_InPlaceMultiply'',
     Slot ''nb_inplace_remainder'' binaryfunc ''ThreadHandle_InPlaceRemainder'',
     Slot ''nb_inplace_power'' ternaryfunc ''ThreadHandle_InPlacePower'',
     Slot ''nb_inplace_lshift'' binaryfunc ''ThreadHandle_InPlaceLshift'',
     Slot ''nb_inplace_rshift'' binaryfunc ''ThreadHandle_InPlaceRshift'',
     Slot ''nb_inplace_and'' binaryfunc ''ThreadHandle_InPlaceAnd'',
     Slot ''nb_inplace_xor'' binaryfunc ''ThreadHandle_InPlaceXor'',
     Slot ''nb_inplace_or'' binaryfunc ''ThreadHandle_InPlaceOr'',
     Slot ''nb_floor_divide'' binaryfunc ''ThreadHandle_FloorDivide'',
     Slot ''nb_true_divide'' binaryfunc ''ThreadHandle_TrueDivide'',
     Slot ''nb_inplace_floor_divide'' binaryfunc ''ThreadHandle_InPlaceFloorDivide'',
     Slot ''nb_inplace_true_divide'' binaryfunc ''ThreadHandle_InPlaceTrueDivide'',
     Slot ''nb_index'' unaryfunc ''ThreadHandle_Index'',
     Slot ''nb_matrix_multiply'' binaryfunc ''ThreadHandle_MatrixMultiply'',
     Slot ''nb_inplace_matrix_multiply'' binaryfunc ''ThreadHandle_InPlaceMatrixMultiply'']"

definition ThreadHandle_as_sequence :: "slot_def list" where
  "ThreadHandle_as_sequence = [
     Slot ''sq_length'' lenfunc ''ThreadHandle_Length'',
     Slot ''sq_concat'' binaryfunc ''ThreadHandle_Concat'',
     Slot ''sq_repeat'' ssizeargfunc ''ThreadHandle_Repeat'',
     Slot ''sq_item'' ssizeargfunc ''ThreadHandle_GetItem'',
     Slot ''sq_ass_item'' ssizeobjargproc ''ThreadHandle_SetItem'',
     Slot ''sq_contains'' objobjproc ''ThreadHandle_Contains'',
     Slot ''sq_inplace_concat'' binaryfunc ''ThreadHandle_InPlaceConcat'',
     Slot ''sq_inplace_repeat'' ssizeargfunc ''ThreadHandle_InPlaceRepeat'']"

definition ThreadHandle_as_mapping :: "slot_def list" where
  "ThreadHandle_as_mapping = [
     Slot ''mp_length'' lenfunc ''ThreadHandle_MappingLength'',
     Slot ''mp_subscript'' binaryfunc ''ThreadHandle_MappingGetItem'',
     Slot ''mp_ass_subscript'' objobjargproc ''ThreadHandle_MappingSetItem'']"

subsection \<open>The types\<close>

definition AtomicInt64_Type :: type_object where
  "AtomicInt64_Type =
     \<lparr>tp_name = ''cereggii.AtomicInt64'',
      tp_flags = {Py_TPFLAGS_DEFAULT, Py_TPFLAGS_BASETYPE},
      tp_slots = [
        Slot ''tp_new'' newfunc ''PyType_GenericNew'', Slot ''tp_init'' initproc ''AtomicInt64_init'',
        Slot ''tp_dealloc'' destructor ''AtomicInt64_dealloc'',
        Slot ''tp_richcompare'' richcmpfunc ''AtomicInt64_RichCompare'',
        Slot ''tp_hash'' hashfunc ''AtomicInt64_Hash''],
      tp_methods = AtomicInt64_methods, tp_getset = AtomicInt64_properties,
      tp_as_number = AtomicInt64_as_number, tp_as_sequence = [], tp_as_mapping = []\<rparr>"

definition AtomicRef_Type :: type_object where
  "AtomicRef_Type =
     \<lparr>tp_name = ''cereggii.AtomicRef'',
      tp_flags = {Py_TPFLAGS_DEFAULT, Py_TPFLAGS_HAVE_GC},
      tp_slots = [
        Slot ''tp_new'' newfunc ''AtomicRef_new'', Slot ''tp_init'' initproc ''AtomicRef_init'',
        Slot ''tp_traverse'' traverseproc ''AtomicRef_traverse'',
        Slot ''tp_clear'' inquiry ''AtomicRef_clear'', Slot ''tp_dealloc'' destructor ''AtomicRef_dealloc''],
      tp_methods = AtomicRef_methods, tp_getset = [],
      tp_as_number = [], tp_as_sequence = [], tp_as_mapping = []\<rparr>"

definition AtomicDict_Type :: type_object where
  "AtomicDict_Type =
     \<lparr>tp_name = ''cereggii.AtomicDict'',
      tp_flags = {Py_TPFLAGS_DEFAULT, Py_TPFLAGS_HAVE_GC, Py_TPFLAGS_MANAGED_WEAKREF},
      tp_slots = [
        Slot ''tp_new'' newfunc ''AtomicDict_new'',
        Slot ''tp_traverse'' traverseproc ''AtomicDict_traverse'',
        Slot ''tp_clear'' inquiry ''AtomicDict_clear'',
        Slot ''tp_dealloc'' destructor ''AtomicDict_dealloc'', Slot ''tp_init'' initproc ''AtomicDict_init''],
      tp_methods = AtomicDict_methods, tp_getset = [],
      tp_as_number = [], tp_as_sequence = [], tp_as_mapping = AtomicDict_mapping_methods\<rparr>"

definition AtomicDictMeta_Type :: type_object where
  "AtomicDictMeta_Type =
     \<lparr>tp_name = ''cereggii._AtomicDictMeta'',
      tp_flags = {Py_TPFLAGS_DEFAULT, Py_TPFLAGS_HAVE_GC},
      tp_slots = [
        Slot ''tp_new'' newfunc ''PyType_GenericNew'',
        Slot ''tp_traverse'' traverseproc ''AtomicDictMeta_traverse'',
        Slot ''tp_clear'' inquiry ''AtomicDictMeta_clear'',
        Slot ''tp_dealloc'' destructor ''AtomicDictMeta_dealloc''],
      tp_methods = [], tp_getset = [],
      tp_as_number = [], tp_as_sequence = [], tp_as_mapping = []\<rparr>"

definition AtomicDictPage_Type :: type_object where
  "AtomicDictPage_Type =
     \<lparr>tp_name = ''cereggii._AtomicDictPage'',
      tp_flags = {Py_TPFLAGS_DEFAULT},
      tp_slots = [
        Slot ''tp_new'' newfunc ''PyType_GenericNew'', Slot ''tp_clear'' inquiry ''AtomicDictPage_clear'',
        Slot ''tp_dealloc'' destructor ''AtomicDictPage_dealloc''],
      tp_methods = [], tp_getset = [],
      tp_as_number = [], tp_as_sequence = [], tp_as_mapping = []\<rparr>"

definition AtomicDictFastIterator_Type :: type_object where
  "AtomicDictFastIterator_Type =
     \<lparr>tp_name = ''cereggii._AtomicDictFastIterator'',
      tp_flags = {Py_TPFLAGS_DEFAULT},
      tp_slots = [
        Slot ''tp_new'' newfunc ''PyType_GenericNew'',
        Slot ''tp_dealloc'' destructor ''AtomicDictFastIterator_dealloc'',
        Slot ''tp_iter'' getiterfunc ''AtomicDictFastIterator_GetIter'',
        Slot ''tp_iternext'' iternextfunc ''AtomicDictFastIterator_Next''],
      tp_methods = [], tp_getset = [],
      tp_as_number = [], tp_as_sequence = [], tp_as_mapping = []\<rparr>"

definition AtomicEvent_Type :: type_object where
  "AtomicEvent_Type =
     \<lparr>tp_name = ''cereggii.AtomicEvent'',
      tp_flags = {Py_TPFLAGS_DEFAULT},
      tp_slots = [
        Slot ''tp_new'' newfunc ''PyType_GenericNew'',
        Slot ''tp_dealloc'' destructor ''AtomicEvent_dealloc'', Slot ''tp_init'' initproc ''AtomicEvent_init''],
      tp_methods = AtomicEvent_methods, tp_getset = [],
      tp_as_number = [], tp_as_sequence = [], tp_as_mapping = []\<rparr>"

definition CereggiiConstant_Type :: type_object where
  "CereggiiConstant_Type =
     \<lparr>tp_name = ''cereggii.Constant'',
      tp_flags = {Py_TPFLAGS_DEFAULT},
      tp_slots = [
        Slot ''tp_new'' newfunc ''PyType_GenericNew'', Slot ''tp_init'' initproc ''CereggiiConstant_init'',
        Slot ''tp_repr'' reprfunc ''CereggiiConstant_Repr''],
      tp_methods = [], tp_getset = [],
      tp_as_number = [], tp_as_sequence = [], tp_as_mapping = []\<rparr>"

definition ThreadHandle_Type :: type_object where
  "ThreadHandle_Type =
     \<lparr>tp_name = ''cereggii.ThreadHandle'',
      tp_flags = {Py_TPFLAGS_DEFAULT, Py_TPFLAGS_BASETYPE, Py_TPFLAGS_HAVE_GC},
      tp_slots = [
        Slot ''tp_new'' newfunc ''ThreadHandle_new'', Slot ''tp_init'' initproc ''ThreadHandle_init'',
        Slot ''tp_traverse'' traverseproc ''ThreadHandle_traverse'',
        Slot ''tp_clear'' inquiry ''ThreadHandle_clear'',
        Slot ''tp_dealloc'' destructor ''ThreadHandle_dealloc'',
        Slot ''tp_richcompare'' richcmpfunc ''ThreadHandle_RichCompare'',
        Slot ''tp_hash'' hashfunc ''ThreadHandle_Hash'', Slot ''tp_repr'' reprfunc ''ThreadHandle_Repr'',
        Slot ''tp_str'' reprfunc ''ThreadHandle_Repr'', Slot ''tp_call'' ternaryfunc ''ThreadHandle_Call'',
        Slot ''tp_iter'' getiterfunc ''ThreadHandle_GetIter'',
        Slot ''tp_getattro'' getattrofunc ''ThreadHandle_GetAttr'',
        Slot ''tp_setattro'' setattrofunc ''ThreadHandle_SetAttr''],
      tp_methods = ThreadHandle_methods, tp_getset = [],
      tp_as_number = ThreadHandle_as_number, tp_as_sequence = ThreadHandle_as_sequence, tp_as_mapping = ThreadHandle_as_mapping\<rparr>"

text \<open>What the interpreter calls for a type, and as what.\<close>

definition slot_calls :: "slot_def list \<Rightarrow> (string \<times> signature) list" where
  "slot_calls = map (\<lambda>s. case s of Slot name kind f \<Rightarrow> (f, signature_of kind))"

definition calls_of :: "type_object \<Rightarrow> (string \<times> signature) list" where
  "calls_of t =
     slot_calls (tp_slots t @ tp_as_number t @ tp_as_sequence t @ tp_as_mapping t) @
     map (\<lambda>d. case d of Method name f flags \<Rightarrow> (f, method_signature flags)) (tp_methods t) @
     concat (map (\<lambda>d. case d of GetSet name g s \<Rightarrow> [(g, signature_of getter), (s, signature_of setter)]) (tp_getset t))"

definition prototype_of :: "prototype list \<Rightarrow> string \<Rightarrow> signature option" where
  "prototype_of ps f = map_option (\<lambda>p. (proto_returns p, proto_params p)) (find (\<lambda>p. proto_name p = f) ps)"

text \<open>The functions that are called with other arguments than they declare, or for another result.\<close>

definition misfits :: "prototype list \<Rightarrow> type_object \<Rightarrow> string list" where
  "misfits ps t = map fst (filter (\<lambda>(f, sg). prototype_of (shared_prototypes @ ps) f \<noteq> Some sg) (calls_of t))"

subsection \<open>The initialisation of the module\<close>

text \<open>
  The steps of \<open>PyInit__cereggii\<close>.  Each can fail, as its argument says.  \<open>owned\<close> counts the references
  to an object that \<open>NULL\<close> or not the globals, the module and the function hold; a static type starts with
  one, and the module goes away with the references of its dictionary.
\<close>

datatype init_step = Ready_type string | New_exception string | New_constant string | Create_module | Add_object string

record module_state =
  bound :: "string list"
  owned :: "string \<Rightarrow> int"

definition change_owned :: "int \<Rightarrow> string \<Rightarrow> module_state \<Rightarrow> module_state" where
  "change_owned n name s = s\<lparr>owned := (owned s)(name := owned s name + n)\<rparr>"

fun init_one :: "init_step \<Rightarrow> module_state \<Rightarrow> module_state" where
  "init_one (Ready_type name) s = s\<lparr>owned := (owned s)(name := 1)\<rparr>"
| "init_one (New_exception name) s = s\<lparr>owned := (owned s)(name := 1)\<rparr>"
| "init_one (New_constant name) s = s\<lparr>owned := (owned s)(name := 1)\<rparr>"
| "init_one Create_module s = s"
| "init_one (Add_object name) s = change_owned (- 1) name (change_owned 1 name (s\<lparr>bound := bound s @ [name]\<rparr>))"

definition init_types :: "string list" where
  "init_types =
     [''CereggiiConstant'', ''AtomicDict'', ''AtomicDictMeta'', ''AtomicDictPage'', ''AtomicDictFastIterator'',
      ''AtomicEvent'', ''AtomicRef'', ''AtomicInt64'', ''ThreadHandle'']"

definition init_exceptions :: "string list" where
  "init_exceptions = [''ExpectationFailed'', ''ConcurrentUsageDetected'']"

definition init_constants :: "string list" where
  "init_constants = [''NOT_FOUND'', ''ANY'', ''EXPECTATION_FAILED'']"

definition module_names :: "string list" where
  "module_names =
     init_constants @ init_exceptions @ [''AtomicDict'', ''AtomicEvent'', ''AtomicRef'', ''AtomicInt64'', ''ThreadHandle'']"

definition init_steps :: "init_step list" where
  "init_steps =
     map Ready_type init_types @ map New_exception init_exceptions @ map New_constant init_constants @
     [Create_module] @ map Add_object module_names"

text \<open>\<open>fail\<close>: the module goes away, with it what its dictionary holds, and the three constants are released.\<close>

definition init_fail :: "module_state \<Rightarrow> module_state" where
  "init_fail s =
     fold (change_owned (- 1)) init_constants (fold (change_owned (- 1)) (bound s) s\<lparr>bound := []\<rparr>)"

fun run_init :: "(init_step \<Rightarrow> bool) \<Rightarrow> init_step list \<Rightarrow> module_state \<Rightarrow> string list option \<times> module_state" where
  "run_init fails [] s = (Some (bound s), s)"
| "run_init fails (i # is) s =
     (if fails i then (None, case i of Add_object name \<Rightarrow> init_fail s | _ \<Rightarrow> s)
      else run_init fails is (init_one i s))"

definition PyInit__cereggii :: "(init_step \<Rightarrow> bool) \<Rightarrow> string list option \<times> module_state" where
  "PyInit__cereggii fails = run_init fails init_steps \<lparr>bound = [], owned = (\<lambda>_. 0)\<rparr>"

subsection \<open>Which functions do not fit\<close>

lemma misfits_AtomicInt64:
  "misfits AtomicInt64_prototypes AtomicInt64_Type =
     [''AtomicInt64_Get_callable'', ''AtomicInt64_GetHandle'', ''AtomicInt64_AsIntegerRatio'',
      ''AtomicInt64_BitLength'', ''AtomicInt64_Conjugate'', ''AtomicInt64_ToBytes'',
      ''AtomicInt64_Denominator_Set'', ''AtomicInt64_Numerator_Set'', ''AtomicInt64_Imag_Set'',
      ''AtomicInt64_Real_Set'']"
  by code_simp

lemma misfits_ThreadHandle: "misfits ThreadHandle_prototypes ThreadHandle_Type = []"
  by code_simp

lemma misfits_AtomicDict:
  "misfits AtomicDict_prototypes AtomicDict_Type =
     [''AtomicDict_Debug'', ''AtomicDict_LenBounds'', ''AtomicDict_ApproxLen'', ''AtomicDict_GetHandle'']"
  by code_simp

lemma misfits_others:
  "misfits AtomicRef_prototypes AtomicRef_Type = [''AtomicRef_Get'', ''AtomicRef_GetHandle'']"
  "misfits AtomicEvent_prototypes AtomicEvent_Type =
     [''AtomicEvent_Wait_callable'', ''AtomicEvent_Set_callable'', ''AtomicEvent_IsSet_callable'']"
  "misfits AtomicDictMeta_prototypes AtomicDictMeta_Type = []"
  "misfits AtomicDictPage_prototypes AtomicDictPage_Type = []"
  "misfits AtomicDictFastIterator_prototypes AtomicDictFastIterator_Type = []"
  "misfits CereggiiConstant_prototypes CereggiiConstant_Type = []"
  by code_simp+

subsection \<open>Properties\<close>


lemma run_init_fails: "fst (run_init fails is s) = None \<longleftrightarrow> (\<exists>i\<in>set is. fails i)"
  by (induction "is" arbitrary: s) auto

lemma run_init_binds: "fst (run_init fails is s) = Some b \<Longrightarrow> snd (run_init fails is s) = fold init_one is s \<and> b = bound (fold init_one is s)"
  by (induction "is" arbitrary: s) (auto split: if_splits)

lemma init_all:
  "bound (fold init_one init_steps \<lparr>bound = [], owned = (\<lambda>_. 0)\<rparr>) = module_names"
  "map (owned (fold init_one init_steps \<lparr>bound = [], owned = (\<lambda>_. 0)\<rparr>)) module_names = replicate 10 1"
  by code_simp+


end
