(* ===== verification/RefLoad.thy ===== *)
theory RefLoad
  imports PyCore
begin

text \<open>
  Loading a reference that other threads replace and taking a reference to its object, from
  \<^verbatim>\<open>src/src/include/cereggii/internal/py_core.h\<close> (\<open>_Py_TryIncrefCompare\<close>, \<open>_Py_XGetRef\<close>,
  \<open>_Py_TryXGetRef\<close>, \<open>_Py_XNewRefWithLock\<close>).  The objects have numbers.  Other threads change the
  cell and the objects during each round of the exchange of a count, and between it and the second load of the
  cell; nobody acts between the first load of the cell and the increment of the count of an object that the
  thread owns itself.  \<open>Py_DECREF\<close> is an argument.
\<close>

record ref_cell =
  ref_target :: "nat option"
  ref_objects :: "nat \<Rightarrow> object"

definition ref_count :: "nat \<Rightarrow> ref_cell \<Rightarrow> i64" where
  "ref_count i w = ob_ref_shared (ref_objects w i)"

definition put_object :: "nat \<Rightarrow> object \<Rightarrow> ref_cell \<Rightarrow> ref_cell" where
  "put_object i op w = w\<lparr>ref_objects := (ref_objects w)(i := op)\<rparr>"

definition put_ref_count :: "nat \<Rightarrow> ref_cell \<Rightarrow> i64 \<Rightarrow> ref_cell" where
  "put_ref_count i w v = put_object i ((ref_objects w i)\<lparr>ob_ref_shared := v\<rparr>) w"

definition exchange_ref_count :: "nat \<Rightarrow> ref_cell \<Rightarrow> i64 \<Rightarrow> i64 \<Rightarrow> bool \<times> ref_cell" where
  "exchange_ref_count i w expected desired =
     (case compare_exchange_shared (ref_objects w i) expected desired of (ok, op) \<Rightarrow> (ok, put_object i op w))"

interpretation ref_count: atomic_cell "ref_count i" "put_ref_count i" "exchange_ref_count i" for i
  by unfold_locales
    (auto simp: ref_count_def put_ref_count_def put_object_def exchange_ref_count_def compare_exchange_shared_def
      compare_exchange_def)

definition one_more_reference :: "i64 \<Rightarrow> (unit + i64) option" where
  "one_more_reference shared =
     Some (if shared = 0 \<or> shared = Py_REF_MERGED then Inl () else Inr (shared + push_bit Py_REF_SHARED_SHIFT 1))"

type_synonym ref_round = "(ref_cell \<Rightarrow> ref_cell) list \<times> (ref_cell \<Rightarrow> ref_cell)"

definition Py_TryIncrefCompare ::
  "(nat \<Rightarrow> ref_cell \<Rightarrow> ref_cell) \<Rightarrow> nat \<Rightarrow> ref_round \<Rightarrow> nat \<Rightarrow> ref_cell \<Rightarrow> (bool \<times> ref_cell) option" where
  "Py_TryIncrefCompare decref tid rd i w =
     (case Py_TryIncrefFast tid (ref_objects w i) of
        (True, op) \<Rightarrow> Some (True, put_object i op w)
      | (False, _) \<Rightarrow>
          (case cas_loop (ref_count i) (exchange_ref_count i) one_more_reference (fst rd) w of
             None \<Rightarrow> None
           | Some (Inl _, w) \<Rightarrow> Some (False, w)
           | Some (Inr _, w) \<Rightarrow>
               (let w = snd rd w in
                if ref_target w \<noteq> Some i then Some (False, decref i w) else Some (True, w))))"

partial_function (option) Py_XGetRef ::
  "(nat \<Rightarrow> ref_cell \<Rightarrow> ref_cell) \<Rightarrow> nat \<Rightarrow> ref_round list \<Rightarrow> ref_cell \<Rightarrow> (nat option \<times> ref_cell) option" where
  "Py_XGetRef decref tid rounds w =
     (case ref_target w of
        None \<Rightarrow> Some (None, w)
      | Some i \<Rightarrow>
          (case Py_TryIncrefCompare decref tid (case rounds of [] \<Rightarrow> ([], id) | rd # _ \<Rightarrow> rd) i w of
             None \<Rightarrow> None
           | Some (ok, w) \<Rightarrow> if ok then Some (Some i, w) else Py_XGetRef decref tid (drop 1 rounds) w))"

definition Py_TryXGetRef ::
  "(nat \<Rightarrow> ref_cell \<Rightarrow> ref_cell) \<Rightarrow> nat \<Rightarrow> ref_round \<Rightarrow> ref_cell \<Rightarrow> (nat option \<times> ref_cell) option" where
  "Py_TryXGetRef decref tid rd w =
     (case ref_target w of
        None \<Rightarrow> Some (None, w)
      | Some i \<Rightarrow>
          map_option (\<lambda>(ok, w). (if ok then Some i else None, w)) (Py_TryIncrefCompare decref tid rd i w))"

definition Py_XNewRefWithLock :: "nat \<Rightarrow> (object \<Rightarrow> object) list \<Rightarrow> object option \<Rightarrow> object option option" where
  "Py_XNewRefWithLock tid fs obj =
     (case obj of None \<Rightarrow> Some None | Some op \<Rightarrow> map_option Some (Py_NewRefWithLock tid fs op))"

subsection \<open>Loading a reference ends\<close>

text \<open>
  What the writers of the cell ensure, for an invariant \<open>kept\<close> of theirs: the object in the cell can be
  referenced from another thread, and taking or dropping a reference, and what the others do, keeps \<open>kept\<close>.
\<close>

definition safe_cell :: "(ref_cell \<Rightarrow> bool) \<Rightarrow> (nat \<Rightarrow> ref_cell \<Rightarrow> ref_cell) \<Rightarrow> bool" where
  "safe_cell kept decref \<longleftrightarrow>
     (\<forall>w i. kept w \<longrightarrow> ref_target w = Some i \<longrightarrow> ref_count i w \<noteq> 0 \<and> ref_count i w \<noteq> Py_REF_MERGED) \<and>
     (\<forall>w i. kept w \<longrightarrow> kept (put_ref_count i w (ref_count i w + 4)) \<and> kept (decref i w))"

definition keeps :: "(ref_cell \<Rightarrow> bool) \<Rightarrow> ref_round \<Rightarrow> bool" where
  "keeps kept rd \<longleftrightarrow> (\<forall>f\<in>set (fst rd). \<forall>w. kept w \<longrightarrow> kept (f w)) \<and> (\<forall>w. kept w \<longrightarrow> kept (snd rd w))"

lemma keeps_changes: "keeps kept (fs, f) \<Longrightarrow> kept w \<Longrightarrow> kept (after_changes n fs w)"
  by (induction n fs w rule: after_changes.induct) (auto simp: keeps_def)

lemma one_more_reference_some: "one_more_reference v \<noteq> None"
  by (simp add: one_more_reference_def)

lemma try_incref_compare:
  assumes safe: "safe_cell kept decref" and kept: "kept w" and rd: "keeps kept rd" and i: "ref_target w = Some i"
  obtains ok w' where "Py_TryIncrefCompare decref tid rd i w = Some (ok, w')" and "ok \<Longrightarrow> ref_target w' = Some i"
    and "\<not> ok \<Longrightarrow> kept w'" and "rd = ([], id) \<Longrightarrow> ok"
proof (cases "fst (Py_TryIncrefFast tid (ref_objects w i))")
  case True
  with i show thesis
    by (intro that [of True "put_object i (snd (Py_TryIncrefFast tid (ref_objects w i))) w"])
      (auto simp: Py_TryIncrefCompare_def put_object_def split: prod.splits)
next
  case slow: False
  obtain fs f where rdf: "rd = (fs, f)" by (cases rd)
  obtain c n where c: "cas_loop (ref_count i) (exchange_ref_count i) one_more_reference fs w = Some c"
    "done_at_once (ref_count i) (put_ref_count i) one_more_reference (after_changes n fs w) c"
    using ref_count.loop_takes_effect [where compute = one_more_reference and i = i and fs = fs and s = w]
      one_more_reference_some by blast
  define b where "b = after_changes n fs w"
  have ib: "kept b" unfolding b_def using rd rdf kept keeps_changes [of kept fs f] by blast
  show thesis
  proof (cases "ref_count i b = 0 \<or> ref_count i b = Py_REF_MERGED")
    case True
    with c(2) have "c = (Inl (), b)" by (auto simp: done_at_once_def one_more_reference_def b_def [symmetric])
    moreover have "rd \<noteq> ([], id)"
      using True safe kept i rdf by (auto simp: safe_cell_def b_def)
    ultimately show thesis
      using c(1) slow ib rdf by (intro that [of False b]) (auto simp: Py_TryIncrefCompare_def split: prod.splits)
  next
    case False
    let ?b = "put_ref_count i b (ref_count i b + 4)"
    from False c(2) have cb: "c = (Inr (ref_count i b, ref_count i b + 4), ?b)"
      by (auto simp: done_at_once_def one_more_reference_def b_def [symmetric] ref_consts)
    have "kept (f ?b)" using ib safe rd rdf by (auto simp: safe_cell_def keeps_def)
    then have "kept (decref i (f ?b))" using safe by (simp add: safe_cell_def)
    moreover have "ref_target (f ?b) = Some i" if "rd = ([], id)"
      using that i rdf by (simp add: b_def put_ref_count_def put_object_def)
    ultimately show thesis
      using c(1) slow cb rdf
      by (intro that [of "ref_target (f ?b) = Some i" "if ref_target (f ?b) = Some i then f ?b else decref i (f ?b)"])
        (auto simp: Py_TryIncrefCompare_def Let_def split: prod.splits)
  qed
qed

text \<open>
  However the others replace the reference, loading it ends, and the cell has, at that moment, what is
  returned.
\<close>

theorem XGetRef_returns_the_reference:
  assumes "safe_cell kept decref" and "kept w" and "\<forall>rd\<in>set rounds. keeps kept rd"
  shows "\<exists>r w'. Py_XGetRef decref tid rounds w = Some (r, w') \<and> ref_target w' = r"
  using assms(2,3)
proof (induction rounds arbitrary: w)
  case Nil
  show ?case
  proof (cases "ref_target w")
    case None
    then show ?thesis by (subst Py_XGetRef.simps) simp
  next
    case (Some i)
    have "keeps kept ([], id)" by (simp add: keeps_def)
    from try_incref_compare [OF assms(1) Nil(1) this Some, of tid] obtain w' where
      "Py_TryIncrefCompare decref tid ([], id) i w = Some (True, w')" "ref_target w' = Some i" by metis
    with Some show ?thesis by (subst Py_XGetRef.simps) simp
  qed
next
  case (Cons rd rounds)
  show ?case
  proof (cases "ref_target w")
    case None
    then show ?thesis by (subst Py_XGetRef.simps) simp
  next
    case (Some i)
    from Cons.prems(2) have "keeps kept rd" by simp
    from try_incref_compare [OF assms(1) Cons.prems(1) this Some, of tid] obtain ok w' where
      r: "Py_TryIncrefCompare decref tid rd i w = Some (ok, w')" "ok \<Longrightarrow> ref_target w' = Some i" "\<not> ok \<Longrightarrow> kept w'" by metis
    show ?thesis
    proof (cases ok)
      case True
      with r Some show ?thesis by (subst Py_XGetRef.simps) simp
    next
      case False
      with Cons.IH [OF r(3)] Cons.prems(2) r(1) Some show ?thesis by (subst Py_XGetRef.simps) simp
    qed
  qed
qed

end
