(* ===== verification/Spec2Isabelle.thy ===== *)
theory Spec2Isabelle
  imports Participants InitCorrect AtomicIntOps PyCore AtomicRef Iter DictIter Batch ReduceSpecialized Handles Constants MigrateCount
    FailedResize TableAlone TypeTables RefLoad
begin

text \<open>
  \<^bold>\<open>cereggii\<close> is a C extension with thread-safe objects for free-threaded Python: a lock-free
  dictionary (\<open>AtomicDict\<close>), an atomic 64-bit integer (\<open>AtomicInt64\<close>), an atomic reference
  (\<open>AtomicRef\<close>), an event (\<open>AtomicEvent\<close>), and handles that stand for an object in one thread
  (\<open>ThreadHandle\<close>).  The sources are under \<^verbatim>\<open>src/src/cereggii\<close> and
  \<^verbatim>\<open>src/src/include/cereggii\<close>.  This theory imports the whole development.

  \<^bold>\<open>The dictionary.\<close>  Entries (a key, its hash and a value) live in pages of 128.  The index of a table is
  an array of \<open>2 ^ log_size\<close> words; a word packs the location of an entry, a tag of the hash and the
  distance from the slot of the hash (\<^verbatim>\<open>node_ops.c\<close>), and is found by linear probing.  A thread
  reserves entries in chunks and keeps the rest of a chunk in a buffer of its accessor storage
  (\<^verbatim>\<open>pages.c\<close>, \<^verbatim>\<open>accessor_storage.c\<close>).  An insertion fills a reserved entry and then publishes a
  node with a compare-and-exchange; an update exchanges the value of an entry (\<^verbatim>\<open>insert.c\<close>); a
  deletion takes the value out and leaves a tombstone in the index (\<^verbatim>\<open>delete.c\<close>).  When all pages of
  a table are in use, one thread leads a resize: it creates metadata with an index twice as large, and all
  threads that come along migrate blocks of the old index to it (\<^verbatim>\<open>resize.c\<close>, \<^verbatim>\<open>meta.c\<close>).  The
  length is a counter per accessor and a cached sum.

  \<^bold>\<open>The model.\<close>  A C structure is a record, an array that the code indexes by a word is a function on natural
  numbers, machine integers are words.  Every function returns its new state.  Code that raises returns an
  \<open>outcome\<close> (\<open>exn + 'a\<close>).  A result \<open>None\<close> of a function whose type is an option of
  the above has no counterpart in the code: it is a loop that does not end, a wait for another thread that
  never comes, or undefined behaviour (an access outside of an array or through a null pointer), so a
  theorem that the result is \<open>Some\<close> excludes them.  What the interpreter does (hashing and comparing
  keys, arithmetic on values, allocation) is an argument: the fields of \<open>pyenv\<close>, \<open>value_ops\<close>
  and the lists of outcomes of allocations.

  \<^bold>\<open>Theories and sources.\<close>
  \<^item> \<open>Prelude\<close>: machine integers, Python objects, exceptions, compare-and-exchange, and lemmas on
    words and cyclic positions.
  \<^item> \<open>Layout\<close>: the structures of \<^verbatim>\<open>internal/atomic_dict.h\<close> as records (\<open>entry\<close>,
    \<open>node\<close>, \<open>meta\<close>, \<open>storage\<close>, \<open>dict\<close>) and its constants.
  \<^item> \<open>NodeOps\<close>: \<^verbatim>\<open>node_ops.c\<close>; encoding and decoding of index words, what a tombstone is.
  \<^item> \<open>Pages\<close>: \<^verbatim>\<open>pages.c\<close> and the reservation buffer.  \<open>Alloc\<close>, \<open>AllocOps\<close>: which
    locations are available, the invariant \<open>alloc_ok\<close> of their reservation, and that every operation
    keeps it.
  \<^item> \<open>Index\<close>: the invariant \<open>wf_index\<close> of a table and the map \<open>table_map\<close> that it stands for;
    \<open>IndexUpdate\<close>: how a written node changes both.
  \<^item> \<open>Lookup\<close>, \<open>Insert\<close>, \<open>Delete\<close>: the operations of \<^verbatim>\<open>lookup.c\<close>,
    \<^verbatim>\<open>insert.c\<close> and \<^verbatim>\<open>delete.c\<close> on one table.  Before each atomic access other threads may
    change the shared state: the argument \<open>fs\<close> is the list of those changes.
  \<^item> \<open>TableSteps\<close>: the same operations as steps of concurrent threads, one access to the shared memory
    each (\<open>cas_step\<close>, \<open>lookup_step\<close>, \<open>delete_step\<close>), and the runs of any number of them;
    \<open>TableAccess\<close>: what an access does to a table and what a thread knows while others run;
    \<open>TableLinear\<close>: the history of a run, linearizability; \<open>TableProgress\<close>: when operations end;
    \<open>TableAlone\<close>: the steps and the functions of \<open>Lookup\<close>, \<open>Insert\<close> and \<open>Delete\<close> agree.
  \<^item> \<open>Migrate\<close>, \<open>MigrateBlocks\<close>: the functions of \<^verbatim>\<open>resize.c\<close> that move nodes;
    \<open>Participants\<close>: several threads in \<^verbatim>\<open>common_resize\<close> as a step relation;
    \<open>Resize\<close>: the protocol as one thread runs it, with \<^verbatim>\<open>meta.c\<close>; \<open>MigrateCount\<close>: the
    recount of a block that an assertion makes; \<open>FailedResize\<close>: what a resize that fails leaves behind.
  \<^item> \<open>Accessors\<close>: accessor storages, their locks and the length.  \<open>DictOps\<close>: compare-and-set,
    assignment, deletion and lookup as a thread runs them.  \<open>DictInit\<close>: \<^verbatim>\<open>AtomicDict_init\<close> and the
    inspection functions of \<^verbatim>\<open>atomic_dict.c\<close>; \<open>InitCorrect\<close>: what it makes of the initial items.
    \<open>Iter\<close>: \<^verbatim>\<open>iter.c\<close>.
  \<^item> \<open>DictCorrect\<close>, \<open>DictMap\<close>, \<open>DictRefinement\<close>: the invariant \<open>dict_ok\<close> of a
    dictionary between two operations, and that the dictionary refines a map; \<open>DictIter\<close>: the iterators
    yield that map.  \<open>Batch\<close>: the batch lookup of \<^verbatim>\<open>lookup.c\<close>.
  \<^item> \<open>ReduceTable\<close>: \<^verbatim>\<open>internal/reduce_table.h\<close>.  \<open>Reduce\<close>: \<^verbatim>\<open>flush_one\<close>,
    \<^verbatim>\<open>reduce_flush\<close> and \<^verbatim>\<open>AtomicDict_Reduce_impl\<close> of \<^verbatim>\<open>insert.c\<close>;
    \<open>ReduceFlush\<close> and \<open>ReduceCorrect\<close>: their correctness; \<open>ReduceSpecialized\<close>: the
    specialised reductions and the properties.
  \<^item> \<open>Cells\<close>, \<open>AtomicInt\<close>, \<open>AtomicIntOps\<close>: \<^verbatim>\<open>atomic_event.c\<close> and
    \<^verbatim>\<open>atomic_int.c\<close>.  \<open>PyCore\<close>, \<open>RefLoad\<close>, \<open>AtomicRef\<close>: the reference counts of
    \<^verbatim>\<open>internal/py_core.h\<close> and \<^verbatim>\<open>atomic_ref.c\<close>.  \<open>Constants\<close>: \<^verbatim>\<open>constants.c\<close>.
  \<^item> \<open>Handles\<close>: \<^verbatim>\<open>thread_handle.c\<close> and the \<open>get_handle\<close> methods, with the reference counts of the
    objects of the handles, the operators, and the table of the requests that are passed on.
  \<^item> \<open>TypeTables\<close>: the method, attribute and slot tables of \<^verbatim>\<open>cereggii.c\<close>, the prototypes of the
    functions in them from the headers, and \<^verbatim>\<open>PyInit__cereggii\<close>.

  \<^bold>\<open>What is shown.\<close>  Every operation on a table that satisfies its invariant ends, keeps the invariant and does to
  the map what the specification on maps says.  The compare-and-exchange loops end under any interference
  and take effect at one moment.  Operations of concurrent threads on one table, interleaved at every
  access, are linearizable with respect to its map, keep the invariant between any two accesses and never get
  stuck; a lookup is wait-free and every operation ends once its thread runs alone (\<open>8 * SIZE_OF m + 7\<close>
  accesses, the fuel of \<open>run_alone\<close>, are enough).  However the participants of a resize interleave, the barrier opens only
  when every node has been migrated once to a table with the same map, and some participant can always
  take a step.  An entry is handed out to one thread only.  Sequences of operations of any threads, one
  after the other, return what the specifications on maps return, errors included; the initialisation
  makes a dictionary with the map of its items; iteration, batch lookups and reductions are correct with
  respect to that map.  The object of a handle is never a handle and is
  alive; operators and requests see the object through its handles.  The functions in the tables of the types fit the
  calls of the interpreter but for the listed ones.  Some theorems state where the code does not do
  what it means to.

  \<^bold>\<open>Interfaces.\<close>  \<open>store\<close> is what programs rely on in a dictionary (interpreted as \<open>dict_store\<close>);
  \<open>aggregation\<close> and \<open>grouping\<close> are the laws of an aggregate function (interpreted for each
  specialised function).

  \<^bold>\<open>Bounds.\<close>  The theorems on tables are for \<open>log_size \<le> 30\<close>: the code computes the mask of an index as
  an \<^verbatim>\<open>int\<close>.  \<open>dict_ok py n d\<close> says that the table may double \<open>n\<close> more times within that bound; an
  operation needs at most two.  The local table of a reduction is for less than \<open>2 ^ 60\<close> keys.  The loops
  that may not end are partial functions, without fuel.

  \<^bold>\<open>Not modelled.\<close>  The weak memory order (accesses are sequentially consistent), the operations of a whole dictionary
  interleaved at the level of single accesses, with the reservation of entries and a resize among them (the
  interleavings are those of the operations on one table, whose entries have been reserved before, of the
  participants of a resize and of the flush), quiescent-state-based reclamation, reference counts in the
  dictionary, argument parsing, the operators of the objects that handles stand for, and the
  platform headers (\<^verbatim>\<open>c11threads.h\<close>, \<^verbatim>\<open>misc.h\<close>): they choose among the primitives of a platform and hold
  no logic of the program.
\<close>

end
